(* ===== verification/Prelude.thy ===== *)
theory Prelude
  imports Main "HOL-Library.Word"
begin

text \<open>
  What every component of the model shares: the machine integers of the code, the
  ways a call can fail to return, the sequencing of such calls, the C memory
  primitives on byte arrays (\<open>memcpy\<close>, \<open>memmove\<close>, reads of little-endian and of
  network-order integers), the answers of the operating system, and the generic
  lemmas on words and lists the component proofs use.
\<close>

section \<open>Machine integers and bytes\<close>

type_synonym u8 = "8 word"
type_synonym u16 = "16 word"
type_synonym u32 = "32 word"
type_synonym u64 = "64 word"
type_synonym bytes = "u8 list"

named_theorems mem_simps \<open>observers of memory blocks after each operation\<close>
named_theorems sm_simps \<open>one step of a registered state machine\<close>
named_theorems step_defs \<open>handlers to unfold in a case analysis of a step\<close>

text \<open>Sums and differences that do not wrap, read as natural numbers.\<close>

lemma unat_add_fits:
  "unat a + unat b < 2 ^ LENGTH('a::len) \<Longrightarrow> unat (a + b :: 'a word) = unat a + unat b"
  by (simp add: unat_plus_if')

lemma unat_sub_fits: "b \<le> a \<Longrightarrow> unat (a - b :: 'a::len word) = unat a - unat b"
  by (simp add: unat_sub_if' word_le_nat_alt)

lemma unat_u32_lt: "unat (a :: u32) < 4294967296"
  using unsigned_less [of a] by simp

lemma unat_u64_lt: "unat (a :: u64) < 18446744073709551616"
  using unsigned_less [of a] by simp

lemma unat_u16_lt: "unat (a :: u16) < 65536"
  using unsigned_less [of a] by simp

lemma unat_u8_lt: "unat (a :: u8) < 256"
  using unsigned_less [of a] by simp

lemma unat_word_of_nat_u64: "n < 18446744073709551616 \<Longrightarrow> unat (word_of_nat n :: u64) = n"
  by (simp add: unat_of_nat)

lemma unat_u32_u64: "unat (ucast (x :: u32) :: u64) = unat x"
proof -
  have "unat x < 2 ^ 64"
    using unat_u32_lt [of x] by simp
  then show ?thesis
    by (simp add: unsigned_ucast_eq take_bit_nat_eq_self)
qed

text \<open>Numbers in a window no wider than the modulus have different remainders.\<close>

lemma mod_window_inj:
  fixes B n q r :: nat
  assumes "q \<in> {B <.. B + n}" and "r \<in> {B <.. B + n}" and "q mod n = r mod n"
  shows "q = r"
proof -
  have "q = r" if "q \<le> r" "q \<in> {B <.. B + n}" "r \<in> {B <.. B + n}" "q mod n = r mod n" for q r :: nat
  proof -
    from that(1,4) have "n dvd r - q"
      by (metis mod_eq_dvd_iff_nat)
    moreover have "r - q < n"
      using that(2,3) by auto
    ultimately have "r - q = 0"
      using nat_dvd_not_less by blast
    then show ?thesis
      using that(1) by simp
  qed
  then show ?thesis
    using assms by (metis nat_le_linear)
qed

section \<open>Calls that do not return a value\<close>

text \<open>
  The build of the libraries leaves \<open>assert\<close> active, so a failed \<open>CMN_ASSERT\<close> ends the
  process. A null pointer that is dereferenced and an access outside an array end the
  modelled run as well. \<open>Awaiting_os\<close> marks a call that waits for a further answer of
  the operating system: the script of answers given to the model is used up.
\<close>

datatype halt = Assert_failed | Null_deref | Out_of_bounds | Awaiting_os

type_synonym 'a res = "halt + 'a"

fun bindr :: "'a res \<Rightarrow> ('a \<Rightarrow> 'b res) \<Rightarrow> 'b res" where
  "bindr (Inl e) f = Inl e"
| "bindr (Inr x) f = f x"

lemma bindr_Inr_iff: "bindr m f = Inr y \<longleftrightarrow> (\<exists>x. m = Inr x \<and> f x = Inr y)"
  by (cases m) auto

lemma bindr_InrE:
  assumes "bindr m f = Inr y"
  obtains x where "m = Inr x" and "f x = Inr y"
  using assms by (auto simp: bindr_Inr_iff)

lemma bindr_Inl_iff:
  "bindr m f = Inl e \<longleftrightarrow> m = Inl e \<or> (\<exists>x. m = Inr x \<and> f x = Inl e)"
  by (cases m) auto

lemma bindr_assoc: "bindr (bindr m f) g = bindr m (\<lambda>x. bindr (f x) g)"
  by (cases m) auto

lemma bindr_cong [fundef_cong]:
  "m = n \<Longrightarrow> (\<And>x. n = Inr x \<Longrightarrow> f x = g x) \<Longrightarrow> bindr m f = bindr n g"
  by (cases n) auto

text \<open>Element \<open>i\<close> of a vector, and the vector with element \<open>i\<close> assigned.\<close>

definition vec_get :: "'a list \<Rightarrow> nat \<Rightarrow> 'a res" where
  "vec_get v i = (if i < length v then Inr (v ! i) else Inl Out_of_bounds)"

definition vec_set :: "'a list \<Rightarrow> nat \<Rightarrow> 'a \<Rightarrow> 'a list res" where
  "vec_set v i x = (if i < length v then Inr (v[i := x]) else Inl Out_of_bounds)"

text \<open>Dereferencing a smart pointer that may be null.\<close>

definition deref :: "'a option \<Rightarrow> 'a res" where
  "deref p = (case p of None \<Rightarrow> Inl Null_deref | Some x \<Rightarrow> Inr x)"

lemma deref_simps [simp]:
  "deref None = Inl Null_deref"
  "deref (Some x) = Inr x"
  by (simp_all add: deref_def)

text \<open>\<open>CMN_ASSERT\<close>.\<close>

definition cmn_assert :: "bool \<Rightarrow> unit res" where
  "cmn_assert P = (if P then Inr () else Inl Assert_failed)"

lemma cmn_assert_simps [simp]:
  "cmn_assert True = Inr ()"
  "cmn_assert False = Inl Assert_failed"
  "cmn_assert P = Inr u \<longleftrightarrow> P"
  by (simp_all add: cmn_assert_def)

section \<open>Loops over a container\<close>

text \<open>
  A \<open>for\<close> loop with an iterator: the body runs once for every element, in order, on a world it
  may change; the loop ends when the body does not return.
\<close>

fun for_each :: "('a \<Rightarrow> 'w \<Rightarrow> 'w res) \<Rightarrow> 'a list \<Rightarrow> 'w \<Rightarrow> 'w res" where
  "for_each body [] w = Inr w"
| "for_each body (x # xs) w = bindr (body x w) (for_each body xs)"

lemma for_each_append:
  "for_each body (xs @ ys) w = bindr (for_each body xs w) (for_each body ys)"
  by (induction xs arbitrary: w) (simp_all add: bindr_assoc cong: bindr_cong)

text \<open>
  An invariant of the loop may mention the elements still to come. When every round either
  keeps it or halts in a tolerated way, the loop does.
\<close>

lemma for_each_inv:
  assumes "P xs w"
    and "\<And>x rest w. P (x # rest) w \<Longrightarrow>
      (case body x w of Inl f \<Rightarrow> may_halt f | Inr w' \<Rightarrow> P rest w')"
  shows "case for_each body xs w of Inl f \<Rightarrow> may_halt f | Inr w' \<Rightarrow> P [] w'"
  using assms(1)
proof (induction xs arbitrary: w)
  case Nil
  then show ?case by simp
next
  case (Cons x xs)
  show ?case
  proof (cases "body x w")
    case (Inl f)
    then show ?thesis
      using assms(2) [OF Cons.prems] by simp
  next
    case (Inr w')
    then show ?thesis
      using assms(2) [OF Cons.prems] Cons.IH [of w'] by simp
  qed
qed

section \<open>Byte arrays\<close>

text \<open>
  \<open>memcpy (dst + at, src, length src)\<close>: the write is confined to the array, anything else
  is a fault.
\<close>

definition write_at :: "nat \<Rightarrow> bytes \<Rightarrow> bytes \<Rightarrow> bytes res" where
  "write_at at src dst =
     (if at + length src \<le> length dst
      then Inr (take at dst @ src @ drop (at + length src) dst)
      else Inl Out_of_bounds)"

text \<open>Reading \<open>n\<close> bytes at a position.\<close>

definition read_at :: "nat \<Rightarrow> nat \<Rightarrow> bytes \<Rightarrow> bytes res" where
  "read_at at n src =
     (if at + n \<le> length src then Inr (take n (drop at src)) else Inl Out_of_bounds)"

lemma write_at_Inr:
  assumes "at + length src \<le> length dst"
  shows "write_at at src dst = Inr (take at dst @ src @ drop (at + length src) dst)"
  using assms by (simp add: write_at_def)

lemma write_at_length: "write_at at src dst = Inr dst' \<Longrightarrow> length dst' = length dst"
  by (auto simp: write_at_def split: if_splits)

lemma read_at_Inr: "at + n \<le> length src \<Longrightarrow> read_at at n src = Inr (take n (drop at src))"
  by (simp add: read_at_def)

lemma read_after_write:
  assumes "write_at at src dst = Inr dst'"
  shows "read_at at (length src) dst' = Inr src"
  using assms by (auto simp: write_at_def read_at_def split: if_splits)

lemma read_before_write:
  assumes "write_at at src dst = Inr dst'" and "p + n \<le> at"
  shows "read_at p n dst' = read_at p n dst"
proof -
  from assms(1) have fits: "at + length src \<le> length dst"
    and dst': "dst' = take at dst @ src @ drop (at + length src) dst"
    by (auto simp: write_at_def split: if_splits)
  have "take n (drop p dst') = take n (drop p (take at dst))"
    using assms(2) fits dst' by simp
  also have "\<dots> = take n (drop p dst)"
    using assms(2) by (simp add: drop_take min_def)
  finally show ?thesis
    using write_at_length [OF assms(1)] by (simp add: read_at_def)
qed

text \<open>A window of an array after a write right behind it.\<close>

lemma window_append:
  assumes "i + n + length d \<le> length bs"
  shows "take (n + length d) (drop i (take (i + n) bs @ d @ rest)) = take n (drop i bs) @ d"
proof -
  have "drop i (take (i + n) bs) = take n (drop i bs)"
    by (simp add: drop_take)
  then show ?thesis
    using assms by simp
qed

subsection \<open>Integers in memory\<close>

text \<open>
  The structures of the protocols are overlaid on the byte arrays by pointer casts. The
  modelled platform is the one of the build (x86-64 Linux): integers lie in memory least
  significant byte first, and \<open>htons\<close> and \<open>htonl\<close> reverse their bytes.
\<close>

fun le_bytes :: "nat \<Rightarrow> nat \<Rightarrow> bytes" where
  "le_bytes 0 x = []"
| "le_bytes (Suc n) x = word_of_nat (x mod 256) # le_bytes n (x div 256)"

fun le_nat :: "bytes \<Rightarrow> nat" where
  "le_nat [] = 0"
| "le_nat (b # bs) = unat b + 256 * le_nat bs"

lemma length_le_bytes [simp]: "length (le_bytes n x) = n"
  by (induction n x rule: le_bytes.induct) auto

lemma unat_byte: "unat (word_of_nat (x mod 256) :: u8) = x mod 256"
  by (simp add: unat_of_nat)

lemma le_nat_le_bytes: "le_nat (le_bytes n x) = x mod 256 ^ n"
proof (induction n x rule: le_bytes.induct)
  case (1 x)
  then show ?case by simp
next
  case (2 n x)
  have "le_nat (le_bytes (Suc n) x) = x mod 256 + 256 * (x div 256 mod 256 ^ n)"
    using "2.IH" by (simp add: unat_byte)
  also have "\<dots> = x mod 256 ^ Suc n"
    by (simp add: mod_mult2_eq)
  finally show ?case .
qed

lemma le_nat_bound: "le_nat bs < 256 ^ length bs"
proof (induction bs)
  case Nil
  then show ?case by simp
next
  case (Cons b bs)
  have "unat b < 256"
    using unsigned_less [of b] by simp
  moreover have "Suc (le_nat bs) \<le> 256 ^ length bs"
    using Cons.IH by simp
  then have "256 * Suc (le_nat bs) \<le> 256 * 256 ^ length bs"
    by (rule mult_le_mono2)
  ultimately show ?case by simp
qed

section \<open>The operating system\<close>

text \<open>
  A system call is answered by a value or by an error number; the ones the code tells apart
  have names. The number of bytes a \<open>send\<close> accepted, the bytes a \<open>recv\<close> delivered, a
  descriptor: all are the \<open>Os_ok\<close> value of their call.
\<close>

datatype errno = EWOULDBLOCK | EINTR | EINPROGRESS | EOTHER

datatype 'a os_ret = Os_ok 'a | Os_fail errno

definition INVALID_SOCKET :: int where [simp]: "INVALID_SOCKET = -1"

text \<open>The value a call returns when it has a descriptor or an error as its answer.\<close>

fun os_int :: "int os_ret \<Rightarrow> int" where
  "os_int (Os_ok n) = n"
| "os_int (Os_fail e) = -1"

text \<open>\<open>htons\<close>, \<open>ntohs\<close>, \<open>htonl\<close> and \<open>ntohl\<close> on a little-endian machine.\<close>

definition htons :: "u16 \<Rightarrow> u16" where
  "htons x = word_of_nat (le_nat (rev (le_bytes 2 (unat x))))"

definition htonl :: "u32 \<Rightarrow> u32" where
  "htonl x = word_of_nat (le_nat (rev (le_bytes 4 (unat x))))"

text \<open>Reversing the bytes twice gives the number back.\<close>

lemma le_bytes_le_nat: "length bs = n \<Longrightarrow> le_bytes n (le_nat bs) = bs"
proof (induction bs arbitrary: n)
  case Nil
  then show ?case by simp
next
  case (Cons b bs)
  have "unat b < 256"
    using unsigned_less [of b] by simp
  then show ?case
    using Cons by auto
qed

lemma swap_bytes_twice:
  assumes "x < 256 ^ n"
  shows "le_nat (rev (le_bytes n (le_nat (rev (le_bytes n x))))) = x"
proof -
  have "le_bytes n (le_nat (rev (le_bytes n x))) = rev (le_bytes n x)"
    by (rule le_bytes_le_nat) simp
  then show ?thesis
    using assms by (simp add: le_nat_le_bytes)
qed

lemma htonl_htonl [simp]: "htonl (htonl x) = x"
proof -
  have "le_nat (rev (le_bytes 4 (unat x))) < 4294967296"
    using le_nat_bound [of "rev (le_bytes 4 (unat x))"] by simp
  then have "unat (htonl x) = le_nat (rev (le_bytes 4 (unat x)))"
    unfolding htonl_def by (simp add: unat_of_nat take_bit_eq_mod)
  then show ?thesis
    using swap_bytes_twice [of "unat x" 4] unat_u32_lt [of x] by (simp add: htonl_def)
qed

lemma htons_htons [simp]: "htons (htons x) = x"
proof -
  have "le_nat (rev (le_bytes 2 (unat x))) < 65536"
    using le_nat_bound [of "rev (le_bytes 2 (unat x))"] by simp
  then have "unat (htons x) = le_nat (rev (le_bytes 2 (unat x)))"
    unfolding htons_def by (simp add: unat_of_nat take_bit_eq_mod)
  then show ?thesis
    using swap_bytes_twice [of "unat x" 2] unat_u16_lt [of x] by (simp add: htons_def)
qed

end
