(* ===== verification/ErrInfo.thy ===== *)
theory ErrInfo
  imports Prelude
begin

text \<open>
  The error codes of \<open>libcomm_utils/src/common/err_info.h\<close> and the texts that
  \<open>err_info.cpp\<close> keeps for them. A code is the \<open>int32_t\<close> a function returns; the model
  reads it as an integer, and the callers compare it with \<open>CMNERR_SUC\<close> or with zero.
\<close>

section \<open>The codes\<close>

definition CMNERR_SUC :: int where [simp]: "CMNERR_SUC = 0"
definition CMNERR_BEGINNING :: int where [simp]: "CMNERR_BEGINNING = -10000"
definition CMNERR_INVALID_PARAMS :: int where [simp]: "CMNERR_INVALID_PARAMS = -9999"
definition CMNERR_NO_MATCH_ITEM :: int where [simp]: "CMNERR_NO_MATCH_ITEM = -9998"
definition CMNERR_CALL_SYS_FUN_FAILED :: int where [simp]: "CMNERR_CALL_SYS_FUN_FAILED = -9997"
definition CMNERR_COMMON_ERR :: int where [simp]: "CMNERR_COMMON_ERR = -9996"
definition CMNERR_FATAL_ERR :: int where [simp]: "CMNERR_FATAL_ERR = -9995"
definition CMNERR_IO_ERR :: int where [simp]: "CMNERR_IO_ERR = -9994"
definition CMNERR_SEND_PENDING :: int where [simp]: "CMNERR_SEND_PENDING = -9993"
definition CMNERR_RECV_PENDING :: int where [simp]: "CMNERR_RECV_PENDING = -9992"
definition CMNERR_INCOMPLETED_PKG :: int where [simp]: "CMNERR_INCOMPLETED_PKG = -9991"
definition CMNERR_UNKNOWN_PKG :: int where [simp]: "CMNERR_UNKNOWN_PKG = -9990"
definition CMNERR_NOT_IMPL :: int where [simp]: "CMNERR_NOT_IMPL = -9989"
definition CMNERR_NO_DATA :: int where [simp]: "CMNERR_NO_DATA = -9988"
definition CMNERR_NO_SPACE :: int where [simp]: "CMNERR_NO_SPACE = -9987"
definition CMNERR_CREAT_SOCK_FAILED :: int where [simp]: "CMNERR_CREAT_SOCK_FAILED = -9986"
definition CMNERR_IN_PROGRESS :: int where [simp]: "CMNERR_IN_PROGRESS = -9985"
definition CMNERR_ODATA_READY :: int where [simp]: "CMNERR_ODATA_READY = -9984"

text \<open>The codes in the order in which the header declares them.\<close>

definition declared_codes :: "int list" where
  "declared_codes =
     [CMNERR_SUC, CMNERR_INVALID_PARAMS, CMNERR_NO_MATCH_ITEM, CMNERR_CALL_SYS_FUN_FAILED,
      CMNERR_COMMON_ERR, CMNERR_FATAL_ERR, CMNERR_IO_ERR, CMNERR_SEND_PENDING,
      CMNERR_RECV_PENDING, CMNERR_INCOMPLETED_PKG, CMNERR_UNKNOWN_PKG, CMNERR_NOT_IMPL,
      CMNERR_NO_DATA, CMNERR_NO_SPACE, CMNERR_CREAT_SOCK_FAILED, CMNERR_IN_PROGRESS,
      CMNERR_ODATA_READY]"

lemma declared_codes_distinct: "distinct declared_codes"
  by (simp add: declared_codes_def)

section \<open>The texts\<close>

text \<open>
  The initialiser of \<open>arrCmnErrInfo\<close> has no comma after its first and its fourth string, so
  the compiler joins each of them with the string that follows: six literals make an array
  of four.
\<close>

definition arrCmnErrInfo :: "string list" where
  "arrCmnErrInfo =
     [''no error, successful'' @ ''invalid parameters'',
      ''no matched iterm'',
      ''call system function failed'' @ ''common error'',
      ''fatal error'']"

definition get_cmn_err_info :: "int \<Rightarrow> string res" where
  "get_cmn_err_info i32ErrCode =
     (if \<not> (CMNERR_BEGINNING < i32ErrCode \<or> CMNERR_SUC = i32ErrCode) then Inl Assert_failed
      else let i = (if CMNERR_SUC = i32ErrCode then i32ErrCode
                    else i32ErrCode - CMNERR_BEGINNING - 1)
           in if 0 \<le> i \<and> nat i < length arrCmnErrInfo then Inr (arrCmnErrInfo ! nat i)
              else Inl Out_of_bounds)"

lemma length_arrCmnErrInfo: "length arrCmnErrInfo = 4"
  by (simp add: arrCmnErrInfo_def)

text \<open>\<open>get_cmn_err_info\<close> answers only for success and for the first four error codes of the
  header; every other code either fails the assertion or indexes past the array. Because of
  the two joined initialisers the texts are shifted: an invalid parameter has the text of
  success, and the common error has the text of the fatal error.\<close>

theorem err_info_texts:
  "((\<exists>t. get_cmn_err_info c = Inr t) \<longleftrightarrow> c = CMNERR_SUC \<or> c \<in> {CMNERR_INVALID_PARAMS .. CMNERR_COMMON_ERR}) \<and>
   get_cmn_err_info CMNERR_INVALID_PARAMS = get_cmn_err_info CMNERR_SUC \<and>
   get_cmn_err_info CMNERR_COMMON_ERR = Inr ''fatal error'' \<and>
   get_cmn_err_info CMNERR_FATAL_ERR = Inl Out_of_bounds"
proof -
  have "(\<exists>t. get_cmn_err_info c = Inr t) \<longleftrightarrow> c = CMNERR_SUC \<or> c \<in> {CMNERR_INVALID_PARAMS .. CMNERR_COMMON_ERR}"
    by (auto simp: get_cmn_err_info_def length_arrCmnErrInfo Let_def)
  then show ?thesis
    by (simp add: get_cmn_err_info_def arrCmnErrInfo_def numeral_3_eq_3)
qed

end
