(* ===== verification/IoObj.thy ===== *)
theory IoObj
  imports ErrInfo
begin

text \<open>
  \<open>IIoObj\<close> of \<open>libsmart_net/src/framework/sn_io_obj.h\<close>: what the framework keeps in every object
  it watches, namely the events it waits for and the task it was given to, once for input and
  once for output. The virtual functions of the class are the endpoints' (\<open>RupEndpoint\<close>,
  \<open>RmpEndpoint\<close>); the notifier calls them through \<open>io_objs\<close> of \<open>Epoll\<close>.
\<close>

definition EIT_INPUT_TYPE :: int where [simp]: "EIT_INPUT_TYPE = 0"
definition EIT_OUTPUT_TYPE :: int where [simp]: "EIT_OUTPUT_TYPE = 1"

record IIoObj =
  m_i32InputTaskId :: int
  m_i32OutputTaskId :: int
  m_ui32InputEvt :: u32
  m_ui32OutputEvt :: u32

definition new_io_obj :: IIoObj where
  "new_io_obj = \<lparr>m_i32InputTaskId = 0, m_i32OutputTaskId = 0, m_ui32InputEvt = 0, m_ui32OutputEvt = 0\<rparr>"

definition set_io_evt :: "int \<Rightarrow> u32 \<Rightarrow> IIoObj \<Rightarrow> IIoObj res" where
  "set_io_evt i32IoType ui32IoEvt t =
     (if i32IoType = EIT_INPUT_TYPE then Inr (t\<lparr>m_ui32InputEvt := ui32IoEvt\<rparr>)
      else if i32IoType = EIT_OUTPUT_TYPE then Inr (t\<lparr>m_ui32OutputEvt := ui32IoEvt\<rparr>)
      else Inl Assert_failed)"

definition get_io_evt :: "int \<Rightarrow> IIoObj \<Rightarrow> u32 res" where
  "get_io_evt i32IoType t =
     (if i32IoType = EIT_INPUT_TYPE then Inr (m_ui32InputEvt t)
      else if i32IoType = EIT_OUTPUT_TYPE then Inr (m_ui32OutputEvt t)
      else Inl Assert_failed)"

definition set_task_id :: "int \<Rightarrow> int \<Rightarrow> IIoObj \<Rightarrow> IIoObj res" where
  "set_task_id i32IoType i32TaskId t =
     (if i32IoType = EIT_INPUT_TYPE then Inr (t\<lparr>m_i32InputTaskId := i32TaskId\<rparr>)
      else if i32IoType = EIT_OUTPUT_TYPE then Inr (t\<lparr>m_i32OutputTaskId := i32TaskId\<rparr>)
      else Inl Assert_failed)"

definition get_task_id :: "int \<Rightarrow> IIoObj \<Rightarrow> int res" where
  "get_task_id i32IoType t =
     (if i32IoType = EIT_INPUT_TYPE then Inr (m_i32InputTaskId t)
      else if i32IoType = EIT_OUTPUT_TYPE then Inr (m_i32OutputTaskId t)
      else Inl Assert_failed)"

text \<open>What was set is read back, and the task of one type does not disturb that of the other.\<close>

lemma get_set_task_id:
  "set_task_id ty n t = Inr t' \<Longrightarrow> get_task_id ty t' = Inr n"
  "set_task_id ty n t = Inr t' \<Longrightarrow> ty' \<noteq> ty \<Longrightarrow> get_task_id ty' t' = get_task_id ty' t"
  "set_task_id ty n t = Inr t' \<Longrightarrow> get_io_evt ty' t' = get_io_evt ty' t"
  by (auto simp: set_task_id_def get_task_id_def get_io_evt_def split: if_splits)

lemma get_set_io_evt:
  "set_io_evt ty e t = Inr t' \<Longrightarrow> get_io_evt ty t' = Inr e"
  "set_io_evt ty e t = Inr t' \<Longrightarrow> ty' \<noteq> ty \<Longrightarrow> get_io_evt ty' t' = get_io_evt ty' t"
  "set_io_evt ty e t = Inr t' \<Longrightarrow> get_task_id ty' t' = get_task_id ty' t"
  by (auto simp: set_io_evt_def get_task_id_def get_io_evt_def split: if_splits)

end
