(* ===== verification/Caches.thy ===== *)
theory Caches
  imports Prelude
begin

text \<open>
  What the two notifiers of the framework (\<open>CEpoll\<close> in \<open>Epoll\<close>, \<open>CTimeNotifier\<close> in \<open>Timer\<close>)
  have in common: a set of members that only the notifier's own thread changes, and two caches
  in which others leave what is to be added and to be deleted. This theory states how the set
  and the caches correspond to where each object stands, and what an object may ask for.
\<close>

record caches =
  members :: "nat set"
  to_add :: "nat list"
  to_del :: "nat list"

text \<open>Where an object stands with a notifier.\<close>

datatype io_phase = Out | Adding | Inside | Deling

text \<open>
  The set and the caches agree with the phases; \<open>dels\<close> and \<open>adds\<close> are the objects that were
  taken out of the caches and are not yet handled.
\<close>

definition linked :: "caches \<Rightarrow> (nat \<Rightarrow> io_phase) \<Rightarrow> nat list \<Rightarrow> nat list \<Rightarrow> bool" where
  "linked t ph dels adds \<longleftrightarrow>
     distinct (dels @ to_del t) \<and> distinct (adds @ to_add t) \<and>
     set (dels @ to_del t) = {p. ph p = Deling} \<and>
     set (adds @ to_add t) = {p. ph p = Adding} \<and>
     members t = {p. ph p = Inside \<or> ph p = Deling}"

text \<open>
  What the objects may ask for meanwhile: an object that is out is added, one that is inside is
  deleted, each once.
\<close>

definition requested :: "caches \<Rightarrow> (nat \<Rightarrow> io_phase) \<Rightarrow> caches \<Rightarrow> (nat \<Rightarrow> io_phase) \<Rightarrow> bool" where
  "requested t ph t' ph' \<longleftrightarrow>
     (\<exists>A D. t' = t\<lparr>to_add := to_add t @ A,
                    to_del := to_del t @ D\<rparr> \<and>
        distinct A \<and> distinct D \<and> (\<forall>p \<in> set A. ph p = Out) \<and> (\<forall>p \<in> set D. ph p = Inside) \<and>
        (\<forall>p. ph' p = (if p \<in> set A then Adding else if p \<in> set D then Deling else ph p)))"

lemma requestedI:
  assumes "t' = t\<lparr>to_add := to_add t @ A,
      to_del := to_del t @ D\<rparr>"
    and "distinct A" and "distinct D" and "\<And>p. p \<in> set A \<Longrightarrow> ph p = Out" and "\<And>p. p \<in> set D \<Longrightarrow> ph p = Inside"
    and "\<And>p. ph' p = (if p \<in> set A then Adding else if p \<in> set D then Deling else ph p)"
  shows "requested t ph t' ph'"
  unfolding requested_def using assms by blast

lemma requested_none: "requested t ph t ph"
  by (rule requestedI [where A = "[]" and D = "[]"]) auto

lemma requested_add:
  "ph p = Out \<Longrightarrow>
   requested t ph (t\<lparr>to_add := to_add t @ [p]\<rparr>) (ph(p := Adding))"
  by (rule requestedI [where A = "[p]" and D = "[]"]) auto

lemma requested_del:
  "ph p = Inside \<Longrightarrow>
   requested t ph (t\<lparr>to_del := to_del t @ [p]\<rparr>) (ph(p := Deling))"
  by (rule requestedI [where A = "[]" and D = "[p]"]) auto

lemma requested_linked:
  assumes "requested t ph t' ph'" and "linked t ph dels adds"
  shows "linked t' ph' dels adds"
proof -
  obtain A D where t': "t' = t\<lparr>to_add := to_add t @ A,
      to_del := to_del t @ D\<rparr>" and dist: "distinct A" "distinct D"
    and A: "\<forall>p \<in> set A. ph p = Out" and D: "\<forall>p \<in> set D. ph p = Inside"
    and ph': "\<forall>p. ph' p = (if p \<in> set A then Adding else if p \<in> set D then Deling else ph p)"
    using assms(1) unfolding requested_def by blast
  have disj: "set A \<inter> set D = {}"
    using A D by fastforce
  have "{p. ph' p = Deling} = {p. ph p = Deling} \<union> set D"
    using ph' A disj by auto
  moreover have "{p. ph' p = Adding} = {p. ph p = Adding} \<union> set A"
    using ph' D by auto
  moreover have "{p. ph' p = Inside \<or> ph' p = Deling} = {p. ph p = Inside \<or> ph p = Deling}"
    using ph' A D by auto
  moreover have "set A \<inter> {p. ph p = Adding} = {}" "set D \<inter> {p. ph p = Deling} = {}"
    using A D by auto
  ultimately show ?thesis
    using assms(2) t' dist by (auto simp: linked_def)
qed

lemma requested_keeps:
  assumes "requested t ph t' ph'"
  shows "members t' = members t"
    and "ph p = Adding \<Longrightarrow> ph' p = Adding"
    and "ph p = Inside \<or> ph p = Deling \<Longrightarrow> ph' p = Inside \<or> ph' p = Deling"
proof -
  obtain A D where t': "t' = t\<lparr>to_add := to_add t @ A,
      to_del := to_del t @ D\<rparr>"
    and A: "\<forall>p \<in> set A. ph p = Out" and D: "\<forall>p \<in> set D. ph p = Inside"
    and ph': "\<forall>p. ph' p = (if p \<in> set A then Adding else if p \<in> set D then Deling else ph p)"
    using assms(1) unfolding requested_def by blast
  show "members t' = members t"
    using t' by simp
  show "ph p = Adding \<Longrightarrow> ph' p = Adding"
    using ph' D by auto
  show "ph p = Inside \<or> ph p = Deling \<Longrightarrow> ph' p = Inside \<or> ph' p = Deling"
    using ph' A by auto
qed

lemma linked_del_head:
  assumes "linked t ph (p # ds) adds"
  shows "ph p = Deling" and "p \<notin> set ds" and "p \<notin> set (to_del t)" and "p \<in> members t"
proof -
  have "p \<in> {p. ph p = Deling}"
    using assms unfolding linked_def by (metis append_Cons list.set_intros(1))
  then show "ph p = Deling" "p \<in> members t"
    using assms by (simp_all add: linked_def)
  show "p \<notin> set ds" "p \<notin> set (to_del t)"
    using assms by (simp_all add: linked_def)
qed

lemma linked_add_head:
  assumes "linked t ph dels (p # ps)"
  shows "ph p = Adding" and "p \<notin> set ps" and "p \<notin> set (to_add t)" and "p \<notin> members t"
proof -
  have "p \<in> {p. ph p = Adding}"
    using assms unfolding linked_def by (metis append_Cons list.set_intros(1))
  then show "ph p = Adding" "p \<notin> members t"
    using assms by (simp_all add: linked_def)
  show "p \<notin> set ps" "p \<notin> set (to_add t)"
    using assms by (simp_all add: linked_def)
qed

end
