(* ===== verification/Epoll.thy ===== *)
theory Epoll
  imports IoObj Caches
begin

unbundle bit_operations_syntax

text \<open>
  \<open>CEpoll\<close> of \<open>libsmart_net/src/framework/sn_io_evt_notifier_impl.h\<close> and \<open>.cpp\<close>: the set of
  objects one thread watches. Other threads only append to two caches, of objects to add and of
  objects to delete; the thread's own \<open>exec\<close> takes the caches over, tells every object what
  became of it, waits for events and hands them on. An object is known by a number, its
  pointer. What the code gets by calling an object's virtual functions, and where the notifier
  itself lies in the world those functions act on, is the record \<open>io_objs\<close>; the answers of the
  kernel are arguments.
\<close>

section \<open>State\<close>

definition EPOLLIN :: u32 where [simp]: "EPOLLIN = 1"
definition EPOLLOUT :: u32 where [simp]: "EPOLLOUT = 4"
definition EPOLLERR :: u32 where [simp]: "EPOLLERR = 8"
definition EPOLLHUP :: u32 where [simp]: "EPOLLHUP = 16"

record CEpoll =
  m_i32epfd :: int
  m_i32IoType :: int
  m_i32MsTimeout :: int
  m_setIoObjs :: "nat set"
  m_vecIoObjsAddCache :: "nat list"
  m_vecIoObjsDelCache :: "nat list"

definition new_epoll :: CEpoll where
  "new_epoll = \<lparr>m_i32epfd = -1, m_i32IoType = 0, m_i32MsTimeout = 0, m_setIoObjs = {},
     m_vecIoObjsAddCache = [], m_vecIoObjsDelCache = []\<rparr>"

definition EIEN_NONE :: int where [simp]: "EIEN_NONE = 0"
definition EIEN_SELECT :: int where [simp]: "EIEN_SELECT = 1"
definition EIEN_EPOLL :: int where [simp]: "EIEN_EPOLL = 2"
definition EIEN_ALL :: int where [simp]: "EIEN_ALL = 3"

text \<open>The factory knows one mechanism; the one with \<open>select\<close> is compiled out.\<close>

definition create_obj :: "int \<Rightarrow> CEpoll option" where
  "create_obj i32IoEvtNotifier =
     (if EIEN_ALL \<le> i32IoEvtNotifier \<or> EIEN_NONE \<ge> i32IoEvtNotifier then None
      else if i32IoEvtNotifier = EIEN_EPOLL then Some new_epoll
      else None)"

text \<open>\<open>epoll\<close> is the kernel's answer to \<open>epoll_create\<close>.\<close>

definition epoll_init :: "int \<Rightarrow> int \<Rightarrow> int os_ret \<Rightarrow> CEpoll \<Rightarrow> (int \<times> CEpoll) res" where
  "epoll_init i32IoTaskType i32MsTimeout epoll t =
     bindr (cmn_assert (-1 = m_i32epfd t)) (\<lambda>_.
     bindr (cmn_assert (m_vecIoObjsAddCache t = [])) (\<lambda>_.
     bindr (cmn_assert (m_vecIoObjsDelCache t = [])) (\<lambda>_.
     bindr (cmn_assert (m_setIoObjs t = {})) (\<lambda>_.
     Inr (if os_int epoll < 0 then CMNERR_COMMON_ERR else CMNERR_SUC,
          t\<lparr>m_i32IoType := i32IoTaskType, m_i32MsTimeout := i32MsTimeout, m_i32epfd := os_int epoll\<rparr>)))))"

text \<open>It returns an error though nothing has failed, and keeps its descriptor.\<close>

definition epoll_destroy :: "CEpoll \<Rightarrow> (int \<times> CEpoll) res" where
  "epoll_destroy t =
     bindr (cmn_assert (0 \<le> m_i32epfd t)) (\<lambda>_.
     Inr (CMNERR_COMMON_ERR, t\<lparr>m_vecIoObjsAddCache := [], m_vecIoObjsDelCache := [], m_setIoObjs := {}\<rparr>))"

text \<open>The sizes are added as \<open>size_t\<close> and cut to 32 bits; the low 32 bits are the same.\<close>

definition epoll_get_ioobj_cnt :: "CEpoll \<Rightarrow> u32" where
  "epoll_get_ioobj_cnt t =
     word_of_nat (card (m_setIoObjs t)) + word_of_nat (length (m_vecIoObjsAddCache t)) -
     word_of_nat (length (m_vecIoObjsDelCache t))"

section \<open>Adding and deleting\<close>

text \<open>\<open>objs\<close> gives the framework's part of every object; a pointer may be null.\<close>

definition epoll_add_ioobj :: "(nat \<Rightarrow> IIoObj) \<Rightarrow> nat option \<Rightarrow> CEpoll \<Rightarrow> (int \<times> CEpoll) res" where
  "epoll_add_ioobj objs pIoObj t =
     (case pIoObj of
        None \<Rightarrow> Inl Assert_failed
      | Some p \<Rightarrow>
          bindr (get_io_evt (m_i32IoType t) (objs p)) (\<lambda>evt.
          if 0 = evt then Inr (CMNERR_SUC, t)
          else Inr (CMNERR_SUC, t\<lparr>m_vecIoObjsAddCache := m_vecIoObjsAddCache t @ [p]\<rparr>)))"

definition epoll_del_ioobj :: "(nat \<Rightarrow> IIoObj) \<Rightarrow> nat option \<Rightarrow> CEpoll \<Rightarrow> (int \<times> CEpoll) res" where
  "epoll_del_ioobj objs pIoObj t =
     (case pIoObj of
        None \<Rightarrow> Inl Assert_failed
      | Some p \<Rightarrow>
          bindr (get_io_evt (m_i32IoType t) (objs p)) (\<lambda>evt.
          if 0 = evt then Inr (CMNERR_SUC, t)
          else Inr (CMNERR_SUC, t\<lparr>m_vecIoObjsDelCache := m_vecIoObjsDelCache t @ [p]\<rparr>)))"

section \<open>One round of the thread\<close>

datatype io_call =
    Input_evt
  | Output_evt
  | Io_error int
  | Added_into_io_task int int
  | Deled_from_io_task int

text \<open>
  The objects as the notifier sees them: \<open>the_epoll\<close> and \<open>set_epoll\<close> find the notifier in the
  world, the other fields are the functions of the object at a pointer.
\<close>

record 'w io_objs =
  the_epoll :: "'w \<Rightarrow> CEpoll"
  set_epoll :: "CEpoll \<Rightarrow> 'w \<Rightarrow> 'w"
  obj_of :: "nat \<Rightarrow> 'w \<Rightarrow> IIoObj"
  handle_of :: "nat \<Rightarrow> 'w \<Rightarrow> int res"
  callback :: "io_call \<Rightarrow> nat \<Rightarrow> 'w \<Rightarrow> 'w res"

text \<open>
  The object's descriptor decides whether the kernel is told; its answer is not looked at. The
  object has to be in the set.
\<close>

definition del_round :: "'w io_objs \<Rightarrow> nat \<Rightarrow> 'w \<Rightarrow> 'w res" where
  "del_round V p w =
     bindr (handle_of V p w) (\<lambda>i32Handle.
     let t = the_epoll V w in
     bindr (cmn_assert (p \<in> m_setIoObjs t)) (\<lambda>_.
     callback V (Deled_from_io_task (m_i32IoType t)) p
       (set_epoll V (t\<lparr>m_setIoObjs := m_setIoObjs t - {p}\<rparr>) w)))"

text \<open>\<open>ctl\<close> are the kernel's answers to \<open>epoll_ctl\<close>, by descriptor and events, one for each call.\<close>

type_synonym ctl = "int \<Rightarrow> u32 \<Rightarrow> int"

definition add_round :: "'w io_objs \<Rightarrow> nat \<Rightarrow> ctl list \<times> 'w \<Rightarrow> (ctl list \<times> 'w) res" where
  "add_round V p s =
     (case s of (ctls, w) \<Rightarrow>
     bindr (get_io_evt (m_i32IoType (the_epoll V w)) (obj_of V p w)) (\<lambda>ui32Events.
     bindr (handle_of V p w) (\<lambda>i32Handle.
     case ctls of
       [] \<Rightarrow> Inl Awaiting_os
     | ctl # ctls \<Rightarrow>
         let i32Ret = ctl i32Handle ui32Events; t = the_epoll V w in
         bindr (if i32Ret = 0
                then bindr (cmn_assert (p \<notin> m_setIoObjs t)) (\<lambda>_.
                     Inr (set_epoll V (t\<lparr>m_setIoObjs := insert p (m_setIoObjs t)\<rparr>) w))
                else Inr w) (\<lambda>w.
         bindr (callback V (Added_into_io_task (m_i32IoType t) i32Ret) p w) (\<lambda>w. Inr (ctls, w))))))"

definition del_phase :: "'w io_objs \<Rightarrow> 'w \<Rightarrow> 'w res" where
  "del_phase V w =
     (let t = the_epoll V w; vecTmp = m_vecIoObjsDelCache t in
      if vecTmp \<noteq> []
      then for_each (del_round V) vecTmp (set_epoll V (t\<lparr>m_vecIoObjsDelCache := []\<rparr>) w)
      else Inr w)"

definition add_phase :: "'w io_objs \<Rightarrow> ctl list \<Rightarrow> 'w \<Rightarrow> (ctl list \<times> 'w) res" where
  "add_phase V ctls w =
     (let t = the_epoll V w; vecTmp = m_vecIoObjsAddCache t in
      if vecTmp \<noteq> []
      then for_each (add_round V) vecTmp (ctls, set_epoll V (t\<lparr>m_vecIoObjsAddCache := []\<rparr>) w)
      else Inr (ctls, w))"

text \<open>What an event is for its object.\<close>

definition io_call_of :: "u32 \<Rightarrow> io_call option" where
  "io_call_of ui32Evts =
     (if ui32Evts AND EPOLLERR \<noteq> 0 \<or> ui32Evts AND EPOLLHUP \<noteq> 0 then Some (Io_error CMNERR_IO_ERR)
      else if ui32Evts AND EPOLLIN \<noteq> 0 then Some Input_evt
      else if ui32Evts AND EPOLLOUT \<noteq> 0 then Some Output_evt
      else None)"

definition evt_round :: "'w io_objs \<Rightarrow> nat \<times> u32 \<Rightarrow> 'w \<Rightarrow> 'w res" where
  "evt_round V e w =
     (case io_call_of (snd e) of
        None \<Rightarrow> Inl Assert_failed
      | Some c \<Rightarrow> callback V c (fst e) w)"

text \<open>
  \<open>wait\<close> is the kernel's answer to \<open>epoll_wait\<close>, the ready objects with their events; it knows
  which objects were registered.
\<close>

type_synonym wait = "nat set \<Rightarrow> (nat \<times> u32) list os_ret"

definition epoll_exec :: "'w io_objs \<Rightarrow> ctl list \<Rightarrow> wait \<Rightarrow> 'w \<Rightarrow> (int \<times> 'w) res" where
  "epoll_exec V ctls wait w =
     bindr (del_phase V w) (\<lambda>w.
     bindr (add_phase V ctls w) (\<lambda>(ctls, w).
     case wait (m_setIoObjs (the_epoll V w)) of
       Os_fail e \<Rightarrow> if e = EINTR then Inr (CMNERR_SUC, w) else Inl Assert_failed
     | Os_ok arrEvts \<Rightarrow> bindr (for_each (evt_round V) arrEvts w) (\<lambda>w. Inr (CMNERR_SUC, w))))"

section \<open>Objects and their notifier\<close>

definition caches_of :: "CEpoll \<Rightarrow> caches" where
  [simp]: "caches_of t =
     \<lparr>members = m_setIoObjs t, to_add = m_vecIoObjsAddCache t, to_del = m_vecIoObjsDelCache t\<rparr>"

text \<open>The answers of the kernel: an open descriptor is added, only registered objects have events.\<close>

definition ctl_ok :: "ctl list \<Rightarrow> bool" where
  "ctl_ok ctls \<longleftrightarrow> (\<forall>ctl \<in> set ctls. \<forall>h e. 0 \<le> h \<longrightarrow> ctl h e = 0)"

definition wait_ok :: "wait \<Rightarrow> bool" where
  "wait_ok wait \<longleftrightarrow>
     (\<forall>S. case wait S of
        Os_fail e \<Rightarrow> e = EINTR
      | Os_ok evs \<Rightarrow> \<forall>(p, e) \<in> set evs. p \<in> S \<and> io_call_of e \<noteq> None)"

text \<open>The callbacks that bring events, one after the other, all get through.\<close>

fun events_run :: "'w io_objs \<Rightarrow> (nat \<times> u32) list \<Rightarrow> 'w \<Rightarrow> bool" where
  "events_run V [] w = True"
| "events_run V (e # es) w =
     (case evt_round V e w of Inl f \<Rightarrow> False | Inr w' \<Rightarrow> events_run V es w')"

text \<open>The kernel has not answered yet for all objects that are to be added.\<close>

definition ctls_missing :: "'w io_objs \<Rightarrow> ctl list \<Rightarrow> 'w \<Rightarrow> bool" where
  "ctls_missing V ctls w \<longleftrightarrow>
     (case del_phase V w of
        Inl f \<Rightarrow> False
      | Inr w \<Rightarrow> length ctls < length (m_vecIoObjsAddCache (the_epoll V w)))"

text \<open>
  The contract between a notifier of type \<open>ty\<close> and its objects. The objects keep an invariant
  \<open>good\<close>; an object that is to be added has an open descriptor; told that it was added or
  deleted, and also when it handles an event, an object asks only for what its phase allows.
\<close>

locale io_client =
  fixes V :: "'w io_objs"
    and ty :: int
    and phase :: "nat \<Rightarrow> 'w \<Rightarrow> io_phase"
    and good :: "'w \<Rightarrow> bool"
  assumes get_set: "good w \<Longrightarrow> the_epoll V (set_epoll V t w) = t"
    and phase_set: "phase p (set_epoll V t w) = phase p w"
    and good_set: "good w \<Longrightarrow> m_i32IoType t = ty \<Longrightarrow> good (set_epoll V t w)"
    and good_type: "good w \<Longrightarrow> m_i32IoType (the_epoll V w) = ty"
    and deling_handle: "good w \<Longrightarrow> phase p w = Deling \<Longrightarrow> \<exists>h. handle_of V p w = Inr h"
    and adding_handle: "good w \<Longrightarrow> phase p w = Adding \<Longrightarrow>
      \<exists>h e. handle_of V p w = Inr h \<and> 0 \<le> h \<and> get_io_evt ty (obj_of V p w) = Inr e"
    and deled: "good w \<Longrightarrow> phase p w = Deling \<Longrightarrow>
      \<exists>w'. callback V (Deled_from_io_task ty) p w = Inr w' \<and> good w' \<and>
        requested (caches_of (the_epoll V w)) ((\<lambda>q. phase q w)(p := Out)) (caches_of (the_epoll V w')) (\<lambda>q. phase q w')"
    and added: "good w \<Longrightarrow> phase p w = Adding \<Longrightarrow>
      \<exists>w'. callback V (Added_into_io_task ty 0) p w = Inr w' \<and> good w' \<and>
        requested (caches_of (the_epoll V w)) ((\<lambda>q. phase q w)(p := Inside)) (caches_of (the_epoll V w')) (\<lambda>q. phase q w')"
    and event: "good w \<Longrightarrow> phase p w = Inside \<or> phase p w = Deling \<Longrightarrow> io_call_of e = Some c \<Longrightarrow>
      callback V c p w = Inr w' \<Longrightarrow>
      good w' \<and> requested (caches_of (the_epoll V w)) (\<lambda>q. phase q w) (caches_of (the_epoll V w')) (\<lambda>q. phase q w')"
begin

abbreviation phases :: "'w \<Rightarrow> nat \<Rightarrow> io_phase" where
  "phases w \<equiv> (\<lambda>q. phase q w)"

lemma del_round_ok:
  assumes "good w" and "linked (caches_of (the_epoll V w)) (phases w) (p # ds) []"
    and "\<forall>q. phase q w0 = Adding \<longrightarrow> phase q w = Adding"
  shows "\<exists>w'. del_round V p w = Inr w' \<and> good w' \<and> linked (caches_of (the_epoll V w')) (phases w') ds [] \<and>
    (\<forall>q. phase q w0 = Adding \<longrightarrow> phase q w' = Adding)"
proof -
  let ?t = "the_epoll V w"
  let ?w = "set_epoll V (?t\<lparr>m_setIoObjs := m_setIoObjs ?t - {p}\<rparr>) w"
  note p = linked_del_head [OF assms(2)]
  have good: "good ?w" "phase p ?w = Deling"
    using assms(1) p good_type by (auto intro: good_set simp: phase_set)
  obtain h where h: "handle_of V p w = Inr h"
    using deling_handle [OF assms(1) p(1)] by blast
  obtain w' where w': "callback V (Deled_from_io_task ty) p ?w = Inr w'" "good w'"
    "requested (caches_of (the_epoll V ?w)) ((phases ?w)(p := Out)) (caches_of (the_epoll V w')) (phases w')"
    using deled [OF good] by blast
  have "linked (caches_of (the_epoll V ?w)) ((phases ?w)(p := Out)) ds []"
    using assms(2) p by (auto simp: linked_def get_set [OF assms(1)] phase_set)
  then have "linked (caches_of (the_epoll V w')) (phases w') ds []"
    by (rule requested_linked [OF w'(3)])
  moreover have "phase q w' = Adding" if "phase q w0 = Adding" for q
    using assms(3) that p(1) by (intro requested_keeps(2) [OF w'(3)]) (auto simp: phase_set)
  ultimately show ?thesis
    using w' h p(4) good_type [OF assms(1)] by (auto simp: del_round_def Let_def)
qed

lemma add_round_ok:
  assumes "good w" and "linked (caches_of (the_epoll V w)) (phases w) [] (p # ps)" and "ctl_ok ctls"
    and "\<forall>q. phase q w0 = Adding \<longrightarrow> q \<in> set (p # ps) \<or> phase q w = Inside \<or> phase q w = Deling"
  shows "case add_round V p (ctls, w) of
      Inl f \<Rightarrow> f = Awaiting_os \<and> ctls = []
    | Inr (ctls', w') \<Rightarrow> ctl_ok ctls' \<and> length ctls = Suc (length ctls') \<and> good w' \<and> linked (caches_of (the_epoll V w')) (phases w') [] ps \<and>
        (\<forall>q. phase q w0 = Adding \<longrightarrow> q \<in> set ps \<or> phase q w' = Inside \<or> phase q w' = Deling)"
proof (cases ctls)
  case Nil
  obtain h e where "handle_of V p w = Inr h" "get_io_evt ty (obj_of V p w) = Inr e"
    using adding_handle [OF assms(1) linked_add_head(1) [OF assms(2)]] by blast
  then show ?thesis
    using Nil good_type [OF assms(1)] by (simp add: add_round_def)
next
  case (Cons ctl rest)
  let ?t = "the_epoll V w"
  let ?w = "set_epoll V (?t\<lparr>m_setIoObjs := insert p (m_setIoObjs ?t)\<rparr>) w"
  note p = linked_add_head [OF assms(2)]
  obtain h e where h: "handle_of V p w = Inr h" "0 \<le> h" "get_io_evt ty (obj_of V p w) = Inr e"
    using adding_handle [OF assms(1) p(1)] by blast
  have ok: "ctl h e = 0" "ctl_ok rest"
    using assms(3) Cons h(2) by (auto simp: ctl_ok_def)
  have good: "good ?w" "phase p ?w = Adding"
    using assms(1) p good_type by (auto intro: good_set simp: phase_set)
  obtain w' where w': "callback V (Added_into_io_task ty 0) p ?w = Inr w'" "good w'"
    "requested (caches_of (the_epoll V ?w)) ((phases ?w)(p := Inside)) (caches_of (the_epoll V w')) (phases w')"
    using added [OF good] by blast
  have "linked (caches_of (the_epoll V ?w)) ((phases ?w)(p := Inside)) [] ps"
    using assms(2) p by (auto simp: linked_def get_set [OF assms(1)] phase_set)
  then have "linked (caches_of (the_epoll V w')) (phases w') [] ps"
    by (rule requested_linked [OF w'(3)])
  moreover have "q \<in> set ps \<or> phase q w' = Inside \<or> phase q w' = Deling" if "phase q w0 = Adding" for q
  proof (cases "q \<in> set ps")
    case False
    then have "((phases ?w)(p := Inside)) q = Inside \<or> ((phases ?w)(p := Inside)) q = Deling"
      using assms(4) that by (auto simp: phase_set)
    then show ?thesis
      using requested_keeps(3) [OF w'(3)] by blast
  qed simp
  ultimately show ?thesis
    using Cons w' h ok p(4) good_type [OF assms(1)] by (simp add: add_round_def Let_def)
qed

lemma del_phase_ok:
  assumes "good w" and "linked (caches_of (the_epoll V w)) (phases w) [] []"
  shows "\<exists>w'. del_phase V w = Inr w' \<and> good w' \<and> linked (caches_of (the_epoll V w')) (phases w') [] [] \<and>
    (\<forall>q. phase q w = Adding \<longrightarrow> phase q w' = Adding)"
proof -
  let ?t = "the_epoll V w"
  let ?w = "set_epoll V (?t\<lparr>m_vecIoObjsDelCache := []\<rparr>) w"
  let ?P = "\<lambda>ds w'. good w' \<and> linked (caches_of (the_epoll V w')) (phases w') ds [] \<and>
    (\<forall>q. phase q w = Adding \<longrightarrow> phase q w' = Adding)"
  have start: "?P (m_vecIoObjsDelCache ?t) ?w"
    using assms good_type [OF assms(1)] by (auto simp: get_set [OF assms(1)] phase_set linked_def intro: good_set)
  have round: "case del_round V x w' of Inl f \<Rightarrow> False | Inr w'' \<Rightarrow> ?P rest w''" if "?P (x # rest) w'" for x rest w'
    using del_round_ok [of w' x rest w] that by auto
  have "case for_each (del_round V) (m_vecIoObjsDelCache ?t) ?w of Inl f \<Rightarrow> False | Inr w' \<Rightarrow> ?P [] w'"
    by (rule for_each_inv [where P = ?P and may_halt = "\<lambda>f. False", OF start round])
  then show ?thesis
    using assms by (auto simp: del_phase_def Let_def split: sum.splits)
qed

lemma add_phase_ok:
  assumes "good w" and "linked (caches_of (the_epoll V w)) (phases w) [] []" and "ctl_ok ctls"
  shows "case add_phase V ctls w of
      Inl f \<Rightarrow> f = Awaiting_os \<and> length ctls < length (m_vecIoObjsAddCache (the_epoll V w))
    | Inr (ctls', w') \<Rightarrow> good w' \<and> linked (caches_of (the_epoll V w')) (phases w') [] [] \<and>
        (\<forall>q. phase q w = Adding \<longrightarrow> phase q w' = Inside \<or> phase q w' = Deling)"
proof -
  let ?t = "the_epoll V w"
  let ?w = "set_epoll V (?t\<lparr>m_vecIoObjsAddCache := []\<rparr>) w"
  let ?n = "length (m_vecIoObjsAddCache ?t)"
  let ?P = "\<lambda>ps s. ctl_ok (fst s) \<and> length ctls + length ps = length (fst s) + ?n \<and> good (snd s) \<and> linked (caches_of (the_epoll V (snd s))) (phases (snd s)) [] ps \<and>
    (\<forall>q. phase q w = Adding \<longrightarrow> q \<in> set ps \<or> phase q (snd s) = Inside \<or> phase q (snd s) = Deling)"
  have waiting: "{q. phase q w = Adding} = set (m_vecIoObjsAddCache ?t)"
    using assms(2) by (simp add: linked_def)
  have start: "?P (m_vecIoObjsAddCache ?t) (ctls, ?w)"
    using assms good_type [OF assms(1)] waiting by (auto simp: get_set [OF assms(1)] phase_set linked_def intro: good_set)
  have round: "case add_round V x s of Inl f \<Rightarrow> f = Awaiting_os \<and> length ctls < ?n | Inr s' \<Rightarrow> ?P rest s'"
    if "?P (x # rest) s" for x rest s
    using add_round_ok [of "snd s" x rest "fst s" w] that by (auto split: sum.splits)
  have "case for_each (add_round V) (m_vecIoObjsAddCache ?t) (ctls, ?w) of
      Inl f \<Rightarrow> f = Awaiting_os \<and> length ctls < ?n | Inr s' \<Rightarrow> ?P [] s'"
    by (rule for_each_inv [where P = ?P and may_halt = "\<lambda>f. f = Awaiting_os \<and> length ctls < ?n", OF start round])
  then show ?thesis
    using assms waiting by (auto simp: add_phase_def Let_def split: sum.splits)
qed

lemma events_ok:
  assumes "good w" and "linked (caches_of (the_epoll V w)) (phases w) [] []" and "events_run V evs w"
    and "\<forall>(p, e) \<in> set evs. phase p w = Inside \<or> phase p w = Deling"
  shows "\<exists>w'. for_each (evt_round V) evs w = Inr w' \<and> good w' \<and> linked (caches_of (the_epoll V w')) (phases w') [] [] \<and>
    (\<forall>q. phase q w = Inside \<or> phase q w = Deling \<longrightarrow> phase q w' = Inside \<or> phase q w' = Deling)"
  using assms
proof (induction evs arbitrary: w)
  case Nil
  then show ?case by simp
next
  case (Cons pe evs)
  obtain p e where pe: "pe = (p, e)" by (cases pe)
  obtain w1 where w1: "evt_round V pe w = Inr w1" "events_run V evs w1"
    using Cons.prems(3) by (auto split: sum.splits)
  obtain c where c: "io_call_of e = Some c" "callback V c p w = Inr w1"
    using w1(1) pe by (auto simp: evt_round_def split: option.splits)
  have step: "good w1" "requested (caches_of (the_epoll V w)) (phases w) (caches_of (the_epoll V w1)) (phases w1)"
    using event [OF Cons.prems(1) _ c] Cons.prems(4) pe by auto
  have linked: "linked (caches_of (the_epoll V w1)) (phases w1) [] []"
    by (rule requested_linked [OF step(2) Cons.prems(2)])
  have keep: "phase q w1 = Inside \<or> phase q w1 = Deling" if "phase q w = Inside \<or> phase q w = Deling" for q
    by (rule requested_keeps(3) [OF step(2) that])
  have rest: "\<forall>(p, e) \<in> set evs. phase p w1 = Inside \<or> phase p w1 = Deling"
    using Cons.prems(4) keep by fastforce
  show ?case
    using Cons.IH [OF step(1) linked w1(2) rest] w1(1) keep by auto
qed

text \<open>
  A round of the thread: no assertion of the notifier fails, it waits only for the kernel, the set and the caches agree with
  the phases again, and every object that waited has been added.
\<close>

theorem exec_ok:
  assumes "good w" and "linked (caches_of (the_epoll V w)) (phases w) [] []" and "ctl_ok ctls" and "wait_ok wait"
    and "\<And>w1 ctls' w2 evs. del_phase V w = Inr w1 \<Longrightarrow> add_phase V ctls w1 = Inr (ctls', w2) \<Longrightarrow>
      wait (m_setIoObjs (the_epoll V w2)) = Os_ok evs \<Longrightarrow> events_run V evs w2"
  shows "case epoll_exec V ctls wait w of
      Inl f \<Rightarrow> f = Awaiting_os \<and> ctls_missing V ctls w
    | Inr (code, w') \<Rightarrow> code = CMNERR_SUC \<and> good w' \<and> linked (caches_of (the_epoll V w')) (phases w') [] [] \<and>
        (\<forall>q. phase q w = Adding \<longrightarrow> phase q w' = Inside \<or> phase q w' = Deling)"
proof -
  obtain w1 where w1: "del_phase V w = Inr w1" "good w1" "linked (caches_of (the_epoll V w1)) (phases w1) [] []"
    "\<forall>q. phase q w = Adding \<longrightarrow> phase q w1 = Adding"
    using del_phase_ok [OF assms(1,2)] by blast
  show ?thesis
  proof (cases "add_phase V ctls w1")
    case (Inl f)
    then show ?thesis
      using add_phase_ok [OF w1(2,3) assms(3)] w1(1) by (simp add: epoll_exec_def ctls_missing_def)
  next
    case (Inr s)
    obtain ctls' w2 where s: "s = (ctls', w2)" by (cases s)
    have w2: "good w2" "linked (caches_of (the_epoll V w2)) (phases w2) [] []"
      "\<forall>q. phase q w = Adding \<longrightarrow> phase q w2 = Inside \<or> phase q w2 = Deling"
      using add_phase_ok [OF w1(2,3) assms(3)] Inr s w1(4) by auto
    note wait = assms(4) [unfolded wait_ok_def, rule_format, of "m_setIoObjs (the_epoll V w2)"]
    show ?thesis
    proof (cases "wait (m_setIoObjs (the_epoll V w2))")
      case (Os_ok evs)
      have member: "\<forall>(p, e) \<in> set evs. phase p w2 = Inside \<or> phase p w2 = Deling"
        using wait Os_ok w2(2) by (auto simp: linked_def)
      have run: "events_run V evs w2"
        using assms(5) w1(1) Inr s Os_ok by blast
      obtain w3 where w3: "for_each (evt_round V) evs w2 = Inr w3" "good w3"
        "linked (caches_of (the_epoll V w3)) (phases w3) [] []"
        "\<And>q. phase q w2 = Inside \<or> phase q w2 = Deling \<Longrightarrow> phase q w3 = Inside \<or> phase q w3 = Deling"
        using events_ok [OF w2(1,2) run member] by blast
      have "epoll_exec V ctls wait w = Inr (CMNERR_SUC, w3)"
        using w1(1) Inr s Os_ok w3(1) by (simp add: epoll_exec_def)
      then show ?thesis
        using w3(2-4) w2(3) by simp
    next
      case (Os_fail e)
      then show ?thesis
        using wait w1(1) Inr s w2 by (simp add: epoll_exec_def)
    qed
  qed
qed

end

end
