(* ===== verification/Timer.thy ===== *)
theory Timer
  imports Caches ErrInfo
begin

text \<open>
  Timers: \<open>ITimerObj\<close> of \<open>libsmart_net/src/framework/sn_timer.h\<close>, a period that is checked
  against the clock, and \<open>CTimeNotifier\<close> of \<open>sn_time_notifier.h\<close> and \<open>.cpp\<close>, the set of timers
  one thread checks over and over. A timer is known by a number, its pointer; times are in
  microseconds.
\<close>

section \<open>One timer\<close>

record ITimerObj =
  m_ui64LastTime :: u64
  m_ui64Interval :: u64

definition new_timer_obj :: ITimerObj where
  "new_timer_obj = \<lparr>m_ui64LastTime = 0, m_ui64Interval = 0\<rparr>"

definition set_interval :: "u64 \<Rightarrow> ITimerObj \<Rightarrow> ITimerObj" where
  "set_interval ui64Interval t = t\<lparr>m_ui64Interval := ui64Interval\<rparr>"

text \<open>Whether \<open>on_timer\<close> is called, and the timer before that call. The sum wraps.\<close>

definition timer_check :: "u64 \<Rightarrow> ITimerObj \<Rightarrow> bool \<times> ITimerObj" where
  "timer_check ui64CurTimeInUs t =
     (if 0 = m_ui64LastTime t then (True, t\<lparr>m_ui64LastTime := ui64CurTimeInUs\<rparr>)
      else if m_ui64LastTime t + m_ui64Interval t \<le> ui64CurTimeInUs
      then (True, t\<lparr>m_ui64LastTime := ui64CurTimeInUs\<rparr>)
      else (False, t))"

text \<open>The times at which a timer fires when it is checked at the given times.\<close>

fun fires :: "u64 list \<Rightarrow> ITimerObj \<Rightarrow> u64 list" where
  "fires [] t = []"
| "fires (now # ts) t =
     (case timer_check now t of (fired, t) \<Rightarrow> (if fired then [now] else []) @ fires ts t)"

lemma fires_armed:
  assumes "0 < m_ui64LastTime t" and "sorted (map unat (m_ui64LastTime t # ts))"
    and "\<forall>now \<in> set (m_ui64LastTime t # ts). unat now + unat (m_ui64Interval t) < 2 ^ 64"
  shows "sorted_wrt (\<lambda>f g. unat f + unat (m_ui64Interval t) \<le> unat g) (m_ui64LastTime t # fires ts t)"
    and "\<forall>now \<in> set ts. \<exists>f \<in> set (m_ui64LastTime t # fires ts t).
      f \<le> now \<and> (f = now \<or> unat now < unat f + unat (m_ui64Interval t))"
    and "set (fires ts t) \<subseteq> set ts"
proof -
  let ?apart = "\<lambda>t ts. sorted_wrt (\<lambda>f g. unat f + unat (m_ui64Interval t) \<le> unat g) (m_ui64LastTime t # fires ts t)"
  let ?prompt = "\<lambda>t ts. \<forall>now \<in> set ts. \<exists>f \<in> set (m_ui64LastTime t # fires ts t).
      f \<le> now \<and> (f = now \<or> unat now < unat f + unat (m_ui64Interval t))"
  have "?apart t ts \<and> ?prompt t ts \<and> set (fires ts t) \<subseteq> set ts"
    using assms
  proof (induction ts arbitrary: t)
    case Nil
    then show ?case by simp
  next
    case (Cons now ts)
    have sum: "unat (m_ui64LastTime t + m_ui64Interval t) = unat (m_ui64LastTime t) + unat (m_ui64Interval t)"
      using Cons.prems(3) by (intro unat_add_fits) simp
    have le: "m_ui64LastTime t \<le> now"
      using Cons.prems(2) by (simp add: word_le_nat_alt)
    have set: "m_ui64LastTime t \<noteq> 0"
      using Cons.prems(1) by auto
    show ?case
    proof (cases "m_ui64LastTime t + m_ui64Interval t \<le> now")
      case True
      let ?t = "t\<lparr>m_ui64LastTime := now\<rparr>"
      have fires: "fires (now # ts) t = now # fires ts ?t"
        using True set by (simp add: timer_check_def)
      have "0 < now"
        using Cons.prems(1) le by (simp add: order_less_le_trans)
      then have ih: "?apart ?t ts" "?prompt ?t ts" "set (fires ts ?t) \<subseteq> set ts"
        using Cons.IH [of ?t] Cons.prems(2,3) by auto
      have due: "unat (m_ui64LastTime t) + unat (m_ui64Interval t) \<le> unat now"
        using True sum by (simp add: word_le_nat_alt)
      have "?apart t (now # ts)"
        unfolding fires sorted_wrt.simps(2) [of _ "m_ui64LastTime t"]
      proof (intro conjI ballI)
        fix g assume "g \<in> set (now # fires ts ?t)"
        then consider "g = now" | "g \<in> set (fires ts ?t)"
          by auto
        then show "unat (m_ui64LastTime t) + unat (m_ui64Interval t) \<le> unat g"
        proof cases
          case 1
          then show ?thesis
            using due by simp
        next
          case 2
          then have "unat now + unat (m_ui64Interval t) \<le> unat g"
            using ih(1) by simp
          then show ?thesis
            using due by linarith
        qed
      qed (use ih(1) in simp)
      moreover have "?prompt t (now # ts)"
        unfolding fires
      proof
        fix x assume "x \<in> set (now # ts)"
        then consider "x = now" | "x \<in> set ts"
          by auto
        then show "\<exists>f \<in> set (m_ui64LastTime t # now # fires ts ?t).
            f \<le> x \<and> (f = x \<or> unat x < unat f + unat (m_ui64Interval t))"
        proof cases
          case 1
          then show ?thesis
            by (intro bexI [of _ now]) simp_all
        next
          case 2
          have "\<exists>f \<in> set (now # fires ts ?t). f \<le> x \<and> (f = x \<or> unat x < unat f + unat (m_ui64Interval t))"
            using bspec [OF ih(2) 2] by simp
          then show ?thesis
            by (elim bexE) (rule bexI, assumption, simp)
        qed
      qed
      moreover have "set (fires (now # ts) t) \<subseteq> set (now # ts)"
        using ih(3) unfolding fires by auto
      ultimately show ?thesis
        by (intro conjI)
    next
      case False
      have fires: "fires (now # ts) t = fires ts t"
        using False set by (simp add: timer_check_def)
      have ih: "?apart t ts" "?prompt t ts" "set (fires ts t) \<subseteq> set ts"
        using Cons.IH [of t] Cons.prems by auto
      have "unat now < unat (m_ui64LastTime t) + unat (m_ui64Interval t)"
        using False sum by (simp add: word_le_nat_alt)
      then have "?prompt t (now # ts)"
        using ih(2) le unfolding fires by simp
      moreover have "?apart t (now # ts)" "set (fires (now # ts) t) \<subseteq> set (now # ts)"
        using ih(1,3) unfolding fires by auto
      ultimately show ?thesis
        by (intro conjI)
    qed
  qed
  then show "?apart t ts" "?prompt t ts" "set (fires ts t) \<subseteq> set ts"
    by auto
qed

text \<open>C35: A timer keeps its period. Checked at times that do not go back, of which the first is not
  zero, and with an interval that does not wrap the clock, a timer that was never checked fires
  at the first check; it fires only at checks, two firings are at least an interval apart, and at
  every check the last firing is less than an interval ago or happens at this check.\<close>

theorem timer_period:
  assumes "m_ui64LastTime t = 0" and "0 < now" and "sorted (map unat (now # ts))"
    and "\<forall>x \<in> set (now # ts). unat x + unat (m_ui64Interval t) < 2 ^ 64"
  shows "(\<exists>fs. fires (now # ts) t = now # fs \<and> set fs \<subseteq> set ts) \<and>
    sorted_wrt (\<lambda>f g. unat f + unat (m_ui64Interval t) \<le> unat g) (fires (now # ts) t) \<and>
    (\<forall>x \<in> set (now # ts). \<exists>f \<in> set (fires (now # ts) t).
       f \<le> x \<and> (f = x \<or> unat x < unat f + unat (m_ui64Interval t)))"
proof -
  let ?t = "t\<lparr>m_ui64LastTime := now\<rparr>"
  have fires: "fires (now # ts) t = m_ui64LastTime ?t # fires ts ?t"
    using assms(1) by (simp add: timer_check_def)
  show ?thesis
    using fires_armed [of ?t ts] assms(2-4) unfolding fires by simp
qed

theorem timer_period_witness:
  "fires [10, 12, 15, 16, 30] (set_interval 5 new_timer_obj) = [10, 15, 30] \<and>
   sorted_wrt (\<lambda>f g. unat f + 5 \<le> unat g) (fires [10, 12, 15, 16, 30] (set_interval 5 new_timer_obj))"
proof -
  let ?t = "set_interval 5 new_timer_obj"
  have "sorted_wrt (\<lambda>f g. unat f + unat (m_ui64Interval ?t) \<le> unat g) (fires [10, 12, 15, 16, 30] ?t)"
    using timer_period [of ?t 10 "[12, 15, 16, 30]"] by (simp add: new_timer_obj_def set_interval_def)
  then show ?thesis
    by (simp add: timer_check_def new_timer_obj_def set_interval_def)
qed

section \<open>The notifier\<close>

record CTimeNotifier =
  m_setTimers :: "nat set"
  m_vecTimerAddCache :: "nat list"
  m_vecTimerDelCache :: "nat list"

definition new_time_notifier :: CTimeNotifier where
  "new_time_notifier = \<lparr>m_setTimers = {}, m_vecTimerAddCache = [], m_vecTimerDelCache = []\<rparr>"

definition time_notifier_add :: "nat \<Rightarrow> CTimeNotifier \<Rightarrow> int \<times> CTimeNotifier" where
  "time_notifier_add pTimer t = (CMNERR_SUC, t\<lparr>m_vecTimerAddCache := m_vecTimerAddCache t @ [pTimer]\<rparr>)"

definition time_notifier_del :: "nat \<Rightarrow> CTimeNotifier \<Rightarrow> int \<times> CTimeNotifier" where
  "time_notifier_del pTimer t = (CMNERR_SUC, t\<lparr>m_vecTimerDelCache := m_vecTimerDelCache t @ [pTimer]\<rparr>)"

datatype timer_call = Add_into_timer_task | Del_from_timer_task | On_timer

text \<open>
  The timers as the notifier sees them: where the notifier lies in the world, the period of
  the timer at a pointer, and its virtual functions.
\<close>

record 'w timer_objs =
  the_notifier :: "'w \<Rightarrow> CTimeNotifier"
  set_notifier :: "CTimeNotifier \<Rightarrow> 'w \<Rightarrow> 'w"
  timer_of :: "nat \<Rightarrow> 'w \<Rightarrow> ITimerObj"
  set_timer :: "nat \<Rightarrow> ITimerObj \<Rightarrow> 'w \<Rightarrow> 'w"
  timer_callback :: "timer_call \<Rightarrow> nat \<Rightarrow> 'w \<Rightarrow> 'w res"

definition timer_del_round :: "'w timer_objs \<Rightarrow> nat \<Rightarrow> 'w \<Rightarrow> 'w res" where
  "timer_del_round V p w =
     (let t = the_notifier V w in
      bindr (cmn_assert (p \<in> m_setTimers t)) (\<lambda>_.
      timer_callback V Del_from_timer_task p (set_notifier V (t\<lparr>m_setTimers := m_setTimers t - {p}\<rparr>) w)))"

definition timer_add_round :: "'w timer_objs \<Rightarrow> nat \<Rightarrow> 'w \<Rightarrow> 'w res" where
  "timer_add_round V p w =
     (let t = the_notifier V w in
      bindr (cmn_assert (p \<notin> m_setTimers t)) (\<lambda>_.
      timer_callback V Add_into_timer_task p (set_notifier V (t\<lparr>m_setTimers := insert p (m_setTimers t)\<rparr>) w)))"

definition timer_check_round :: "'w timer_objs \<Rightarrow> u64 \<Rightarrow> nat \<Rightarrow> 'w \<Rightarrow> 'w res" where
  "timer_check_round V ui64CurTime p w =
     (case timer_check ui64CurTime (timer_of V p w) of (fired, t) \<Rightarrow>
      if fired then timer_callback V On_timer p (set_timer V p t w) else Inr w)"

definition timer_del_phase :: "'w timer_objs \<Rightarrow> 'w \<Rightarrow> 'w res" where
  "timer_del_phase V w =
     (let t = the_notifier V w; vecTmp = m_vecTimerDelCache t in
      if vecTmp \<noteq> []
      then for_each (timer_del_round V) vecTmp (set_notifier V (t\<lparr>m_vecTimerDelCache := []\<rparr>) w)
      else Inr w)"

definition timer_add_phase :: "'w timer_objs \<Rightarrow> 'w \<Rightarrow> 'w res" where
  "timer_add_phase V w =
     (let t = the_notifier V w; vecTmp = m_vecTimerAddCache t in
      if vecTmp \<noteq> []
      then for_each (timer_add_round V) vecTmp (set_notifier V (t\<lparr>m_vecTimerAddCache := []\<rparr>) w)
      else Inr w)"

text \<open>The set is ordered by the pointers; only this thread changes it.\<close>

definition time_notifier_exec :: "'w timer_objs \<Rightarrow> u64 \<Rightarrow> 'w \<Rightarrow> 'w res" where
  "time_notifier_exec V ui64CurTime w =
     bindr (timer_del_phase V w) (\<lambda>w.
     bindr (timer_add_phase V w) (\<lambda>w.
     for_each (timer_check_round V ui64CurTime) (sorted_list_of_set (m_setTimers (the_notifier V w))) w))"

section \<open>Timers and their notifier\<close>

definition timer_caches :: "CTimeNotifier \<Rightarrow> caches" where
  [simp]: "timer_caches t = \<lparr>members = m_setTimers t, to_add = m_vecTimerAddCache t, to_del = m_vecTimerDelCache t\<rparr>"

text \<open>
  The contract between the notifier and its timers. Told that it was added or deleted, and also
  when it fires, a timer asks only for what its phase allows.
\<close>

locale timer_client =
  fixes V :: "'w timer_objs"
    and phase :: "nat \<Rightarrow> 'w \<Rightarrow> io_phase"
    and good :: "'w \<Rightarrow> bool"
  assumes get_set: "good w \<Longrightarrow> the_notifier V (set_notifier V t w) = t"
    and phase_set: "phase p (set_notifier V t w) = phase p w"
    and good_set: "good w \<Longrightarrow> good (set_notifier V t w)"
    and timer_kept: "phase q (set_timer V p x w) = phase q w" "the_notifier V (set_timer V p x w) = the_notifier V w"
    and timer_good: "good w \<Longrightarrow> m_ui64Interval x = m_ui64Interval (timer_of V p w) \<Longrightarrow> good (set_timer V p x w)"
    and some_in: "good w \<Longrightarrow> finite {p. phase p w \<noteq> Out}"
    and deled: "good w \<Longrightarrow> phase p w = Deling \<Longrightarrow>
      \<exists>w'. timer_callback V Del_from_timer_task p w = Inr w' \<and> good w' \<and>
        requested (timer_caches (the_notifier V w)) ((\<lambda>q. phase q w)(p := Out))
          (timer_caches (the_notifier V w')) (\<lambda>q. phase q w')"
    and added: "good w \<Longrightarrow> phase p w = Adding \<Longrightarrow>
      \<exists>w'. timer_callback V Add_into_timer_task p w = Inr w' \<and> good w' \<and>
        requested (timer_caches (the_notifier V w)) ((\<lambda>q. phase q w)(p := Inside))
          (timer_caches (the_notifier V w')) (\<lambda>q. phase q w')"
    and timed_out: "good w \<Longrightarrow> phase p w = Inside \<or> phase p w = Deling \<Longrightarrow>
      \<exists>w'. timer_callback V On_timer p w = Inr w' \<and> good w' \<and>
        requested (timer_caches (the_notifier V w)) (\<lambda>q. phase q w)
          (timer_caches (the_notifier V w')) (\<lambda>q. phase q w')"
begin

abbreviation phases :: "'w \<Rightarrow> nat \<Rightarrow> io_phase" where
  "phases w \<equiv> (\<lambda>q. phase q w)"

lemma del_round_ok:
  assumes "good w" and "linked (timer_caches (the_notifier V w)) (phases w) (p # ds) []"
    and "\<forall>q. phase q w0 = Adding \<longrightarrow> phase q w = Adding"
  shows "\<exists>w'. timer_del_round V p w = Inr w' \<and> good w' \<and>
    linked (timer_caches (the_notifier V w')) (phases w') ds [] \<and>
    (\<forall>q. phase q w0 = Adding \<longrightarrow> phase q w' = Adding)"
proof -
  let ?t = "the_notifier V w"
  let ?w = "set_notifier V (?t\<lparr>m_setTimers := m_setTimers ?t - {p}\<rparr>) w"
  note p = linked_del_head [OF assms(2)]
  have good: "good ?w" "phase p ?w = Deling"
    using assms(1) p by (simp_all add: good_set phase_set)
  obtain w' where w': "timer_callback V Del_from_timer_task p ?w = Inr w'" "good w'"
    "requested (timer_caches (the_notifier V ?w)) ((phases ?w)(p := Out))
       (timer_caches (the_notifier V w')) (phases w')"
    using deled [OF good] by blast
  have "linked (timer_caches (the_notifier V ?w)) ((phases ?w)(p := Out)) ds []"
    using assms(2) p by (auto simp: linked_def get_set [OF assms(1)] phase_set)
  then have "linked (timer_caches (the_notifier V w')) (phases w') ds []"
    by (rule requested_linked [OF w'(3)])
  moreover have "phase q w' = Adding" if "phase q w0 = Adding" for q
    using assms(3) that p(1) by (intro requested_keeps(2) [OF w'(3)]) (auto simp: phase_set)
  ultimately show ?thesis
    using w' p(4) by (auto simp: timer_del_round_def Let_def)
qed

lemma add_round_ok:
  assumes "good w" and "linked (timer_caches (the_notifier V w)) (phases w) [] (p # ps)"
    and "\<forall>q. phase q w0 = Adding \<longrightarrow> q \<in> set (p # ps) \<or> phase q w = Inside \<or> phase q w = Deling"
  shows "\<exists>w'. timer_add_round V p w = Inr w' \<and> good w' \<and>
    linked (timer_caches (the_notifier V w')) (phases w') [] ps \<and>
    (\<forall>q. phase q w0 = Adding \<longrightarrow> q \<in> set ps \<or> phase q w' = Inside \<or> phase q w' = Deling)"
proof -
  let ?t = "the_notifier V w"
  let ?w = "set_notifier V (?t\<lparr>m_setTimers := insert p (m_setTimers ?t)\<rparr>) w"
  note p = linked_add_head [OF assms(2)]
  have good: "good ?w" "phase p ?w = Adding"
    using assms(1) p by (simp_all add: good_set phase_set)
  obtain w' where w': "timer_callback V Add_into_timer_task p ?w = Inr w'" "good w'"
    "requested (timer_caches (the_notifier V ?w)) ((phases ?w)(p := Inside))
       (timer_caches (the_notifier V w')) (phases w')"
    using added [OF good] by blast
  have "linked (timer_caches (the_notifier V ?w)) ((phases ?w)(p := Inside)) [] ps"
    using assms(2) p by (auto simp: linked_def get_set [OF assms(1)] phase_set)
  then have "linked (timer_caches (the_notifier V w')) (phases w') [] ps"
    by (rule requested_linked [OF w'(3)])
  moreover have "q \<in> set ps \<or> phase q w' = Inside \<or> phase q w' = Deling" if "phase q w0 = Adding" for q
  proof (cases "q \<in> set ps")
    case False
    then have "((phases ?w)(p := Inside)) q = Inside \<or> ((phases ?w)(p := Inside)) q = Deling"
      using assms(3) that by (auto simp: phase_set)
    then show ?thesis
      using requested_keeps(3) [OF w'(3)] by blast
  qed simp
  ultimately show ?thesis
    using w' p(4) by (auto simp: timer_add_round_def Let_def)
qed

lemma check_round_ok:
  assumes "good w" and "linked (timer_caches (the_notifier V w)) (phases w) [] []"
    and "phase p w = Inside \<or> phase p w = Deling"
  shows "\<exists>w'. timer_check_round V now p w = Inr w' \<and> good w' \<and>
    linked (timer_caches (the_notifier V w')) (phases w') [] [] \<and>
    (\<forall>q. phase q w = Inside \<or> phase q w = Deling \<longrightarrow> phase q w' = Inside \<or> phase q w' = Deling)"
proof (cases "timer_check now (timer_of V p w)")
  case (Pair fired x)
  show ?thesis
  proof (cases fired)
    case True
    let ?w = "set_timer V p x w"
    have "m_ui64Interval x = m_ui64Interval (timer_of V p w)"
      using Pair by (auto simp: timer_check_def split: if_splits)
    then have good: "good ?w"
      using assms(1) by (rule timer_good [rotated])
    have "phase p ?w = Inside \<or> phase p ?w = Deling"
      using assms(3) by (simp add: timer_kept)
    then obtain w' where w': "timer_callback V On_timer p ?w = Inr w'" "good w'"
      "requested (timer_caches (the_notifier V ?w)) (phases ?w) (timer_caches (the_notifier V w')) (phases w')"
      using timed_out [OF good] by blast
    have "linked (timer_caches (the_notifier V ?w)) (phases ?w) [] []"
      using assms(2) by (simp add: timer_kept)
    then have "linked (timer_caches (the_notifier V w')) (phases w') [] []"
      by (rule requested_linked [OF w'(3)])
    moreover have "phase q w' = Inside \<or> phase q w' = Deling" if "phase q w = Inside \<or> phase q w = Deling" for q
      using that by (intro requested_keeps(3) [OF w'(3)]) (simp add: timer_kept)
    ultimately show ?thesis
      using Pair True w' by (simp add: timer_check_round_def)
  next
    case False
    then show ?thesis
      using Pair assms by (simp add: timer_check_round_def)
  qed
qed

lemma del_phase_ok:
  assumes "good w" and "linked (timer_caches (the_notifier V w)) (phases w) [] []"
  shows "\<exists>w'. timer_del_phase V w = Inr w' \<and> good w' \<and>
    linked (timer_caches (the_notifier V w')) (phases w') [] [] \<and>
    (\<forall>q. phase q w = Adding \<longrightarrow> phase q w' = Adding)"
proof -
  let ?t = "the_notifier V w"
  let ?w = "set_notifier V (?t\<lparr>m_vecTimerDelCache := []\<rparr>) w"
  let ?P = "\<lambda>ds w'. good w' \<and> linked (timer_caches (the_notifier V w')) (phases w') ds [] \<and>
    (\<forall>q. phase q w = Adding \<longrightarrow> phase q w' = Adding)"
  have start: "?P (m_vecTimerDelCache ?t) ?w"
    using assms by (auto simp: get_set [OF assms(1)] phase_set linked_def good_set)
  have round: "case timer_del_round V x w' of Inl f \<Rightarrow> False | Inr w'' \<Rightarrow> ?P rest w''"
    if "?P (x # rest) w'" for x rest w'
    using del_round_ok [of w' x rest w] that by auto
  have "case for_each (timer_del_round V) (m_vecTimerDelCache ?t) ?w of Inl f \<Rightarrow> False | Inr w' \<Rightarrow> ?P [] w'"
    by (rule for_each_inv [where P = ?P and may_halt = "\<lambda>f. False", OF start round])
  then show ?thesis
    using assms by (auto simp: timer_del_phase_def Let_def split: sum.splits)
qed

lemma add_phase_ok:
  assumes "good w" and "linked (timer_caches (the_notifier V w)) (phases w) [] []"
  shows "\<exists>w'. timer_add_phase V w = Inr w' \<and> good w' \<and>
    linked (timer_caches (the_notifier V w')) (phases w') [] [] \<and>
    (\<forall>q. phase q w = Adding \<longrightarrow> phase q w' = Inside \<or> phase q w' = Deling)"
proof -
  let ?t = "the_notifier V w"
  let ?w = "set_notifier V (?t\<lparr>m_vecTimerAddCache := []\<rparr>) w"
  let ?P = "\<lambda>ps w'. good w' \<and> linked (timer_caches (the_notifier V w')) (phases w') [] ps \<and>
    (\<forall>q. phase q w = Adding \<longrightarrow> q \<in> set ps \<or> phase q w' = Inside \<or> phase q w' = Deling)"
  have waiting: "{q. phase q w = Adding} = set (m_vecTimerAddCache ?t)"
    using assms(2) by (simp add: linked_def)
  have start: "?P (m_vecTimerAddCache ?t) ?w"
    using assms waiting by (auto simp: get_set [OF assms(1)] phase_set linked_def good_set)
  have round: "case timer_add_round V x w' of Inl f \<Rightarrow> False | Inr w'' \<Rightarrow> ?P rest w''"
    if "?P (x # rest) w'" for x rest w'
    using add_round_ok [of w' x rest w] that by auto
  have "case for_each (timer_add_round V) (m_vecTimerAddCache ?t) ?w of Inl f \<Rightarrow> False | Inr w' \<Rightarrow> ?P [] w'"
    by (rule for_each_inv [where P = ?P and may_halt = "\<lambda>f. False", OF start round])
  then show ?thesis
    using assms waiting by (auto simp: timer_add_phase_def Let_def split: sum.splits)
qed

lemma checks_ok:
  assumes "good w" and "linked (timer_caches (the_notifier V w)) (phases w) [] []"
    and "\<forall>q \<in> set ps. phase q w = Inside \<or> phase q w = Deling"
  shows "\<exists>w'. for_each (timer_check_round V now) ps w = Inr w' \<and> good w' \<and>
    linked (timer_caches (the_notifier V w')) (phases w') [] [] \<and>
    (\<forall>q. phase q w = Inside \<or> phase q w = Deling \<longrightarrow> phase q w' = Inside \<or> phase q w' = Deling)"
  using assms
proof (induction ps arbitrary: w)
  case Nil
  then show ?case by simp
next
  case (Cons p ps)
  obtain w1 where w1: "timer_check_round V now p w = Inr w1" "good w1"
    "linked (timer_caches (the_notifier V w1)) (phases w1) [] []"
    "\<And>q. phase q w = Inside \<or> phase q w = Deling \<Longrightarrow> phase q w1 = Inside \<or> phase q w1 = Deling"
    using check_round_ok [OF Cons.prems(1,2), of p now] Cons.prems(3) by auto
  have "\<forall>q \<in> set ps. phase q w1 = Inside \<or> phase q w1 = Deling"
    using Cons.prems(3) w1(4) by simp
  from Cons.IH [OF w1(2,3) this] show ?case
    using w1(1,4) by auto
qed

text \<open>
  A round of the thread ends without a failed assertion; the set and the caches agree with the
  phases again, and every timer that waited has been added.
\<close>

theorem exec_ok:
  assumes "good w" and "linked (timer_caches (the_notifier V w)) (phases w) [] []"
  shows "\<exists>w'. time_notifier_exec V now w = Inr w' \<and> good w' \<and>
    linked (timer_caches (the_notifier V w')) (phases w') [] [] \<and>
    (\<forall>q. phase q w = Adding \<longrightarrow> phase q w' = Inside \<or> phase q w' = Deling)"
proof -
  obtain w1 where w1: "timer_del_phase V w = Inr w1" "good w1"
    "linked (timer_caches (the_notifier V w1)) (phases w1) [] []" "\<And>q. phase q w = Adding \<Longrightarrow> phase q w1 = Adding"
    using del_phase_ok [OF assms] by blast
  obtain w2 where w2: "timer_add_phase V w1 = Inr w2" "good w2"
    "linked (timer_caches (the_notifier V w2)) (phases w2) [] []"
    "\<And>q. phase q w1 = Adding \<Longrightarrow> phase q w2 = Inside \<or> phase q w2 = Deling"
    using add_phase_ok [OF w1(2,3)] by blast
  let ?ps = "sorted_list_of_set (m_setTimers (the_notifier V w2))"
  have set: "m_setTimers (the_notifier V w2) = {q. phase q w2 = Inside \<or> phase q w2 = Deling}"
    using w2(3) by (simp add: linked_def)
  have "finite (m_setTimers (the_notifier V w2))"
    unfolding set by (rule finite_subset [OF _ some_in [OF w2(2)]]) auto
  then have "\<forall>q \<in> set ?ps. phase q w2 = Inside \<or> phase q w2 = Deling"
    using set by simp
  from checks_ok [OF w2(2,3) this, of now] obtain w3 where w3: "for_each (timer_check_round V now) ?ps w2 = Inr w3"
    "good w3" "linked (timer_caches (the_notifier V w3)) (phases w3) [] []"
    "\<And>q. phase q w2 = Inside \<or> phase q w2 = Deling \<Longrightarrow> phase q w3 = Inside \<or> phase q w3 = Deling"
    by blast
  have "time_notifier_exec V now w = Inr w3"
    using w1(1) w2(1) w3(1) by (simp add: time_notifier_exec_def)
  then show ?thesis
    using w3(2,3,4) w2(4) w1(4) by blast
qed

end

end
