(* ===== verification/IoTask.thy ===== *)
theory IoTask
  imports Epoll Timer
begin

text \<open>
  The tasks of the engine's threads: the queue of posted events
  (\<open>libcomm_utils/src/utils/event_engine.h\<close>, \<open>.cpp\<close>), the input and the output task
  (\<open>libsmart_net/src/framework/sn_io_task.h\<close>, \<open>.cpp\<close>), the task of the timers
  (\<open>sn_misc_task.h\<close>, \<open>.cpp\<close>) and the thread that runs a task
  (\<open>libcomm_utils/src/thread/thread_ex.h\<close>, \<open>.cpp\<close>).
\<close>

section \<open>Posted events\<close>

record CEventHandleEngine =
  m_dquecache :: "nat list"
  m_dqueevts :: "nat list"

definition new_event_engine :: CEventHandleEngine where
  "new_event_engine = \<lparr>m_dquecache = [], m_dqueevts = []\<rparr>"

definition post_event :: "nat \<Rightarrow> CEventHandleEngine \<Rightarrow> CEventHandleEngine" where
  "post_event pevt t = t\<lparr>m_dquecache := m_dquecache t @ [pevt]\<rparr>"

text \<open>
  \<open>h\<close> is an event's \<open>handle\<close>; it acts on the engine, to which it may post, and on the rest of
  the world.
\<close>

definition event_engine_exec ::
  "(nat \<Rightarrow> CEventHandleEngine \<times> 'w \<Rightarrow> (CEventHandleEngine \<times> 'w) res) \<Rightarrow>
   CEventHandleEngine \<times> 'w \<Rightarrow> (CEventHandleEngine \<times> 'w) res" where
  "event_engine_exec h s =
     (case s of (t, w) \<Rightarrow>
      if m_dquecache t = [] then Inr (t, w)
      else bindr (cmn_assert (m_dqueevts t = [])) (\<lambda>_.
           bindr (for_each h (m_dquecache t) (t\<lparr>m_dqueevts := m_dquecache t, m_dquecache := []\<rparr>, w)) (\<lambda>(t, w).
           Inr (t\<lparr>m_dqueevts := []\<rparr>, w))))"

lemma for_each_posted:
  fixes h :: "nat \<Rightarrow> CEventHandleEngine \<times> nat list \<Rightarrow> (CEventHandleEngine \<times> nat list) res"
  assumes "\<And>e t w. h e (t, w) = Inr (t\<lparr>m_dquecache := m_dquecache t @ new e\<rparr>, w @ [e])"
  shows "for_each h es (t, w) = Inr (t\<lparr>m_dquecache := m_dquecache t @ concat (map new es)\<rparr>, w @ es)"
  by (induction es arbitrary: t w) (simp_all add: assms)

text \<open>
  Events are handled in the order in which they were posted, each once; what their handling
  posts waits for the next round.
\<close>

lemma event_engine_in_order:
  fixes h :: "nat \<Rightarrow> CEventHandleEngine \<times> nat list \<Rightarrow> (CEventHandleEngine \<times> nat list) res"
  assumes "\<And>e t w. h e (t, w) = Inr (t\<lparr>m_dquecache := m_dquecache t @ new e\<rparr>, w @ [e])"
    and "m_dqueevts t = []"
  shows "event_engine_exec h (t, w) =
    Inr (t\<lparr>m_dquecache := concat (map new (m_dquecache t))\<rparr>, w @ m_dquecache t)"
  using assms(2) by (cases t) (simp add: event_engine_exec_def for_each_posted [OF assms(1)])

section \<open>The input task\<close>

record CInputHandleTask =
  in_notifier :: "CEpoll option"
  in_task_id :: int
  in_stop :: bool

definition new_input_task :: CInputHandleTask where
  "new_input_task = \<lparr>in_notifier = None, in_task_id = -1, in_stop = False\<rparr>"

definition input_init :: "int \<Rightarrow> int \<Rightarrow> int os_ret \<Rightarrow> CInputHandleTask \<Rightarrow> (int \<times> CInputHandleTask) res" where
  "input_init i32ioevtnotifier i32MsTimeout epoll t =
     (if in_notifier t \<noteq> None then Inr (CMNERR_COMMON_ERR, t)
      else case create_obj i32ioevtnotifier of
             None \<Rightarrow> Inr (CMNERR_COMMON_ERR, t)
           | Some n \<Rightarrow>
               bindr (epoll_init EIT_INPUT_TYPE i32MsTimeout epoll n) (\<lambda>(code, n).
               Inr (code, t\<lparr>in_notifier := Some n\<rparr>)))"

definition input_set_id :: "int \<Rightarrow> CInputHandleTask \<Rightarrow> CInputHandleTask" where
  "input_set_id i32Indx t = t\<lparr>in_task_id := i32Indx\<rparr>"

definition input_destroy :: "CInputHandleTask \<Rightarrow> (int \<times> CInputHandleTask) res" where
  "input_destroy t =
     (case in_notifier t of
        None \<Rightarrow> Inr (CMNERR_COMMON_ERR, t)
      | Some n \<Rightarrow>
          bindr (epoll_destroy n) (\<lambda>_. Inr (CMNERR_SUC, t\<lparr>in_notifier := None, in_task_id := -1\<rparr>)))"

text \<open>\<open>objs\<close> are the objects in memory; the object learns its task before the notifier gets it.\<close>

definition input_add_io_obj ::
  "nat option \<Rightarrow> (nat \<Rightarrow> IIoObj) \<Rightarrow> CInputHandleTask \<Rightarrow> (int \<times> (nat \<Rightarrow> IIoObj) \<times> CInputHandleTask) res" where
  "input_add_io_obj pIoObj objs t =
     bindr (deref pIoObj) (\<lambda>p.
     bindr (set_task_id EIT_INPUT_TYPE (in_task_id t) (objs p)) (\<lambda>obj.
     let objs = objs(p := obj) in
     bindr (deref (in_notifier t)) (\<lambda>n.
     bindr (epoll_add_ioobj objs pIoObj n) (\<lambda>(code, n).
     Inr (code, objs, t\<lparr>in_notifier := Some n\<rparr>)))))"

definition input_del_io_obj ::
  "nat option \<Rightarrow> (nat \<Rightarrow> IIoObj) \<Rightarrow> CInputHandleTask \<Rightarrow> (int \<times> CInputHandleTask) res" where
  "input_del_io_obj pIoObj objs t =
     bindr (deref (in_notifier t)) (\<lambda>n.
     bindr (epoll_del_ioobj objs pIoObj n) (\<lambda>(code, n). Inr (code, t\<lparr>in_notifier := Some n\<rparr>)))"

definition input_get_ioobj_cnt :: "CInputHandleTask \<Rightarrow> u32 res" where
  "input_get_ioobj_cnt t = bindr (deref (in_notifier t)) (\<lambda>n. Inr (epoll_get_ioobj_cnt n))"

text \<open>
  The loop of the thread, round by round; each round has the kernel's answers. \<open>stopped\<close> reads
  the stop flag in the world, which another thread sets. Without further answers the loop waits.
\<close>

fun exec_rounds :: "'w io_objs \<Rightarrow> ('w \<Rightarrow> bool) \<Rightarrow> (ctl list \<times> wait) list \<Rightarrow> 'w \<Rightarrow> 'w res" where
  "exec_rounds V stopped [] w = (if stopped w then Inr w else Inl Awaiting_os)"
| "exec_rounds V stopped ((ctls, wait) # rounds) w =
     (if stopped w then Inr w
      else bindr (epoll_exec V ctls wait w) (\<lambda>(code, w).
           if code < 0 then Inr w else exec_rounds V stopped rounds w))"

definition input_exec ::
  "'w io_objs \<Rightarrow> ('w \<Rightarrow> CInputHandleTask) \<Rightarrow> (ctl list \<times> wait) list \<Rightarrow> 'w \<Rightarrow> 'w res" where
  "input_exec V task rounds w =
     bindr (cmn_assert (in_notifier (task w) \<noteq> None)) (\<lambda>_. exec_rounds V (in_stop \<circ> task) rounds w)"

section \<open>The output task\<close>

text \<open>Its number is not initialised; \<open>raw\<close> is what the memory held.\<close>

record COutputHandleTask =
  out_notifier :: "CEpoll option"
  out_task_id :: int
  out_evtengine :: CEventHandleEngine
  out_stop :: bool

definition new_output_task :: "int \<Rightarrow> COutputHandleTask" where
  "new_output_task raw =
     \<lparr>out_notifier = None, out_task_id = raw, out_evtengine = new_event_engine, out_stop = False\<rparr>"

definition output_pos_evt :: "nat \<Rightarrow> COutputHandleTask \<Rightarrow> COutputHandleTask" where
  "output_pos_evt pevt t = t\<lparr>out_evtengine := post_event pevt (out_evtengine t)\<rparr>"

definition output_set_indx :: "int \<Rightarrow> COutputHandleTask \<Rightarrow> COutputHandleTask" where
  "output_set_indx i32Indx t = t\<lparr>out_task_id := i32Indx\<rparr>"

definition output_init :: "int \<Rightarrow> int \<Rightarrow> int os_ret \<Rightarrow> COutputHandleTask \<Rightarrow> (int \<times> COutputHandleTask) res" where
  "output_init i32IoEvtNotifier i32MStimeout epoll t =
     (if out_notifier t \<noteq> None then Inr (CMNERR_COMMON_ERR, t)
      else case create_obj i32IoEvtNotifier of
             None \<Rightarrow> Inr (CMNERR_COMMON_ERR, t)
           | Some n \<Rightarrow>
               bindr (epoll_init EIT_OUTPUT_TYPE i32MStimeout epoll n) (\<lambda>(code, n).
               Inr (code, t\<lparr>out_notifier := Some n\<rparr>)))"

text \<open>After it has destroyed the notifier the code runs off the end of the function: no value.\<close>

definition output_destroy :: "COutputHandleTask \<Rightarrow> (int option \<times> COutputHandleTask) res" where
  "output_destroy t =
     (case out_notifier t of
        None \<Rightarrow> Inr (Some CMNERR_COMMON_ERR, t)
      | Some n \<Rightarrow>
          bindr (epoll_destroy n) (\<lambda>_. Inr (None, t\<lparr>out_notifier := None, out_task_id := -1\<rparr>)))"

definition output_add_io_obj ::
  "nat option \<Rightarrow> (nat \<Rightarrow> IIoObj) \<Rightarrow> COutputHandleTask \<Rightarrow> (int \<times> (nat \<Rightarrow> IIoObj) \<times> COutputHandleTask) res" where
  "output_add_io_obj pIoObj objs t =
     bindr (cmn_assert (out_notifier t \<noteq> None)) (\<lambda>_.
     bindr (deref pIoObj) (\<lambda>p.
     bindr (set_task_id EIT_OUTPUT_TYPE (out_task_id t) (objs p)) (\<lambda>obj.
     let objs = objs(p := obj) in
     bindr (deref (out_notifier t)) (\<lambda>n.
     bindr (epoll_add_ioobj objs pIoObj n) (\<lambda>(code, n).
     Inr (code, objs, t\<lparr>out_notifier := Some n\<rparr>))))))"

definition output_del_io_obj ::
  "nat option \<Rightarrow> (nat \<Rightarrow> IIoObj) \<Rightarrow> COutputHandleTask \<Rightarrow> (int \<times> COutputHandleTask) res" where
  "output_del_io_obj pIoObj objs t =
     bindr (cmn_assert (out_notifier t \<noteq> None)) (\<lambda>_.
     bindr (deref (out_notifier t)) (\<lambda>n.
     bindr (epoll_del_ioobj objs pIoObj n) (\<lambda>(code, n). Inr (code, t\<lparr>out_notifier := Some n\<rparr>))))"

text \<open>The count is returned as a signed number.\<close>

definition output_get_ioobj_cnt :: "COutputHandleTask \<Rightarrow> int res" where
  "output_get_ioobj_cnt t = bindr (deref (out_notifier t)) (\<lambda>n. Inr (sint (epoll_get_ioobj_cnt n)))"

definition output_exec ::
  "'w io_objs \<Rightarrow> ('w \<Rightarrow> COutputHandleTask) \<Rightarrow> (ctl list \<times> wait) list \<Rightarrow> 'w \<Rightarrow> 'w res" where
  "output_exec V task rounds w =
     (if \<not> out_stop (task w) \<and> out_notifier (task w) = None then Inl Null_deref
      else exec_rounds V (out_stop \<circ> task) rounds w)"

section \<open>The task of the timers\<close>

record CMiscTask =
  m_pTimeNotifier :: "CTimeNotifier option"
  misc_evtengine :: CEventHandleEngine
  misc_stop :: bool

definition new_misc_task :: CMiscTask where
  "new_misc_task = \<lparr>m_pTimeNotifier = None, misc_evtengine = new_event_engine, misc_stop = False\<rparr>"

definition misc_init :: "CMiscTask \<Rightarrow> int \<times> CMiscTask" where
  "misc_init t =
     (if m_pTimeNotifier t \<noteq> None then (CMNERR_COMMON_ERR, t)
      else (CMNERR_SUC, t\<lparr>m_pTimeNotifier := Some new_time_notifier\<rparr>))"

definition misc_destroy :: "CMiscTask \<Rightarrow> int \<times> CMiscTask" where
  "misc_destroy t = (CMNERR_SUC, t)"

definition misc_add_timer :: "nat \<Rightarrow> CMiscTask \<Rightarrow> (int \<times> CMiscTask) res" where
  "misc_add_timer ptimer t =
     (case m_pTimeNotifier t of
        None \<Rightarrow> Inl Assert_failed
      | Some n \<Rightarrow> (case time_notifier_add ptimer n of (code, n) \<Rightarrow> Inr (code, t\<lparr>m_pTimeNotifier := Some n\<rparr>)))"

definition misc_del_timer :: "nat \<Rightarrow> CMiscTask \<Rightarrow> (int \<times> CMiscTask) res" where
  "misc_del_timer ptimer t =
     (case m_pTimeNotifier t of
        None \<Rightarrow> Inl Assert_failed
      | Some n \<Rightarrow> (case time_notifier_del ptimer n of (code, n) \<Rightarrow> Inr (code, t\<lparr>m_pTimeNotifier := Some n\<rparr>)))"

definition misc_post_evt :: "nat \<Rightarrow> CMiscTask \<Rightarrow> CMiscTask" where
  "misc_post_evt pevt t = t\<lparr>misc_evtengine := post_event pevt (misc_evtengine t)\<rparr>"

text \<open>The posted events are never handled: only the timers are. \<open>clock\<close> are the times of the rounds.\<close>

fun misc_exec :: "'w timer_objs \<Rightarrow> ('w \<Rightarrow> CMiscTask) \<Rightarrow> u64 list \<Rightarrow> 'w \<Rightarrow> 'w res" where
  "misc_exec V task [] w = (if misc_stop (task w) then Inr w else Inl Awaiting_os)"
| "misc_exec V task (now # clock) w =
     (if misc_stop (task w) then Inr w
      else bindr (deref (m_pTimeNotifier (task w))) (\<lambda>_.
           bindr (time_notifier_exec V now w) (misc_exec V task clock)))"

section \<open>Threads\<close>

text \<open>A task as a thread holds it. \<open>stop\<close> of a task is one function for all kinds.\<close>

datatype task_ref = Input_task nat | Output_task nat | Misc_task

definition task_stop :: "bool \<Rightarrow> bool res" where
  "task_stop m_bStop = bindr (cmn_assert (\<not> m_bStop)) (\<lambda>_. Inr True)"

record CThread =
  m_pTask :: "task_ref option"
  thread_stop_flag :: bool
  m_bRunning :: bool

text \<open>The constructor does not set \<open>m_bRunning\<close>.\<close>

definition new_thread :: "bool \<Rightarrow> CThread" where
  "new_thread raw = \<lparr>m_pTask = None, thread_stop_flag = False, m_bRunning = raw\<rparr>"

definition thread_init :: "int \<Rightarrow> CThread \<Rightarrow> (int \<times> CThread) res" where
  "thread_init attr_init t =
     bindr (cmn_assert (m_pTask t = None)) (\<lambda>_.
     Inr (attr_init, t\<lparr>thread_stop_flag := False, m_bRunning := False\<rparr>))"

definition thread_destroy :: "int \<Rightarrow> CThread \<Rightarrow> (int \<times> CThread) res" where
  "thread_destroy attr_destroy t =
     bindr (cmn_assert (thread_stop_flag t)) (\<lambda>_.
     bindr (cmn_assert (\<not> m_bRunning t)) (\<lambda>_. Inr (attr_destroy, t\<lparr>m_pTask := None\<rparr>)))"

definition assign_task :: "task_ref \<Rightarrow> CThread \<Rightarrow> (int \<times> CThread) res" where
  "assign_task pTask t = bindr (cmn_assert (m_pTask t = None)) (\<lambda>_. Inr (0, t\<lparr>m_pTask := Some pTask\<rparr>))"

definition reset_task :: "CThread \<Rightarrow> (int \<times> CThread) res" where
  "reset_task t = bindr (cmn_assert (m_pTask t \<noteq> None)) (\<lambda>_. Inr (0, t\<lparr>m_pTask := None\<rparr>))"

text \<open>\<open>pthread\<close> is what \<open>pthread_create\<close> returns: zero or a positive error number.\<close>

definition thread_start :: "int \<Rightarrow> CThread \<Rightarrow> int" where
  "thread_start pthread t = (if m_pTask t = None then -1 else pthread)"

text \<open>\<open>stop_flag\<close> stops the task the thread holds, in the world of all tasks.\<close>

definition thread_stop :: "(task_ref \<Rightarrow> 'w \<Rightarrow> 'w res) \<Rightarrow> CThread \<times> 'w \<Rightarrow> (int \<times> CThread \<times> 'w) res" where
  "thread_stop stop_task s =
     (case s of (t, w) \<Rightarrow>
      bindr (case m_pTask t of None \<Rightarrow> Inr w | Some r \<Rightarrow> stop_task r w) (\<lambda>w.
      bindr (cmn_assert (\<not> thread_stop_flag t)) (\<lambda>_. Inr (0, t\<lparr>thread_stop_flag := True\<rparr>, w))))"

text \<open>
  The macro that would make \<open>stop_wait\<close> join the thread is misspelt, so the other branch is
  compiled: it does not wait, and takes the task away.
\<close>

definition stop_wait :: "(task_ref \<Rightarrow> 'w \<Rightarrow> 'w res) \<Rightarrow> CThread \<times> 'w \<Rightarrow> (int \<times> CThread \<times> 'w) res" where
  "stop_wait stop_task s =
     bindr (thread_stop stop_task s) (\<lambda>(_, t, w).
     bindr (reset_task t) (\<lambda>(_, t). Inr (0, t, w)))"

text \<open>The thread itself: \<open>task_exec\<close> are the runs of its task, as long as it is not stopped.\<close>

definition enter_run :: "CThread \<Rightarrow> CThread" where
  "enter_run t = t\<lparr>m_bRunning := True\<rparr>"

definition leave_run :: "CThread \<Rightarrow> CThread" where
  "leave_run t = t\<lparr>m_bRunning := False\<rparr>"

fun thread_loop :: "('w \<Rightarrow> CThread) \<Rightarrow> ('w \<Rightarrow> 'w res) list \<Rightarrow> 'w \<Rightarrow> 'w res" where
  "thread_loop thread [] w = (if thread_stop_flag (thread w) then Inr w else Inl Awaiting_os)"
| "thread_loop thread (task_exec # runs) w =
     (if thread_stop_flag (thread w) then Inr w
      else bindr (cmn_assert (m_pTask (thread w) \<noteq> None)) (\<lambda>_.
           bindr (task_exec w) (thread_loop thread runs)))"

definition thread_exec ::
  "('w \<Rightarrow> CThread) \<Rightarrow> (CThread \<Rightarrow> 'w \<Rightarrow> 'w) \<Rightarrow> ('w \<Rightarrow> 'w res) list \<Rightarrow> 'w \<Rightarrow> 'w res" where
  "thread_exec thread set_thread runs w =
     bindr (thread_loop thread runs (set_thread (enter_run (thread w)) w)) (\<lambda>w.
     Inr (set_thread (leave_run (thread w)) w))"

text \<open>A thread that was stopped with \<open>stop_wait\<close> has no task left to take away.\<close>

lemma stop_wait_takes_task:
  assumes "stop_wait stop_task (t, w) = Inr (code, t', w')"
  shows "m_pTask t' = None \<and> m_pTask t \<noteq> None \<and> reset_task t' = Inl Assert_failed"
  using assms
  by (auto simp: stop_wait_def thread_stop_def reset_task_def bindr_Inr_iff split: option.splits)

end
