(* ===== verification/StateMachine.thy ===== *)
theory StateMachine
  imports ErrInfo
begin

text \<open>
  \<open>CStateMachine<T>\<close> of \<open>libcomm_utils/src/utils/state_machine.h\<close> and \<open>.hpp\<close>: a table from
  a state and an event to an end state and a member function of the owner. \<open>post_evt\<close> looks
  the pair up, runs the function and moves to the end state unless the function returned a
  negative code. The owner is an object of any type whose current state is read by \<open>cur\<close>
  and written by \<open>set_cur\<close>; what the function gets through its \<open>void*\<close> is its argument
  of type \<open>'v\<close>. The lock is recursive and held for the whole of \<open>post_evt\<close>, so
  one call is one step.
\<close>

section \<open>The table\<close>

type_synonym ('o, 'v) transform = "int \<Rightarrow> int \<Rightarrow> int \<Rightarrow> 'v \<Rightarrow> 'o \<Rightarrow> (int \<times> 'o) res"

type_synonym ('o, 'v) elem = "int \<times> ('o, 'v) transform option"

type_synonym ('o, 'v) event_handler = "int \<rightharpoonup> (int \<rightharpoonup> ('o, 'v) elem)"

text \<open>\<open>m_evt_handler[iStartState]\<close> inserts an empty row when there is none.\<close>

definition evt_row :: "int \<Rightarrow> ('o, 'v) event_handler \<Rightarrow> (int \<rightharpoonup> ('o, 'v) elem)" where
  "evt_row s tab = (case tab s of None \<Rightarrow> Map.empty | Some row \<Rightarrow> row)"

definition reg_evt_state ::
  "int \<Rightarrow> int \<Rightarrow> int \<Rightarrow> ('o, 'v) transform option \<Rightarrow> ('o, 'v) event_handler \<Rightarrow>
   (int \<times> ('o, 'v) event_handler) res" where
  "reg_evt_state iStartState iEvt iEndState fn tab =
     (if evt_row iStartState tab iEvt \<noteq> None then Inl Assert_failed
      else Inr (0, tab(iStartState \<mapsto> (evt_row iStartState tab)(iEvt \<mapsto> (iEndState, fn)))))"

definition find_evt :: "('o, 'v) event_handler \<Rightarrow> int \<Rightarrow> int \<Rightarrow> ('o, 'v) elem option" where
  "find_evt tab s e = (case tab s of None \<Rightarrow> None | Some row \<Rightarrow> row e)"

definition post_evt ::
  "('o \<Rightarrow> int) \<Rightarrow> (int \<Rightarrow> 'o \<Rightarrow> 'o) \<Rightarrow> ('o, 'v) event_handler \<Rightarrow> int \<Rightarrow> 'v \<Rightarrow> 'o \<Rightarrow> (int \<times> 'o) res" where
  "post_evt cur set_cur tab iEvt pV t =
     (case find_evt tab (cur t) iEvt of
        None \<Rightarrow> Inr (-1, t)
      | Some (iEndState, fn) \<Rightarrow>
          (case fn of
             None \<Rightarrow> Inr (0, set_cur iEndState t)
           | Some h \<Rightarrow>
               bindr (h (cur t) iEvt iEndState pV t) (\<lambda>(code, t).
               if code < 0 then Inr (-2, t) else Inr (0, set_cur iEndState t))))"

text \<open>\<open>begin_lock_state\<close> returns a boolean and leaves the lock taken.\<close>

definition begin_lock_state :: "('o \<Rightarrow> int) \<Rightarrow> int \<Rightarrow> 'o \<Rightarrow> bool" where
  "begin_lock_state cur i32State t \<longleftrightarrow> cur t = i32State"

section \<open>Tables made by a list of registrations\<close>

text \<open>The constructors of the owners register their entries one after the other.\<close>

type_synonym ('o, 'v) registration = "int \<times> int \<times> int \<times> ('o, 'v) transform option"

fun reg_all :: "('o, 'v) registration list \<Rightarrow> ('o, 'v) event_handler \<Rightarrow> ('o, 'v) event_handler res" where
  "reg_all [] tab = Inr tab"
| "reg_all ((s, e, n, fn) # regs) tab =
     bindr (reg_evt_state s e n fn tab) (\<lambda>(code, tab). reg_all regs tab)"

definition table_of :: "('o, 'v) registration list \<Rightarrow> ('o, 'v) event_handler" where
  "table_of regs = (case reg_all regs Map.empty of Inr tab \<Rightarrow> tab | Inl h \<Rightarrow> Map.empty)"

definition reg_keys :: "('o, 'v) registration list \<Rightarrow> (int \<times> int) list" where
  "reg_keys regs = map (\<lambda>(s, e, n, fn). (s, e)) regs"

definition reg_find :: "('o, 'v) registration list \<Rightarrow> int \<Rightarrow> int \<Rightarrow> ('o, 'v) elem option" where
  "reg_find regs s e = map_of (map (\<lambda>(s, e, n, fn). ((s, e), (n, fn))) regs) (s, e)"

lemma reg_keys_simps [simp]:
  "reg_keys [] = []"
  "reg_keys ((s, e, n, fn) # regs) = (s, e) # reg_keys regs"
  by (simp_all add: reg_keys_def)

lemma reg_find_Cons:
  "reg_find ((s, e, n, fn) # regs) s' e' =
     (if (s', e') = (s, e) then Some (n, fn) else reg_find regs s' e')"
  by (simp add: reg_find_def)

lemma reg_find_Nil: "reg_find [] s e = None"
  by (simp add: reg_find_def)

lemma reg_find_None: "reg_find regs s e = None \<longleftrightarrow> (s, e) \<notin> set (reg_keys regs)"
  by (simp add: reg_find_def reg_keys_def map_of_eq_None_iff image_image case_prod_unfold)

lemma find_evt_row: "find_evt tab s e = evt_row s tab e"
  by (simp add: find_evt_def evt_row_def split: option.split)

lemma reg_evt_state_find:
  assumes "reg_evt_state s e n fn tab = Inr (code, tab')"
  shows "find_evt tab' s' e' = (if (s', e') = (s, e) then Some (n, fn) else find_evt tab s' e')"
  using assms
  by (auto simp: reg_evt_state_def find_evt_row evt_row_def split: if_splits option.splits)

lemma reg_all_find:
  assumes "distinct (reg_keys regs)"
    and "\<forall>(s, e) \<in> set (reg_keys regs). find_evt tab s e = None"
  shows "\<exists>tab'. reg_all regs tab = Inr tab' \<and>
    (\<forall>s e. find_evt tab' s e =
       (case reg_find regs s e of None \<Rightarrow> find_evt tab s e | Some x \<Rightarrow> Some x))"
  using assms
proof (induction regs arbitrary: tab)
  case Nil
  then show ?case by (simp add: reg_find_def)
next
  case (Cons r regs)
  obtain s e n fn where r: "r = (s, e, n, fn)" by (cases r)
  have "evt_row s tab e = None"
    using Cons.prems(2) r by (simp add: reg_keys_def find_evt_row)
  then obtain tab1 where tab1: "reg_evt_state s e n fn tab = Inr (0, tab1)"
    by (simp add: reg_evt_state_def)
  note find1 = reg_evt_state_find [OF tab1]
  have new: "(s, e) \<notin> set (reg_keys regs)" and dist: "distinct (reg_keys regs)"
    using Cons.prems(1) r by (simp_all add: reg_keys_def)
  have "\<forall>(s', e') \<in> set (reg_keys regs). find_evt tab1 s' e' = None"
    using Cons.prems(2) new r by (auto simp: find1)
  then obtain tab' where tab': "reg_all regs tab1 = Inr tab'"
    and find': "\<forall>s e. find_evt tab' s e =
      (case reg_find regs s e of None \<Rightarrow> find_evt tab1 s e | Some x \<Rightarrow> Some x)"
    using Cons.IH [OF dist] by blast
  have none: "reg_find regs s e = None"
    using new by (simp add: reg_find_None)
  have "\<forall>s' e'. find_evt tab' s' e' =
      (case reg_find (r # regs) s' e' of None \<Rightarrow> find_evt tab s' e' | Some x \<Rightarrow> Some x)"
    using find' find1 none r by (auto simp: reg_find_Cons split: option.split)
  then show ?case
    using tab1 tab' r by simp
qed

text \<open>
  With distinct keys no registration fails its assertion, and the table finds exactly what
  was registered.
\<close>

lemma find_table_of:
  assumes "distinct (reg_keys regs)"
  shows "find_evt (table_of regs) s e = reg_find regs s e"
proof -
  have "\<forall>(s, e) \<in> set (reg_keys regs). find_evt Map.empty s e = None"
    by (auto simp: find_evt_def)
  from reg_all_find [OF assms this] obtain tab' where "reg_all regs Map.empty = Inr tab'"
    and "\<forall>s e. find_evt tab' s e =
      (case reg_find regs s e of None \<Rightarrow> find_evt Map.empty s e | Some x \<Rightarrow> Some x)"
    by blast
  then show ?thesis
    by (cases "reg_find regs s e") (simp_all add: table_of_def find_evt_def [of Map.empty])
qed

lemma reg_all_duplicate:
  assumes "reg_all regs tab = Inr tab'"
  shows "distinct (reg_keys regs)"
proof -
  have "distinct (reg_keys regs) \<and> (\<forall>s e. (s, e) \<in> set (reg_keys regs) \<longrightarrow> find_evt tab s e = None)"
    using assms
  proof (induction regs arbitrary: tab)
    case Nil
    then show ?case by (simp add: reg_keys_def)
  next
    case (Cons r regs)
    obtain s e n fn where r: "r = (s, e, n, fn)" by (cases r)
    from Cons.prems r obtain code tab1 where
      tab1: "reg_evt_state s e n fn tab = Inr (code, tab1)" and rest: "reg_all regs tab1 = Inr tab'"
      by (auto simp: bindr_Inr_iff)
    have "find_evt tab s e = None"
      using tab1 by (cases "find_evt tab s e") (auto simp: reg_evt_state_def find_evt_row split: if_splits)
    then show ?case
      using Cons.IH [OF rest] r
      by (fastforce simp: reg_evt_state_find [OF tab1] split: if_splits)
  qed
  then show ?thesis ..
qed

text \<open>\<open>post_evt\<close> on a registered table, by the entry of the current state.\<close>

lemma post_evt_table:
  assumes "distinct (reg_keys regs)"
  shows "post_evt cur set_cur (table_of regs) e v t =
     (case reg_find regs (cur t) e of
        None \<Rightarrow> Inr (-1, t)
      | Some (n, None) \<Rightarrow> Inr (0, set_cur n t)
      | Some (n, Some h) \<Rightarrow>
          bindr (h (cur t) e n v t) (\<lambda>(code, t).
          if code < 0 then Inr (-2, t) else Inr (0, set_cur n t)))"
  by (simp add: post_evt_def find_table_of [OF assms] split: option.split)

section \<open>The contract of a machine\<close>

text \<open>
  A run of the machine: events are posted one after the other, in any order that \<open>ok\<close> allows.
\<close>

inductive posts ::
  "('o \<Rightarrow> int) \<Rightarrow> (int \<Rightarrow> 'o \<Rightarrow> 'o) \<Rightarrow> ('o, 'v) event_handler \<Rightarrow> ('o \<Rightarrow> int \<Rightarrow> 'v \<Rightarrow> bool) \<Rightarrow>
   'o \<Rightarrow> 'o \<Rightarrow> bool"
  for cur :: "'o \<Rightarrow> int" and set_cur :: "int \<Rightarrow> 'o \<Rightarrow> 'o" and tab :: "('o, 'v) event_handler"
    and ok :: "'o \<Rightarrow> int \<Rightarrow> 'v \<Rightarrow> bool" where
  posts_refl: "posts cur set_cur tab ok t t"
| posts_step: "posts cur set_cur tab ok t t1 \<Longrightarrow> ok t1 e v \<Longrightarrow>
    post_evt cur set_cur tab e v t1 = Inr (code, t2) \<Longrightarrow> posts cur set_cur tab ok t t2"

text \<open>What a call of \<open>post_evt\<close> that returns has done.\<close>

lemma post_evt_cases [consumes 2, case_names none silent refused moved]:
  assumes "distinct (reg_keys regs)" and "post_evt cur set_cur (table_of regs) e v t = Inr (code, t')"
  obtains (none) "reg_find regs (cur t) e = None" "code = -1" "t' = t"
  | (silent) n where "(cur t, e, n, None) \<in> set regs" "code = 0" "t' = set_cur n t"
  | (refused) n h c where "(cur t, e, n, Some h) \<in> set regs" "h (cur t) e n v t = Inr (c, t')" "c < 0" "code = -2"
  | (moved) n h c t1 where "(cur t, e, n, Some h) \<in> set regs" "h (cur t) e n v t = Inr (c, t1)" "0 \<le> c" "code = 0"
      "t' = set_cur n t1"
proof (cases "reg_find regs (cur t) e")
  case None
  have "code = -1" "t' = t"
    using assms None by (simp_all add: post_evt_table)
  then show ?thesis
    by (rule none [OF None])
next
  case (Some x)
  obtain n fn where x: "x = (n, fn)" by (cases x)
  have reg: "(cur t, e, n, fn) \<in> set regs"
    using Some x by (auto simp: reg_find_def dest!: map_of_SomeD)
  show ?thesis
  proof (cases fn)
    case None
    then have "code = 0" "t' = set_cur n t"
      using assms Some x by (simp_all add: post_evt_table)
    then show ?thesis
      by (rule silent [OF reg [unfolded None]])
  next
    fix h assume h: "fn = Some h"
    obtain c t1 where t1: "h (cur t) e n v t = Inr (c, t1)"
      "(code, t') = (if c < 0 then (-2, t1) else (0, set_cur n t1))"
      using assms Some x h by (auto simp: post_evt_table bindr_Inr_iff split: if_splits)
    show ?thesis
    proof (cases "c < 0")
      case True
      then show ?thesis
        using t1 by (intro refused [OF reg [unfolded h]]) auto
    next
      case False
      then show ?thesis
        using t1 by (intro moved [OF reg [unfolded h] t1(1)]) auto
    qed
  qed
qed

text \<open>
  The contract of an owner: its current state can be read back after it is set; an event that
  is \<open>ok\<close> in a state, on an object that satisfies \<open>inv\<close>, is handled by the registered function
  without ending the process, and the invariant holds again when the machine has moved. A
  client gets that the owner never leaves the declared states, keeps its invariant and never
  ends the process, whatever such events are posted.
\<close>

locale state_machine =
  fixes cur :: "'o \<Rightarrow> int"
    and set_cur :: "int \<Rightarrow> 'o \<Rightarrow> 'o"
    and regs :: "('o, 'v) registration list"
    and states :: "int set"
    and ok :: "'o \<Rightarrow> int \<Rightarrow> 'v \<Rightarrow> bool"
    and inv :: "'o \<Rightarrow> bool"
  assumes cur_set: "cur (set_cur s t) = s"
    and keys: "distinct (reg_keys regs)"
    and end_declared: "(s, e, n, fn) \<in> set regs \<Longrightarrow> n \<in> states"
    and moves: "(cur t, e, n, Some h) \<in> set regs \<Longrightarrow> inv t \<Longrightarrow> ok t e v \<Longrightarrow>
      (case h (cur t) e n v t of
         Inl f \<Rightarrow> False
       | Inr (code, t') \<Rightarrow> if code < 0 then cur t' \<in> states \<and> inv t' else inv (set_cur n t'))"
    and silent_moves: "(cur t, e, n, None) \<in> set regs \<Longrightarrow> inv t \<Longrightarrow> inv (set_cur n t)"
begin

lemma post_evt_keeps:
  assumes "post_evt cur set_cur (table_of regs) e v t = Inr (code, t')" and "cur t \<in> states" and "inv t"
    and "ok t e v"
  shows "cur t' \<in> states \<and> inv t'"
  using keys assms(1)
proof (cases rule: post_evt_cases)
  case none
  then show ?thesis
    using assms(2,3) by simp
next
  case (silent n)
  then show ?thesis
    using silent_moves assms(3) end_declared by (auto simp: cur_set)
next
  case (refused n h c)
  then show ?thesis
    using moves [OF refused(1) assms(3,4)] by simp
next
  case (moved n h c t1)
  then show ?thesis
    using moves [OF moved(1) assms(3,4)] end_declared by (auto simp: cur_set)
qed

lemma post_evt_runs:
  assumes "inv t" and "cur t \<in> states" and "ok t e v"
  shows "\<exists>code t'. post_evt cur set_cur (table_of regs) e v t = Inr (code, t') \<and> inv t' \<and> cur t' \<in> states"
proof -
  have "\<exists>code t'. post_evt cur set_cur (table_of regs) e v t = Inr (code, t')"
  proof (cases "reg_find regs (cur t) e")
    case None
    then show ?thesis
      by (simp add: post_evt_table [OF keys])
  next
    case (Some x)
    obtain n fn where x: "x = (n, fn)" by (cases x)
    have reg: "(cur t, e, n, fn) \<in> set regs"
      using Some x by (auto simp: reg_find_def dest!: map_of_SomeD)
    show ?thesis
    proof (cases fn)
      case None
      then show ?thesis
        using Some x by (simp add: post_evt_table [OF keys])
    next
      fix h assume h: "fn = Some h"
      obtain c t1 where "h (cur t) e n v t = Inr (c, t1)"
        using moves [OF reg [unfolded h] assms(1,3)] by (auto split: sum.splits)
      then show ?thesis
        using Some x h by (simp add: post_evt_table [OF keys])
    qed
  qed
  then show ?thesis
    using post_evt_keeps assms by blast
qed

lemma posts_keeps:
  "posts cur set_cur (table_of regs) ok t t' \<Longrightarrow> cur t \<in> states \<Longrightarrow> inv t \<Longrightarrow> cur t' \<in> states \<and> inv t'"
proof (induction rule: posts.induct)
  case (posts_refl t)
  then show ?case by simp
next
  case (posts_step t t1 e v code t2)
  then show ?case
    using post_evt_keeps by blast
qed

end

section \<open>Properties\<close>

text \<open>Registering entries one after the other succeeds exactly when no pair of a state and
  an event occurs twice (a second registration of a pair ends the process), and \<open>post_evt\<close> on
  the resulting table does what the entry of the current state says: \<open>-1\<close> and no change when
  there is none, otherwise the registered function is run, a negative code gives \<open>-2\<close> without
  the transition, and any other code moves to the entry's end state.\<close>

theorem registered_machine:
  fixes regs :: "('o, 'v) registration list"
  shows "((\<exists>tab. reg_all regs Map.empty = Inr tab) \<longleftrightarrow> distinct (reg_keys regs)) \<and>
    (distinct (reg_keys regs) \<longrightarrow>
      post_evt cur set_cur (table_of regs) e v t =
        (case reg_find regs (cur t) e of
           None \<Rightarrow> Inr (-1, t)
         | Some (n, None) \<Rightarrow> Inr (0, set_cur n t)
         | Some (n, Some h) \<Rightarrow>
             bindr (h (cur t) e n v t) (\<lambda>(code, t).
             if code < 0 then Inr (-2, t) else Inr (0, set_cur n t))))"
proof -
  have "\<forall>(s, e) \<in> set (reg_keys regs). find_evt Map.empty s e = None"
    by (auto simp: find_evt_def)
  then have "distinct (reg_keys regs) \<Longrightarrow> \<exists>tab. reg_all regs Map.empty = Inr tab"
    using reg_all_find by blast
  then have "(\<exists>tab. reg_all regs Map.empty = Inr tab) \<longleftrightarrow> distinct (reg_keys regs)"
    using reg_all_duplicate by blast
  then show ?thesis
    by (intro conjI impI post_evt_table)
qed

theorem registered_machine_witness:
  "(\<exists>tab. reg_all [(0, 1, 2, None), (2, 1, 0, None)] Map.empty = Inr (tab :: (int, unit) event_handler)) \<and>
   post_evt (\<lambda>t. t) (\<lambda>s t. s) (table_of [(0, 1, 2, None), (2, 1, 0, None)]) 1 () (2 :: int) = Inr (0, 0)"
proof (rule conjI)
  let ?regs = "[(0, 1, 2, None), (2, 1, 0, None)] :: (int, unit) registration list"
  note inst = registered_machine [of ?regs "\<lambda>t. t" "\<lambda>s t. s" 1 "()" "2 :: int"]
  have dist: "distinct (reg_keys ?regs)"
    by simp
  show "\<exists>tab. reg_all ?regs Map.empty = Inr tab"
    using inst [THEN conjunct1] dist by blast
  show "post_evt (\<lambda>t. t) (\<lambda>s t. s) (table_of ?regs) 1 () 2 = Inr (0, 0)"
    unfolding inst [THEN conjunct2, THEN mp, OF dist] by (simp add: reg_find_Cons)
qed

end
