(* ===== verification/Engine.thy ===== *)
theory Engine
  imports IoTask StateMachine
begin

text \<open>
  \<open>CSNEngine\<close> of \<open>libsmart_net/src/framework/sn_engine.h\<close> and \<open>.cpp\<close>: the threads with their
  tasks, started and stopped through a state machine, and the four calls by which endpoints and
  timers join and leave a task. An object is given to the task with the fewest objects and
  remembers it.
\<close>

section \<open>State\<close>

definition ES_STOPPED :: int where [simp]: "ES_STOPPED = 0"
definition ES_STARTED :: int where [simp]: "ES_STARTED = 1"
definition EE_START :: int where [simp]: "EE_START = 0"
definition EE_STOP :: int where [simp]: "EE_STOP = 1"
definition RET_ERR :: int where [simp]: "RET_ERR = -1"

record CSNEngine =
  eng_state :: int
  m_vecThreads :: "CThread list"
  m_vecInputTasks :: "CInputHandleTask list"
  m_vecOutputTasks :: "COutputHandleTask list"
  m_pMiscTask :: "CMiscTask option"

definition new_engine :: CSNEngine where
  "new_engine = \<lparr>eng_state = ES_STOPPED, m_vecThreads = [], m_vecInputTasks = [], m_vecOutputTasks = [],
     m_pMiscTask = None\<rparr>"

definition eng_set_cur :: "int \<Rightarrow> CSNEngine \<Rightarrow> CSNEngine" where
  "eng_set_cur s t = t\<lparr>eng_state := s\<rparr>"

text \<open>
  The parameters of \<open>start\<close> (\<open>SParas\<close>); for the task number \<open>i\<close> of its kind the kernel's answers
  to \<open>epoll_create\<close> and \<open>pthread_create\<close>; what uninitialised members hold.
\<close>

record start_arg =
  ui32InputThreadCnt :: u32
  ui32OutputThreadCnt :: u32
  i32IoEvtNotifier :: int
  i32MsTimeout :: int
  out_epoll :: "nat \<Rightarrow> int os_ret"
  out_pthread :: "nat \<Rightarrow> int"
  in_epoll :: "nat \<Rightarrow> int os_ret"
  in_pthread :: "nat \<Rightarrow> int"
  misc_pthread :: int
  raw_id :: int
  raw_running :: bool

section \<open>Starting\<close>

text \<open>A loop that returns at the first negative code.\<close>

fun until_error :: "('a \<Rightarrow> 'w \<Rightarrow> (int \<times> 'w) res) \<Rightarrow> 'a list \<Rightarrow> 'w \<Rightarrow> (int \<times> 'w) res" where
  "until_error body [] w = Inr (0, w)"
| "until_error body (x # xs) w =
     bindr (body x w) (\<lambda>(code, w). if code < 0 then Inr (code, w) else until_error body xs w)"

text \<open>
  One round of the loop over the output tasks. On an early return the task, and a thread that
  was made, are destroyed with their last smart pointer.
\<close>

definition start_output :: "start_arg \<Rightarrow> nat \<Rightarrow> CSNEngine \<Rightarrow> (int \<times> CSNEngine) res" where
  "start_output sp i t =
     bindr (output_init (i32IoEvtNotifier sp) (i32MsTimeout sp) (out_epoll sp i) (new_output_task (raw_id sp)))
       (\<lambda>(i32Ret, pOutputTask).
     if i32Ret < 0 then bindr (output_destroy pOutputTask) (\<lambda>_. Inr (RET_ERR, t))
     else bindr (assign_task (Output_task (length (m_vecOutputTasks t))) (new_thread (raw_running sp)))
            (\<lambda>(_, pThread).
          if thread_start (out_pthread sp i) pThread < 0
          then bindr (thread_destroy 0 pThread) (\<lambda>_. bindr (output_destroy pOutputTask) (\<lambda>_. Inr (RET_ERR, t)))
          else Inr (0, t\<lparr>m_vecOutputTasks := m_vecOutputTasks t @
                           [output_set_indx (int (length (m_vecOutputTasks t))) pOutputTask],
                         m_vecThreads := m_vecThreads t @ [pThread]\<rparr>)))"

definition start_input :: "start_arg \<Rightarrow> nat \<Rightarrow> CSNEngine \<Rightarrow> (int \<times> CSNEngine) res" where
  "start_input sp i t =
     bindr (input_init (i32IoEvtNotifier sp) (i32MsTimeout sp) (in_epoll sp i) new_input_task)
       (\<lambda>(i32Ret, pInputTask).
     if i32Ret < 0 then bindr (input_destroy pInputTask) (\<lambda>_. Inr (RET_ERR, t))
     else bindr (assign_task (Input_task (length (m_vecInputTasks t))) (new_thread (raw_running sp)))
            (\<lambda>(_, pThread).
          if thread_start (in_pthread sp i) pThread < 0
          then bindr (thread_destroy 0 pThread) (\<lambda>_. bindr (input_destroy pInputTask) (\<lambda>_. Inr (RET_ERR, t)))
          else Inr (0, t\<lparr>m_vecInputTasks := m_vecInputTasks t @
                           [input_set_id (int (length (m_vecInputTasks t))) pInputTask],
                         m_vecThreads := m_vecThreads t @ [pThread]\<rparr>)))"

definition start_misc :: "start_arg \<Rightarrow> CSNEngine \<Rightarrow> (int \<times> CSNEngine) res" where
  "start_misc sp t =
     (case misc_init new_misc_task of (i32Ret, misc) \<Rightarrow>
      let t = t\<lparr>m_pMiscTask := Some misc\<rparr> in
      if i32Ret < 0 then Inr (RET_ERR, t)
      else bindr (assign_task Misc_task (new_thread (raw_running sp))) (\<lambda>(_, pThread).
           if thread_start (misc_pthread sp) pThread < 0
           then bindr (thread_destroy 0 pThread) (\<lambda>_. Inr (RET_ERR, t))
           else Inr (0, t\<lparr>m_vecThreads := m_vecThreads t @ [pThread]\<rparr>)))"

type_synonym eng_handler = "(CSNEngine, start_arg option) transform"

definition starting :: eng_handler where
  "starting i32CurState i32Evt i32NextState pVoid t =
     bindr (deref pVoid) (\<lambda>sp.
     if 0 = ui32InputThreadCnt sp \<or> 0 = ui32OutputThreadCnt sp \<or> 0 = i32IoEvtNotifier sp then Inr (RET_ERR, t)
     else bindr (until_error (start_output sp) [0..<unat (ui32OutputThreadCnt sp)] t) (\<lambda>(code, t).
          if code < 0 then Inr (code, t)
          else bindr (until_error (start_input sp) [0..<unat (ui32InputThreadCnt sp)] t) (\<lambda>(code, t).
               if code < 0 then Inr (code, t) else start_misc sp t)))"

section \<open>Stopping\<close>

text \<open>What \<open>stop\<close> of a task does, for a task held by a thread.\<close>

definition eng_stop_task :: "task_ref \<Rightarrow> CSNEngine \<Rightarrow> CSNEngine res" where
  "eng_stop_task r t =
     (case r of
        Input_task i \<Rightarrow>
          bindr (vec_get (m_vecInputTasks t) i) (\<lambda>k. bindr (task_stop (in_stop k)) (\<lambda>b.
          Inr (t\<lparr>m_vecInputTasks := (m_vecInputTasks t)[i := k\<lparr>in_stop := b\<rparr>]\<rparr>)))
      | Output_task i \<Rightarrow>
          bindr (vec_get (m_vecOutputTasks t) i) (\<lambda>k. bindr (task_stop (out_stop k)) (\<lambda>b.
          Inr (t\<lparr>m_vecOutputTasks := (m_vecOutputTasks t)[i := k\<lparr>out_stop := b\<rparr>]\<rparr>)))
      | Misc_task \<Rightarrow>
          bindr (deref (m_pMiscTask t)) (\<lambda>k. bindr (task_stop (misc_stop k)) (\<lambda>b.
          Inr (t\<lparr>m_pMiscTask := Some (k\<lparr>misc_stop := b\<rparr>)\<rparr>))))"

definition stop_thread :: "nat \<Rightarrow> CSNEngine \<Rightarrow> CSNEngine res" where
  "stop_thread i t =
     bindr (vec_get (m_vecThreads t) i) (\<lambda>pThread.
     bindr (stop_wait eng_stop_task (pThread, t)) (\<lambda>(_, pThread, t).
     Inr (t\<lparr>m_vecThreads := (m_vecThreads t)[i := pThread]\<rparr>)))"

definition reset_thread :: "nat \<Rightarrow> CSNEngine \<Rightarrow> CSNEngine res" where
  "reset_thread i t =
     bindr (vec_get (m_vecThreads t) i) (\<lambda>pThread.
     bindr (reset_task pThread) (\<lambda>(_, pThread).
     Inr (t\<lparr>m_vecThreads := (m_vecThreads t)[i := pThread]\<rparr>)))"

definition stopping :: eng_handler where
  "stopping i32CurState i32Evt i32NextState pVoid t =
     bindr (for_each stop_thread [0..<length (m_vecThreads t)] t) (\<lambda>t.
     bindr (for_each reset_thread [0..<length (m_vecThreads t)] t) (\<lambda>t.
     Inr (CMNERR_SUC, t\<lparr>m_vecThreads := [], m_vecInputTasks := [], m_vecOutputTasks := [], m_pMiscTask := None\<rparr>)))"

definition eng_regs :: "(CSNEngine, start_arg option) registration list" where
  "eng_regs =
    [(ES_STOPPED, EE_START, ES_STARTED, Some starting),
     (ES_STARTED, EE_STOP, ES_STOPPED, Some stopping)]"

lemma eng_keys: "distinct (reg_keys eng_regs)"
  by (simp add: eng_regs_def)

definition eng_post :: "int \<Rightarrow> start_arg option \<Rightarrow> CSNEngine \<Rightarrow> (int \<times> CSNEngine) res" where
  "eng_post = post_evt eng_state eng_set_cur (table_of eng_regs)"

definition eng_start :: "start_arg \<Rightarrow> CSNEngine \<Rightarrow> (int \<times> CSNEngine) res" where
  "eng_start sp t = eng_post EE_START (Some sp) t"

definition eng_stop :: "CSNEngine \<Rightarrow> (int \<times> CSNEngine) res" where
  "eng_stop t = eng_post EE_STOP None t"

section \<open>Joining and leaving\<close>

text \<open>
  The search for a task: the first one without objects ends it, else the first of those with the
  fewest. \<open>cnt\<close> is \<open>get_ioobj_cnt\<close>, read as a signed number.
\<close>

fun pick_loop :: "('t \<Rightarrow> int res) \<Rightarrow> 't list \<Rightarrow> nat \<Rightarrow> int \<Rightarrow> nat \<Rightarrow> nat res" where
  "pick_loop cnt [] i i32MinCnt chosen = Inr chosen"
| "pick_loop cnt (t # ts) i i32MinCnt chosen =
     bindr (cnt t) (\<lambda>i32Tmp.
     if i32Tmp = 0 then Inr i
     else if i32Tmp < i32MinCnt then pick_loop cnt ts (Suc i) i32Tmp i
     else pick_loop cnt ts (Suc i) i32MinCnt chosen)"

definition pick_task :: "('t \<Rightarrow> int res) \<Rightarrow> 't list \<Rightarrow> nat res" where
  "pick_task cnt ts =
     (case ts of
        [] \<Rightarrow> Inl Out_of_bounds
      | t # _ \<Rightarrow> bindr (cnt t) (\<lambda>i32MinCnt. pick_loop cnt ts 0 i32MinCnt 0))"

definition input_cnt :: "CInputHandleTask \<Rightarrow> int res" where
  "input_cnt t = bindr (input_get_ioobj_cnt t) (\<lambda>n. Inr (sint n))"

text \<open>
  \<open>begin_lock_state\<close> returns a truth value, which is never negative, so the test of the state
  never stops a call. \<open>objs\<close> are the objects in memory.
\<close>

definition eng_locked :: "CSNEngine \<Rightarrow> bool" where
  "eng_locked t \<longleftrightarrow> \<not> (of_bool (begin_lock_state eng_state ES_STARTED t) < (0 :: int))"

definition eng_add_endpoint ::
  "nat option \<Rightarrow> int \<Rightarrow> (nat \<Rightarrow> IIoObj) \<times> CSNEngine \<Rightarrow> (int \<times> (nat \<Rightarrow> IIoObj) \<times> CSNEngine) res" where
  "eng_add_endpoint pIoObj i32IoType s =
     (case s of (objs, t) \<Rightarrow>
      if pIoObj = None then Inr (CMNERR_COMMON_ERR, objs, t)
      else if \<not> eng_locked t then Inr (CMNERR_COMMON_ERR, objs, t)
      else
      bindr (if EIT_INPUT_TYPE = i32IoType
             then bindr (cmn_assert (m_vecInputTasks t \<noteq> [])) (\<lambda>_.
                  bindr (pick_task input_cnt (m_vecInputTasks t)) (\<lambda>i.
                  bindr (vec_get (m_vecInputTasks t) i) (\<lambda>pInputTask.
                  bindr (input_add_io_obj pIoObj objs pInputTask) (\<lambda>(_, objs, pInputTask).
                  Inr (objs, t\<lparr>m_vecInputTasks := (m_vecInputTasks t)[i := pInputTask]\<rparr>)))))
             else Inr (objs, t)) (\<lambda>(objs, t).
      bindr (if EIT_OUTPUT_TYPE = i32IoType
             then bindr (pick_task output_get_ioobj_cnt (m_vecOutputTasks t)) (\<lambda>i.
                  bindr (vec_get (m_vecOutputTasks t) i) (\<lambda>pOutputTask.
                  bindr (output_add_io_obj pIoObj objs pOutputTask) (\<lambda>(_, objs, pOutputTask).
                  Inr (objs, t\<lparr>m_vecOutputTasks := (m_vecOutputTasks t)[i := pOutputTask]\<rparr>))))
             else Inr (objs, t)) (\<lambda>(objs, t).
      Inr (CMNERR_SUC, objs, t))))"

text \<open>On its way out \<open>del_endpoint\<close> has no \<open>return\<close>: then there is no value.\<close>

definition eng_del_endpoint ::
  "nat option \<Rightarrow> int \<Rightarrow> (nat \<Rightarrow> IIoObj) \<times> CSNEngine \<Rightarrow> (int option \<times> (nat \<Rightarrow> IIoObj) \<times> CSNEngine) res" where
  "eng_del_endpoint pIoObj i32IoType s =
     (case s of (objs, t) \<Rightarrow>
      case pIoObj of
        None \<Rightarrow> Inr (Some CMNERR_COMMON_ERR, objs, t)
      | Some p \<Rightarrow>
      if \<not> eng_locked t then Inr (Some CMNERR_COMMON_ERR, objs, t)
      else
      bindr (if EIT_INPUT_TYPE = i32IoType
             then bindr (get_task_id EIT_INPUT_TYPE (objs p)) (\<lambda>i32Id.
                  if i32Id \<ge> 0
                  then bindr (vec_get (m_vecInputTasks t) (nat i32Id)) (\<lambda>k.
                       bindr (input_del_io_obj pIoObj objs k) (\<lambda>(_, k).
                       Inr (t\<lparr>m_vecInputTasks := (m_vecInputTasks t)[nat i32Id := k]\<rparr>)))
                  else Inr t)
             else Inr t) (\<lambda>t.
      bindr (if EIT_OUTPUT_TYPE = i32IoType
             then bindr (get_task_id EIT_OUTPUT_TYPE (objs p)) (\<lambda>i32Id.
                  if i32Id \<ge> 0
                  then bindr (vec_get (m_vecOutputTasks t) (nat i32Id)) (\<lambda>k.
                       bindr (output_del_io_obj pIoObj objs k) (\<lambda>(_, k).
                       Inr (t\<lparr>m_vecOutputTasks := (m_vecOutputTasks t)[nat i32Id := k]\<rparr>)))
                  else Inr t)
             else Inr t) (\<lambda>t.
      Inr (None, objs, t))))"

definition eng_add_timer :: "nat option \<Rightarrow> CSNEngine \<Rightarrow> (int option \<times> CSNEngine) res" where
  "eng_add_timer pTimerObj t =
     (case pTimerObj of
        None \<Rightarrow> Inl Assert_failed
      | Some p \<Rightarrow>
          if \<not> eng_locked t then Inr (Some CMNERR_COMMON_ERR, t)
          else bindr (deref (m_pMiscTask t)) (\<lambda>m.
               bindr (misc_add_timer p m) (\<lambda>(_, m). Inr (None, t\<lparr>m_pMiscTask := Some m\<rparr>))))"

definition eng_del_timer :: "nat option \<Rightarrow> CSNEngine \<Rightarrow> (int option \<times> CSNEngine) res" where
  "eng_del_timer pTimerObj t =
     (case pTimerObj of
        None \<Rightarrow> Inl Assert_failed
      | Some p \<Rightarrow>
          if \<not> eng_locked t then Inr (Some CMNERR_COMMON_ERR, t)
          else bindr (deref (m_pMiscTask t)) (\<lambda>m.
               bindr (misc_del_timer p m) (\<lambda>(_, m). Inr (None, t\<lparr>m_pMiscTask := Some m\<rparr>))))"

lemma eng_locked [simp]: "eng_locked t"
  by (simp add: eng_locked_def)

section \<open>The tasks by type\<close>

text \<open>The notifier of the task number \<open>i\<close> of a type, for reasoning about both types at once.\<close>

definition eng_tasks :: "int \<Rightarrow> CSNEngine \<Rightarrow> nat" where
  "eng_tasks ty t = (if ty = EIT_INPUT_TYPE then length (m_vecInputTasks t) else length (m_vecOutputTasks t))"

definition eng_epoll :: "int \<Rightarrow> nat \<Rightarrow> CSNEngine \<Rightarrow> CEpoll option" where
  "eng_epoll ty i t =
     (if ty = EIT_INPUT_TYPE then in_notifier (m_vecInputTasks t ! i) else out_notifier (m_vecOutputTasks t ! i))"

definition eng_set_epoll :: "int \<Rightarrow> nat \<Rightarrow> CEpoll \<Rightarrow> CSNEngine \<Rightarrow> CSNEngine" where
  "eng_set_epoll ty i n t =
     (if ty = EIT_INPUT_TYPE
      then t\<lparr>m_vecInputTasks := (m_vecInputTasks t)[i := (m_vecInputTasks t ! i)\<lparr>in_notifier := Some n\<rparr>]\<rparr>
      else t\<lparr>m_vecOutputTasks := (m_vecOutputTasks t)[i := (m_vecOutputTasks t ! i)\<lparr>out_notifier := Some n\<rparr>]\<rparr>)"

definition io_type :: "int \<Rightarrow> bool" where
  "io_type ty \<longleftrightarrow> ty = EIT_INPUT_TYPE \<or> ty = EIT_OUTPUT_TYPE"

text \<open>A running engine: every task has its notifier, of its type, and knows its own number.\<close>

definition eng_good :: "CSNEngine \<Rightarrow> bool" where
  "eng_good t \<longleftrightarrow>
     m_vecInputTasks t \<noteq> [] \<and> m_vecOutputTasks t \<noteq> [] \<and>
     (\<forall>i < length (m_vecInputTasks t). in_task_id (m_vecInputTasks t ! i) = int i \<and>
       (\<exists>n. in_notifier (m_vecInputTasks t ! i) = Some n \<and> m_i32IoType n = EIT_INPUT_TYPE)) \<and>
     (\<forall>i < length (m_vecOutputTasks t). out_task_id (m_vecOutputTasks t ! i) = int i \<and>
       (\<exists>n. out_notifier (m_vecOutputTasks t ! i) = Some n \<and> m_i32IoType n = EIT_OUTPUT_TYPE))"

lemma eng_good_epoll:
  assumes "eng_good t" and "io_type ty" and "i < eng_tasks ty t"
  obtains n where "eng_epoll ty i t = Some n" and "m_i32IoType n = ty"
proof -
  have "\<exists>n. eng_epoll ty i t = Some n \<and> m_i32IoType n = ty"
    using assms by (auto simp: eng_good_def io_type_def eng_tasks_def eng_epoll_def)
  then show ?thesis
    using that by blast
qed

lemma eng_good_tasks: "eng_good t \<Longrightarrow> 0 < eng_tasks ty t"
  by (auto simp: eng_good_def eng_tasks_def)

lemma eng_set_epoll_simps [simp]:
  "eng_tasks ty' (eng_set_epoll ty i n t) = eng_tasks ty' t"
  "io_type ty \<Longrightarrow> i < eng_tasks ty t \<Longrightarrow> eng_epoll ty i (eng_set_epoll ty i n t) = Some n"
  "io_type ty \<Longrightarrow> io_type ty' \<Longrightarrow> (ty', j) \<noteq> (ty, i) \<Longrightarrow> eng_epoll ty' j (eng_set_epoll ty i n t) = eng_epoll ty' j t"
  "eng_state (eng_set_epoll ty i n t) = eng_state t"
  "m_pMiscTask (eng_set_epoll ty i n t) = m_pMiscTask t"
  "m_vecThreads (eng_set_epoll ty i n t) = m_vecThreads t"
  by (auto simp: eng_set_epoll_def eng_tasks_def eng_epoll_def io_type_def)

lemma eng_good_set:
  assumes "eng_good t" and "io_type ty" and "i < eng_tasks ty t" and "m_i32IoType n = ty"
  shows "eng_good (eng_set_epoll ty i n t)"
  using assms by (auto simp: eng_good_def eng_set_epoll_def io_type_def eng_tasks_def nth_list_update)

section \<open>The choice of a task\<close>

lemma pick_loop_runs:
  assumes "\<forall>t \<in> set ts. \<exists>k. cnt t = Inr k"
  shows "\<exists>r. pick_loop cnt ts i m c = Inr r \<and> (r = c \<or> i \<le> r \<and> r < i + length ts)"
  using assms
proof (induction ts arbitrary: i m c)
  case Nil
  then show ?case by simp
next
  case (Cons t ts)
  obtain k where k: "cnt t = Inr k"
    using Cons.prems by auto
  consider "k = 0" | "k \<noteq> 0" "k < m" | "k \<noteq> 0" "\<not> k < m"
    by blast
  then show ?case
  proof cases
    case 1
    then show ?thesis
      using k by simp
  next
    case 2
    obtain r where "pick_loop cnt ts (Suc i) k i = Inr r" "r = i \<or> Suc i \<le> r \<and> r < Suc i + length ts"
      using Cons.IH [of "Suc i" k i] Cons.prems by auto
    then show ?thesis
      using k 2 by auto
  next
    case 3
    obtain r where "pick_loop cnt ts (Suc i) m c = Inr r" "r = c \<or> Suc i \<le> r \<and> r < Suc i + length ts"
      using Cons.IH [of "Suc i" m c] Cons.prems by auto
    then show ?thesis
      using k 3 by auto
  qed
qed

lemma pick_task_runs:
  assumes "\<forall>t \<in> set ts. \<exists>k. cnt t = Inr k" and "ts \<noteq> []"
  shows "\<exists>r. pick_task cnt ts = Inr r \<and> r < length ts"
proof -
  obtain t rest where ts: "ts = t # rest"
    using assms(2) by (cases ts) auto
  obtain m where m: "cnt t = Inr m"
    using assms(1) ts by auto
  obtain r where "pick_loop cnt ts 0 m 0 = Inr r" "r = 0 \<or> 0 \<le> r \<and> r < 0 + length ts"
    using pick_loop_runs [OF assms(1)] by blast
  then show ?thesis
    using m ts by (auto simp: pick_task_def)
qed

text \<open>With counts that are not negative the loop finds the first task with the fewest objects.\<close>

lemma pick_loop_least:
  assumes "\<And>j. j < length us \<Longrightarrow> cnt (us ! j) = Inr (k j) \<and> 0 \<le> k j"
    and "i \<le> length us" and "c < length us" and "m = k c"
    and "\<And>j. j < i \<Longrightarrow> k c \<le> k j" and "\<And>j. j < i \<Longrightarrow> 0 < k j" and "c < i \<or> i = 0 \<and> c = 0"
  shows "\<exists>r. pick_loop cnt (drop i us) i m c = Inr r \<and> r < length us \<and> (\<forall>j < length us. k r \<le> k j)"
  using assms(2-7)
proof (induction "length us - i" arbitrary: i c m)
  case 0
  then have "drop i us = []" "i = length us"
    by simp_all
  then show ?case
    using 0 by auto
next
  case (Suc n)
  then have i: "i < length us" and drop: "drop i us = us ! i # drop (Suc i) us"
    by (simp_all add: Cons_nth_drop_Suc)
  note k = assms(1) [OF i]
  consider "k i = 0" | "k i \<noteq> 0" "k i < m" | "k i \<noteq> 0" "m \<le> k i"
    by linarith
  then show ?case
  proof cases
    case 1
    then show ?thesis
      using k i drop assms(1) by auto
  next
    case 2
    have before: "k i \<le> k j" "0 < k j" if "j < Suc i" for j
      using 2 Suc.prems(3,4,5) that k less_antisym [of j i] by (fastforce simp: le_less)+
    have "\<exists>r. pick_loop cnt (drop (Suc i) us) (Suc i) (k i) i = Inr r \<and> r < length us \<and> (\<forall>j < length us. k r \<le> k j)"
      using before i by (intro Suc.hyps(1)) (use Suc.hyps(2) in auto)
    then show ?thesis
      using 2 k drop by simp
  next
    case 3
    have before: "k c \<le> k j" "0 < k j" if "j < Suc i" for j
      using 3 Suc.prems(3,4,5) that k less_antisym [of j i] by (fastforce simp: le_less)+
    have "\<exists>r. pick_loop cnt (drop (Suc i) us) (Suc i) m c = Inr r \<and> r < length us \<and> (\<forall>j < length us. k r \<le> k j)"
      using before i Suc.prems(2,3,6) by (intro Suc.hyps(1)) (use Suc.hyps(2) in auto)
    then show ?thesis
      using 3 k drop by simp
  qed
qed

lemma pick_task_least:
  assumes "us \<noteq> []" and "\<And>j. j < length us \<Longrightarrow> cnt (us ! j) = Inr (k j) \<and> 0 \<le> k j"
  shows "\<exists>r. pick_task cnt us = Inr r \<and> r < length us \<and> (\<forall>j < length us. k r \<le> k j)"
proof -
  have "cnt (us ! 0) = Inr (k 0)"
    using assms by simp
  moreover have "\<exists>r. pick_loop cnt (drop 0 us) 0 (k 0) 0 = Inr r \<and> r < length us \<and> (\<forall>j < length us. k r \<le> k j)"
    using assms by (intro pick_loop_least) auto
  ultimately show ?thesis
    using assms(1) by (cases us) (auto simp: pick_task_def)
qed

text \<open>The task an object is given to, and the object that remembers it.\<close>

definition eng_pick :: "int \<Rightarrow> CSNEngine \<Rightarrow> nat res" where
  "eng_pick ty t =
     (if ty = EIT_INPUT_TYPE then pick_task input_cnt (m_vecInputTasks t)
      else pick_task output_get_ioobj_cnt (m_vecOutputTasks t))"

definition with_task :: "int \<Rightarrow> nat \<Rightarrow> IIoObj \<Rightarrow> IIoObj" where
  "with_task ty i obj =
     (if ty = EIT_INPUT_TYPE then obj\<lparr>m_i32InputTaskId := int i\<rparr> else obj\<lparr>m_i32OutputTaskId := int i\<rparr>)"

lemma with_task_simps [simp]:
  "get_task_id ty (with_task ty i obj) = (if io_type ty then Inr (int i) else Inl Assert_failed)"
  "io_type ty \<Longrightarrow> io_type ty' \<Longrightarrow> ty' \<noteq> ty \<Longrightarrow> get_task_id ty' (with_task ty i obj) = get_task_id ty' obj"
  "get_io_evt ty' (with_task ty i obj) = get_io_evt ty' obj"
  by (auto simp: with_task_def get_task_id_def get_io_evt_def io_type_def)

lemma eng_cnts:
  assumes "eng_good t"
  shows "j < length (m_vecInputTasks t) \<Longrightarrow> \<exists>n. in_notifier (m_vecInputTasks t ! j) = Some n \<and>
      input_cnt (m_vecInputTasks t ! j) = Inr (sint (epoll_get_ioobj_cnt n))"
    and "j < length (m_vecOutputTasks t) \<Longrightarrow> \<exists>n. out_notifier (m_vecOutputTasks t ! j) = Some n \<and>
      output_get_ioobj_cnt (m_vecOutputTasks t ! j) = Inr (sint (epoll_get_ioobj_cnt n))"
  using assms
  by (auto simp: eng_good_def input_cnt_def input_get_ioobj_cnt_def output_get_ioobj_cnt_def)

lemma eng_pick_runs:
  assumes "eng_good t" and "io_type ty"
  shows "\<exists>i. eng_pick ty t = Inr i \<and> i < eng_tasks ty t"
proof -
  have "\<forall>k \<in> set (m_vecInputTasks t). \<exists>c. input_cnt k = Inr c"
    "\<forall>k \<in> set (m_vecOutputTasks t). \<exists>c. output_get_ioobj_cnt k = Inr c"
    using eng_cnts [OF assms(1)] by (fastforce simp: in_set_conv_nth)+
  then show ?thesis
    using assms pick_task_runs [of "m_vecInputTasks t" input_cnt]
      pick_task_runs [of "m_vecOutputTasks t" output_get_ioobj_cnt]
    by (auto simp: eng_pick_def eng_tasks_def io_type_def eng_good_def)
qed

lemma eng_add_runs:
  assumes "eng_good t" and "io_type ty" and "get_io_evt ty (objs p) = Inr e" and "e \<noteq> 0"
    and "eng_pick ty t = Inr i" and "i < eng_tasks ty t" and "eng_epoll ty i t = Some n"
  shows "eng_add_endpoint (Some p) ty (objs, t) =
    Inr (CMNERR_SUC, objs(p := with_task ty i (objs p)),
         eng_set_epoll ty i (n\<lparr>m_vecIoObjsAddCache := m_vecIoObjsAddCache n @ [p]\<rparr>) t)"
proof -
  have n: "m_i32IoType n = ty"
    using eng_good_epoll [OF assms(1,2,6)] assms(7) by auto
  show ?thesis
  proof (cases "ty = EIT_INPUT_TYPE")
    case True
    then show ?thesis
      using assms n by (auto simp: eng_add_endpoint_def eng_pick_def eng_tasks_def eng_epoll_def vec_get_def
          input_add_io_obj_def set_task_id_def Let_def epoll_add_ioobj_def get_io_evt_def with_task_def
          eng_set_epoll_def eng_good_def)
  next
    case False
    then have "ty = EIT_OUTPUT_TYPE"
      using assms(2) by (simp add: io_type_def)
    then show ?thesis
      using assms n by (auto simp: eng_add_endpoint_def eng_pick_def eng_tasks_def eng_epoll_def vec_get_def
          output_add_io_obj_def set_task_id_def Let_def epoll_add_ioobj_def get_io_evt_def with_task_def
          eng_set_epoll_def eng_good_def)
  qed
qed

lemma eng_del_runs:
  assumes "eng_good t" and "io_type ty" and "get_io_evt ty (objs p) = Inr e" and "e \<noteq> 0"
    and "get_task_id ty (objs p) = Inr (int i)" and "i < eng_tasks ty t" and "eng_epoll ty i t = Some n"
  shows "eng_del_endpoint (Some p) ty (objs, t) =
    Inr (None, objs, eng_set_epoll ty i (n\<lparr>m_vecIoObjsDelCache := m_vecIoObjsDelCache n @ [p]\<rparr>) t)"
proof -
  have n: "m_i32IoType n = ty"
    using eng_good_epoll [OF assms(1,2,6)] assms(7) by auto
  show ?thesis
  proof (cases "ty = EIT_INPUT_TYPE")
    case True
    then show ?thesis
      using assms n by (auto simp: eng_del_endpoint_def eng_tasks_def eng_epoll_def vec_get_def
          input_del_io_obj_def epoll_del_ioobj_def eng_set_epoll_def)
  next
    case False
    then have "ty = EIT_OUTPUT_TYPE"
      using assms(2) by (simp add: io_type_def)
    then show ?thesis
      using assms n by (auto simp: eng_del_endpoint_def eng_tasks_def eng_epoll_def vec_get_def
          output_del_io_obj_def epoll_del_ioobj_def eng_set_epoll_def)
  qed
qed

text \<open>How many objects a notifier has, counting those that wait to join or to leave.\<close>

definition epoll_load :: "CEpoll \<Rightarrow> int" where
  "epoll_load n = int (card (m_setIoObjs n)) + int (length (m_vecIoObjsAddCache n)) -
     int (length (m_vecIoObjsDelCache n))"

lemma epoll_cnt_load:
  assumes "0 \<le> epoll_load n" and "epoll_load n < 2 ^ 31"
  shows "sint (epoll_get_ioobj_cnt n) = epoll_load n"
proof -
  have "epoll_get_ioobj_cnt n = (word_of_int (epoll_load n) :: u32)"
    by (simp add: epoll_get_ioobj_cnt_def epoll_load_def)
  then show ?thesis
    using assms by (simp add: sint_word_ariths signed_take_bit_int_eq_self signed_of_int)
qed

lemma eng_pick_least:
  assumes "eng_good t" and "io_type ty"
    and "\<And>j n. j < eng_tasks ty t \<Longrightarrow> eng_epoll ty j t = Some n \<Longrightarrow> 0 \<le> epoll_load n \<and> epoll_load n < 2 ^ 31"
  shows "\<exists>i. eng_pick ty t = Inr i \<and> i < eng_tasks ty t \<and>
    (\<forall>j < eng_tasks ty t. epoll_load (the (eng_epoll ty i t)) \<le> epoll_load (the (eng_epoll ty j t)))"
proof (cases "ty = EIT_INPUT_TYPE")
  case True
  let ?k = "\<lambda>j. epoll_load (the (in_notifier (m_vecInputTasks t ! j)))"
  have "input_cnt (m_vecInputTasks t ! j) = Inr (?k j) \<and> 0 \<le> ?k j" if "j < length (m_vecInputTasks t)" for j
    using eng_cnts(1) [OF assms(1) that] assms(3) [of j] that True
    by (auto simp: eng_tasks_def eng_epoll_def epoll_cnt_load)
  then show ?thesis
    using pick_task_least [of "m_vecInputTasks t" input_cnt ?k] assms(1) True
    by (auto simp: eng_pick_def eng_tasks_def eng_epoll_def eng_good_def)
next
  case False
  let ?k = "\<lambda>j. epoll_load (the (out_notifier (m_vecOutputTasks t ! j)))"
  have "output_get_ioobj_cnt (m_vecOutputTasks t ! j) = Inr (?k j) \<and> 0 \<le> ?k j" if "j < length (m_vecOutputTasks t)" for j
    using eng_cnts(2) [OF assms(1) that] assms(3) [of j] that False
    by (auto simp: eng_tasks_def eng_epoll_def epoll_cnt_load)
  then show ?thesis
    using pick_task_least [of "m_vecOutputTasks t" output_get_ioobj_cnt ?k] assms(1) False
    by (auto simp: eng_pick_def eng_tasks_def eng_epoll_def eng_good_def)
qed

text \<open>C34: In a running engine an object joins the task of its type that has the fewest objects,
  counting those that wait to join and not those that wait to leave; it remembers that task, only
  the task's cache changes, and leaving goes to the same task, whatever was done to the others.\<close>

theorem engine_add_least_loaded:
  assumes "eng_good t" and "io_type ty" and "get_io_evt ty (objs p) = Inr e" and "e \<noteq> 0"
    and "\<And>j n. j < eng_tasks ty t \<Longrightarrow> eng_epoll ty j t = Some n \<Longrightarrow> 0 \<le> epoll_load n \<and> epoll_load n < 2 ^ 31"
  shows "\<exists>i n objs' t'. eng_add_endpoint (Some p) ty (objs, t) = Inr (CMNERR_SUC, objs', t') \<and>
    i < eng_tasks ty t \<and> eng_epoll ty i t = Some n \<and>
    (\<forall>j < eng_tasks ty t. epoll_load n \<le> epoll_load (the (eng_epoll ty j t))) \<and>
    t' = eng_set_epoll ty i (n\<lparr>m_vecIoObjsAddCache := m_vecIoObjsAddCache n @ [p]\<rparr>) t \<and>
    (\<forall>u m. eng_good u \<and> eng_tasks ty u = eng_tasks ty t \<and> eng_epoll ty i u = Some m \<longrightarrow>
       eng_del_endpoint (Some p) ty (objs', u) =
         Inr (None, objs', eng_set_epoll ty i (m\<lparr>m_vecIoObjsDelCache := m_vecIoObjsDelCache m @ [p]\<rparr>) u))"
proof -
  obtain i where i: "eng_pick ty t = Inr i" "i < eng_tasks ty t"
    "\<forall>j < eng_tasks ty t. epoll_load (the (eng_epoll ty i t)) \<le> epoll_load (the (eng_epoll ty j t))"
    using eng_pick_least [OF assms(1,2)] assms(5) by blast
  obtain n where n: "eng_epoll ty i t = Some n"
    using eng_good_epoll [OF assms(1,2) i(2)] by blast
  let ?objs = "objs(p := with_task ty i (objs p))"
  have add: "eng_add_endpoint (Some p) ty (objs, t) = Inr (CMNERR_SUC, ?objs,
      eng_set_epoll ty i (n\<lparr>m_vecIoObjsAddCache := m_vecIoObjsAddCache n @ [p]\<rparr>) t)"
    by (rule eng_add_runs [where objs = objs and p = p, OF assms(1-4) i(1,2) n])
  have del: "eng_del_endpoint (Some p) ty (?objs, u) =
      Inr (None, ?objs, eng_set_epoll ty i (m\<lparr>m_vecIoObjsDelCache := m_vecIoObjsDelCache m @ [p]\<rparr>) u)"
    if "eng_good u" "eng_tasks ty u = eng_tasks ty t" "eng_epoll ty i u = Some m" for u m
    using that i(2) assms(2-4) by (intro eng_del_runs [where e = e]) simp_all
  show ?thesis
    by (intro exI [of _ i] exI [of _ n] exI [of _ ?objs] exI conjI) (use add i n del in auto)
qed

section \<open>Starting and stopping\<close>

text \<open>The tasks and threads as \<open>start\<close> makes them.\<close>

definition started_epoll :: "int \<Rightarrow> start_arg \<Rightarrow> int os_ret \<Rightarrow> CEpoll" where
  "started_epoll ty sp epoll = new_epoll\<lparr>m_i32epfd := os_int epoll, m_i32IoType := ty, m_i32MsTimeout := i32MsTimeout sp\<rparr>"

definition started_output :: "start_arg \<Rightarrow> nat \<Rightarrow> COutputHandleTask" where
  "started_output sp i = \<lparr>out_notifier = Some (started_epoll EIT_OUTPUT_TYPE sp (out_epoll sp i)), out_task_id = int i,
     out_evtengine = new_event_engine, out_stop = False\<rparr>"

definition started_input :: "start_arg \<Rightarrow> nat \<Rightarrow> CInputHandleTask" where
  "started_input sp i = \<lparr>in_notifier = Some (started_epoll EIT_INPUT_TYPE sp (in_epoll sp i)), in_task_id = int i,
     in_stop = False\<rparr>"

definition started_thread :: "start_arg \<Rightarrow> task_ref \<Rightarrow> CThread" where
  "started_thread sp r = (new_thread (raw_running sp))\<lparr>m_pTask := Some r\<rparr>"

definition started_engine :: "start_arg \<Rightarrow> CSNEngine" where
  "started_engine sp =
     (let no = unat (ui32OutputThreadCnt sp); k = unat (ui32InputThreadCnt sp) in
      \<lparr>eng_state = ES_STARTED,
       m_vecThreads = map (started_thread sp)
         (map Output_task [0..<no] @ map Input_task [0..<k] @ [Misc_task]),
       m_vecInputTasks = map (started_input sp) [0..<k],
       m_vecOutputTasks = map (started_output sp) [0..<no],
       m_pMiscTask = Some (new_misc_task\<lparr>m_pTimeNotifier := Some new_time_notifier\<rparr>)\<rparr>)"

text \<open>The kernel gives every notifier a descriptor; what \<open>pthread_create\<close> returns is not negative.\<close>

definition start_ok :: "start_arg \<Rightarrow> bool" where
  "start_ok sp \<longleftrightarrow> i32IoEvtNotifier sp = EIEN_EPOLL \<and> ui32InputThreadCnt sp \<noteq> 0 \<and> ui32OutputThreadCnt sp \<noteq> 0 \<and>
     (\<forall>i. 0 \<le> os_int (out_epoll sp i) \<and> 0 \<le> out_pthread sp i \<and> 0 \<le> os_int (in_epoll sp i) \<and> 0 \<le> in_pthread sp i) \<and>
     0 \<le> misc_pthread sp"

lemma until_error_append:
  assumes "until_error body xs w = Inr (0, w')"
  shows "until_error body (xs @ ys) w = until_error body ys w'"
  using assms
proof (induction xs arbitrary: w)
  case Nil
  then show ?case by simp
next
  case (Cons x xs)
  then show ?case
    by (auto simp: bindr_Inr_iff split: if_splits elim!: bindr_InrE)
qed

lemma start_output_step:
  assumes "start_ok sp" and "length (m_vecOutputTasks t) = n"
  shows "start_output sp n t =
    Inr (0, t\<lparr>m_vecOutputTasks := m_vecOutputTasks t @ [started_output sp n],
              m_vecThreads := m_vecThreads t @ [started_thread sp (Output_task n)]\<rparr>)"
proof -
  have "\<not> os_int (out_epoll sp n) < 0" "\<not> out_pthread sp n < 0" "i32IoEvtNotifier sp = EIEN_EPOLL"
    using assms(1) by (simp_all add: start_ok_def not_less)
  then show ?thesis
    using assms(2)
    by (simp add: start_output_def output_init_def new_output_task_def output_set_indx_def create_obj_def epoll_init_def new_epoll_def assign_task_def new_thread_def
      thread_start_def started_output_def started_epoll_def started_thread_def)
qed

lemma start_outputs:
  assumes "start_ok sp" and "m_vecOutputTasks t = []"
  shows "until_error (start_output sp) [0..<n] t =
    Inr (0, t\<lparr>m_vecOutputTasks := map (started_output sp) [0..<n],
              m_vecThreads := m_vecThreads t @ map (\<lambda>i. started_thread sp (Output_task i)) [0..<n]\<rparr>)"
proof (induction n)
  case 0
  then show ?case
    using assms(2) by simp
next
  case (Suc n)
  then show ?case
    by (simp add: until_error_append [OF Suc.IH] start_output_step [OF assms(1)])
qed

lemma start_input_step:
  assumes "start_ok sp" and "length (m_vecInputTasks t) = n"
  shows "start_input sp n t =
    Inr (0, t\<lparr>m_vecInputTasks := m_vecInputTasks t @ [started_input sp n],
              m_vecThreads := m_vecThreads t @ [started_thread sp (Input_task n)]\<rparr>)"
proof -
  have "\<not> os_int (in_epoll sp n) < 0" "\<not> in_pthread sp n < 0" "i32IoEvtNotifier sp = EIEN_EPOLL"
    using assms(1) by (simp_all add: start_ok_def not_less)
  then show ?thesis
    using assms(2)
    by (simp add: start_input_def input_init_def new_input_task_def input_set_id_def create_obj_def epoll_init_def new_epoll_def assign_task_def new_thread_def
      thread_start_def started_input_def started_epoll_def started_thread_def)
qed

lemma start_inputs:
  assumes "start_ok sp" and "m_vecInputTasks t = []"
  shows "until_error (start_input sp) [0..<n] t =
    Inr (0, t\<lparr>m_vecInputTasks := map (started_input sp) [0..<n],
              m_vecThreads := m_vecThreads t @ map (\<lambda>i. started_thread sp (Input_task i)) [0..<n]\<rparr>)"
proof (induction n)
  case 0
  then show ?case
    using assms(2) by simp
next
  case (Suc n)
  then show ?case
    by (simp add: until_error_append [OF Suc.IH] start_input_step [OF assms(1)])
qed

lemma starting_runs:
  assumes "start_ok sp" and "m_vecInputTasks t = []" and "m_vecOutputTasks t = []" and "m_vecThreads t = []"
  shows "starting s e n (Some sp) t = Inr (0, (started_engine sp)\<lparr>eng_state := eng_state t\<rparr>)"
  using assms start_outputs [OF assms(1,3)]
  by (simp add: starting_def start_inputs start_misc_def misc_init_def new_misc_task_def Let_def assign_task_def
      new_thread_def thread_start_def started_engine_def started_thread_def not_less start_ok_def comp_def)

lemma eng_post_table:
  "eng_post e v t =
     (case reg_find eng_regs (eng_state t) e of
        None \<Rightarrow> Inr (-1, t)
      | Some (n, None) \<Rightarrow> Inr (0, eng_set_cur n t)
      | Some (n, Some h) \<Rightarrow>
          bindr (h (eng_state t) e n v t) (\<lambda>(code, t).
          if code < 0 then Inr (-2, t) else Inr (0, eng_set_cur n t)))"
  unfolding eng_post_def by (rule post_evt_table [OF eng_keys])

lemmas eng_post_simps = eng_post_table reg_find_Cons reg_find_Nil eng_regs_def

lemma eng_start_new: "start_ok sp \<Longrightarrow> eng_start sp new_engine = Inr (0, started_engine sp)"
  by (simp add: eng_start_def eng_post_simps starting_runs new_engine_def eng_set_cur_def started_engine_def Let_def)

lemma started_engine_good: "start_ok sp \<Longrightarrow> eng_good (started_engine sp)"
  by (auto simp: eng_good_def started_engine_def Let_def started_input_def started_output_def started_epoll_def
      start_ok_def unat_gt_0)

text \<open>
  The engine as a machine: a stopped engine has neither tasks nor threads, a started one is
  running, whatever proper events are posted. A stop is not among them (see below).
\<close>

definition eng_inv :: "CSNEngine \<Rightarrow> bool" where
  "eng_inv t \<longleftrightarrow>
     (eng_state t = ES_STOPPED \<and> m_vecThreads t = [] \<and> m_vecInputTasks t = [] \<and> m_vecOutputTasks t = [] \<or>
      eng_state t = ES_STARTED \<and> eng_good t \<and> m_pMiscTask t \<noteq> None \<and> m_vecThreads t \<noteq> [])"

definition eng_ok :: "CSNEngine \<Rightarrow> int \<Rightarrow> start_arg option \<Rightarrow> bool" where
  "eng_ok t e v \<longleftrightarrow> e = EE_START \<and> (\<exists>sp. v = Some sp \<and> start_ok sp)"

interpretation eng: state_machine eng_state eng_set_cur eng_regs "{ES_STOPPED, ES_STARTED}" eng_ok eng_inv
proof
  show "eng_state (eng_set_cur s t) = s" for s t
    by (simp add: eng_set_cur_def)
  show "distinct (reg_keys eng_regs)"
    by (rule eng_keys)
  show "n \<in> {ES_STOPPED, ES_STARTED}" if "(s, e, n, fn) \<in> set eng_regs" for s e n fn
    using that by (auto simp: eng_regs_def)
  show "case h (eng_state t) e n v t of
      Inl f \<Rightarrow> False
    | Inr (code, t') \<Rightarrow> if code < 0 then eng_state t' \<in> {ES_STOPPED, ES_STARTED} \<and> eng_inv t'
        else eng_inv (eng_set_cur n t')"
    if reg: "(eng_state t, e, n, Some h) \<in> set eng_regs" and good: "eng_inv t" "eng_ok t e v" for t e n h v
  proof -
    obtain sp where sp: "v = Some sp" "start_ok sp" "e = EE_START"
      using good(2) by (auto simp: eng_ok_def)
    then have h: "h = starting" "eng_state t = ES_STOPPED" "n = ES_STARTED"
      using reg by (auto simp: eng_regs_def)
    have "eng_inv (eng_set_cur ES_STARTED ((started_engine sp)\<lparr>eng_state := 0\<rparr>))"
      using started_engine_good [OF sp(2)]
      by (auto simp: eng_inv_def eng_set_cur_def started_engine_def Let_def eng_good_def)
    moreover have "starting (eng_state t) e n v t = Inr (0, (started_engine sp)\<lparr>eng_state := 0\<rparr>)"
      using good(1) h(2) unfolding sp(1) by (subst starting_runs [OF sp(2)]) (auto simp: eng_inv_def)
    ultimately show ?thesis
      using h by simp
  qed
  show "eng_inv (eng_set_cur n t)" if "(eng_state t, e, n, None) \<in> set eng_regs" "eng_inv t" for t e n
    using that by (simp add: eng_regs_def)
qed

text \<open>Starting an engine whose notifiers the kernel gives descriptors makes exactly the tasks that
  were asked for: each has an empty notifier of its type with its own descriptor and knows its
  number, each thread has one task, outputs first, then inputs, then the timers'. The engine is
  then started and running, and starting it again is refused and changes nothing.\<close>

theorem engine_starts:
  assumes "start_ok sp"
  shows "\<exists>t. eng_start sp new_engine = Inr (0, t) \<and> eng_state t = ES_STARTED \<and> eng_good t \<and>
    length (m_vecOutputTasks t) = unat (ui32OutputThreadCnt sp) \<and>
    length (m_vecInputTasks t) = unat (ui32InputThreadCnt sp) \<and>
    (\<forall>i < length (m_vecOutputTasks t). \<exists>n. out_notifier (m_vecOutputTasks t ! i) = Some n \<and>
       m_i32epfd n = os_int (out_epoll sp i) \<and> epoll_load n = 0 \<and> m_setIoObjs n = {}) \<and>
    (\<forall>i < length (m_vecInputTasks t). \<exists>n. in_notifier (m_vecInputTasks t ! i) = Some n \<and>
       m_i32epfd n = os_int (in_epoll sp i) \<and> epoll_load n = 0 \<and> m_setIoObjs n = {}) \<and>
    map m_pTask (m_vecThreads t) =
      map (Some \<circ> Output_task) [0..<length (m_vecOutputTasks t)] @
      map (Some \<circ> Input_task) [0..<length (m_vecInputTasks t)] @ [Some Misc_task] \<and>
    (\<forall>sp'. eng_start sp' t = Inr (-1, t))"
  using eng_start_new [OF assms] started_engine_good [OF assms]
  by (intro exI [of _ "started_engine sp"] conjI)
    (auto simp: started_engine_def Let_def started_output_def started_input_def started_epoll_def epoll_load_def
      new_epoll_def started_thread_def eng_start_def eng_post_simps)

definition demo_start :: start_arg where
  "demo_start = \<lparr>ui32InputThreadCnt = 1, ui32OutputThreadCnt = 2, i32IoEvtNotifier = EIEN_EPOLL, i32MsTimeout = 10,
     out_epoll = (\<lambda>i. Os_ok (int i + 5)), out_pthread = (\<lambda>i. 0), in_epoll = (\<lambda>i. Os_ok (int i + 9)),
     in_pthread = (\<lambda>i. 0), misc_pthread = 0, raw_id = 77, raw_running = True\<rparr>"

lemma demo_start_ok: "start_ok demo_start"
  by (simp add: start_ok_def demo_start_def)

theorem engine_starts_witness:
  "\<exists>t. eng_start demo_start new_engine = Inr (0, t) \<and> length (m_vecOutputTasks t) = 2 \<and>
     (\<forall>sp'. eng_start sp' t = Inr (-1, t))"
  using engine_starts [OF demo_start_ok] by (auto simp: demo_start_def)

theorem engine_add_least_loaded_witness:
  "\<exists>i objs' t'. eng_add_endpoint (Some 3) EIT_OUTPUT_TYPE
       ((\<lambda>p. new_io_obj\<lparr>m_ui32OutputEvt := EPOLLOUT\<rparr>), started_engine demo_start) = Inr (CMNERR_SUC, objs', t') \<and> i < (2 :: nat)"
proof -
  have load: "0 \<le> epoll_load n \<and> epoll_load n < 2 ^ 31"
    if "j < eng_tasks EIT_OUTPUT_TYPE (started_engine demo_start)"
      "eng_epoll EIT_OUTPUT_TYPE j (started_engine demo_start) = Some n" for j n
    using that by (auto simp: eng_tasks_def eng_epoll_def started_engine_def Let_def started_output_def
        started_epoll_def new_epoll_def epoll_load_def)
  have tasks: "eng_tasks EIT_OUTPUT_TYPE (started_engine demo_start) = 2"
    by (simp add: eng_tasks_def started_engine_def demo_start_def)
  show ?thesis
    using engine_add_least_loaded [of "started_engine demo_start" EIT_OUTPUT_TYPE
        "\<lambda>p. new_io_obj\<lparr>m_ui32OutputEvt := EPOLLOUT\<rparr>" 3 EPOLLOUT]
      started_engine_good [OF demo_start_ok] load tasks
    by (auto simp: io_type_def get_io_evt_def)
qed

lemma stop_thread_takes:
  assumes "stop_thread i t = Inr t'"
  shows "m_vecThreads t' = (m_vecThreads t)[i := m_vecThreads t' ! i] \<and> m_pTask (m_vecThreads t' ! i) = None"
proof -
  have stop_task: "m_vecThreads t' = m_vecThreads t" if "eng_stop_task r t = Inr t'" for r t t'
    using that by (auto simp: eng_stop_task_def bindr_Inr_iff split: task_ref.splits)
  show ?thesis
    using assms
    by (auto simp: stop_thread_def vec_get_def stop_wait_def thread_stop_def reset_task_def bindr_Inr_iff
        dest!: stop_task split: if_splits option.splits)
qed

lemma stop_threads_take:
  assumes "for_each stop_thread [0..<length (m_vecThreads t)] t = Inr t'"
  shows "length (m_vecThreads t') = length (m_vecThreads t) \<and>
    (\<forall>i < length (m_vecThreads t). m_pTask (m_vecThreads t' ! i) = None)"
proof -
  let ?P = "\<lambda>is u. length (m_vecThreads u) = length (m_vecThreads t) \<and>
    (\<forall>i < length (m_vecThreads t). i \<notin> set is \<longrightarrow> m_pTask (m_vecThreads u ! i) = None)"
  have round: "case stop_thread i u of Inl f \<Rightarrow> True | Inr u' \<Rightarrow> ?P rest u'" if "?P (i # rest) u" for i rest u
  proof (cases "stop_thread i u")
    case (Inr u')
    have upd: "m_vecThreads u' = (m_vecThreads u)[i := m_vecThreads u' ! i]" "m_pTask (m_vecThreads u' ! i) = None"
      using stop_thread_takes [OF Inr] by auto
    have "m_pTask (m_vecThreads u' ! j) = None" if "j < length (m_vecThreads t)" "j \<notin> set rest" for j
      using upd \<open>?P (i # rest) u\<close> that by (cases "j = i") (auto, metis nth_list_update_neq)
    moreover have "length (m_vecThreads u') = length (m_vecThreads u)"
      using upd(1) by (metis length_list_update)
    ultimately show ?thesis
      using that Inr by simp
  qed simp
  show ?thesis
    using for_each_inv [where P = ?P and may_halt = "\<lambda>f. True" and body = stop_thread
        and xs = "[0..<length (m_vecThreads t)]" and w = t] round assms by auto
qed

text \<open>C36: A started engine cannot be stopped. \<open>stop_wait\<close>, compiled without its wait, takes the task
  away from every thread, and the loop behind it, which does the same again, fails its assertion:
  whatever the engine's tasks hold, as long as it has a thread \<open>stop\<close> does not return.\<close>

theorem engine_never_stops:
  assumes "eng_state t = ES_STARTED" and "m_vecThreads t \<noteq> []"
  shows "\<exists>f. eng_stop t = Inl f"
proof -
  have "\<exists>f. stopping s e n v t = Inl f" for s e n v
  proof (cases "for_each stop_thread [0..<length (m_vecThreads t)] t")
    case (Inr t')
    have "m_pTask (m_vecThreads t' ! 0) = None" "0 < length (m_vecThreads t')"
      using stop_threads_take [OF Inr] assms(2) by auto
    then have "reset_thread 0 t' = Inl Assert_failed"
      by (simp add: reset_thread_def vec_get_def reset_task_def)
    then show ?thesis
      using Inr \<open>0 < length (m_vecThreads t')\<close> by (simp add: stopping_def upt_conv_Cons)
  qed (simp add: stopping_def)
  then obtain f where f: "stopping (eng_state t) EE_STOP ES_STOPPED None t = Inl f"
    by blast
  have "reg_find eng_regs (eng_state t) EE_STOP = Some (ES_STOPPED, Some stopping)"
    using assms(1) by (simp add: eng_regs_def reg_find_Cons)
  then have "eng_stop t = Inl f"
    unfolding eng_stop_def eng_post_table using f by (simp only: option.case prod.case bindr.simps)
  then show ?thesis
    by blast
qed

theorem engine_never_stops_witness:
  "(\<exists>f. eng_stop (started_engine demo_start) = Inl f) \<and>
   eng_stop (started_engine demo_start) = Inl Assert_failed"
proof
  show "\<exists>f. eng_stop (started_engine demo_start) = Inl f"
    by (rule engine_never_stops) (simp_all add: started_engine_def Let_def)
  have upt: "[0..<2] = [0, Suc 0]" "[0..<4] = [0, Suc 0, Suc (Suc 0), Suc (Suc (Suc 0))]"
    by (simp_all add: upt_conv_Cons)
  show "eng_stop (started_engine demo_start) = Inl Assert_failed"
    by (simp add: upt eng_stop_def eng_post_simps started_engine_def demo_start_def stopping_def started_output_def
        started_input_def started_epoll_def started_thread_def stop_thread_def vec_get_def stop_wait_def thread_stop_def
        eng_stop_task_def task_stop_def reset_task_def new_thread_def reset_thread_def new_misc_task_def)
qed

lemma first_round:
  assumes "n \<noteq> (0 :: u32)"
  shows "until_error body [0..<unat n] w =
    bindr (body 0 w) (\<lambda>(code, w). if code < 0 then Inr (code, w) else until_error body [Suc 0..<unat n] w)"
  using assms by (simp add: upt_conv_Cons unat_gt_0)

text \<open>A stopped engine that is started wrongly. Asked for no task of a kind, or for a mechanism
  the factory does not know, it reports an error and nothing has changed; where the kernel gives no
  descriptor to the first notifier the process ends, because the task is destroyed with a notifier
  that was not opened. In no case does \<open>stop\<close> do anything for it: it is refused.\<close>

theorem engine_start_fails:
  assumes "eng_state t = ES_STOPPED"
  shows "(ui32InputThreadCnt sp = 0 \<or> ui32OutputThreadCnt sp = 0 \<or> i32IoEvtNotifier sp \<noteq> EIEN_EPOLL \<longrightarrow>
      eng_start sp t = Inr (-2, t)) \<and>
    (ui32InputThreadCnt sp \<noteq> 0 \<and> ui32OutputThreadCnt sp \<noteq> 0 \<and> i32IoEvtNotifier sp = EIEN_EPOLL \<and>
      os_int (out_epoll sp 0) < 0 \<longrightarrow> eng_start sp t = Inl Assert_failed) \<and>
    eng_stop t = Inr (-1, t)"
proof (intro conjI impI)
  have unknown: "start_output sp 0 t = Inr (RET_ERR, t)" if "i32IoEvtNotifier sp \<noteq> EIEN_EPOLL"
    using that by (auto simp: start_output_def output_init_def create_obj_def new_output_task_def output_destroy_def)
  assume "ui32InputThreadCnt sp = 0 \<or> ui32OutputThreadCnt sp = 0 \<or> i32IoEvtNotifier sp \<noteq> EIEN_EPOLL"
  then have "starting s e n (Some sp) t = Inr (RET_ERR, t)" for s e n
    using unknown by (auto simp: starting_def first_round)
  then show "eng_start sp t = Inr (-2, t)"
    using assms by (simp add: eng_start_def eng_post_simps)
next
  assume sp: "ui32InputThreadCnt sp \<noteq> 0 \<and> ui32OutputThreadCnt sp \<noteq> 0 \<and> i32IoEvtNotifier sp = EIEN_EPOLL \<and>
      os_int (out_epoll sp 0) < 0"
  then have "start_output sp 0 t = Inl Assert_failed"
    by (simp add: start_output_def output_init_def create_obj_def new_output_task_def output_destroy_def
        epoll_init_def new_epoll_def epoll_destroy_def)
  then have "starting s e n (Some sp) t = Inl Assert_failed" for s e n
    using sp by (simp add: starting_def first_round)
  then show "eng_start sp t = Inl Assert_failed"
    using assms by (simp add: eng_start_def eng_post_simps)
next
  show "eng_stop t = Inr (-1, t)"
    using assms by (simp add: eng_stop_def eng_post_simps)
qed

theorem engine_start_fails_witness:
  "eng_start (demo_start\<lparr>i32IoEvtNotifier := EIEN_SELECT\<rparr>) new_engine = Inr (-2, new_engine) \<and>
   eng_stop new_engine = Inr (-1, new_engine)"
  using engine_start_fails [of new_engine "demo_start\<lparr>i32IoEvtNotifier := EIEN_SELECT\<rparr>"]
  by (simp add: new_engine_def)

end
