(* ===== verification/MemBlock.thy ===== *)
theory MemBlock
  imports ErrInfo
begin

text \<open>
  \<open>CMemBlock\<close> of \<open>libcomm_utils/src/memory/mem.h\<close>: a byte array with a window
  (\<open>m_ui32Offset\<close>, \<open>m_ui32Len\<close>) of valid data in it. Packages are appended behind the
  window, headers are written in front of it (\<open>inc_head_data\<close>), and what has been handled
  is taken off its head (\<open>dec_head_data\<close>). A pointer into the array is its position.
\<close>

section \<open>State and operations\<close>

definition MAX_MEM_SIZE :: nat where
  "MAX_MEM_SIZE = 8192 * 4"

record CMemBlock =
  m_bytes :: bytes
  m_ui32InitOffset :: u32
  m_ui32Sz :: u32
  m_ui32Offset :: u32
  m_ui32Len :: u32

text \<open>
  The constructor leaves the array as the allocator gave it; the argument \<open>raw\<close> is that
  memory. In the code its length is \<open>MAX_MEM_SIZE\<close>.
\<close>

definition new_mem :: "bytes \<Rightarrow> u32 \<Rightarrow> CMemBlock" where
  "new_mem raw ui32Offset =
     \<lparr>m_bytes = raw, m_ui32InitOffset = ui32Offset, m_ui32Sz = word_of_nat (length raw),
      m_ui32Offset = ui32Offset, m_ui32Len = 0\<rparr>"

definition get_data :: "CMemBlock \<Rightarrow> nat" where
  "get_data b = unat (m_ui32Offset b)"

definition get_offset_data :: "u32 \<Rightarrow> CMemBlock \<Rightarrow> nat" where
  "get_offset_data ui32Offset b = unat ui32Offset"

definition get_len :: "CMemBlock \<Rightarrow> u32" where
  "get_len b = m_ui32Len b"

definition get_offset :: "CMemBlock \<Rightarrow> u32" where
  "get_offset b = m_ui32Offset b"

definition move_data_ahead :: "CMemBlock \<Rightarrow> CMemBlock res" where
  "move_data_ahead b =
     (if m_ui32Offset b > 0
      then bindr (read_at (unat (m_ui32Offset b)) (unat (m_ui32Len b)) (m_bytes b)) (\<lambda>d.
           bindr (write_at 0 d (m_bytes b)) (\<lambda>bs.
           Inr (b\<lparr>m_bytes := bs, m_ui32Offset := 0\<rparr>)))
      else Inr b)"

definition dec_head_data :: "u32 \<Rightarrow> CMemBlock \<Rightarrow> CMemBlock" where
  "dec_head_data ui32Len b =
     b\<lparr>m_ui32Offset := m_ui32Offset b + ui32Len, m_ui32Len := m_ui32Len b - ui32Len\<rparr>"

definition get_tail_free_size :: "CMemBlock \<Rightarrow> u32" where
  "get_tail_free_size b = m_ui32Sz b - (m_ui32Len b + m_ui32Offset b)"

definition inc_len :: "u32 \<Rightarrow> CMemBlock \<Rightarrow> CMemBlock" where
  "inc_len ui32Len b = b\<lparr>m_ui32Len := m_ui32Len b + ui32Len\<rparr>"

definition inc_offset :: "u32 \<Rightarrow> CMemBlock \<Rightarrow> CMemBlock" where
  "inc_offset ui32Len b = b\<lparr>m_ui32Offset := m_ui32Offset b + ui32Len\<rparr>"

definition dec_len :: "u32 \<Rightarrow> CMemBlock \<Rightarrow> CMemBlock" where
  "dec_len ui32Len b = b\<lparr>m_ui32Len := m_ui32Len b - ui32Len\<rparr>"

definition get_tail_free_buf :: "CMemBlock \<Rightarrow> nat" where
  "get_tail_free_buf b = unat (m_ui32Offset b) + unat (m_ui32Len b)"

definition get_total_free_size :: "CMemBlock \<Rightarrow> u32" where
  "get_total_free_size b = m_ui32Sz b - m_ui32Len b"

definition get_size :: "CMemBlock \<Rightarrow> u32" where
  "get_size b = m_ui32Sz b"

definition get_init_offset :: "CMemBlock \<Rightarrow> u32" where
  "get_init_offset b = m_ui32InitOffset b"

definition set_offset :: "u32 \<Rightarrow> CMemBlock \<Rightarrow> CMemBlock" where
  "set_offset ui32Offset b = b\<lparr>m_ui32Offset := ui32Offset\<rparr>"

definition set_init_offset :: "u32 \<Rightarrow> CMemBlock \<Rightarrow> CMemBlock" where
  "set_init_offset ui32InitOffset b = b\<lparr>m_ui32InitOffset := ui32InitOffset\<rparr>"

text \<open>\<open>append\<close> copies \<open>ui32Len\<close> bytes from the caller's array \<open>pBytes\<close>.\<close>

definition append_mem :: "bytes \<Rightarrow> u32 \<Rightarrow> CMemBlock \<Rightarrow> (int \<times> CMemBlock) res" where
  "append_mem pBytes ui32Len b =
     (if get_total_free_size b < ui32Len then Inr (CMNERR_COMMON_ERR, b)
      else bindr (if get_tail_free_size b < ui32Len then move_data_ahead b else Inr b) (\<lambda>b.
           bindr (read_at 0 (unat ui32Len) pBytes) (\<lambda>d.
           bindr (write_at (unat (m_ui32Offset b) + unat (m_ui32Len b)) d (m_bytes b)) (\<lambda>bs.
           Inr (CMNERR_SUC, b\<lparr>m_bytes := bs, m_ui32Len := m_ui32Len b + ui32Len\<rparr>)))))"

definition inc_head_data :: "u32 \<Rightarrow> CMemBlock \<Rightarrow> int \<times> CMemBlock" where
  "inc_head_data ui32Len b =
     (if ui32Len > m_ui32Offset b then (CMNERR_COMMON_ERR, b)
      else (CMNERR_SUC,
            b\<lparr>m_ui32Offset := m_ui32Offset b - ui32Len, m_ui32Len := m_ui32Len b + ui32Len\<rparr>))"

text \<open>\<open>false\<close> is the offset zero in \<open>reset\<close>.\<close>

definition reset_mem :: "bool \<Rightarrow> CMemBlock \<Rightarrow> CMemBlock" where
  "reset_mem bUseInitOffset b =
     b\<lparr>m_ui32Offset := (if bUseInitOffset then m_ui32InitOffset b else 0), m_ui32Len := 0\<rparr>"

section \<open>Well-formed blocks and their data\<close>

definition mem_wf :: "CMemBlock \<Rightarrow> bool" where
  "mem_wf b \<longleftrightarrow>
     length (m_bytes b) = unat (m_ui32Sz b) \<and>
     unat (m_ui32Offset b) + unat (m_ui32Len b) \<le> unat (m_ui32Sz b)"

definition mem_data :: "CMemBlock \<Rightarrow> bytes" where
  "mem_data b = take (unat (m_ui32Len b)) (drop (unat (m_ui32Offset b)) (m_bytes b))"

lemma length_mem_data: "mem_wf b \<Longrightarrow> length (mem_data b) = unat (m_ui32Len b)"
  by (auto simp: mem_wf_def mem_data_def)

lemma mem_wf_bounds:
  assumes "mem_wf b"
  shows "unat (m_ui32Len b) \<le> unat (m_ui32Sz b)"
    and "unat (m_ui32Len b + m_ui32Offset b) = unat (m_ui32Len b) + unat (m_ui32Offset b)"
    and "unat (m_ui32Offset b + m_ui32Len b) = unat (m_ui32Offset b) + unat (m_ui32Len b)"
  using assms unat_u32_lt [of "m_ui32Sz b"]
  by (auto simp: mem_wf_def intro!: unat_add_fits)

lemma unat_total_free:
  "mem_wf b \<Longrightarrow> unat (get_total_free_size b) = unat (m_ui32Sz b) - unat (m_ui32Len b)"
  by (simp add: get_total_free_size_def unat_sub_fits word_le_nat_alt mem_wf_bounds)

lemma unat_tail_free:
  assumes "mem_wf b"
  shows "unat (get_tail_free_size b) =
    unat (m_ui32Sz b) - (unat (m_ui32Offset b) + unat (m_ui32Len b))"
proof -
  have "m_ui32Len b + m_ui32Offset b \<le> m_ui32Sz b"
    using assms mem_wf_bounds(2) [OF assms] by (simp add: word_le_nat_alt mem_wf_def)
  then show ?thesis
    using mem_wf_bounds(2) [OF assms] by (simp add: get_tail_free_size_def unat_sub_fits)
qed

section \<open>What each operation does to the data\<close>

lemma mem_wf_new: "length raw = unat (m_ui32Sz (new_mem raw i)) \<Longrightarrow> unat i \<le> length raw \<Longrightarrow>
    mem_wf (new_mem raw i) \<and> mem_data (new_mem raw i) = []"
  by (auto simp: new_mem_def mem_wf_def mem_data_def)

lemma move_data_ahead_wf:
  assumes "mem_wf b"
  shows "\<exists>b'. move_data_ahead b = Inr b' \<and> mem_wf b' \<and> mem_data b' = mem_data b \<and>
    m_ui32Offset b' = 0 \<and> m_ui32Len b' = m_ui32Len b \<and> m_ui32Sz b' = m_ui32Sz b"
proof (cases "m_ui32Offset b > 0")
  case False
  then show ?thesis
    using assms by (simp add: move_data_ahead_def word_neq_0_conv [symmetric])
next
  case True
  let ?d = "mem_data b"
  have d: "read_at (unat (m_ui32Offset b)) (unat (m_ui32Len b)) (m_bytes b) = Inr ?d"
    using assms by (simp add: read_at_def mem_wf_def mem_data_def)
  have len: "length ?d = unat (m_ui32Len b)" "length ?d \<le> length (m_bytes b)"
    using assms by (simp_all add: length_mem_data) (auto simp: mem_wf_def)
  then have "move_data_ahead b =
      Inr (b\<lparr>m_bytes := ?d @ drop (length ?d) (m_bytes b), m_ui32Offset := 0\<rparr>)"
    using True d by (simp add: move_data_ahead_def write_at_def)
  then show ?thesis
    using assms len by (auto simp: mem_wf_def mem_data_def)
qed

lemma append_into_tail:
  assumes "mem_wf b" and "unat n = length d"
    and "unat (m_ui32Offset b) + unat (m_ui32Len b) + length d \<le> unat (m_ui32Sz b)"
  shows "\<exists>bs. write_at (unat (m_ui32Offset b) + unat (m_ui32Len b)) d (m_bytes b) = Inr bs \<and>
    mem_wf (b\<lparr>m_bytes := bs, m_ui32Len := m_ui32Len b + n\<rparr>) \<and>
    mem_data (b\<lparr>m_bytes := bs, m_ui32Len := m_ui32Len b + n\<rparr>) = mem_data b @ d"
proof -
  have len: "unat (m_ui32Len b + n) = unat (m_ui32Len b) + length d"
    using assms unat_u32_lt [of "m_ui32Sz b"] by (simp add: unat_add_fits)
  moreover have "write_at (unat (m_ui32Offset b) + unat (m_ui32Len b)) d (m_bytes b) =
      Inr (take (unat (m_ui32Offset b) + unat (m_ui32Len b)) (m_bytes b) @ d @
        drop (unat (m_ui32Offset b) + unat (m_ui32Len b) + length d) (m_bytes b))"
    using assms by (simp add: write_at_def mem_wf_def)
  moreover have "length (m_bytes b) = unat (m_ui32Sz b)"
    using assms(1) by (simp add: mem_wf_def)
  ultimately show ?thesis
    using assms(3) window_append [of "unat (m_ui32Offset b)" "unat (m_ui32Len b)" d "m_bytes b"]
    by (simp add: mem_wf_def mem_data_def)
qed

text \<open>
  \<open>append\<close> refuses exactly what exceeds the free space, and otherwise adds the bytes behind
  the data, moving the window to the front of the array when its tail is too small.
\<close>

lemma append_mem_full:
  assumes "mem_wf b" and "unat (m_ui32Sz b) < unat (m_ui32Len b) + unat n"
  shows "append_mem d n b = Inr (CMNERR_COMMON_ERR, b)"
proof -
  have "get_total_free_size b < n"
    using assms mem_wf_bounds(1) [OF assms(1)] by (simp add: word_less_nat_alt unat_total_free)
  then show ?thesis by (simp add: append_mem_def)
qed

lemma append_mem_fits:
  assumes wf: "mem_wf b" and n: "unat n = length d"
    and fits: "unat (m_ui32Len b) + length d \<le> unat (m_ui32Sz b)"
  shows "\<exists>b'. append_mem d n b = Inr (CMNERR_SUC, b') \<and> mem_wf b' \<and>
    mem_data b' = mem_data b @ d \<and> m_ui32Sz b' = m_ui32Sz b"
proof -
  obtain b1 where
    b1: "(if get_tail_free_size b < n then move_data_ahead b else Inr b) = Inr b1"
      "mem_wf b1" "mem_data b1 = mem_data b" "m_ui32Sz b1 = m_ui32Sz b"
      "unat (m_ui32Offset b1) + unat (m_ui32Len b1) + length d \<le> unat (m_ui32Sz b1)"
  proof (cases "get_tail_free_size b < n")
    case True
    then show ?thesis
      using that move_data_ahead_wf [OF wf] fits by auto
  next
    case False
    then show ?thesis
      using that [of b] wf n fits by (auto simp: word_less_nat_alt unat_tail_free mem_wf_def)
  qed
  have "\<not> get_total_free_size b < n"
    using wf n fits by (simp add: word_less_nat_alt unat_total_free)
  moreover have "read_at 0 (unat n) d = Inr d"
    using n by (simp add: read_at_def)
  ultimately show ?thesis
    using append_into_tail [OF b1(2) n b1(5)] b1 by (auto simp: append_mem_def)
qed

lemma dec_head_data_wf:
  assumes wf: "mem_wf b" and le: "unat n \<le> unat (m_ui32Len b)"
  shows "mem_wf (dec_head_data n b)" and "mem_data (dec_head_data n b) = drop (unat n) (mem_data b)"
proof -
  have off: "unat (m_ui32Offset b + n) = unat (m_ui32Offset b) + unat n"
    using wf le unat_u32_lt [of "m_ui32Sz b"] by (intro unat_add_fits) (auto simp: mem_wf_def)
  have len: "unat (m_ui32Len b - n) = unat (m_ui32Len b) - unat n"
    using le by (simp add: unat_sub_fits word_le_nat_alt)
  show "mem_wf (dec_head_data n b)"
    using wf le off len by (auto simp: mem_wf_def dec_head_data_def)
  show "mem_data (dec_head_data n b) = drop (unat n) (mem_data b)"
    using off len by (simp add: mem_data_def dec_head_data_def drop_take add.commute)
qed

text \<open>
  Room in front of the data is taken by \<open>inc_head_data\<close>: the window grows over the bytes
  that lie there, and giving them back restores the block.
\<close>

lemma inc_head_data_wf:
  assumes wf: "mem_wf b" and le: "n \<le> m_ui32Offset b"
  shows "\<exists>b'. inc_head_data n b = (CMNERR_SUC, b') \<and> mem_wf b' \<and>
    length (mem_data b') = unat n + length (mem_data b) \<and>
    drop (unat n) (mem_data b') = mem_data b \<and> dec_head_data n b' = b"
proof -
  have off: "unat (m_ui32Offset b - n) = unat (m_ui32Offset b) - unat n"
    using le by (rule unat_sub_fits)
  have le': "unat n \<le> unat (m_ui32Offset b)"
    using le by (simp add: word_le_nat_alt)
  have len: "unat (m_ui32Len b + n) = unat (m_ui32Len b) + unat n"
    using wf le' unat_u32_lt [of "m_ui32Sz b"] by (intro unat_add_fits) (auto simp: mem_wf_def)
  let ?b = "b\<lparr>m_ui32Offset := m_ui32Offset b - n, m_ui32Len := m_ui32Len b + n\<rparr>"
  have "mem_wf ?b"
    using wf off len le' by (auto simp: mem_wf_def)
  moreover have "drop (unat n) (mem_data ?b) = mem_data b"
    using off len le' by (simp add: mem_data_def drop_take)
  moreover have "length (mem_data ?b) = unat n + length (mem_data b)"
    using length_mem_data [OF \<open>mem_wf ?b\<close>] length_mem_data [OF wf] len by simp
  moreover have "inc_head_data n b = (CMNERR_SUC, ?b)"
    using le by (simp add: inc_head_data_def)
  ultimately show ?thesis
    by (auto simp: dec_head_data_def)
qed

lemma inc_head_data_refused: "m_ui32Offset b < n \<Longrightarrow> inc_head_data n b = (CMNERR_COMMON_ERR, b)"
  by (simp add: inc_head_data_def)

lemma reset_mem_wf:
  "mem_wf b \<Longrightarrow> (use_init \<Longrightarrow> unat (m_ui32InitOffset b) \<le> unat (m_ui32Sz b)) \<Longrightarrow>
   mem_wf (reset_mem use_init b) \<and> mem_data (reset_mem use_init b) = []"
  by (auto simp: mem_wf_def reset_mem_def mem_data_def)

section \<open>The block as a queue of bytes\<close>

text \<open>
  What a user of the block relies on when it feeds received bytes at the tail and takes
  handled packages off the head. \<open>put\<close> may refuse, never losing or reordering anything.
\<close>

datatype buf_op = Put bytes | Take nat

fun fed :: "buf_op list \<Rightarrow> bytes" where
  "fed [] = []"
| "fed (Put d # ops) = d @ fed ops"
| "fed (Take n # ops) = fed ops"

text \<open>A run of such operations: the bytes taken off, and the final buffer; \<open>None\<close> if one is refused.\<close>

fun run_ops :: "('b \<Rightarrow> bytes) \<Rightarrow> (bytes \<Rightarrow> 'b \<Rightarrow> 'b option) \<Rightarrow> (nat \<Rightarrow> 'b \<Rightarrow> 'b) \<Rightarrow>
    buf_op list \<Rightarrow> 'b \<Rightarrow> (bytes \<times> 'b) option" where
  "run_ops content put take_off [] b = Some ([], b)"
| "run_ops content put take_off (Put d # ops) b =
     (case put d b of None \<Rightarrow> None | Some b' \<Rightarrow> run_ops content put take_off ops b')"
| "run_ops content put take_off (Take n # ops) b =
     (if n \<le> length (content b)
      then (case run_ops content put take_off ops (take_off n b) of
              None \<Rightarrow> None | Some (out, b') \<Rightarrow> Some (take n (content b) @ out, b'))
      else None)"

locale byte_queue =
  fixes ok :: "'b \<Rightarrow> bool"
    and content :: "'b \<Rightarrow> bytes"
    and put :: "bytes \<Rightarrow> 'b \<Rightarrow> 'b option"
    and take_off :: "nat \<Rightarrow> 'b \<Rightarrow> 'b"
  assumes put_ok: "ok b \<Longrightarrow> put d b = Some b' \<Longrightarrow> ok b' \<and> content b' = content b @ d"
    and take_ok: "ok b \<Longrightarrow> n \<le> length (content b) \<Longrightarrow>
      ok (take_off n b) \<and> content (take_off n b) = drop n (content b)"
begin

lemma run_conserves:
  "ok b \<Longrightarrow> run_ops content put take_off ops b = Some (out, b') \<Longrightarrow>
    ok b' \<and> out @ content b' = content b @ fed ops"
proof (induction ops arbitrary: b out)
  case Nil
  then show ?case by simp
next
  case (Cons op ops)
  show ?case
  proof (cases op)
    case (Put d)
    then obtain b1 where "put d b = Some b1" and "run_ops content put take_off ops b1 = Some (out, b')"
      using Cons.prems by (auto split: option.splits)
    then show ?thesis
      using Cons.IH [of b1] put_ok [OF Cons.prems(1)] Put by auto
  next
    case (Take n)
    then obtain out1 where le: "n \<le> length (content b)"
      and "run_ops content put take_off ops (take_off n b) = Some (out1, b')"
      and out: "out = take n (content b) @ out1"
      using Cons.prems by (auto split: if_splits option.splits)
    then have "ok b' \<and> out1 @ content b' = drop n (content b) @ fed ops"
      using Cons.IH take_ok [OF Cons.prems(1) le] by auto
    then show ?thesis
      using out Take by (metis append_assoc append_take_drop_id fed.simps(3))
  qed
qed

end

definition mem_put :: "bytes \<Rightarrow> CMemBlock \<Rightarrow> CMemBlock option" where
  "mem_put d b =
     (if length d < 4294967296
      then (case append_mem d (word_of_nat (length d)) b of
              Inr (code, b') \<Rightarrow> if code = CMNERR_SUC then Some b' else None
            | Inl h \<Rightarrow> None)
      else None)"

definition mem_take :: "nat \<Rightarrow> CMemBlock \<Rightarrow> CMemBlock" where
  "mem_take n b = dec_head_data (word_of_nat n) b"

lemma unat_word_of_nat_u32: "n < 4294967296 \<Longrightarrow> unat (word_of_nat n :: u32) = n"
  by (simp add: unat_of_nat)

lemma mem_put_ok:
  assumes wf: "mem_wf b" and put: "mem_put d b = Some b'"
  shows "mem_wf b' \<and> mem_data b' = mem_data b @ d"
proof -
  have n: "unat (word_of_nat (length d) :: u32) = length d"
    and app: "append_mem d (word_of_nat (length d)) b = Inr (CMNERR_SUC, b')"
    using put by (auto simp: mem_put_def unat_word_of_nat_u32 split: if_splits sum.splits prod.splits)
  show ?thesis
  proof (cases "unat (m_ui32Len b) + length d \<le> unat (m_ui32Sz b)")
    case True
    then show ?thesis
      using append_mem_fits [OF wf n] app by auto
  next
    case False
    then show ?thesis
      using append_mem_full [OF wf, of "word_of_nat (length d)" d] n app by simp
  qed
qed

lemma mem_take_ok:
  assumes wf: "mem_wf b" and le: "n \<le> length (mem_data b)"
  shows "mem_wf (mem_take n b) \<and> mem_data (mem_take n b) = drop n (mem_data b)"
proof -
  have le': "n \<le> unat (m_ui32Len b)"
    using wf le by (simp add: length_mem_data)
  then have "unat (word_of_nat n :: u32) = n"
    using unat_u32_lt [of "m_ui32Len b"] by (simp add: unat_word_of_nat_u32)
  then show ?thesis
    using dec_head_data_wf [OF wf, of "word_of_nat n"] le' by (simp add: mem_take_def)
qed

interpretation memq: byte_queue mem_wf mem_data mem_put mem_take
  using mem_put_ok mem_take_ok by unfold_locales blast+

section \<open>Properties\<close>

text \<open>On a well-formed block \<open>append\<close> never faults. It succeeds exactly when the bytes fit
  into the free space of the block as a whole, and then the data is the old data followed by
  the new bytes (also when the data had to be moved to the front); otherwise it returns
  \<open>CMNERR_COMMON_ERR\<close> and leaves the block as it was.\<close>

theorem append_mem_correct:
  assumes "mem_wf b" and "unat n = length d"
  shows "\<exists>code b'. append_mem d n b = Inr (code, b') \<and> mem_wf b' \<and>
    (if unat (m_ui32Len b) + length d \<le> unat (m_ui32Sz b)
     then code = CMNERR_SUC \<and> mem_data b' = mem_data b @ d
     else code = CMNERR_COMMON_ERR \<and> b' = b)"
proof (cases "unat (m_ui32Len b) + length d \<le> unat (m_ui32Sz b)")
  case True
  then show ?thesis
    using append_mem_fits [OF assms] by auto
next
  case False
  then show ?thesis
    using append_mem_full [OF assms(1)] assms by auto
qed

definition example_block :: CMemBlock where
  "example_block = \<lparr>m_bytes = [9, 9, 9, 1, 2, 9], m_ui32InitOffset = 3, m_ui32Sz = 6,
     m_ui32Offset = 3, m_ui32Len = 2\<rparr>"

lemma example_block_wf: "mem_wf example_block"
  by (simp add: example_block_def mem_wf_def)

theorem append_mem_correct_witness:
  "\<exists>code b'. append_mem [3, 4, 5] 3 example_block = Inr (code, b') \<and> mem_wf b' \<and>
    (if unat (m_ui32Len example_block) + length [3, 4, 5 :: u8] \<le> unat (m_ui32Sz example_block)
     then code = CMNERR_SUC \<and> mem_data b' = mem_data example_block @ [3, 4, 5]
     else code = CMNERR_COMMON_ERR \<and> b' = example_block)"
  by (rule append_mem_correct) (simp_all add: example_block_wf)

text \<open>Headers are written into the room in front of the data. When \<open>inc_head_data\<close>
  succeeds, which it does exactly when that room is large enough, the block stays well formed,
  the old data lies behind the gained bytes, and \<open>dec_head_data\<close> of the same size restores the
  block; when it fails the block is unchanged.\<close>

theorem inc_head_data_correct:
  assumes "mem_wf b"
  shows "\<exists>code b'. inc_head_data n b = (code, b') \<and>
    (if n \<le> m_ui32Offset b
     then code = CMNERR_SUC \<and> mem_wf b' \<and> drop (unat n) (mem_data b') = mem_data b \<and>
       length (mem_data b') = unat n + length (mem_data b) \<and> dec_head_data n b' = b
     else code = CMNERR_COMMON_ERR \<and> b' = b)"
  using inc_head_data_wf [OF assms, of n] inc_head_data_refused [of b n]
  by (cases "n \<le> m_ui32Offset b") (auto simp: not_le)

theorem inc_head_data_correct_witness:
  "\<exists>code b'. inc_head_data 2 example_block = (code, b') \<and>
    (if (2 :: u32) \<le> m_ui32Offset example_block
     then code = CMNERR_SUC \<and> mem_wf b' \<and>
       drop (unat (2 :: u32)) (mem_data b') = mem_data example_block \<and>
       length (mem_data b') = unat (2 :: u32) + length (mem_data example_block) \<and>
       dec_head_data 2 b' = example_block
     else code = CMNERR_COMMON_ERR \<and> b' = example_block)"
  by (rule inc_head_data_correct) (rule example_block_wf)

text \<open>C26: A block used as a receive buffer conserves the stream. Whatever sequence of appends
  and of removals from the head succeeds on it, the bytes taken off followed by the bytes
  still in the block are the bytes that were in it followed by the bytes that were appended.\<close>

theorem mem_stream_conserved:
  assumes "mem_wf b" and "run_ops mem_data mem_put mem_take ops b = Some (out, b')"
  shows "mem_wf b' \<and> out @ mem_data b' = mem_data b @ fed ops"
  using assms by (rule memq.run_conserves)

theorem mem_stream_conserved_witness:
  "\<exists>out b'. mem_wf b' \<and>
     out @ mem_data b' = mem_data example_block @ fed [Put [3, 4], Take 3, Put [5]]"
proof -
  have "\<exists>out b'. run_ops mem_data mem_put mem_take [Put [3, 4], Take 3, Put [5]] example_block = Some (out, b')"
    by (simp add: example_block_def mem_put_def mem_take_def append_mem_def dec_head_data_def
        get_total_free_size_def get_tail_free_size_def move_data_ahead_def read_at_def write_at_def
        mem_data_def)
  then show ?thesis
    using mem_stream_conserved [OF example_block_wf] by blast
qed

section \<open>Every operation on a block\<close>

datatype mem_op =
    Append bytes u32 | Move_ahead | Dec_head u32 | Inc_head u32 | Reset bool | Inc_len u32 | Dec_len u32
  | Inc_offset u32 | Set_offset u32 | Set_init_offset u32

fun mem_run :: "mem_op \<Rightarrow> CMemBlock \<Rightarrow> CMemBlock res" where
  "mem_run (Append d n) b = bindr (append_mem d n b) (\<lambda>(code, b). Inr b)"
| "mem_run Move_ahead b = move_data_ahead b"
| "mem_run (Dec_head n) b = Inr (dec_head_data n b)"
| "mem_run (Inc_head n) b = Inr (snd (inc_head_data n b))"
| "mem_run (Reset i) b = Inr (reset_mem i b)"
| "mem_run (Inc_len n) b = Inr (inc_len n b)"
| "mem_run (Dec_len n) b = Inr (dec_len n b)"
| "mem_run (Inc_offset n) b = Inr (inc_offset n b)"
| "mem_run (Set_offset n) b = Inr (set_offset n b)"
| "mem_run (Set_init_offset n) b = Inr (set_init_offset n b)"

text \<open>What a caller has to see to; the operations that check their arguments ask for nothing.\<close>

fun mem_op_ok :: "mem_op \<Rightarrow> CMemBlock \<Rightarrow> bool" where
  "mem_op_ok (Append d n) b = (unat n \<le> length d)"
| "mem_op_ok (Dec_head n) b = (n \<le> get_len b)"
| "mem_op_ok (Dec_len n) b = (n \<le> get_len b)"
| "mem_op_ok (Inc_len n) b = (n \<le> get_tail_free_size b)"
| "mem_op_ok (Inc_offset n) b = (n \<le> get_tail_free_size b)"
| "mem_op_ok (Set_offset n) b = (unat n + unat (get_len b) \<le> unat (get_size b))"
| "mem_op_ok (Set_init_offset n) b = (n \<le> get_size b)"
| "mem_op_ok _ b = True"

definition mem_typed :: "CMemBlock \<Rightarrow> bool" where
  "mem_typed b \<longleftrightarrow> mem_wf b \<and> m_ui32InitOffset b \<le> m_ui32Sz b"

lemma append_mem_prefix: "unat n \<le> length d \<Longrightarrow> append_mem d n b = append_mem (take (unat n) d) n b"
  by (simp add: append_mem_def read_at_def)

lemma move_data_ahead_init: "move_data_ahead b = Inr b' \<Longrightarrow> m_ui32InitOffset b' = m_ui32InitOffset b"
  by (auto simp: move_data_ahead_def elim!: bindr_InrE split: if_splits)

lemma append_mem_init: "append_mem d n b = Inr (code, b') \<Longrightarrow> m_ui32InitOffset b' = m_ui32InitOffset b"
  by (auto simp: append_mem_def elim!: bindr_InrE split: if_splits dest!: move_data_ahead_init)

text \<open>C18: Memory blocks stay well formed. On a block whose data lie inside its array every
  operation runs to its end, without an access outside the array, and leaves such a block of the
  same size, when the caller keeps to what the operation does not check itself: the length of
  the source of an append, removals up to the length, growth up to the free tail, offsets that
  leave room for the data.\<close>

theorem mem_ops_keep_blocks:
  assumes "mem_typed b" and "mem_op_ok c b"
  shows "\<exists>b'. mem_run c b = Inr b' \<and> mem_typed b' \<and> get_size b' = get_size b"
proof -
  have wf: "mem_wf b" and init: "m_ui32InitOffset b \<le> m_ui32Sz b"
    using assms(1) by (simp_all add: mem_typed_def)
  have lim: "unat (m_ui32Offset b) + unat (m_ui32Len b) \<le> unat (m_ui32Sz b)" "length (m_bytes b) = unat (m_ui32Sz b)"
    using wf by (simp_all add: mem_wf_def)
  show ?thesis
  proof (cases c)
    case (Append d n)
    have n: "unat n = length (take (unat n) d)"
      using assms(2) Append by simp
    have app: "append_mem d n b = append_mem (take (unat n) d) n b"
      using assms(2) Append by (intro append_mem_prefix) simp
    show ?thesis
    proof (cases "unat (m_ui32Len b) + length (take (unat n) d) \<le> unat (m_ui32Sz b)")
      case True
      obtain b' where "append_mem d n b = Inr (CMNERR_SUC, b')" "mem_wf b'" "m_ui32Sz b' = m_ui32Sz b"
        using append_mem_fits [OF wf n True] app by auto
      then show ?thesis
        using Append init append_mem_init [of d n b] by (simp add: mem_typed_def get_size_def)
    next
      case False
      then have "append_mem d n b = Inr (CMNERR_COMMON_ERR, b)"
        using append_mem_full [OF wf, of n d] n by simp
      then show ?thesis
        using Append assms(1) by simp
    qed
  next
    case Move_ahead
    then show ?thesis
      using move_data_ahead_wf [OF wf] init move_data_ahead_init [of b] by (auto simp: mem_typed_def get_size_def)
  next
    case (Inc_len n)
    then show ?thesis
      using assms(2) unat_tail_free [OF wf] lim init unat_u32_lt [of "m_ui32Sz b"]
      by (auto simp: mem_typed_def mem_wf_def inc_len_def get_size_def word_le_nat_alt unat_add_fits)
  next
    case (Inc_offset n)
    then show ?thesis
      using assms(2) unat_tail_free [OF wf] lim init unat_u32_lt [of "m_ui32Sz b"]
      by (auto simp: mem_typed_def mem_wf_def inc_offset_def get_size_def word_le_nat_alt unat_add_fits)
  next
    case (Dec_len n)
    then show ?thesis
      using assms(2) lim init
      by (auto simp: mem_typed_def mem_wf_def dec_len_def get_size_def get_len_def word_le_nat_alt unat_sub_fits)
  next
    case (Dec_head n)
    then show ?thesis
      using assms(2) dec_head_data_wf(1) [OF wf, of n] init
      by (auto simp: mem_typed_def dec_head_data_def get_size_def get_len_def word_le_nat_alt)
  next
    case (Inc_head n)
    then show ?thesis
      using inc_head_data_wf [OF wf, of n] init wf
      by (cases "n \<le> m_ui32Offset b") (auto simp: mem_typed_def inc_head_data_def get_size_def)
  next
    case (Reset i)
    then show ?thesis
      using lim init by (auto simp: mem_typed_def mem_wf_def reset_mem_def get_size_def word_le_nat_alt)
  next
    case (Set_offset n)
    then show ?thesis
      using assms(2) lim init by (auto simp: mem_typed_def mem_wf_def set_offset_def get_size_def get_len_def)
  next
    case (Set_init_offset n)
    then show ?thesis
      using assms(2) lim by (auto simp: mem_typed_def mem_wf_def set_init_offset_def get_size_def)
  qed
qed

theorem mem_ops_keep_blocks_witness:
  "\<exists>b'. mem_run (Append [7, 8, 9] 2) \<lparr>m_bytes = [9, 9, 9, 1, 2, 9], m_ui32InitOffset = 3, m_ui32Sz = 6, m_ui32Offset = 3, m_ui32Len = 2\<rparr>
     = Inr b' \<and> mem_typed b' \<and> get_size b' = 6"
  using mem_ops_keep_blocks [of "\<lparr>m_bytes = [9, 9, 9, 1, 2, 9], m_ui32InitOffset = 3, m_ui32Sz = 6, m_ui32Offset = 3, m_ui32Len = 2\<rparr>"
      "Append [7, 8, 9] 2"]
  by (simp add: mem_typed_def mem_wf_def get_size_def)

end
