(* ===== verification/RupSock.thy ===== *)
theory RupSock
  imports MemBlock
begin

text \<open>
  \<open>CRupSock\<close> of \<open>libcomm_net/src/network/sn_socket_impl.cpp\<close>, the reliable stream socket:
  life cycle of the descriptor, \<open>send\<close> with its two queues and its \<open>try_lock\<close>,
  \<open>handle_can_send\<close>, which empties the queues when the descriptor is writable, and
  \<open>handle_can_recv\<close>, which reads into one block. The field \<open>wire\<close> holds the bytes the
  kernel has accepted, in order. A memory block is passed by value: the code asserts that
  the caller's reference is the only one when a block enters the queues.
\<close>

section \<open>State and life cycle\<close>

record CRupSock =
  m_hSock :: int
  m_qSendCache :: "CMemBlock list"
  m_qSending :: "CMemBlock list"
  m_pRecvedData :: "CMemBlock option"
  wire :: bytes

definition new_rup_sock :: CRupSock where
  "new_rup_sock = \<lparr>m_hSock = INVALID_SOCKET, m_qSendCache = [], m_qSending = [],
     m_pRecvedData = None, wire = []\<rparr>"

definition rup_is_opened :: "CRupSock \<Rightarrow> bool" where
  "rup_is_opened s \<longleftrightarrow> INVALID_SOCKET < m_hSock s"

text \<open>\<open>ans\<close> is the answer to \<open>socket\<close>, used when no descriptor is handed in.\<close>

definition rup_open :: "int \<Rightarrow> int os_ret \<Rightarrow> CRupSock \<Rightarrow> int \<times> CRupSock" where
  "rup_open hSock ans s =
     (if rup_is_opened s then (CMNERR_COMMON_ERR, s)
      else let h = (if INVALID_SOCKET < hSock then hSock else os_int ans) in
        (if INVALID_SOCKET < h then CMNERR_SUC else CMNERR_CREAT_SOCK_FAILED, s\<lparr>m_hSock := h\<rparr>))"

definition rup_close :: "CRupSock \<Rightarrow> int \<times> CRupSock" where
  "rup_close s =
     (CMNERR_SUC, if INVALID_SOCKET < m_hSock s then s\<lparr>m_hSock := INVALID_SOCKET\<rparr> else s)"

definition rup_bind :: "int os_ret \<Rightarrow> CRupSock \<Rightarrow> int res" where
  "rup_bind ans s = (if \<not> INVALID_SOCKET < m_hSock s then Inl Assert_failed else Inr (os_int ans))"

definition rup_listen :: "int os_ret \<Rightarrow> CRupSock \<Rightarrow> int" where
  "rup_listen ans s = os_int ans"

definition rup_accept :: "int os_ret \<Rightarrow> CRupSock \<Rightarrow> CRupSock res" where
  "rup_accept ans s =
     (if os_int ans \<le> INVALID_SOCKET then Inl Assert_failed
      else Inr (snd (rup_open (os_int ans) (Os_fail EOTHER) new_rup_sock)))"

definition rup_connect :: "int os_ret \<Rightarrow> CRupSock \<Rightarrow> int" where
  "rup_connect ans s =
     (if os_int ans = CMNERR_SUC then CMNERR_SUC
      else if ans = Os_fail EINPROGRESS then CMNERR_IN_PROGRESS else CMNERR_COMMON_ERR)"

section \<open>Sending\<close>

text \<open>Behind the last cached block, or as a new block when that one has no room.\<close>

definition cache_block :: "CMemBlock \<Rightarrow> CMemBlock list \<Rightarrow> CMemBlock list res" where
  "cache_block pData q =
     (if q = [] then Inr [pData]
      else bindr (read_at (get_data pData) (unat (get_len pData)) (m_bytes pData)) (\<lambda>d.
           bindr (append_mem d (get_len pData) (last q)) (\<lambda>(code, b).
           if code = CMNERR_SUC then Inr (butlast q @ [b]) else Inr (q @ [pData]))))"

text \<open>\<open>send\<close> up to the system call: \<open>None\<close> when the call has to be made now.\<close>

definition rup_send_begin ::
  "bool \<Rightarrow> CMemBlock \<Rightarrow> CRupSock \<Rightarrow> (int option \<times> CRupSock) res" where
  "rup_send_begin locked pData s =
     (if \<not> locked \<or> m_qSendCache s \<noteq> []
      then bindr (cache_block pData (m_qSendCache s)) (\<lambda>q.
           Inr (Some CMNERR_SEND_PENDING, s\<lparr>m_qSendCache := q\<rparr>))
      else Inr (None, s))"

text \<open>\<open>send\<close> from the answer of the system call on.\<close>

definition rup_send_end :: "CMemBlock \<Rightarrow> nat os_ret \<Rightarrow> CRupSock \<Rightarrow> (int \<times> CRupSock) res" where
  "rup_send_end pData ans s =
     (case ans of
        Os_fail e \<Rightarrow> Inr (if e = EWOULDBLOCK then CMNERR_SEND_PENDING else CMNERR_IO_ERR, s)
      | Os_ok n \<Rightarrow>
          if n = 0 then Inl Assert_failed
          else let s = s\<lparr>wire := wire s @ take n (mem_data pData)\<rparr> in
            if unat (get_len pData) > n
            then Inr (CMNERR_SEND_PENDING,
                      s\<lparr>m_qSendCache := dec_head_data (word_of_nat n) pData # m_qSendCache s\<rparr>)
            else Inr (CMNERR_SUC, s))"

definition rup_send_mem ::
  "int \<Rightarrow> bool \<Rightarrow> nat os_ret \<Rightarrow> CMemBlock \<Rightarrow> CRupSock \<Rightarrow> (int \<times> CRupSock) res" where
  "rup_send_mem ref_cnt locked ans pData s =
     (if \<not> get_len pData > 0 then Inl Assert_failed
      else if ref_cnt \<noteq> 1 then Inl Assert_failed
      else bindr (rup_send_begin locked pData s) (\<lambda>(code, s).
        case code of Some c \<Rightarrow> Inr (c, s) | None \<Rightarrow> rup_send_end pData ans s))"

text \<open>
  The overload for a byte array: \<open>NEW_MEM (ui32Len)\<close> ignores its argument, and the code of
  the \<open>append\<close> into the new block is ignored as well. \<open>raw\<close> is the memory of that block.
\<close>

definition filled_mem :: "bytes \<Rightarrow> bytes \<Rightarrow> u32 \<Rightarrow> CMemBlock res" where
  "filled_mem raw pV ui32Len =
     bindr (append_mem pV ui32Len (new_mem raw 0)) (\<lambda>(code, b). Inr b)"

definition cache_bytes :: "bytes \<Rightarrow> bytes \<Rightarrow> u32 \<Rightarrow> CMemBlock list \<Rightarrow> CMemBlock list res" where
  "cache_bytes raw pV ui32Len q =
     (if q = [] then bindr (filled_mem raw pV ui32Len) (\<lambda>b. Inr [b])
      else bindr (append_mem pV ui32Len (last q)) (\<lambda>(code, b).
           if code = CMNERR_SUC then Inr (butlast q @ [b])
           else bindr (filled_mem raw pV ui32Len) (\<lambda>b. Inr (q @ [b]))))"

definition rup_send_bytes ::
  "bytes \<Rightarrow> bool \<Rightarrow> nat os_ret \<Rightarrow> bytes \<Rightarrow> u32 \<Rightarrow> CRupSock \<Rightarrow> (int \<times> CRupSock) res" where
  "rup_send_bytes raw locked ans pV ui32Len s =
     (if \<not> locked \<or> m_qSendCache s \<noteq> []
      then bindr (cache_bytes raw pV ui32Len (m_qSendCache s)) (\<lambda>q.
           Inr (CMNERR_SEND_PENDING, s\<lparr>m_qSendCache := q\<rparr>))
      else bindr (filled_mem raw pV ui32Len) (\<lambda>pData. rup_send_end pData ans s))"

section \<open>Flushing the queues\<close>

text \<open>\<open>m_qSending.swap (m_qSendCache)\<close>, done only when \<open>m_qSending\<close> is empty.\<close>

definition swap_if_empty :: "CRupSock \<Rightarrow> CRupSock" where
  "swap_if_empty s =
     (if m_qSending s = []
      then s\<lparr>m_qSending := m_qSendCache s, m_qSendCache := m_qSending s\<rparr> else s)"

text \<open>
  One pass of the loop of \<open>handle_can_send\<close> on the first block. The flag says whether the
  loop goes on; the integer is \<open>i32Ret\<close>.
\<close>

definition can_send_pass :: "nat os_ret \<Rightarrow> CMemBlock \<Rightarrow> CMemBlock list \<Rightarrow> CRupSock \<Rightarrow>
    (bool \<times> int \<times> CRupSock) res" where
  "can_send_pass ans pData rest s =
     (case ans of
        Os_fail e \<Rightarrow>
          (if e = EWOULDBLOCK then Inr (False, CMNERR_SEND_PENDING, s)
           else if e = EINTR then Inr (True, -1, s)
           else Inr (False, CMNERR_IO_ERR, s))
      | Os_ok n \<Rightarrow>
          if n = 0 then Inl Assert_failed
          else let s = s\<lparr>wire := wire s @ take n (mem_data pData)\<rparr> in
            if n < unat (get_len pData)
            then Inr (False, CMNERR_SEND_PENDING,
                      s\<lparr>m_qSending := dec_head_data (word_of_nat n) pData # rest\<rparr>)
            else if n \<noteq> unat (get_len pData) then Inl Assert_failed
            else Inr (True, int n, swap_if_empty (s\<lparr>m_qSending := rest\<rparr>)))"

fun can_send_loop :: "nat os_ret list \<Rightarrow> int \<Rightarrow> CRupSock \<Rightarrow> (int \<times> CRupSock) res" where
  "can_send_loop [] r s = (if m_qSending s = [] then Inr (r, s) else Inl Awaiting_os)"
| "can_send_loop (a # answers) r s =
     (case m_qSending s of
        [] \<Rightarrow> Inr (r, s)
      | b # rest \<Rightarrow>
          bindr (can_send_pass a b rest s) (\<lambda>(again, r, s).
          if again then can_send_loop answers r s else Inr (r, s)))"

definition rup_handle_can_send :: "nat os_ret list \<Rightarrow> CRupSock \<Rightarrow> (int \<times> CRupSock) res" where
  "rup_handle_can_send answers s = can_send_loop answers CMNERR_SUC (swap_if_empty s)"

section \<open>Receiving\<close>

text \<open>
  \<open>recv\<close> is offered the free tail of the block; the bytes it delivers are written there.
\<close>

definition rup_handle_can_recv :: "bytes \<Rightarrow> bytes os_ret \<Rightarrow> CRupSock \<Rightarrow> (int \<times> CRupSock) res" where
  "rup_handle_can_recv raw ans s =
     bindr (case m_pRecvedData s of
              Some b \<Rightarrow> move_data_ahead b
            | None \<Rightarrow> Inr (new_mem raw 0)) (\<lambda>b.
     let s = s\<lparr>m_pRecvedData := Some b\<rparr> in
     case ans of
       Os_ok d \<Rightarrow>
         if d = [] then Inr (CMNERR_IO_ERR, s)
         else bindr (write_at (get_tail_free_buf b) d (m_bytes b)) (\<lambda>bs.
              Inr (CMNERR_SUC,
                   s\<lparr>m_pRecvedData := Some (inc_len (word_of_nat (length d)) (b\<lparr>m_bytes := bs\<rparr>))\<rparr>))
     | Os_fail e \<Rightarrow>
         if e = EWOULDBLOCK then Inl Assert_failed
         else if e = EINTR then Inr (CMNERR_RECV_PENDING, s)
         else Inr (CMNERR_IO_ERR, s))"

section \<open>Queues of blocks\<close>

definition blocks_wf :: "CMemBlock list \<Rightarrow> bool" where
  "blocks_wf q \<longleftrightarrow> (\<forall>b \<in> set q. mem_wf b \<and> mem_data b \<noteq> [])"

definition blocks_data :: "CMemBlock list \<Rightarrow> bytes" where
  "blocks_data q = concat (map mem_data q)"

lemma blocks_simps [simp]:
  "blocks_wf []"
  "blocks_wf (b # q) \<longleftrightarrow> mem_wf b \<and> mem_data b \<noteq> [] \<and> blocks_wf q"
  "blocks_wf (q @ q') \<longleftrightarrow> blocks_wf q \<and> blocks_wf q'"
  "blocks_data [] = []"
  "blocks_data (b # q) = mem_data b @ blocks_data q"
  "blocks_data (q @ q') = blocks_data q @ blocks_data q'"
  by (auto simp: blocks_wf_def blocks_data_def)

text \<open>All the bytes the socket still holds, in the order in which it will send them.\<close>

definition queued :: "CRupSock \<Rightarrow> bytes" where
  "queued s = blocks_data (m_qSending s) @ blocks_data (m_qSendCache s)"

definition rup_wf :: "CRupSock \<Rightarrow> bool" where
  "rup_wf s \<longleftrightarrow> blocks_wf (m_qSending s) \<and> blocks_wf (m_qSendCache s)"

lemma mem_data_copy:
  "mem_wf b \<Longrightarrow> read_at (get_data b) (unat (get_len b)) (m_bytes b) = Inr (mem_data b)"
  by (simp add: read_at_def get_data_def get_len_def mem_data_def mem_wf_def)

lemma append_mem_cases:
  assumes "mem_wf b" and "unat n = length d" and "append_mem d n b = Inr (code, b')"
  shows "mem_wf b' \<and> (if code = CMNERR_SUC then mem_data b' = mem_data b @ d else b' = b)"
proof (cases "unat (m_ui32Len b) + length d \<le> unat (m_ui32Sz b)")
  case True
  then show ?thesis
    using append_mem_fits [OF assms(1,2)] assms(3) by auto
next
  case False
  then show ?thesis
    using append_mem_full [OF assms(1)] assms by auto
qed

lemma append_mem_total:
  assumes "mem_wf b" and "unat n = length d"
  obtains code b' where "append_mem d n b = Inr (code, b')"
proof (cases "unat (m_ui32Len b) + length d \<le> unat (m_ui32Sz b)")
  case True
  then show ?thesis
    using append_mem_fits [OF assms] that by auto
next
  case False
  then show ?thesis
    using append_mem_full [OF assms(1)] assms that by auto
qed

lemma blocks_last:
  assumes "q \<noteq> []" and "blocks_wf q"
  shows "mem_wf (last q)" and "mem_data (last q) \<noteq> []" and "blocks_wf (butlast q)"
    and "blocks_data q = blocks_data (butlast q) @ mem_data (last q)"
  using assms by (induction q) (auto split: if_splits)

text \<open>Caching a block adds its bytes behind everything that is cached.\<close>

lemma cache_block_data:
  assumes q: "blocks_wf q" and p: "mem_wf p" "mem_data p \<noteq> []"
  shows "\<exists>q'. cache_block p q = Inr q' \<and> blocks_wf q' \<and> q' \<noteq> [] \<and>
    blocks_data q' = blocks_data q @ mem_data p"
proof (cases "q = []")
  case True
  then show ?thesis
    using p by (simp add: cache_block_def)
next
  case False
  note last = blocks_last [OF False q]
  have n: "unat (get_len p) = length (mem_data p)"
    using p(1) by (simp add: length_mem_data get_len_def)
  obtain code b where app: "append_mem (mem_data p) (get_len p) (last q) = Inr (code, b)"
    using append_mem_total [OF last(1) n] .
  have cp: "cache_block p q =
      (if code = CMNERR_SUC then Inr (butlast q @ [b]) else Inr (q @ [p]))"
    using False app by (simp add: cache_block_def mem_data_copy [OF p(1)])
  have "mem_wf b \<and> (if code = CMNERR_SUC then mem_data b = mem_data (last q) @ mem_data p else b = last q)"
    using append_mem_cases [OF last(1) n app] .
  then show ?thesis
    using cp last p q by (auto split: if_splits)
qed

section \<open>What a step of sending does\<close>

lemma take_dec_head:
  assumes wf: "mem_wf b" and lt: "n < unat (m_ui32Len b)"
  shows "mem_wf (dec_head_data (word_of_nat n) b)"
    and "mem_data (dec_head_data (word_of_nat n) b) = drop n (mem_data b)"
    and "mem_data (dec_head_data (word_of_nat n) b) \<noteq> []"
proof -
  have n: "unat (word_of_nat n :: u32) = n"
    using lt unat_u32_lt [of "m_ui32Len b"] by (simp add: unat_word_of_nat_u32)
  then show "mem_wf (dec_head_data (word_of_nat n) b)"
    and d: "mem_data (dec_head_data (word_of_nat n) b) = drop n (mem_data b)"
    using dec_head_data_wf [OF wf, of "word_of_nat n"] lt by simp_all
  show "mem_data (dec_head_data (word_of_nat n) b) \<noteq> []"
    using d lt wf by (simp add: length_mem_data)
qed

lemma swap_if_empty_blocks:
  "blocks_wf (m_qSending (swap_if_empty s)) \<and> blocks_wf (m_qSendCache (swap_if_empty s)) \<longleftrightarrow>
   blocks_wf (m_qSending s) \<and> blocks_wf (m_qSendCache s)"
  by (auto simp: swap_if_empty_def)

lemma swap_if_empty_keeps [simp]:
  "queued (swap_if_empty s) = queued s"
  "rup_wf (swap_if_empty s) = rup_wf s"
  "wire (swap_if_empty s) = wire s"
  "m_pRecvedData (swap_if_empty s) = m_pRecvedData s"
  by (simp_all add: swap_if_empty_def queued_def rup_wf_def)

text \<open>A pass of the loop moves a prefix of the queued bytes to the wire and nothing else.\<close>

lemma can_send_pass_conserves:
  assumes "can_send_pass a b rest s = Inr (again, r, s')"
    and "rup_wf s" and "m_qSending s = b # rest"
  shows "rup_wf s' \<and> wire s' @ queued s' = wire s @ queued s"
proof (cases a)
  case (Os_fail e)
  then show ?thesis
    using assms by (auto simp: can_send_pass_def split: if_splits)
next
  case (Os_ok n)
  have b: "mem_wf b" and len: "length (mem_data b) = unat (m_ui32Len b)"
    using assms by (simp_all add: rup_wf_def length_mem_data)
  show ?thesis
  proof (cases "n < unat (m_ui32Len b)")
    case True
    then have "s' = s\<lparr>wire := wire s @ take n (mem_data b),
        m_qSending := dec_head_data (word_of_nat n) b # rest\<rparr>"
      using assms(1) Os_ok by (auto simp: can_send_pass_def get_len_def split: if_splits)
    then show ?thesis
      using assms(2,3) take_dec_head [OF b True] by (simp add: rup_wf_def queued_def)
  next
    case False
    then have "n = unat (m_ui32Len b)"
      and "s' = swap_if_empty (s\<lparr>wire := wire s @ take n (mem_data b), m_qSending := rest\<rparr>)"
      using assms(1) Os_ok by (auto simp: can_send_pass_def get_len_def Let_def split: if_splits)
    then show ?thesis
      using assms(2,3) len by (simp add: rup_wf_def queued_def swap_if_empty_def)
  qed
qed

lemma can_send_loop_conserves:
  "can_send_loop answers r s = Inr (r', s') \<Longrightarrow> rup_wf s \<Longrightarrow>
   rup_wf s' \<and> wire s' @ queued s' = wire s @ queued s"
proof (induction answers r s rule: can_send_loop.induct)
  case (1 r s)
  then show ?case by (auto split: if_splits)
next
  case (2 a answers r s)
  show ?case
  proof (cases "m_qSending s")
    case Nil
    then show ?thesis
      using "2.prems" by simp
  next
    case (Cons b rest)
    then obtain again r1 s1 where pass: "can_send_pass a b rest s = Inr (again, r1, s1)"
      and cont: "if again then can_send_loop answers r1 s1 = Inr (r', s') else s' = s1"
      using "2.prems"(1) by (auto simp: bindr_Inr_iff split: if_splits)
    have "rup_wf s1 \<and> wire s1 @ queued s1 = wire s @ queued s"
      using can_send_pass_conserves [OF pass "2.prems"(2) Cons] .
    then show ?thesis
      using cont "2.IH" [OF Cons pass] by (cases again) auto
  qed
qed

text \<open>
  Answers that accept each block in full empty both queues: the loop returns, nothing stays
  queued, and all of it is on the wire.
\<close>

lemma can_send_pass_full:
  assumes "mem_wf b" and "mem_data b \<noteq> []"
  shows "can_send_pass (Os_ok (length (mem_data b))) b rest s =
    Inr (True, int (length (mem_data b)),
         swap_if_empty (s\<lparr>wire := wire s @ mem_data b, m_qSending := rest\<rparr>))"
proof -
  have "unat (m_ui32Len b) = length (mem_data b)" and "length (mem_data b) \<noteq> 0"
    using assms by (simp_all add: length_mem_data [symmetric])
  then show ?thesis by (simp add: can_send_pass_def get_len_def)
qed

lemma can_send_loop_full:
  assumes "rup_wf s" and "m_qSending s = [] \<longrightarrow> m_qSendCache s = []"
  shows "\<exists>r'. can_send_loop
      (map (\<lambda>b. Os_ok (length (mem_data b))) (m_qSending s @ m_qSendCache s)) r s =
    Inr (r', s\<lparr>wire := wire s @ queued s, m_qSending := [], m_qSendCache := []\<rparr>)"
  using assms
proof (induction "length (m_qSending s @ m_qSendCache s)" arbitrary: r s)
  case 0
  then show ?case by (simp add: queued_def)
next
  case (Suc n)
  then obtain b rest where q: "m_qSending s = b # rest"
    by (cases "m_qSending s") auto
  define s1 where "s1 = swap_if_empty (s\<lparr>wire := wire s @ mem_data b, m_qSending := rest\<rparr>)"
  have b: "mem_wf b" "mem_data b \<noteq> []" and wf1: "rup_wf s1"
    using Suc.prems(1) q by (simp_all add: rup_wf_def s1_def swap_if_empty_blocks)
  have all: "m_qSending s1 @ m_qSendCache s1 = rest @ m_qSendCache s"
    and ok: "m_qSending s1 = [] \<longrightarrow> m_qSendCache s1 = []"
    by (auto simp: s1_def swap_if_empty_def)
  have "n = length (m_qSending s1 @ m_qSendCache s1)"
    using Suc.hyps(2) all q by simp
  from Suc.hyps(1) [OF this wf1 ok] obtain r' where
    "can_send_loop (map (\<lambda>b. Os_ok (length (mem_data b))) (rest @ m_qSendCache s))
       (int (length (mem_data b))) s1 =
     Inr (r', s1\<lparr>wire := wire s1 @ queued s1, m_qSending := [], m_qSendCache := []\<rparr>)"
    unfolding all by blast
  moreover have "s1\<lparr>wire := wire s1 @ queued s1, m_qSending := [], m_qSendCache := []\<rparr> =
      s\<lparr>wire := wire s @ queued s, m_qSending := [], m_qSendCache := []\<rparr>"
    using q by (simp add: s1_def queued_def swap_if_empty_def)
  ultimately show ?case
    using can_send_pass_full [OF b, of rest s] q by (simp add: s1_def)
qed

section \<open>Senders and the flusher together\<close>

text \<open>
  \<open>m_lkSending\<close> is held by a sender from its successful \<open>try_lock\<close> until it has dealt with
  the answer of the kernel, and by the I/O thread during the whole of \<open>handle_can_send\<close>.
  While it is held, other threads only cache their blocks. The holder is part of the state,
  and the events are the points at which the threads interleave.
\<close>

datatype holder = Free | Sender CMemBlock | Flusher

datatype rup_evt =
    Send CMemBlock
  | Send_answer "nat os_ret"
  | Flush
  | Flush_answer "nat os_ret"
  | Flush_return

inductive rup_step :: "rup_evt \<Rightarrow> holder \<times> CRupSock \<Rightarrow> holder \<times> CRupSock \<Rightarrow> bool" where
  send_cached: "get_len d > 0 \<Longrightarrow> rup_send_begin (h = Free) d s = Inr (Some c, s') \<Longrightarrow>
    rup_step (Send d) (h, s) (h, s')"
| send_direct: "get_len d > 0 \<Longrightarrow> rup_send_begin True d s = Inr (None, s') \<Longrightarrow>
    rup_step (Send d) (Free, s) (Sender d, s')"
| send_answer: "rup_send_end d a s = Inr (c, s') \<Longrightarrow>
    rup_step (Send_answer a) (Sender d, s) (Free, s')"
| flush: "rup_step Flush (Free, s) (Flusher, swap_if_empty s)"
| flush_more: "m_qSending s = b # rest \<Longrightarrow> can_send_pass a b rest s = Inr (True, r, s') \<Longrightarrow>
    rup_step (Flush_answer a) (Flusher, s) (Flusher, s')"
| flush_stop: "m_qSending s = b # rest \<Longrightarrow> can_send_pass a b rest s = Inr (False, r, s') \<Longrightarrow>
    rup_step (Flush_answer a) (Flusher, s) (Free, s')"
| flush_return: "m_qSending s = [] \<Longrightarrow> rup_step Flush_return (Flusher, s) (Free, s)"

inductive_cases rup_stepE: "rup_step e hs hs'"

inductive rup_run :: "rup_evt list \<Rightarrow> holder \<times> CRupSock \<Rightarrow> holder \<times> CRupSock \<Rightarrow> bool" where
  run_nil: "rup_run [] x x"
| run_cons: "rup_step e x y \<Longrightarrow> rup_run es y z \<Longrightarrow> rup_run (e # es) x z"

inductive_cases rup_run_nilE: "rup_run [] x z"
inductive_cases rup_run_consE: "rup_run (e # es) x z"

text \<open>The relation is a function where it is defined, and this is it.\<close>

fun rup_exec :: "rup_evt \<Rightarrow> holder \<times> CRupSock \<Rightarrow> (holder \<times> CRupSock) option" where
  "rup_exec (Send d) (h, s) =
     (if get_len d > 0
      then (case rup_send_begin (h = Free) d s of
              Inl e \<Rightarrow> None
            | Inr (None, s') \<Rightarrow> Some (Sender d, s')
            | Inr (Some c, s') \<Rightarrow> Some (h, s'))
      else None)"
| "rup_exec (Send_answer a) (Sender d, s) =
     (case rup_send_end d a s of Inl e \<Rightarrow> None | Inr (c, s') \<Rightarrow> Some (Free, s'))"
| "rup_exec Flush (Free, s) = Some (Flusher, swap_if_empty s)"
| "rup_exec (Flush_answer a) (Flusher, s) =
     (case m_qSending s of
        [] \<Rightarrow> None
      | b # rest \<Rightarrow>
          (case can_send_pass a b rest s of
             Inl e \<Rightarrow> None
           | Inr (again, r, s') \<Rightarrow> Some (if again then Flusher else Free, s')))"
| "rup_exec Flush_return (Flusher, s) = (if m_qSending s = [] then Some (Free, s) else None)"
| "rup_exec _ _ = None"

fun rup_execs :: "rup_evt list \<Rightarrow> holder \<times> CRupSock \<Rightarrow> (holder \<times> CRupSock) option" where
  "rup_execs [] x = Some x"
| "rup_execs (e # es) x = (case rup_exec e x of None \<Rightarrow> None | Some y \<Rightarrow> rup_execs es y)"

lemma rup_send_begin_direct: "rup_send_begin locked d s = Inr (None, s') \<Longrightarrow> locked"
  by (auto simp: rup_send_begin_def bindr_Inr_iff split: if_splits)

lemma rup_exec_step: "rup_exec e x = Some y \<Longrightarrow> rup_step e x y"
proof (induction e x rule: rup_exec.induct)
  case (1 d h s)
  then obtain c s' where r: "get_len d > 0" "rup_send_begin (h = Free) d s = Inr (c, s')"
    and y: "y = (case c of None \<Rightarrow> Sender d | Some _ \<Rightarrow> h, s')"
    by (auto split: if_splits sum.splits option.splits)
  show ?case
  proof (cases c)
    case None
    then have "h = Free"
      using r rup_send_begin_direct by blast
    then show ?thesis
      using r y None by (auto intro: rup_step.send_direct)
  next
    case (Some c')
    then show ?thesis
      using r y by (auto intro: rup_step.send_cached)
  qed
next
  case (4 a s)
  then obtain b rest again r s' where "m_qSending s = b # rest"
    and "can_send_pass a b rest s = Inr (again, r, s')" and "y = (if again then Flusher else Free, s')"
    by (auto split: list.splits sum.splits)
  then show ?case
    by (cases again) (auto intro: rup_step.flush_more rup_step.flush_stop)
qed (auto intro: rup_step.intros split: sum.splits if_splits)

lemma rup_step_exec: "rup_step e x y \<Longrightarrow> rup_exec e x = Some y"
  by (induction rule: rup_step.induct) auto

lemma rup_execs_run: "rup_execs es x = Some z \<longleftrightarrow> rup_run es x z"
proof
  show "rup_run es x z \<Longrightarrow> rup_execs es x = Some z"
    by (induction rule: rup_run.induct) (auto dest: rup_step_exec)
  show "rup_execs es x = Some z \<Longrightarrow> rup_run es x z"
    by (induction es arbitrary: x)
      (auto split: option.splits intro: rup_run.intros rup_exec_step)
qed

text \<open>The bytes the callers handed over, in the order of their calls.\<close>

fun submitted :: "rup_evt list \<Rightarrow> bytes" where
  "submitted [] = []"
| "submitted (Send d # es) = mem_data d @ submitted es"
| "submitted (_ # es) = submitted es"

text \<open>What the socket and a sender in its system call still hold, in sending order.\<close>

fun held :: "holder \<times> CRupSock \<Rightarrow> bytes" where
  "held (Sender d, s) = mem_data d @ queued s"
| "held (_, s) = queued s"

text \<open>
  The steps after which the stream may be broken: a sender that finds the cache empty while
  \<open>m_qSending\<close> still holds an earlier remainder, and a direct \<open>send\<close> the kernel refuses.
\<close>

fun overtakes :: "rup_evt \<Rightarrow> holder \<times> CRupSock \<Rightarrow> bool" where
  "overtakes (Send d) (h, s) \<longleftrightarrow> h = Free \<and> m_qSendCache s = [] \<and> m_qSending s \<noteq> []"
| "overtakes (Send_answer (Os_fail e)) hs \<longleftrightarrow> True"
| "overtakes _ hs \<longleftrightarrow> False"

inductive clean_run :: "rup_evt list \<Rightarrow> holder \<times> CRupSock \<Rightarrow> holder \<times> CRupSock \<Rightarrow> bool" where
  clean_nil: "clean_run [] x x"
| clean_cons: "rup_step e x y \<Longrightarrow> \<not> overtakes e x \<Longrightarrow> (\<And>d. e = Send d \<Longrightarrow> mem_wf d) \<Longrightarrow>
    clean_run es y z \<Longrightarrow> clean_run (e # es) x z"

fun sys_wf :: "holder \<times> CRupSock \<Rightarrow> bool" where
  "sys_wf (Sender d, s) \<longleftrightarrow> rup_wf s \<and> mem_wf d \<and> mem_data d \<noteq> [] \<and> m_qSending s = []"
| "sys_wf (_, s) \<longleftrightarrow> rup_wf s"

lemma mem_data_nonempty: "mem_wf b \<Longrightarrow> get_len b > 0 \<Longrightarrow> mem_data b \<noteq> []"
  using length_mem_data [of b] by (auto simp: get_len_def word_less_nat_alt)

lemma rup_send_begin_cases:
  assumes "rup_send_begin locked d s = Inr (c, s')" and "rup_wf s" and "mem_wf d" and "mem_data d \<noteq> []"
  shows "(case c of
      None \<Rightarrow> s' = s \<and> locked \<and> m_qSendCache s = []
    | Some _ \<Rightarrow> rup_wf s' \<and> m_qSending s' = m_qSending s \<and> wire s' = wire s \<and>
        queued s' = queued s @ mem_data d)"
proof (cases "\<not> locked \<or> m_qSendCache s \<noteq> []")
  case True
  obtain q' where q': "cache_block d (m_qSendCache s) = Inr q'" "blocks_wf q'"
      "blocks_data q' = blocks_data (m_qSendCache s) @ mem_data d"
    using cache_block_data [of "m_qSendCache s" d] assms(2-4) by (auto simp: rup_wf_def)
  then have "c = Some CMNERR_SEND_PENDING" and "s' = s\<lparr>m_qSendCache := q'\<rparr>"
    using assms(1) True by (auto simp: rup_send_begin_def)
  then show ?thesis
    using q' assms(2) by (simp add: rup_wf_def queued_def)
next
  case False
  then show ?thesis
    using assms(1) by (auto simp: rup_send_begin_def)
qed

text \<open>A sender's remainder goes in front of what was cached meanwhile.\<close>

lemma rup_send_end_conserves:
  assumes "rup_send_end d (Os_ok n) s = Inr (c, s')" and "rup_wf s" and "mem_wf d"
    and "m_qSending s = []"
  shows "rup_wf s' \<and> wire s' @ queued s' = wire s @ mem_data d @ queued s"
proof (cases "unat (get_len d) > n")
  case True
  then have "s' = s\<lparr>wire := wire s @ take n (mem_data d),
      m_qSendCache := dec_head_data (word_of_nat n) d # m_qSendCache s\<rparr>"
    using assms(1) by (auto simp: rup_send_end_def split: if_splits)
  then show ?thesis
    using assms(2,4) take_dec_head [OF assms(3), of n] True
    by (simp add: rup_wf_def queued_def get_len_def)
next
  case False
  then have "s' = s\<lparr>wire := wire s @ take n (mem_data d)\<rparr>" and "length (mem_data d) \<le> n"
    using assms(1,3) by (auto simp: rup_send_end_def get_len_def length_mem_data split: if_splits)
  then show ?thesis
    using assms(2) by (simp add: rup_wf_def queued_def)
qed

lemma clean_step:
  assumes "rup_step e hs hs'" and "\<not> overtakes e hs" and "\<And>d. e = Send d \<Longrightarrow> mem_wf d"
    and "sys_wf hs"
  shows "sys_wf hs' \<and> wire (snd hs') @ held hs' = wire (snd hs) @ held hs @ submitted [e]"
  using assms
proof (cases rule: rup_step.cases)
  case (send_cached d h s c s')
  have d: "mem_wf d" "mem_data d \<noteq> []"
    using assms(3) send_cached mem_data_nonempty by auto
  have "rup_wf s"
    using assms(4) send_cached by (cases h) auto
  from rup_send_begin_cases [OF send_cached(5) this d] show ?thesis
    using send_cached assms(4) by (cases h) (auto simp: send_cached)
next
  case (send_direct d s s')
  have d: "mem_wf d" "mem_data d \<noteq> []"
    using assms(3) send_direct mem_data_nonempty by auto
  have "rup_wf s"
    using assms(4) send_direct by auto
  from rup_send_begin_cases [OF send_direct(5) this d] show ?thesis
    using send_direct assms(2) d \<open>rup_wf s\<close> by (auto simp: queued_def)
next
  case (send_answer d a s c s')
  obtain n where a: "a = Os_ok n"
    using assms(2) send_answer by (cases a) auto
  show ?thesis
    using rup_send_end_conserves [of d n s c s'] send_answer assms(4) a by auto
next
  case (flush s)
  then show ?thesis
    using assms(4) by auto
next
  case (flush_more s b rest a r s')
  then show ?thesis
    using can_send_pass_conserves [of a b rest s True r s'] assms(4) by auto
next
  case (flush_stop s b rest a r s')
  then show ?thesis
    using can_send_pass_conserves [of a b rest s False r s'] assms(4) by auto
next
  case (flush_return s)
  then show ?thesis
    using assms(4) by auto
qed

lemma submitted_Cons: "submitted (e # es) = submitted [e] @ submitted es"
  by (cases e) auto

lemma clean_run_conserves:
  "clean_run es x z \<Longrightarrow> sys_wf x \<Longrightarrow>
   sys_wf z \<and> wire (snd z) @ held z = wire (snd x) @ held x @ submitted es"
proof (induction rule: clean_run.induct)
  case (clean_nil x)
  then show ?case by simp
next
  case (clean_cons e x y es z)
  then show ?case
    using clean_step [of e x y] submitted_Cons [of e es] by auto
qed

section \<open>Receiving into the block\<close>

lemma recv_into_block:
  assumes wf: "mem_wf b" and fits: "length d \<le> unat (get_tail_free_size b)"
  shows "\<exists>bs. write_at (get_tail_free_buf b) d (m_bytes b) = Inr bs \<and>
    mem_wf (inc_len (word_of_nat (length d)) (b\<lparr>m_bytes := bs\<rparr>)) \<and>
    mem_data (inc_len (word_of_nat (length d)) (b\<lparr>m_bytes := bs\<rparr>)) = mem_data b @ d"
proof -
  have small: "length d \<le> unat (m_ui32Sz b)"
    using fits by (simp add: unat_tail_free [OF wf])
  then have n: "unat (word_of_nat (length d) :: u32) = length d"
    using unat_u32_lt [of "m_ui32Sz b"] by (simp add: unat_word_of_nat_u32)
  have "unat (m_ui32Offset b) + unat (m_ui32Len b) + length d \<le> unat (m_ui32Sz b)"
    using fits wf by (auto simp: unat_tail_free [OF wf] mem_wf_def)
  from append_into_tail [OF wf n this] show ?thesis
    by (auto simp: get_tail_free_buf_def inc_len_def)
qed

definition recv_data :: "CRupSock \<Rightarrow> bytes" where
  "recv_data s = (case m_pRecvedData s of None \<Rightarrow> [] | Some b \<Rightarrow> mem_data b)"

definition recv_wf :: "CRupSock \<Rightarrow> bool" where
  "recv_wf s \<longleftrightarrow> (case m_pRecvedData s of None \<Rightarrow> True | Some b \<Rightarrow> mem_wf b)"

text \<open>The free space \<open>recv\<close> is offered: the whole of the block less the data in it.\<close>

definition recv_room :: "bytes \<Rightarrow> CRupSock \<Rightarrow> nat" where
  "recv_room raw s =
     (case m_pRecvedData s of None \<Rightarrow> length raw
      | Some b \<Rightarrow> unat (m_ui32Sz b) - unat (m_ui32Len b))"

lemma recv_block_ready:
  assumes "recv_wf s" and "length raw < 4294967296"
  shows "\<exists>b. (case m_pRecvedData s of Some b \<Rightarrow> move_data_ahead b | None \<Rightarrow> Inr (new_mem raw 0)) = Inr b \<and>
    mem_wf b \<and> mem_data b = recv_data s \<and> unat (get_tail_free_size b) = recv_room raw s"
proof (cases "m_pRecvedData s")
  case None
  have "unat (m_ui32Sz (new_mem raw 0)) = length raw"
    using assms(2) by (simp add: new_mem_def unat_word_of_nat_u32)
  then show ?thesis
    using None mem_wf_new [of raw 0] unat_tail_free [of "new_mem raw 0"]
    by (simp add: recv_data_def recv_room_def) (simp add: new_mem_def)
next
  case (Some b)
  then obtain b' where "move_data_ahead b = Inr b'" and "mem_wf b'" and "mem_data b' = mem_data b"
    and "m_ui32Offset b' = 0" "m_ui32Len b' = m_ui32Len b" "m_ui32Sz b' = m_ui32Sz b"
    using move_data_ahead_wf [of b] assms(1) by (auto simp: recv_wf_def)
  then show ?thesis
    using Some by (simp add: recv_data_def recv_room_def unat_tail_free)
qed

section \<open>Properties\<close>

text \<open>C7: The stream contract of the socket, for any interleaving of callers of \<open>send\<close> with the
  I/O thread in \<open>handle_can_send\<close>. As long as no caller overtakes a remainder in
  \<open>m_qSending\<close> and no direct \<open>send\<close> is refused by the kernel, the bytes on the wire followed
  by the bytes the socket still holds are exactly the bytes submitted, in the order of the
  calls: nothing is lost, duplicated or reordered.\<close>

theorem rup_stream_in_order:
  assumes "clean_run es (Free, new_rup_sock) (h, s)"
  shows "wire s @ held (h, s) = submitted es \<and> rup_wf s"
proof -
  have "sys_wf (Free, new_rup_sock)" and "held (Free, new_rup_sock) = []"
    by (simp_all add: rup_wf_def new_rup_sock_def queued_def)
  then have "sys_wf (h, s)" and "wire s @ held (h, s) = submitted es"
    using clean_run_conserves [OF assms] by (simp_all add: new_rup_sock_def)
  then show ?thesis
    by (cases h) auto
qed

definition block_of :: "bytes \<Rightarrow> CMemBlock" where
  "block_of d = \<lparr>m_bytes = d @ [0, 0, 0, 0], m_ui32InitOffset = 0,
     m_ui32Sz = word_of_nat (length d + 4), m_ui32Offset = 0, m_ui32Len = word_of_nat (length d)\<rparr>"

lemmas rup_eval = block_of_def new_rup_sock_def rup_send_begin_def rup_send_end_def cache_block_def
  can_send_pass_def swap_if_empty_def read_at_def write_at_def append_mem_def get_data_def get_len_def
  mem_data_def dec_head_data_def get_total_free_size_def get_tail_free_size_def mem_wf_def
  Let_def

theorem rup_stream_in_order_witness:
  "\<exists>s. wire s = [1, 2] \<and> wire s @ held (Free, s) = [1, 2, 3, 4] \<and> rup_wf s"
proof -
  let ?es = "[Send (block_of [1, 2, 3]), Send (block_of [4]), Send_answer (Os_ok 2)]"
  have "\<exists>s. clean_run ?es (Free, new_rup_sock) (Free, s) \<and> wire s = [1, 2]"
    apply (rule exI, rule conjI)
     apply (rule clean_cons [OF send_direct]; (simp add: rup_eval)?)
     apply (rule clean_cons [OF send_cached]; (simp add: rup_eval)?)
     apply (rule clean_cons [OF send_answer]; (simp add: rup_eval)?)
     apply (rule clean_nil)
    apply (simp add: rup_eval)
    done
  then obtain s where s: "clean_run ?es (Free, new_rup_sock) (Free, s)" "wire s = [1, 2]"
    by blast
  from rup_stream_in_order [OF s(1)] s(2) show ?thesis
    by (auto simp: rup_eval)
qed


text \<open>A \<open>send\<close> that finds the socket idle and the kernel's buffer full reports
  \<open>CMNERR_SEND_PENDING\<close>, the code of a message that was queued, and leaves the socket exactly
  as it was: the message is neither on the wire nor in a queue.\<close>

theorem rup_send_would_block_drops:
  assumes "get_len d > 0" and "m_qSendCache s = []"
  shows "rup_send_mem 1 True (Os_fail EWOULDBLOCK) d s = Inr (CMNERR_SEND_PENDING, s)"
  using assms by (simp add: rup_send_mem_def rup_send_begin_def rup_send_end_def)

theorem rup_send_would_block_drops_witness:
  "rup_send_mem 1 True (Os_fail EWOULDBLOCK) (block_of [1, 2, 3]) new_rup_sock =
   Inr (CMNERR_SEND_PENDING, new_rup_sock)"
  by (rule rup_send_would_block_drops) (simp_all add: rup_eval)

text \<open>\<open>handle_can_send\<close>, whatever the kernel answers, only moves a prefix of the queued
  bytes to the wire, and when the kernel takes every block in full it returns with both queues
  empty and all their bytes on the wire, in order.\<close>

theorem rup_flush_correct:
  assumes "rup_wf s"
  shows "(\<forall>answers r s'. rup_handle_can_send answers s = Inr (r, s') \<longrightarrow>
      rup_wf s' \<and> wire s' @ queued s' = wire s @ queued s) \<and>
    (\<exists>r s'. rup_handle_can_send
        (map (\<lambda>b. Os_ok (length (mem_data b))) (m_qSending s @ m_qSendCache s)) s = Inr (r, s') \<and>
      m_qSending s' = [] \<and> m_qSendCache s' = [] \<and> wire s' = wire s @ queued s)"
proof (rule conjI)
  show "\<forall>answers r s'. rup_handle_can_send answers s = Inr (r, s') \<longrightarrow>
      rup_wf s' \<and> wire s' @ queued s' = wire s @ queued s"
    using can_send_loop_conserves [of _ CMNERR_SUC "swap_if_empty s"] assms
    by (auto simp: rup_handle_can_send_def)
next
  let ?s = "swap_if_empty s"
  have "m_qSending ?s = [] \<longrightarrow> m_qSendCache ?s = []"
    and blocks: "m_qSending ?s @ m_qSendCache ?s = m_qSending s @ m_qSendCache s"
    by (simp_all add: swap_if_empty_def)
  then show "\<exists>r s'. rup_handle_can_send
        (map (\<lambda>b. Os_ok (length (mem_data b))) (m_qSending s @ m_qSendCache s)) s = Inr (r, s') \<and>
      m_qSending s' = [] \<and> m_qSendCache s' = [] \<and> wire s' = wire s @ queued s"
    using can_send_loop_full [of ?s CMNERR_SUC] assms
    unfolding rup_handle_can_send_def blocks by auto
qed

definition busy_sock :: CRupSock where
  "busy_sock = new_rup_sock\<lparr>m_qSending := [block_of [1, 2]], m_qSendCache := [block_of [3]]\<rparr>"

theorem rup_flush_correct_witness:
  "\<exists>r s'. rup_handle_can_send (map (\<lambda>b. Os_ok (length (mem_data b))) [block_of [1, 2], block_of [3]])
      busy_sock = Inr (r, s') \<and>
    m_qSending s' = [] \<and> m_qSendCache s' = [] \<and> wire s' = [1, 2, 3]"
proof -
  have "rup_wf busy_sock"
    by (simp add: rup_wf_def busy_sock_def rup_eval)
  moreover have "queued busy_sock = [1, 2, 3]" and "wire busy_sock = []"
    and "m_qSending busy_sock @ m_qSendCache busy_sock = [block_of [1, 2], block_of [3]]"
    by (simp_all add: busy_sock_def queued_def rup_eval)
  ultimately show ?thesis
    using conjunct2 [OF rup_flush_correct [of busy_sock]] by simp
qed

text \<open>Receiving appends. When \<open>recv\<close> delivers at least one byte and no more than it was
  offered, \<open>handle_can_recv\<close> succeeds and the data of the receive block grows by these bytes;
  a block with no room left is offered zero bytes, the only answer then is zero, and the
  caller is told \<open>CMNERR_IO_ERR\<close> as if the peer had closed.\<close>

theorem rup_recv_correct:
  assumes "recv_wf s" and "length raw < 4294967296" and "length d \<le> recv_room raw s"
  shows "\<exists>code s'. rup_handle_can_recv raw (Os_ok d) s = Inr (code, s') \<and> recv_wf s' \<and>
    recv_data s' = recv_data s @ d \<and> code = (if d = [] then CMNERR_IO_ERR else CMNERR_SUC)"
proof -
  obtain b where b: "(case m_pRecvedData s of Some b \<Rightarrow> move_data_ahead b | None \<Rightarrow> Inr (new_mem raw 0)) = Inr b"
      "mem_wf b" "mem_data b = recv_data s" "unat (get_tail_free_size b) = recv_room raw s"
    using recv_block_ready [OF assms(1,2)] by blast
  obtain bs where bs: "write_at (get_tail_free_buf b) d (m_bytes b) = Inr bs"
      "mem_wf (inc_len (word_of_nat (length d)) (b\<lparr>m_bytes := bs\<rparr>))"
      "mem_data (inc_len (word_of_nat (length d)) (b\<lparr>m_bytes := bs\<rparr>)) = mem_data b @ d"
    using recv_into_block [OF b(2), of d] b(4) assms(3) by auto
  show ?thesis
    using b bs by (cases "d = []")
      (auto simp: rup_handle_can_recv_def recv_wf_def recv_data_def)
qed

theorem rup_recv_correct_witness:
  "\<exists>code s'. rup_handle_can_recv [0, 0, 0, 0] (Os_ok [7, 8]) new_rup_sock = Inr (code, s') \<and>
    recv_wf s' \<and> recv_data s' = recv_data new_rup_sock @ [7, 8] \<and>
    code = (if [7, 8 :: u8] = [] then CMNERR_IO_ERR else CMNERR_SUC)"
  by (rule rup_recv_correct) (simp_all add: recv_wf_def recv_room_def new_rup_sock_def)

text \<open>The overload of \<open>send\<close> for a byte array ignores the code of its own \<open>append\<close>. A
  message larger than a block aborts the process when it is sent directly (the kernel is
  offered zero bytes, answers zero, and the assertion fails), and when it is queued it is
  dropped although \<open>CMNERR_SEND_PENDING\<close> is reported.\<close>

theorem rup_send_bytes_oversize:
  assumes "length raw < unat len" and "m_qSendCache s = []"
  shows "rup_send_bytes raw True (Os_ok 0) pV len s = Inl Assert_failed \<and>
    (\<exists>s'. rup_send_bytes raw False ans pV len s = Inr (CMNERR_SEND_PENDING, s') \<and>
       queued s' = queued s \<and> wire s' = wire s)"
proof -
  have small: "length raw < 4294967296"
    using assms(1) unat_u32_lt [of len] by simp
  then have sz: "unat (m_ui32Sz (new_mem raw 0)) = length raw"
    by (simp add: new_mem_def unat_word_of_nat_u32)
  have wf: "mem_wf (new_mem raw 0)" and empty: "mem_data (new_mem raw 0) = []"
    using mem_wf_new [of raw 0] sz by simp_all
  have "append_mem pV len (new_mem raw 0) = Inr (CMNERR_COMMON_ERR, new_mem raw 0)"
    using append_mem_full [OF wf, of len pV] sz assms(1) by (simp add: new_mem_def)
  then show ?thesis
    using assms(2) empty
    by (simp add: rup_send_bytes_def filled_mem_def cache_bytes_def rup_send_end_def queued_def)
qed

theorem rup_send_bytes_oversize_witness:
  "rup_send_bytes [0, 0] True (Os_ok 0) [1, 2, 3] 3 new_rup_sock = Inl Assert_failed \<and>
    (\<exists>s'. rup_send_bytes [0, 0] False (Os_fail EOTHER) [1, 2, 3] 3 new_rup_sock =
         Inr (CMNERR_SEND_PENDING, s') \<and>
       queued s' = queued new_rup_sock \<and> wire s' = wire new_rup_sock)"
  by (rule rup_send_bytes_oversize) (simp_all add: new_rup_sock_def)

end
