(* ===== verification/IdlePool.thy ===== *)
theory IdlePool
  imports IoObj StateMachine RupSock
begin

text \<open>
  What the acceptor, the connector and the endpoints of
  \<open>libsmart_net/src/smart_net/sn_endpoint_impl.cpp\<close> share: the calls they make to the engine
  and to the application, recorded in order, and the queue of idle endpoints
  (\<open>m_dqIdleEndpoints\<close>) with the loop that hands a new connection to one of them. An
  endpoint is known by a number.
\<close>

section \<open>Calls to the engine and to the application\<close>

datatype ep_call =
    Engine_add int
  | Engine_del int
  | Timer_add
  | Timer_del
  | On_opened
  | On_closed
  | On_recved_data bytes

text \<open>How often an object was added to the tasks of a type, less how often it was deleted.\<close>

definition registered :: "int \<Rightarrow> ep_call list \<Rightarrow> int" where
  "registered ty cs = int (count_list cs (Engine_add ty)) - int (count_list cs (Engine_del ty))"

definition timed :: "ep_call list \<Rightarrow> int" where
  "timed cs = int (count_list cs Timer_add) - int (count_list cs Timer_del)"

lemma registered_simps [simp]:
  "registered ty [] = 0"
  "registered ty (cs @ [Engine_add ty']) = registered ty cs + (if ty' = ty then 1 else 0)"
  "registered ty (cs @ [Engine_del ty']) = registered ty cs - (if ty' = ty then 1 else 0)"
  "registered ty (cs @ [Timer_add]) = registered ty cs"
  "registered ty (cs @ [Timer_del]) = registered ty cs"
  "registered ty (cs @ [On_opened]) = registered ty cs"
  "registered ty (cs @ [On_closed]) = registered ty cs"
  "registered ty (cs @ [On_recved_data d]) = registered ty cs"
  by (auto simp: registered_def)

lemma timed_simps [simp]:
  "timed [] = 0"
  "timed (cs @ [Engine_add ty]) = timed cs"
  "timed (cs @ [Engine_del ty]) = timed cs"
  "timed (cs @ [Timer_add]) = timed cs + 1"
  "timed (cs @ [Timer_del]) = timed cs - 1"
  "timed (cs @ [On_opened]) = timed cs"
  "timed (cs @ [On_closed]) = timed cs"
  by (auto simp: timed_def)

section \<open>The queue of idle endpoints\<close>

definition pool_add :: "nat \<Rightarrow> nat list \<Rightarrow> int \<times> nat list" where
  "pool_add e q = (CMNERR_SUC, q @ [e])"

text \<open>The first occurrence is erased; an endpoint that is not there fails the assertion.\<close>

definition pool_del :: "nat \<Rightarrow> nat list \<Rightarrow> (int \<times> nat list) res" where
  "pool_del e q = bindr (cmn_assert (e \<in> set q)) (\<lambda>_. Inr (CMNERR_SUC, remove1 e q))"

text \<open>
  The loop that gives a new connection away: endpoints are taken off the front until one
  accepts it. \<open>connect e\<close> is that endpoint's \<open>handle_connected\<close>, acting on the world of all
  endpoints. The result names the endpoint that took the connection.
\<close>

fun hand_over ::
  "(nat \<Rightarrow> 'w \<Rightarrow> (int \<times> 'w) res) \<Rightarrow> nat list \<Rightarrow> 'w \<Rightarrow> (nat option \<times> nat list \<times> 'w) res" where
  "hand_over connect [] w = Inr (None, [], w)"
| "hand_over connect (e # q) w =
     bindr (connect e w) (\<lambda>(code, w).
     if code = CMNERR_SUC then Inr (Some e, q, w) else hand_over connect q w)"

text \<open>
  What the queue relies on: an endpoint accepts a connection exactly when it is ready, then
  it has taken it, and nobody else is touched.
\<close>

locale connectable =
  fixes connect :: "nat \<Rightarrow> 'w \<Rightarrow> (int \<times> 'w) res"
    and ready :: "nat \<Rightarrow> 'w \<Rightarrow> bool"
    and taken :: "nat \<Rightarrow> 'w \<Rightarrow> bool"
    and good :: "'w \<Rightarrow> bool"
  assumes accepts: "good w \<Longrightarrow> ready e w \<Longrightarrow>
      \<exists>w'. connect e w = Inr (CMNERR_SUC, w') \<and> taken e w' \<and> good w' \<and>
        (\<forall>e'. e' \<noteq> e \<longrightarrow> ready e' w' = ready e' w \<and> taken e' w' = taken e' w)"
    and refuses: "good w \<Longrightarrow> \<not> ready e w \<Longrightarrow> \<exists>code. connect e w = Inr (code, w) \<and> code \<noteq> CMNERR_SUC"
begin

lemma hand_over_first_ready:
  "good w \<Longrightarrow> \<exists>w' q' r. hand_over connect q w = Inr (r, q', w') \<and> good w' \<and>
    (case r of
       None \<Rightarrow> q' = [] \<and> w' = w \<and> (\<forall>e \<in> set q. \<not> ready e w)
     | Some e \<Rightarrow> (\<exists>skipped. q = skipped @ e # q' \<and> (\<forall>x \<in> set skipped. \<not> ready x w)) \<and>
         ready e w \<and> taken e w' \<and>
         (\<forall>e'. e' \<noteq> e \<longrightarrow> ready e' w' = ready e' w \<and> taken e' w' = taken e' w))"
proof (induction q)
  case Nil
  then show ?case by simp
next
  case (Cons e q)
  show ?case
  proof (cases "ready e w")
    case True
    then obtain w' where "connect e w = Inr (CMNERR_SUC, w')" "taken e w'" "good w'"
      "\<forall>e'. e' \<noteq> e \<longrightarrow> ready e' w' = ready e' w \<and> taken e' w' = taken e' w"
      using accepts [OF Cons.prems] by blast
    then show ?thesis
      using True by auto
  next
    case False
    then obtain code where code: "connect e w = Inr (code, w)" "code \<noteq> CMNERR_SUC"
      using refuses [OF Cons.prems] by blast
    obtain w' q' r where ih: "hand_over connect q w = Inr (r, q', w')" "good w'"
      "case r of
         None \<Rightarrow> q' = [] \<and> w' = w \<and> (\<forall>e \<in> set q. \<not> ready e w)
       | Some e \<Rightarrow> (\<exists>skipped. q = skipped @ e # q' \<and> (\<forall>x \<in> set skipped. \<not> ready x w)) \<and>
           ready e w \<and> taken e w' \<and>
           (\<forall>e'. e' \<noteq> e \<longrightarrow> ready e' w' = ready e' w \<and> taken e' w' = taken e' w)"
      using Cons.IH [OF Cons.prems] by blast
    have step: "hand_over connect (e # q) w = Inr (r, q', w')"
      using code ih(1) by simp
    show ?thesis
    proof (cases r)
      case None
      then show ?thesis
        using step ih False by auto
    next
      case (Some x)
      then obtain skipped where "q = skipped @ x # q'" "\<forall>y \<in> set skipped. \<not> ready y w"
        using ih(3) by auto
      then have "e # q = (e # skipped) @ x # q'" "\<forall>y \<in> set (e # skipped). \<not> ready y w"
        using False by auto
      then show ?thesis
        using step ih Some by fastforce
    qed
  qed
qed

end

end
