(* ===== verification/RmpWire.thy ===== *)
theory RmpWire
  imports MemBlock
begin

text \<open>
  The packages of the reliable multicast protocol as they lie in memory
  (\<open>SRmpHdr\<close>, \<open>SRmpHb\<close>, \<open>SRmpNak\<close>, \<open>SRmpAck\<close> and \<open>SRmpOdata\<close> of
  \<open>libcomm_net/src/network/sn_socket_impl.h\<close>). The code overlays the structures on byte
  arrays and reads or assigns single fields, in the byte order of the machine; a field is
  here the pair of its position and its width, and every read and write is checked against
  the bounds of the array it goes to.
\<close>

section \<open>Fields of structures in memory\<close>

definition get_field :: "nat \<Rightarrow> nat \<Rightarrow> bytes \<Rightarrow> nat res" where
  "get_field at width bs = bindr (read_at at width bs) (\<lambda>d. Inr (le_nat d))"

definition set_field :: "nat \<Rightarrow> nat \<Rightarrow> nat \<Rightarrow> bytes \<Rightarrow> bytes res" where
  "set_field at width x bs = write_at at (le_bytes width x) bs"

lemma set_field_length: "set_field at w x bs = Inr bs' \<Longrightarrow> length bs' = length bs"
  unfolding set_field_def by (rule write_at_length)

lemma set_field_fits: "at + w \<le> length bs \<Longrightarrow> \<exists>bs'. set_field at w x bs = Inr bs'"
  by (simp add: set_field_def write_at_def)

lemma get_set_field:
  "set_field at w x bs = Inr bs' \<Longrightarrow> get_field at w bs' = Inr (x mod 256 ^ w)"
  using read_after_write [of at "le_bytes w x" bs bs']
  by (simp add: set_field_def get_field_def le_nat_le_bytes)

text \<open>A write leaves alone what lies before it and what lies behind it.\<close>

lemma read_behind_write:
  assumes "write_at at src dst = Inr dst'" and "at + length src \<le> p"
  shows "read_at p n dst' = read_at p n dst"
proof -
  have fits: "at + length src \<le> length dst"
    and dst': "dst' = take at dst @ src @ drop (at + length src) dst"
    using assms(1) by (auto simp: write_at_def split: if_splits)
  have "drop p dst' = drop p dst"
    using assms(2) fits by (simp add: dst' drop_append add.commute)
  then show ?thesis
    using write_at_length [OF assms(1)] by (simp add: read_at_def)
qed

lemma get_other_field:
  assumes "set_field at w x bs = Inr bs'" and "p + n \<le> at \<or> at + w \<le> p"
  shows "get_field p n bs' = get_field p n bs" and "read_at p n bs' = read_at p n bs"
  using assms read_before_write [of at "le_bytes w x" bs bs' p n]
    read_behind_write [of at "le_bytes w x" bs bs' p n]
  by (auto simp: set_field_def get_field_def)

lemma set_field_drop:
  assumes "set_field at w x bs = Inr bs'" and "at + w \<le> k"
  shows "drop k bs' = drop k bs"
proof -
  have "at + w \<le> length bs" and "bs' = take at bs @ le_bytes w x @ drop (at + w) bs"
    using assms(1) by (auto simp: set_field_def write_at_def split: if_splits)
  then show ?thesis
    using assms(2) by (simp add: add.commute)
qed

section \<open>The structures\<close>

text \<open>
  \<open>SRmpHdr\<close>: the bit fields of its two words are, least significant first, a length of
  three bytes, the opcode, the source id and three unused bytes. The other structures are
  sequences of 64-bit numbers.
\<close>

definition sizeof_SRmpHdr :: nat where [simp]: "sizeof_SRmpHdr = 8"
definition sizeof_SRmpHb :: nat where [simp]: "sizeof_SRmpHb = 16"
definition sizeof_SRmpNak :: nat where [simp]: "sizeof_SRmpNak = 24"
definition sizeof_SRmpAck :: nat where [simp]: "sizeof_SRmpAck = 16"
definition sizeof_SRmpOdata :: nat where [simp]: "sizeof_SRmpOdata = 8"

definition hdr_len :: "nat \<Rightarrow> bytes \<Rightarrow> nat res" where "hdr_len p = get_field p 3"
definition hdr_opcode :: "nat \<Rightarrow> bytes \<Rightarrow> nat res" where "hdr_opcode p = get_field (p + 3) 1"
definition hdr_src_id :: "nat \<Rightarrow> bytes \<Rightarrow> nat res" where "hdr_src_id p = get_field (p + 4) 1"

definition set_hdr_len :: "nat \<Rightarrow> nat \<Rightarrow> bytes \<Rightarrow> bytes res" where "set_hdr_len p = set_field p 3"
definition set_hdr_opcode :: "nat \<Rightarrow> nat \<Rightarrow> bytes \<Rightarrow> bytes res" where
  "set_hdr_opcode p = set_field (p + 3) 1"
definition set_hdr_src_id :: "nat \<Rightarrow> nat \<Rightarrow> bytes \<Rightarrow> bytes res" where
  "set_hdr_src_id p = set_field (p + 4) 1"

text \<open>The 64-bit member number \<open>i\<close> of a structure at position \<open>p\<close>.\<close>

definition get_u64 :: "nat \<Rightarrow> nat \<Rightarrow> bytes \<Rightarrow> u64 res" where
  "get_u64 p i bs = bindr (get_field (p + 8 * i) 8 bs) (\<lambda>n. Inr (word_of_nat n))"

definition set_u64 :: "nat \<Rightarrow> nat \<Rightarrow> u64 \<Rightarrow> bytes \<Rightarrow> bytes res" where
  "set_u64 p i x = set_field (p + 8 * i) 8 (unat x)"

datatype EOpcode = EP_DATA | EP_HB | EP_NAK | EP_ACK

fun opcode_val :: "EOpcode \<Rightarrow> nat" where
  "opcode_val EP_DATA = 0"
| "opcode_val EP_HB = 1"
| "opcode_val EP_NAK = 2"
| "opcode_val EP_ACK = 3"

lemma opcode_val_byte: "opcode_val c < 256"
  by (cases c) simp_all

lemma get_set_u64:
  assumes "set_u64 p i x bs = Inr bs'"
  shows "get_u64 p i bs' = Inr x"
proof -
  have "get_field (p + 8 * i) 8 bs' = Inr (unat x mod 256 ^ 8)"
    using assms unfolding set_u64_def by (rule get_set_field)
  moreover have "unat x mod 256 ^ 8 = unat x"
    using unat_u64_lt [of x] by simp
  ultimately show ?thesis
    by (simp add: get_u64_def)
qed

section \<open>Control packages\<close>

text \<open>
  The control packages are built in an array \<open>buf\<close> on the stack that nobody clears: what is
  not assigned goes out as it is. The packages are a header followed by the members; the
  datagram is the first \<open>ui24Len\<close> bytes of the array.
\<close>

definition STACK_BUF :: nat where "STACK_BUF = 8192"

fun set_u64s :: "nat \<Rightarrow> nat \<Rightarrow> u64 list \<Rightarrow> bytes \<Rightarrow> bytes res" where
  "set_u64s p i [] bs = Inr bs"
| "set_u64s p i (x # xs) bs = bindr (set_u64 p i x bs) (set_u64s p (Suc i) xs)"

definition ctrl_pkg :: "EOpcode \<Rightarrow> nat option \<Rightarrow> u64 list \<Rightarrow> bytes \<Rightarrow> bytes res" where
  "ctrl_pkg opc src members buf =
     bindr (set_hdr_len 0 (8 * length members + sizeof_SRmpHdr) buf) (\<lambda>buf.
     bindr (set_hdr_opcode 0 (opcode_val opc) buf) (\<lambda>buf.
     bindr (case src of None \<Rightarrow> Inr buf | Some i \<Rightarrow> set_hdr_src_id 0 i buf) (\<lambda>buf.
     bindr (set_u64s sizeof_SRmpHdr 0 members buf) (\<lambda>buf.
     bindr (hdr_len 0 buf) (\<lambda>n. read_at 0 n buf)))))"

definition hb_pkg :: "u8 \<Rightarrow> u64 \<Rightarrow> u64 \<Rightarrow> bytes \<Rightarrow> bytes res" where
  "hb_pkg src latest oldest = ctrl_pkg EP_HB (Some (unat src)) [latest, oldest]"

definition nak_pkg :: "u64 \<Rightarrow> u64 \<Rightarrow> u64 \<Rightarrow> bytes \<Rightarrow> bytes res" where
  "nak_pkg first_lost last_lost epid = ctrl_pkg EP_NAK None [first_lost, last_lost, epid]"

definition ack_pkg :: "u64 \<Rightarrow> u64 \<Rightarrow> bytes \<Rightarrow> bytes res" where
  "ack_pkg seq epid = ctrl_pkg EP_ACK None [seq, epid]"

lemma set_u64s_length: "set_u64s p i xs bs = Inr bs' \<Longrightarrow> length bs' = length bs"
proof (induction xs arbitrary: i bs)
  case Nil
  then show ?case by simp
next
  case (Cons x xs)
  then obtain bs1 where "set_u64 p i x bs = Inr bs1" and "set_u64s p (Suc i) xs bs1 = Inr bs'"
    by (auto simp: bindr_Inr_iff)
  then show ?case
    using Cons.IH set_field_length by (auto simp: set_u64_def)
qed

lemma set_u64s_fits:
  "p + 8 * (i + length xs) \<le> length bs \<Longrightarrow> \<exists>bs'. set_u64s p i xs bs = Inr bs'"
proof (induction xs arbitrary: i bs)
  case Nil
  then show ?case by simp
next
  case (Cons x xs)
  then obtain bs1 where bs1: "set_u64 p i x bs = Inr bs1"
    using set_field_fits [of "p + 8 * i" 8 bs] by (fastforce simp: set_u64_def)
  then have "length bs1 = length bs"
    using set_field_length by (auto simp: set_u64_def)
  then show ?case
    using Cons.IH [of "Suc i" bs1] Cons.prems bs1 by simp
qed

lemma set_u64s_before:
  "set_u64s p i xs bs = Inr bs' \<Longrightarrow> q + n \<le> p + 8 * i \<Longrightarrow> get_field q n bs' = get_field q n bs"
proof (induction xs arbitrary: i bs)
  case Nil
  then show ?case by simp
next
  case (Cons x xs)
  then obtain bs1 where "set_u64 p i x bs = Inr bs1" and "set_u64s p (Suc i) xs bs1 = Inr bs'"
    by (auto simp: bindr_Inr_iff)
  then show ?case
    using Cons.IH [of "Suc i" bs1] Cons.prems get_other_field(1) [of "p + 8 * i" 8 "unat x" bs bs1 q n]
    by (simp add: set_u64_def)
qed

lemma get_set_u64s:
  "set_u64s p i xs bs = Inr bs' \<Longrightarrow> j < length xs \<Longrightarrow> get_u64 p (i + j) bs' = Inr (xs ! j)"
proof (induction xs arbitrary: i j bs)
  case Nil
  then show ?case by simp
next
  case (Cons x xs)
  then obtain bs1 where bs1: "set_u64 p i x bs = Inr bs1" "set_u64s p (Suc i) xs bs1 = Inr bs'"
    by (auto simp: bindr_Inr_iff)
  show ?case
  proof (cases j)
    case 0
    then show ?thesis
      using get_set_u64 [OF bs1(1)] set_u64s_before [OF bs1(2), of "p + 8 * i" 8]
      by (simp add: get_u64_def)
  next
    case (Suc k)
    then show ?thesis
      using Cons.IH [OF bs1(2), of k] Cons.prems(2) by simp
  qed
qed

text \<open>A field inside a prefix of an array is the field of the array.\<close>

lemma get_field_prefix:
  assumes "read_at 0 n bs = Inr d" and "p + w \<le> n"
  shows "get_field p w d = get_field p w bs"
proof -
  have d: "d = take n bs" and "n \<le> length bs"
    using assms(1) by (auto simp: read_at_def split: if_splits)
  moreover have "take w (drop p (take n bs)) = take w (drop p bs)"
    using assms(2) by (simp add: drop_take min_def)
  ultimately show ?thesis
    using assms(2) by (simp add: get_field_def read_at_def)
qed

lemma get_u64_prefix:
  "read_at 0 n bs = Inr d \<Longrightarrow> p + 8 * i + 8 \<le> n \<Longrightarrow> get_u64 p i d = get_u64 p i bs"
  by (simp add: get_u64_def get_field_prefix)

lemma ctrl_pkg_fields:
  assumes room: "8 * length members + 8 \<le> length buf" and small: "8 * length members + 8 < 16777216"
    and src: "\<And>i. src = Some i \<Longrightarrow> i < 256"
  shows "\<exists>d. ctrl_pkg opc src members buf = Inr d \<and> length d = 8 * length members + 8 \<and>
    hdr_len 0 d = Inr (length d) \<and> hdr_opcode 0 d = Inr (opcode_val opc) \<and>
    (\<forall>i. src = Some i \<longrightarrow> hdr_src_id 0 d = Inr i) \<and>
    (\<forall>j < length members. get_u64 8 j d = Inr (members ! j))"
proof -
  let ?n = "8 * length members + 8"
  obtain b1 where b1: "set_hdr_len 0 ?n buf = Inr b1" "length b1 = length buf"
    using set_field_fits [of 0 3 buf ?n] set_field_length [of 0 3 ?n buf] room
    by (auto simp: set_hdr_len_def)
  obtain b2 where b2: "set_hdr_opcode 0 (opcode_val opc) b1 = Inr b2" "length b2 = length buf"
    using set_field_fits [of 3 1 b1 "opcode_val opc"] set_field_length [of 3 1 "opcode_val opc" b1] room b1
    by (auto simp: set_hdr_opcode_def)
  obtain b3 where b3: "(case src of None \<Rightarrow> Inr b2 | Some i \<Rightarrow> set_hdr_src_id 0 i b2) = Inr b3"
      "length b3 = length buf"
    using set_field_fits [of 4 1 b2] set_field_length [of 4 1 _ b2] room b2
    by (cases src) (fastforce simp: set_hdr_src_id_def)+
  obtain b4 where b4: "set_u64s 8 0 members b3 = Inr b4" "length b4 = length buf"
    using set_u64s_fits [of 8 0 members b3] set_u64s_length [of 8 0 members b3] room b3
    by (auto simp: add.commute)
  have keep3: "get_field p w b3 = get_field p w b2" if "p + w \<le> 4 \<or> 5 \<le> p" for p w
    using b3(1) that get_other_field(1) [of 4 1 _ b2 b3 p w]
    by (cases src) (auto simp: set_hdr_src_id_def)
  have keep4: "get_field p w b4 = get_field p w b3" if "p + w \<le> 8" for p w
    using set_u64s_before [OF b4(1), of p w] that by simp
  have len4: "hdr_len 0 b4 = Inr ?n"
    using get_set_field [of 0 3 ?n buf b1] b1 b2 get_other_field(1) [of 3 1 "opcode_val opc" b1 b2 0 3]
      keep3 [of 0 3] keep4 [of 0 3] small
    by (simp add: hdr_len_def set_hdr_len_def set_hdr_opcode_def)
  have opc4: "hdr_opcode 0 b4 = Inr (opcode_val opc)"
    using get_set_field [of 3 1 "opcode_val opc" b1 b2] b2 keep3 [of 3 1] keep4 [of 3 1]
      opcode_val_byte [of opc]
    by (simp add: hdr_opcode_def set_hdr_opcode_def)
  have src4: "hdr_src_id 0 b4 = Inr i" if "src = Some i" for i
    using that get_set_field [of 4 1 i b2 b3] b3 keep4 [of 4 1] src [of i]
    by (simp add: hdr_src_id_def set_hdr_src_id_def)
  obtain d where d: "read_at 0 ?n b4 = Inr d" and len: "length d = ?n"
    using room b4(2) by (auto simp: read_at_def)
  have "ctrl_pkg opc src members buf = Inr d"
    using b1 b2 b3 b4 len4 d by (simp add: ctrl_pkg_def)
  moreover have "hdr_len 0 d = Inr (length d)"
    using len4 len get_field_prefix [OF d, of 0 3] by (simp add: hdr_len_def)
  moreover have "hdr_opcode 0 d = Inr (opcode_val opc)"
    using opc4 get_field_prefix [OF d, of 3 1] by (simp add: hdr_opcode_def)
  moreover have "hdr_src_id 0 d = Inr i" if "src = Some i" for i
    using src4 [OF that] get_field_prefix [OF d, of 4 1] by (simp add: hdr_src_id_def)
  moreover have "get_u64 8 j d = Inr (members ! j)" if "j < length members" for j
    using get_set_u64s [OF b4(1) that] get_u64_prefix [OF d, of 8 j] that by simp
  ultimately show ?thesis
    using len by blast
qed

lemma ack_pkg_total: "24 \<le> length buf \<Longrightarrow> \<exists>d. ack_pkg seq epid buf = Inr d"
  using ctrl_pkg_fields [of "[seq, epid]" buf None EP_ACK] by (auto simp: ack_pkg_def)

lemma nak_pkg_total: "32 \<le> length buf \<Longrightarrow> \<exists>d. nak_pkg b e epid buf = Inr d"
  using ctrl_pkg_fields [of "[b, e, epid]" buf None EP_NAK] by (auto simp: nak_pkg_def)

section \<open>Properties\<close>

text \<open>C27: The control packages survive the wire. Whatever the uncleared array on the stack held,
  the datagrams built for a heartbeat, a negative and a positive acknowledgement have the size
  their header announces, and the receiver's reads give back the opcode and every member.\<close>

theorem rmp_ctrl_roundtrip:
  assumes "length buf = STACK_BUF"
  shows "\<exists>hb nak ack.
    hb_pkg src latest oldest buf = Inr hb \<and> hdr_len 0 hb = Inr (length hb) \<and>
      hdr_opcode 0 hb = Inr (opcode_val EP_HB) \<and> hdr_src_id 0 hb = Inr (unat src) \<and>
      get_u64 8 0 hb = Inr latest \<and> get_u64 8 1 hb = Inr oldest \<and>
    nak_pkg fst_lost lst_lost epid buf = Inr nak \<and> hdr_len 0 nak = Inr (length nak) \<and>
      hdr_opcode 0 nak = Inr (opcode_val EP_NAK) \<and> get_u64 8 0 nak = Inr fst_lost \<and>
      get_u64 8 1 nak = Inr lst_lost \<and> get_u64 8 2 nak = Inr epid \<and>
    ack_pkg seq epid buf = Inr ack \<and> hdr_len 0 ack = Inr (length ack) \<and>
      hdr_opcode 0 ack = Inr (opcode_val EP_ACK) \<and> get_u64 8 0 ack = Inr seq \<and>
      get_u64 8 1 ack = Inr epid"
proof -
  have room: "32 \<le> length buf"
    using assms by (simp add: STACK_BUF_def)
  obtain hb where "hb_pkg src latest oldest buf = Inr hb" "hdr_len 0 hb = Inr (length hb)"
    "hdr_opcode 0 hb = Inr (opcode_val EP_HB)" "hdr_src_id 0 hb = Inr (unat src)"
    "\<forall>j < 2. get_u64 8 j hb = Inr ([latest, oldest] ! j)"
    using ctrl_pkg_fields [of "[latest, oldest]" buf "Some (unat src)" EP_HB] room unat_u8_lt [of src]
    by (auto simp: hb_pkg_def numeral_2_eq_2)
  moreover obtain nak where "nak_pkg fst_lost lst_lost epid buf = Inr nak" "hdr_len 0 nak = Inr (length nak)"
    "hdr_opcode 0 nak = Inr (opcode_val EP_NAK)"
    "\<forall>j < 3. get_u64 8 j nak = Inr ([fst_lost, lst_lost, epid] ! j)"
    using ctrl_pkg_fields [of "[fst_lost, lst_lost, epid]" buf None EP_NAK] room
    by (auto simp: nak_pkg_def numeral_3_eq_3)
  moreover obtain ack where "ack_pkg seq epid buf = Inr ack" "hdr_len 0 ack = Inr (length ack)"
    "hdr_opcode 0 ack = Inr (opcode_val EP_ACK)"
    "\<forall>j < 2. get_u64 8 j ack = Inr ([seq, epid] ! j)"
    using ctrl_pkg_fields [of "[seq, epid]" buf None EP_ACK] room
    by (auto simp: ack_pkg_def numeral_2_eq_2)
  ultimately show ?thesis
    by (intro exI [of _ hb] exI [of _ nak] exI [of _ ack]) simp
qed

theorem rmp_ctrl_roundtrip_witness:
  "\<exists>ack. ack_pkg 7 42 (replicate STACK_BUF 255) = Inr ack \<and> get_u64 8 0 ack = Inr 7 \<and>
     get_u64 8 1 ack = Inr 42"
  using rmp_ctrl_roundtrip [of "replicate STACK_BUF 255" 1 2 3 4 5 42 7] by auto

end
