(* ===== verification/RmpSock.thy ===== *)
theory RmpSock
  imports RmpWire
begin

text \<open>
  \<open>CRmpSock\<close> of \<open>libcomm_net/src/network/sn_socket_impl.cpp\<close>, the reliable multicast socket.
  One class serves both ends: a receiver, which orders what arrives and acknowledges, and a
  sender, which keeps a window of packages, multicasts them and repeats what a receiver has
  lost. The record follows the class: what both use, the receiver's fields, the sender's
  fields. \<open>sent\<close> is the log of the datagrams handed to the kernel. What the code reads from
  its surroundings is an argument: the answers of the kernel, the clock, the garbage of
  the arrays on the stack and of new blocks.
\<close>

section \<open>State\<close>

record sn_sock_addr =
  sin_addr :: u32
  sin_port :: u16

record SRecverInfo =
  ui64LastRecvedSeqNo :: u64
  ui32Naks :: u32
  ui64LastUpdateTimeUs :: u64

definition new_recver :: SRecverInfo where
  "new_recver = \<lparr>ui64LastRecvedSeqNo = 0, ui32Naks = 0, ui64LastUpdateTimeUs = 0\<rparr>"

type_synonym recver_map = "u64 \<rightharpoonup> SRecverInfo"

text \<open>
  The table of receivers is a container of a third party, \<open>google::dense_hash_map\<close>, or
  \<open>std::map\<close> in another build. Its \<open>operator[]\<close>, its \<open>erase\<close> and its order of iteration are
  parameters: the hash map refuses its empty key, and refuses to erase when no deleted key
  was set.
\<close>

record recver_ops =
  touch_entry :: "u64 \<Rightarrow> recver_map \<Rightarrow> recver_map res"
  erase_entry :: "u64 \<Rightarrow> recver_map \<Rightarrow> recver_map res"
  iter_order :: "recver_map \<Rightarrow> u64 list"

record rmp_common =
  m_i32Type :: int
  m_hSock_rmp :: int
  m_epid :: u64
  m_ui8SenderId :: u8
  m_pMem :: "CMemBlock option"
  sent :: "(bytes \<times> sn_sock_addr) list"

record rmp_recver = rmp_common +
  m_ui64ValidPkgBegin :: u64
  m_ui64ValidPkgEnd :: u64
  m_addrSender :: sn_sock_addr
  m_ui64LatestRecvedValidSeqNo :: u64
  m_ui64LastSendNakTime :: u64
  m_ui32SendAckCnt :: u32
  m_ui64AppConfirmAck :: u64
  m_ui64AppConfirmAckTmp :: u64
  m_ui64UnvalidPkgBegin :: u64
  m_ui64UnvalidPkgEnd :: u64
  m_ui64LastSendAckTime :: u64
  m_vecUnvalidPkgs :: "CMemBlock option list"
  m_ui32UnvalidPkgsSize :: u32

record CRmpSock = rmp_recver +
  m_ui32SenderWinSize :: u32
  m_vecSendWin :: "CMemBlock option list"
  m_ui64ValidSendingDataHead :: u64
  m_ui64ValidSendingDataTail :: u64
  m_ui64SendingSeqNo :: u64
  m_ui64LastHbTime :: u64
  m_ui64HbInterval :: u64
  m_ui32SpeedHelper :: u32
  m_ui64LastSendingSeqNo :: u64
  m_ui64LastSendAndAckWinSize :: u64
  m_ui64LastSpeedControlSeqNo :: u64
  m_ui64LastSpeedControlTime :: u64
  m_addrMulticast :: sn_sock_addr
  m_ui64MaxKeepAliveTimeUs :: u64
  m_ui32Naks :: u32
  m_ui32SendSpeed :: u32
  m_mapRecvers :: recver_map

definition RMP_RECV_SOCK :: int where [simp]: "RMP_RECV_SOCK = 0"
definition RMP_SEND_SOCK :: int where [simp]: "RMP_SEND_SOCK = 1"

definition UNORDERED_PKGS_CNT :: u32 where "UNORDERED_PKGS_CNT = 100000"
definition SEND_WIN_SIZE :: u32 where "SEND_WIN_SIZE = 1000000"

section \<open>Life cycle\<close>

text \<open>
  The constructor leaves the fields it does not mention as the allocator gave them; \<open>init\<close>
  is that memory. It resizes the vector of its end and, for a sender, tells the hash map its
  empty key.
\<close>

definition new_rmp_sock :: "CRmpSock \<Rightarrow> int \<Rightarrow> CRmpSock res" where
  "new_rmp_sock init i32Type =
     (let s = init\<lparr>m_i32Type := i32Type, m_hSock_rmp := INVALID_SOCKET, m_pMem := None, sent := [],
                m_ui32SenderWinSize := SEND_WIN_SIZE, m_ui32UnvalidPkgsSize := UNORDERED_PKGS_CNT,
                m_vecUnvalidPkgs := [], m_vecSendWin := [], m_mapRecvers := Map.empty\<rparr>
      in if i32Type = RMP_RECV_SOCK
         then Inr (s\<lparr>m_vecUnvalidPkgs := replicate (unat UNORDERED_PKGS_CNT) None\<rparr>)
         else if i32Type = RMP_SEND_SOCK
         then Inr (s\<lparr>m_vecSendWin := replicate (unat SEND_WIN_SIZE) None\<rparr>)
         else Inl Assert_failed)"

definition rmp_is_opened :: "CRmpSock \<Rightarrow> bool" where
  "rmp_is_opened s \<longleftrightarrow> INVALID_SOCKET < m_hSock_rmp s"

definition rmp_open_handle :: "int \<Rightarrow> int os_ret \<Rightarrow> CRmpSock \<Rightarrow> int \<times> CRmpSock" where
  "rmp_open_handle hSock ans s =
     (if rmp_is_opened s then (CMNERR_COMMON_ERR, s)
      else if INVALID_SOCKET < hSock then (CMNERR_SUC, s\<lparr>m_hSock_rmp := hSock\<rparr>)
      else (if os_int ans < 0 then CMNERR_COMMON_ERR else CMNERR_SUC, s\<lparr>m_hSock_rmp := os_int ans\<rparr>))"

definition rmp_open ::
  "u32 \<Rightarrow> u16 \<Rightarrow> u8 \<Rightarrow> u32 \<Rightarrow> u64 \<Rightarrow> u32 \<Rightarrow> u64 \<Rightarrow> int os_ret \<Rightarrow> CRmpSock \<Rightarrow> int \<times> CRmpSock" where
  "rmp_open multicast ui16MulticastPort ui8SenderId ui32AckConfirmCnt ui64MaxKeepAliveTimeUs
     ui32InitSendSpeed ui64HbInterval ans s =
     rmp_open_handle INVALID_SOCKET ans
       (s\<lparr>m_epid := 0, m_ui64ValidPkgBegin := 0, m_ui64ValidPkgEnd := 0,
          m_addrSender := \<lparr>sin_addr = 0, sin_port = 0\<rparr>,
          m_ui64LatestRecvedValidSeqNo := 0, m_ui64AppConfirmAck := 0, m_ui64AppConfirmAckTmp := 0,
          m_ui64UnvalidPkgBegin := 0, m_ui64UnvalidPkgEnd := 0,
          m_ui64LastSendAckTime := 0, m_ui64LastSendNakTime := 0,
          m_ui64ValidSendingDataHead := 0, m_ui64ValidSendingDataTail := 1, m_ui64SendingSeqNo := 0,
          m_ui64LastSendingSeqNo := 0,
          m_ui64LastSendAndAckWinSize := ucast (m_ui32SenderWinSize s div 100),
          m_ui32SpeedHelper := 0, m_ui64LastSpeedControlSeqNo := 0, m_ui64LastSpeedControlTime := 0,
          m_ui64LastHbTime := 0, m_ui64HbInterval := ui64HbInterval,
          m_ui64MaxKeepAliveTimeUs := ui64MaxKeepAliveTimeUs, m_ui32Naks := 0,
          m_ui32SendSpeed := ui32InitSendSpeed,
          m_addrMulticast := \<lparr>sin_addr = multicast, sin_port = htons ui16MulticastPort\<rparr>,
          m_ui8SenderId := ui8SenderId, m_ui32SendAckCnt := ui32AckConfirmCnt\<rparr>)"

definition rmp_close :: "CRmpSock \<Rightarrow> int \<times> CRmpSock" where
  "rmp_close s =
     (if \<not> rmp_is_opened s then (CMNERR_COMMON_ERR, s)
      else (CMNERR_SUC, s\<lparr>m_hSock_rmp := INVALID_SOCKET\<rparr>))"

definition rmp_bind :: "int os_ret \<Rightarrow> CRmpSock \<Rightarrow> int res" where
  "rmp_bind ans s =
     (if \<not> INVALID_SOCKET < m_hSock_rmp s then Inl Assert_failed else Inr (os_int ans))"

text \<open>
  \<open>join_multicast_group\<close>: the identity of the receiver is the union of the bound address and
  port, and must not be zero. \<open>local\<close> is the answer to \<open>getsockname\<close>.
\<close>

definition rmp_join_multicast_group ::
  "int os_ret \<Rightarrow> sn_sock_addr os_ret \<Rightarrow> CRmpSock \<Rightarrow> (int \<times> CRmpSock) res" where
  "rmp_join_multicast_group ans local_addr s =
     (if m_i32Type s = RMP_SEND_SOCK then Inr (CMNERR_COMMON_ERR, s)
      else if os_int ans = CMNERR_SUC then
        (case local_addr of
           Os_fail e \<Rightarrow> Inl Assert_failed
         | Os_ok a \<Rightarrow>
             let epid = word_of_nat (unat (sin_addr a) + 2 ^ 32 * unat (sin_port a)) in
             bindr (cmn_assert (epid > 0)) (\<lambda>_. Inr (os_int ans, s\<lparr>m_epid := epid\<rparr>)))
      else Inr (os_int ans, s))"

text \<open>The result of the comparison is the result of the function: 1 when the call succeeded.\<close>

definition rmp_set_multicast_ttl :: "int os_ret \<Rightarrow> CRmpSock \<Rightarrow> int" where
  "rmp_set_multicast_ttl ans s = (if os_int ans = 0 then 1 else 0)"

definition rmp_leave_multicast_group :: "int os_ret \<Rightarrow> CRmpSock \<Rightarrow> int" where
  "rmp_leave_multicast_group ans s =
     (if m_i32Type s = RMP_SEND_SOCK then CMNERR_COMMON_ERR else os_int ans)"

section \<open>Datagrams\<close>

text \<open>The loop of both overloads of \<open>udp_send\<close>: an interrupted call is repeated.\<close>

type_synonym answers = "nat os_ret list"

fun sendto_loop :: "bytes \<Rightarrow> sn_sock_addr \<Rightarrow> answers \<Rightarrow> CRmpSock \<Rightarrow> (int \<times> answers \<times> CRmpSock) res" where
  "sendto_loop d dest [] s = Inl Awaiting_os"
| "sendto_loop d dest (a # as) s =
     (case a of
        Os_ok n \<Rightarrow> Inr (CMNERR_SUC, as, s\<lparr>sent := sent s @ [(d, dest)]\<rparr>)
      | Os_fail e \<Rightarrow>
          if e = EWOULDBLOCK then Inr (CMNERR_SEND_PENDING, as, s)
          else if e = EINTR then sendto_loop d dest as s
          else Inr (CMNERR_IO_ERR, as, s))"

definition udp_send_bytes ::
  "bytes \<Rightarrow> sn_sock_addr \<Rightarrow> answers \<Rightarrow> CRmpSock \<Rightarrow> (int \<times> answers \<times> CRmpSock) res" where
  "udp_send_bytes pBytes pDestAddr answers s = sendto_loop pBytes pDestAddr answers s"

definition udp_send_mem ::
  "CMemBlock option \<Rightarrow> sn_sock_addr \<Rightarrow> answers \<Rightarrow> CRmpSock \<Rightarrow> (int \<times> answers \<times> CRmpSock) res" where
  "udp_send_mem pMem pDestAddr answers s =
     bindr (deref pMem) (\<lambda>b.
     bindr (read_at (get_data b) (unat (get_len b)) (m_bytes b)) (\<lambda>d.
     sendto_loop d pDestAddr answers s))"

text \<open>
  \<open>udp_recv\<close> fills the block from its first byte on. An empty datagram fails an assertion, and
  so does an interrupted call.
\<close>

definition udp_recv ::
  "(bytes \<times> sn_sock_addr) os_ret \<Rightarrow> CMemBlock \<Rightarrow> (int \<times> CMemBlock \<times> sn_sock_addr option) res" where
  "udp_recv ans pMem =
     bindr (cmn_assert (get_offset pMem = 0 \<and> get_len pMem = 0)) (\<lambda>_.
     case ans of
       Os_fail e \<Rightarrow>
         if e = EWOULDBLOCK then Inr (CMNERR_RECV_PENDING, pMem, None)
         else if e = EINTR then Inl Assert_failed
         else Inr (CMNERR_IO_ERR, pMem, None)
     | Os_ok (d, src) \<Rightarrow>
         bindr (cmn_assert (d \<noteq> [])) (\<lambda>_.
         bindr (write_at 0 d (m_bytes pMem)) (\<lambda>bs.
         Inr (CMNERR_SUC, inc_len (word_of_nat (length d)) (pMem\<lparr>m_bytes := bs\<rparr>), Some src))))"

end
