(* ===== verification/RmpReceiver.thy ===== *)
theory RmpReceiver
  imports RmpSock
begin

text \<open>
  The receiving end of \<open>CRmpSock\<close>: \<open>recvep_handle_odata\<close> orders the data packages, packages
  that come too early wait in \<open>m_vecUnvalidPkgs\<close>, \<open>get_next_recved_data\<close> hands the ordered ones
  to the application, \<open>set_ack\<close>, the timer part of \<open>handle_can_send\<close> and
  \<open>recvep_handle_hb\<close> send the acknowledgements. The theory shows that the application gets
  every package once and in order.
\<close>

section \<open>Operations\<close>

text \<open>The element of a window that a sequence number falls on.\<close>

definition slot :: "u64 \<Rightarrow> u32 \<Rightarrow> nat" where
  "slot seq sz = unat seq mod unat sz"

definition set_ack :: "bool \<Rightarrow> bytes \<Rightarrow> answers \<Rightarrow> CRmpSock \<Rightarrow> (answers \<times> CRmpSock) res" where
  "set_ack bFlag buf answers s =
     (let s = s\<lparr>m_ui64AppConfirmAck := m_ui64LatestRecvedValidSeqNo s\<rparr> in
      if 0 < m_ui64AppConfirmAck s \<and>
         (bFlag \<or> m_ui64AppConfirmAck s - m_ui64AppConfirmAckTmp s \<ge> ucast (m_ui32SendAckCnt s))
      then let s = (if \<not> bFlag then s\<lparr>m_ui64AppConfirmAckTmp := m_ui64AppConfirmAck s\<rparr> else s) in
           bindr (ack_pkg (m_ui64AppConfirmAck s) (m_epid s) buf) (\<lambda>d.
           bindr (udp_send_bytes d (m_addrSender s) answers s) (\<lambda>(code, answers, s).
           bindr (cmn_assert (code = CMNERR_SUC)) (\<lambda>_. Inr (answers, s))))
      else Inr (answers, s))"

definition get_next_recved_data ::
  "bytes \<Rightarrow> answers \<Rightarrow> CRmpSock \<Rightarrow> (int \<times> CMemBlock option \<times> answers \<times> CRmpSock) res" where
  "get_next_recved_data buf answers s =
     (if (case m_pMem s of None \<Rightarrow> False | Some b \<Rightarrow> get_len b > 0)
      then Inr (CMNERR_SUC, m_pMem s, answers, s\<lparr>m_pMem := None\<rparr>)
      else if 0 < m_ui64ValidPkgBegin s \<and> m_ui64ValidPkgBegin s \<le> m_ui64ValidPkgEnd s
      then let i = slot (m_ui64ValidPkgBegin s) (m_ui32UnvalidPkgsSize s) in
           bindr (vec_get (m_vecUnvalidPkgs s) i) (\<lambda>p.
           bindr (vec_set (m_vecUnvalidPkgs s) i None) (\<lambda>v.
           Inr (CMNERR_SUC, p, answers,
                s\<lparr>m_vecUnvalidPkgs := v, m_ui64ValidPkgBegin := m_ui64ValidPkgBegin s + 1\<rparr>)))
      else bindr (set_ack False buf answers (s\<lparr>m_ui64ValidPkgBegin := 0, m_ui64ValidPkgEnd := 0\<rparr>))
             (\<lambda>(answers, s). Inr (CMNERR_NO_DATA, None, answers, s)))"

text \<open>The two loops that search the window of early packages.\<close>

function find_valid_end :: "CMemBlock option list \<Rightarrow> u32 \<Rightarrow> u64 \<Rightarrow> u64 \<Rightarrow> u64 res" where
  "find_valid_end v sz unvalid_end e =
     (if e < unvalid_end
      then bindr (vec_get v (slot (e + 1) sz)) (\<lambda>p.
           if p = None then Inr e else find_valid_end v sz unvalid_end (e + 1))
      else Inr e)"
  by pat_completeness auto
termination
proof (relation "measure (\<lambda>(v, sz, ue, e). unat ue - unat e)")
  fix v :: "CMemBlock option list" and sz :: u32 and ue e :: u64 and p :: "CMemBlock option"
  assume "e < ue"
  then have "unat e < unat ue" and "unat (e + 1) = unat e + 1"
    using unat_u64_lt [of ue] by (simp_all add: word_less_nat_alt unat_add_fits)
  then show "((v, sz, ue, e + 1), v, sz, ue, e) \<in> measure (\<lambda>(v, sz, ue, e). unat ue - unat e)"
    by simp
qed simp

function find_unvalid_begin :: "CMemBlock option list \<Rightarrow> u32 \<Rightarrow> u64 \<Rightarrow> u64 \<Rightarrow> u64 res" where
  "find_unvalid_begin v sz unvalid_end b =
     (if b < unvalid_end
      then bindr (vec_get v (slot b sz)) (\<lambda>p.
           if p \<noteq> None then Inr b else find_unvalid_begin v sz unvalid_end (b + 1))
      else Inr b)"
  by pat_completeness auto
termination
proof (relation "measure (\<lambda>(v, sz, ue, b). unat ue - unat b)")
  fix v :: "CMemBlock option list" and sz :: u32 and ue b :: u64 and p :: "CMemBlock option"
  assume "b < ue"
  then have "unat b < unat ue" and "unat (b + 1) = unat b + 1"
    using unat_u64_lt [of ue] by (simp_all add: word_less_nat_alt unat_add_fits)
  then show "((v, sz, ue, b + 1), v, sz, ue, b) \<in> measure (\<lambda>(v, sz, ue, b). unat ue - unat b)"
    by simp
qed simp

declare find_valid_end.simps [simp del]
declare find_unvalid_begin.simps [simp del]

text \<open>The package that was missing has come: activate the early ones that follow it.\<close>

definition activate_unordered :: "CRmpSock \<Rightarrow> CRmpSock res" where
  "activate_unordered s =
     (let v = m_vecUnvalidPkgs s; sz = m_ui32UnvalidPkgsSize s; ue = m_ui64UnvalidPkgEnd s in
      bindr (find_valid_end v sz ue (m_ui64UnvalidPkgBegin s)) (\<lambda>e.
      let s = s\<lparr>m_ui64ValidPkgBegin := m_ui64UnvalidPkgBegin s, m_ui64ValidPkgEnd := e\<rparr> in
      bindr (if e < ue
             then bindr (find_unvalid_begin v sz ue (e + 1)) (\<lambda>b. Inr (s\<lparr>m_ui64UnvalidPkgBegin := b\<rparr>))
             else Inr (s\<lparr>m_ui64UnvalidPkgBegin := 0, m_ui64UnvalidPkgEnd := 0\<rparr>)) (\<lambda>s.
      Inr (s\<lparr>m_ui64LatestRecvedValidSeqNo := e\<rparr>))))"

text \<open>A package ahead of its turn. The block has been taken out of \<open>m_pMem\<close> or was reset.\<close>

definition store_unordered :: "u64 \<Rightarrow> CMemBlock \<Rightarrow> CRmpSock \<Rightarrow> CRmpSock res" where
  "store_unordered seq pMem s =
     bindr (if m_ui64UnvalidPkgBegin s = 0
            then Inr (s\<lparr>m_ui64UnvalidPkgBegin := seq, m_ui64UnvalidPkgEnd := seq\<rparr>)
            else if seq < m_ui64UnvalidPkgBegin s then Inr (s\<lparr>m_ui64UnvalidPkgBegin := seq\<rparr>)
            else if seq > m_ui64UnvalidPkgEnd s
            then (if seq - m_ui64LatestRecvedValidSeqNo s > ucast (m_ui32UnvalidPkgsSize s)
                  then Inl Assert_failed
                  else Inr (s\<lparr>m_ui64UnvalidPkgEnd := seq\<rparr>))
            else Inr s) (\<lambda>s.
     let i = slot seq (m_ui32UnvalidPkgsSize s) in
     bindr (vec_get (m_vecUnvalidPkgs s) i) (\<lambda>p.
     bindr (cmn_assert (p = None)) (\<lambda>_.
     bindr (vec_set (m_vecUnvalidPkgs s) i (Some pMem)) (\<lambda>v.
     Inr (s\<lparr>m_vecUnvalidPkgs := v, m_pMem := None\<rparr>)))))"

definition recvep_handle_odata :: "CRmpSock \<Rightarrow> (int \<times> CRmpSock) res" where
  "recvep_handle_odata s =
     bindr (deref (m_pMem s)) (\<lambda>b.
     bindr (get_u64 (get_data b) 0 (m_bytes b)) (\<lambda>seq.
     let b = dec_head_data (word_of_nat sizeof_SRmpOdata) b; s = s\<lparr>m_pMem := Some b\<rparr> in
     if seq = 1 + m_ui64LatestRecvedValidSeqNo s then
       let s = s\<lparr>m_ui64LatestRecvedValidSeqNo := m_ui64LatestRecvedValidSeqNo s + 1\<rparr> in
       bindr (if m_ui64LatestRecvedValidSeqNo s + 1 = m_ui64UnvalidPkgBegin s
              then activate_unordered s else Inr s) (\<lambda>s. Inr (CMNERR_ODATA_READY, s))
     else if seq \<le> m_ui64LatestRecvedValidSeqNo s
     then Inr (CMNERR_SUC, s\<lparr>m_pMem := Some (reset_mem False b)\<rparr>)
     else bindr (store_unordered seq b s) (\<lambda>s. Inr (CMNERR_SUC, s))))"

definition recvep_handle_hb :: "bytes \<Rightarrow> answers \<Rightarrow> CRmpSock \<Rightarrow> (int \<times> answers \<times> CRmpSock) res" where
  "recvep_handle_hb buf answers s =
     bindr (deref (m_pMem s)) (\<lambda>b.
     bindr (get_u64 (get_data b) 0 (m_bytes b)) (\<lambda>latest.
     bindr (if latest > m_ui64LatestRecvedValidSeqNo s
            then bindr (nak_pkg (m_ui64LatestRecvedValidSeqNo s + 1) latest (m_epid s) buf) (\<lambda>d.
                 udp_send_bytes d (m_addrSender s) answers s)
            else Inr (CMNERR_SUC, answers, s)) (\<lambda>(code, answers, s).
     Inr (code, answers, s\<lparr>m_pMem := Some (reset_mem False b)\<rparr>))))"

text \<open>The dispatch by opcode: an unknown opcode or another sender's id ends the process.\<close>

definition recvep_handle_pkg ::
  "bytes \<Rightarrow> answers \<Rightarrow> sn_sock_addr \<Rightarrow> CRmpSock \<Rightarrow> (int \<times> answers \<times> CRmpSock) res" where
  "recvep_handle_pkg buf answers src s =
     bindr (deref (m_pMem s)) (\<lambda>b.
     let p = get_data b; s = s\<lparr>m_pMem := Some (dec_head_data (word_of_nat sizeof_SRmpHdr) b)\<rparr> in
     bindr (hdr_opcode p (m_bytes b)) (\<lambda>opc.
     bindr (hdr_src_id p (m_bytes b)) (\<lambda>srcid.
     if (opc \<noteq> opcode_val EP_DATA \<and> opc \<noteq> opcode_val EP_HB) \<or> srcid \<noteq> unat (m_ui8SenderId s)
     then Inl Assert_failed
     else
       let s = (if sin_addr (m_addrSender s) \<noteq> sin_addr src \<or> sin_port (m_addrSender s) \<noteq> sin_port src
                then s\<lparr>m_addrSender := src\<rparr> else s) in
       if opc = opcode_val EP_DATA
       then bindr (recvep_handle_odata s) (\<lambda>(code, s). Inr (code, answers, s))
       else recvep_handle_hb buf answers s)))"

text \<open>The receiver's part of \<open>handle_can_send\<close>: acknowledgements in time. \<open>now\<close> is the clock.\<close>

definition SEND_ACK_INTERVAL :: u64 where "SEND_ACK_INTERVAL = 10000"
definition SEND_NAK_INTERVAL :: u64 where "SEND_NAK_INTERVAL = 1000"

definition recvep_handle_can_send ::
  "u64 \<Rightarrow> bytes \<Rightarrow> bytes \<Rightarrow> answers \<Rightarrow> CRmpSock \<Rightarrow> (int \<times> answers \<times> CRmpSock) res" where
  "recvep_handle_can_send now ack_buf nak_buf answers s =
     (let s = (if m_ui64LastSendAckTime s = 0 then s\<lparr>m_ui64LastSendAckTime := now\<rparr> else s) in
      bindr (if now - m_ui64LastSendAckTime s > SEND_ACK_INTERVAL
             then set_ack True ack_buf answers (s\<lparr>m_ui64LastSendAckTime := now\<rparr>)
             else Inr (answers, s)) (\<lambda>(answers, s).
      let s = (if m_ui64LastSendNakTime s = 0 then s\<lparr>m_ui64LastSendNakTime := now\<rparr> else s) in
      if now - m_ui64LastSendNakTime s > SEND_NAK_INTERVAL \<and>
         m_ui64LatestRecvedValidSeqNo s < m_ui64UnvalidPkgBegin s
      then let s = s\<lparr>m_ui64LastSendNakTime := now\<rparr>;
               fst_lost = m_ui64LatestRecvedValidSeqNo s + 1; lst_lost = m_ui64UnvalidPkgBegin s - 1 in
           bindr (nak_pkg fst_lost lst_lost (m_epid s) nak_buf) (\<lambda>d.
           if fst_lost \<le> lst_lost
           then bindr (udp_send_bytes d (m_addrSender s) answers s) (\<lambda>(code, answers, s).
                bindr (cmn_assert (code = CMNERR_SUC)) (\<lambda>_. Inr (CMNERR_SUC, answers, s)))
           else Inr (CMNERR_SUC, answers, s))
      else Inr (CMNERR_SUC, answers, s)))"

section \<open>Draining\<close>

text \<open>
  The loop \<open>while (CMNERR_SUC == get_next_recved_data (pMem)) on_recved_data (pMem)\<close> of the
  endpoint, with the blocks it delivers. Each round either takes \<open>m_pMem\<close> or moves
  \<open>m_ui64ValidPkgBegin\<close> up, so it always ends.
\<close>

definition valid_left :: "u64 \<Rightarrow> u64 \<Rightarrow> nat" where
  "valid_left b e = (if 0 < b \<and> b \<le> e then unat e + 1 - unat b else 0)"

definition drain_left :: "CRmpSock \<Rightarrow> nat" where
  "drain_left s =
     (if m_pMem s = None then 0 else 1) + valid_left (m_ui64ValidPkgBegin s) (m_ui64ValidPkgEnd s)"

lemma valid_left_step:
  assumes "0 < b" and "b \<le> e"
  shows "valid_left (b + 1) e < valid_left b e"
proof (cases "unat b + 1 < 2 ^ 64")
  case True
  then have "unat (b + 1) = unat b + 1"
    by (simp add: unat_add_fits)
  then show ?thesis
    using assms by (auto simp: word_le_nat_alt valid_left_def)
next
  case False
  then have "unat (b + 1) = 0"
    using unat_u64_lt [of b] by (simp add: unat_plus_if')
  then have "b + 1 = 0"
    by (simp only: unat_eq_zero)
  then show ?thesis
    using assms by (simp add: valid_left_def word_le_nat_alt)
qed

lemma get_next_decreases:
  assumes "get_next_recved_data buf answers s = Inr (0, p, answers', s')"
  shows "drain_left s' < drain_left s"
proof (cases "case m_pMem s of None \<Rightarrow> False | Some b \<Rightarrow> get_len b > 0")
  case True
  then have "s' = s\<lparr>m_pMem := None\<rparr>" and "m_pMem s \<noteq> None"
    using assms by (auto simp: get_next_recved_data_def split: option.splits)
  then show ?thesis
    by (simp add: drain_left_def)
next
  case False
  note no_mem = this
  show ?thesis
  proof (cases "0 < m_ui64ValidPkgBegin s \<and> m_ui64ValidPkgBegin s \<le> m_ui64ValidPkgEnd s")
    case True
    then obtain v where "s' = s\<lparr>m_vecUnvalidPkgs := v, m_ui64ValidPkgBegin := m_ui64ValidPkgBegin s + 1\<rparr>"
      using assms no_mem by (auto simp: get_next_recved_data_def bindr_Inr_iff Let_def)
    then show ?thesis
      using valid_left_step [of "m_ui64ValidPkgBegin s" "m_ui64ValidPkgEnd s"] True
      by (simp add: drain_left_def)
  next
    case 2: False
    then show ?thesis
      using assms no_mem by (auto simp: get_next_recved_data_def bindr_Inr_iff)
  qed
qed

function recv_drain ::
  "bytes \<Rightarrow> answers \<Rightarrow> CRmpSock \<Rightarrow> (CMemBlock option list \<times> answers \<times> CRmpSock) res" where
  "recv_drain buf answers s =
     bindr (get_next_recved_data buf answers s) (\<lambda>(code, p, answers, s').
     if code = CMNERR_SUC
     then bindr (recv_drain buf answers s') (\<lambda>(ps, answers, s''). Inr (p # ps, answers, s''))
     else Inr ([], answers, s'))"
  by pat_completeness auto
termination
  by (relation "measure (\<lambda>(buf, answers, s). drain_left s)") (auto dest: get_next_decreases)

declare recv_drain.simps [simp del]

section \<open>The window of early packages\<close>

text \<open>
  \<open>pay q\<close> is the payload the sender gave the sequence number \<open>q\<close>. The vector stores exactly
  the packages of the set \<open>W\<close>, which lie in the window of its size behind \<open>B\<close>.
\<close>

definition is_pkg :: "(nat \<Rightarrow> bytes) \<Rightarrow> nat \<Rightarrow> CMemBlock option \<Rightarrow> bool" where
  "is_pkg pay q p \<longleftrightarrow> (\<exists>b. p = Some b \<and> mem_wf b \<and> mem_data b = pay q \<and> pay q \<noteq> [])"

definition stores :: "(nat \<Rightarrow> bytes) \<Rightarrow> CMemBlock option list \<Rightarrow> nat \<Rightarrow> nat set \<Rightarrow> bool" where
  "stores pay v B W \<longleftrightarrow>
     v \<noteq> [] \<and> W \<subseteq> {B <.. B + length v} \<and>
     (\<forall>q \<in> {B <.. B + length v}.
        if q \<in> W then is_pkg pay q (v ! (q mod length v)) else v ! (q mod length v) = None)"

lemma stores_empty: "v \<noteq> [] \<Longrightarrow> \<forall>p \<in> set v. p = None \<Longrightarrow> stores pay v B {}"
  by (auto simp: stores_def)

lemma stores_nonempty: "stores pay v B W \<Longrightarrow> v \<noteq> []"
  by (simp add: stores_def)

lemma stores_get:
  assumes "stores pay v B W" and "q \<in> {B <.. B + length v}"
  shows "vec_get v (q mod length v) = Inr (v ! (q mod length v))"
    and "v ! (q mod length v) \<noteq> None \<longleftrightarrow> q \<in> W"
    and "q \<in> W \<Longrightarrow> is_pkg pay q (v ! (q mod length v))"
  using assms by (auto simp: stores_def vec_get_def is_pkg_def split: if_splits)

lemma stores_insert:
  assumes st: "stores pay v B W" and q: "q \<in> {B <.. B + length v}" and p: "is_pkg pay q p"
  shows "vec_set v (q mod length v) p = Inr (v[q mod length v := p])"
    and "stores pay (v[q mod length v := p]) B (insert q W)"
proof -
  have v: "v \<noteq> []"
    using st by (rule stores_nonempty)
  then show "vec_set v (q mod length v) p = Inr (v[q mod length v := p])"
    by (simp add: vec_set_def)
  show "stores pay (v[q mod length v := p]) B (insert q W)"
    unfolding stores_def
  proof (intro conjI ballI)
    fix r assume r: "r \<in> {B <.. B + length (v[q mod length v := p])}"
    show "if r \<in> insert q W
      then is_pkg pay r (v[q mod length v := p] ! (r mod length (v[q mod length v := p])))
      else v[q mod length v := p] ! (r mod length (v[q mod length v := p])) = None"
    proof (cases "r = q")
      case True
      then show ?thesis
        using p v by simp
    next
      case False
      then have "r mod length v \<noteq> q mod length v"
        using mod_window_inj [of q B "length v" r] q r by auto
      then show ?thesis
        using False st r by (auto simp: stores_def)
    qed
  qed (use st q v in \<open>auto simp: stores_def\<close>)
qed

lemma stores_remove:
  assumes st: "stores pay v B W" and q: "q \<in> {B <.. B + length v}"
  shows "vec_set v (q mod length v) None = Inr (v[q mod length v := None])"
    and "stores pay (v[q mod length v := None]) B (W - {q})"
proof -
  have v: "v \<noteq> []"
    using st by (rule stores_nonempty)
  then show "vec_set v (q mod length v) None = Inr (v[q mod length v := None])"
    by (simp add: vec_set_def)
  show "stores pay (v[q mod length v := None]) B (W - {q})"
    unfolding stores_def
  proof (intro conjI ballI)
    fix r assume r: "r \<in> {B <.. B + length (v[q mod length v := None])}"
    show "if r \<in> W - {q}
      then is_pkg pay r (v[q mod length v := None] ! (r mod length (v[q mod length v := None])))
      else v[q mod length v := None] ! (r mod length (v[q mod length v := None])) = None"
    proof (cases "r = q")
      case True
      then show ?thesis
        using v by simp
    next
      case False
      then have "r mod length v \<noteq> q mod length v"
        using mod_window_inj [of q B "length v" r] q r by auto
      then show ?thesis
        using False st r by (auto simp: stores_def)
    qed
  qed (use st v in \<open>auto simp: stores_def\<close>)
qed

text \<open>When everything up to \<open>L\<close> has been taken out, the window can be moved there.\<close>

lemma stores_rebase:
  assumes st: "stores pay v B W" and L: "B \<le> L" "L \<le> B + length v" and W: "\<forall>q \<in> W. L < q"
  shows "stores pay v L W"
  unfolding stores_def
proof (intro conjI ballI)
  show "v \<noteq> []"
    using st by (rule stores_nonempty)
  show "W \<subseteq> {L <.. L + length v}"
    using st L W by (fastforce simp: stores_def)
  fix q assume q: "q \<in> {L <.. L + length v}"
  show "if q \<in> W then is_pkg pay q (v ! (q mod length v)) else v ! (q mod length v) = None"
  proof (cases "q \<le> B + length v")
    case True
    then show ?thesis
      using st q L by (auto simp: stores_def)
  next
    case False
    define r where "r = q - length v"
    have r: "r \<in> {B <.. B + length v}" "r \<le> L" "r mod length v = q mod length v"
      using False q L by (auto simp: r_def le_mod_geq)
    have "r \<notin> W" and "q \<notin> W"
      using W r False st by (force simp: stores_def)+
    then show ?thesis
      using stores_get(2) [OF st r(1)] r(3) by simp
  qed
qed

section \<open>The two searches\<close>

lemma slot_nat: "unat sz = length v \<Longrightarrow> unat q = n \<Longrightarrow> slot q sz = n mod length v"
  by (simp add: slot_def)

lemma unat_Suc_u64: "e < (ue :: u64) \<Longrightarrow> unat (e + 1) = Suc (unat e)"
  using unat_u64_lt [of ue] by (simp add: word_less_nat_alt unat_add_fits)

lemma find_valid_end_spec:
  assumes "stores pay v B W" and "unat sz = length v"
    and "B \<le> unat e" and "unat ue \<le> B + length v"
  shows "\<exists>e'. find_valid_end v sz ue e = Inr e' \<and> unat e \<le> unat e' \<and>
    (unat e \<le> unat ue \<longrightarrow> unat e' \<le> unat ue) \<and>
    {unat e <.. unat e'} \<subseteq> W \<and> (e' < ue \<longrightarrow> Suc (unat e') \<notin> W)"
  using assms
proof (induction v sz ue e rule: find_valid_end.induct)
  case (1 v sz ue e)
  show ?case
  proof (cases "e < ue")
    case False
    then show ?thesis
      by (simp add: find_valid_end.simps [of v sz ue e])
  next
    case True
    note Suc_e = unat_Suc_u64 [OF True]
    have q: "Suc (unat e) \<in> {B <.. B + length v}"
      using True 1(4,5) by (auto simp: word_less_nat_alt)
    have get: "vec_get v (slot (e + 1) sz) = Inr (v ! (Suc (unat e) mod length v))"
      using stores_get(1) [OF 1(2) q] slot_nat [OF 1(3) Suc_e] by simp
    show ?thesis
    proof (cases "v ! (Suc (unat e) mod length v) = None")
      case None: True
      then show ?thesis
        using get True stores_get(2) [OF 1(2) q]
        by (simp add: find_valid_end.simps [of v sz ue e])
    next
      case False
      then obtain e' where e': "find_valid_end v sz ue (e + 1) = Inr e'"
        "unat (e + 1) \<le> unat e'" "unat (e + 1) \<le> unat ue \<longrightarrow> unat e' \<le> unat ue"
        "{unat (e + 1) <.. unat e'} \<subseteq> W" "e' < ue \<longrightarrow> Suc (unat e') \<notin> W"
        using 1(1) [OF True get] 1(2-5) Suc_e by auto
      have "{unat e <.. unat e'} = insert (Suc (unat e)) {Suc (unat e) <.. unat e'}"
        using e'(2) Suc_e by auto
      moreover have "Suc (unat e) \<in> W"
        using stores_get(2) [OF 1(2) q] False by simp
      ultimately show ?thesis
        using e' get True False Suc_e
        by (auto simp: find_valid_end.simps [of v sz ue e] word_less_nat_alt)
    qed
  qed
qed

lemma find_unvalid_begin_spec:
  assumes "stores pay v B W" and "unat sz = length v"
    and "B < unat b" and "b \<le> ue" and "unat ue \<le> B + length v"
  shows "\<exists>b'. find_unvalid_begin v sz ue b = Inr b' \<and> unat b \<le> unat b' \<and> b' \<le> ue \<and>
    {unat b ..< unat b'} \<inter> W = {} \<and> (b' < ue \<longrightarrow> unat b' \<in> W)"
  using assms
proof (induction v sz ue b rule: find_unvalid_begin.induct)
  case (1 v sz ue b)
  show ?case
  proof (cases "b < ue")
    case False
    then have "find_unvalid_begin v sz ue b = Inr b"
      by (simp add: find_unvalid_begin.simps [of v sz ue b])
    then show ?thesis
      using 1(5) False by auto
  next
    case True
    note Suc_b = unat_Suc_u64 [OF True]
    have q: "unat b \<in> {B <.. B + length v}"
      using True 1(4,6) by (auto simp: word_less_nat_alt)
    have get: "vec_get v (slot b sz) = Inr (v ! (unat b mod length v))"
      using stores_get(1) [OF 1(2) q] slot_nat [OF 1(3) refl, of b] by simp
    show ?thesis
    proof (cases "v ! (unat b mod length v) = None")
      case False
      then show ?thesis
        using get True stores_get(2) [OF 1(2) q]
        by (simp add: find_unvalid_begin.simps [of v sz ue b])
    next
      case None: True
      have "b + 1 \<le> ue"
        using True Suc_b by (simp add: word_le_nat_alt word_less_nat_alt)
      then obtain b' where b': "find_unvalid_begin v sz ue (b + 1) = Inr b'"
        "unat (b + 1) \<le> unat b'" "b' \<le> ue"
        "{unat (b + 1) ..< unat b'} \<inter> W = {}" "b' < ue \<longrightarrow> unat b' \<in> W"
        using 1(1) [OF True get] None 1(2-6) Suc_b by auto
      have "{unat b ..< unat b'} = insert (unat b) {Suc (unat b) ..< unat b'}"
        using b'(2) Suc_b by auto
      moreover have "unat b \<notin> W"
        using stores_get(2) [OF 1(2) q] None by simp
      ultimately show ?thesis
        using b' get True None Suc_b by (simp add: find_unvalid_begin.simps [of v sz ue b])
    qed
  qed
qed

section \<open>Acknowledging and delivering\<close>

lemma sendto_loop_frame:
  "sendto_loop d dest answers s = Inr (code, answers', s') \<Longrightarrow> \<exists>log. s' = s\<lparr>sent := log\<rparr>"
proof (induction answers)
  case Nil
  then show ?case by simp
next
  case (Cons a answers)
  have same: "\<exists>log. s = s\<lparr>sent := log\<rparr>"
    by (rule exI [of _ "sent s"]) simp
  show ?case
  proof (cases a)
    case (Os_ok n)
    then show ?thesis
      using Cons.prems by auto
  next
    case (Os_fail e)
    then show ?thesis
      using Cons same by (auto split: if_splits)
  qed
qed

lemma set_ack_frame:
  assumes "set_ack flag buf answers s = Inr (answers', s')"
  shows "\<exists>a t log. s' = s\<lparr>m_ui64AppConfirmAck := a, m_ui64AppConfirmAckTmp := t, sent := log\<rparr>"
proof -
  define s1 where "s1 = s\<lparr>m_ui64AppConfirmAck := m_ui64LatestRecvedValidSeqNo s\<rparr>"
  define s2 where "s2 = (if \<not> flag then s1\<lparr>m_ui64AppConfirmAckTmp := m_ui64AppConfirmAck s1\<rparr> else s1)"
  from assms consider "s' = s1" | d code where "udp_send_bytes d (m_addrSender s2) answers s2 = Inr (code, answers', s')"
    by (auto simp: set_ack_def s1_def s2_def Let_def bindr_Inr_iff split: if_splits)
  then show ?thesis
  proof cases
    case 1
    then have "s' = s\<lparr>m_ui64AppConfirmAck := m_ui64LatestRecvedValidSeqNo s,
        m_ui64AppConfirmAckTmp := m_ui64AppConfirmAckTmp s, sent := sent s\<rparr>"
      by (simp add: s1_def)
    then show ?thesis by blast
  next
    case 2
    then obtain log where "s' = s2\<lparr>sent := log\<rparr>"
      using sendto_loop_frame [OF 2 [unfolded udp_send_bytes_def]] by blast
    moreover have "s2\<lparr>sent := log\<rparr> = s\<lparr>m_ui64AppConfirmAck := m_ui64AppConfirmAck s2,
        m_ui64AppConfirmAckTmp := m_ui64AppConfirmAckTmp s2, sent := log\<rparr>"
      by (simp add: s2_def s1_def)
    ultimately show ?thesis
      by blast
  qed
qed

text \<open>The end of the loop: nothing to deliver, the acknowledgement is considered.\<close>

lemma recv_drain_end:
  assumes "recv_drain buf answers s = Inr (ps, answers', s')"
    and "m_pMem s = None" and "\<not> (0 < m_ui64ValidPkgBegin s \<and> m_ui64ValidPkgBegin s \<le> m_ui64ValidPkgEnd s)"
  shows "ps = [] \<and> (\<exists>a t log. s' = s\<lparr>m_ui64ValidPkgBegin := 0, m_ui64ValidPkgEnd := 0,
    m_ui64AppConfirmAck := a, m_ui64AppConfirmAckTmp := t, sent := log\<rparr>)"
proof -
  from assms obtain answers1 s1 where
    "set_ack False buf answers (s\<lparr>m_ui64ValidPkgBegin := 0, m_ui64ValidPkgEnd := 0\<rparr>) = Inr (answers1, s1)"
    and "ps = []" "s' = s1"
    by (auto simp: recv_drain.simps [of buf answers s] get_next_recved_data_def bindr_Inr_iff
        split: if_splits)
  then show ?thesis
    using set_ack_frame by auto
qed

lemma recv_drain_valid:
  assumes "recv_drain buf answers s = Inr (ps, answers', s')"
    and "stores pay (m_vecUnvalidPkgs s) B (W \<union> {k..e})"
    and "unat (m_ui32UnvalidPkgsSize s) = length (m_vecUnvalidPkgs s)"
    and "m_pMem s = None" and "unat (m_ui64ValidPkgBegin s) = k" and "unat (m_ui64ValidPkgEnd s) = e"
    and "B < k" and "k \<le> Suc e" and "e \<le> B + length (m_vecUnvalidPkgs s)" and "Suc e < 2 ^ 64"
    and "\<forall>q \<in> W. e < q"
  shows "map (map_option mem_data) ps = map (Some \<circ> pay) [k..<Suc e] \<and>
    (\<exists>v a t log. stores pay v B W \<and> length v = length (m_vecUnvalidPkgs s) \<and>
       s' = s\<lparr>m_vecUnvalidPkgs := v, m_ui64ValidPkgBegin := 0, m_ui64ValidPkgEnd := 0,
         m_ui64AppConfirmAck := a, m_ui64AppConfirmAckTmp := t, sent := log\<rparr>)"
  using assms
proof (induction "Suc e - k" arbitrary: s k ps)
  case 0
  then have k: "k = Suc e"
    by simp
  then have "\<not> m_ui64ValidPkgBegin s \<le> m_ui64ValidPkgEnd s"
    using 0 by (simp add: word_le_nat_alt)
  then obtain a t log where "ps = []" and "s' = s\<lparr>m_ui64ValidPkgBegin := 0, m_ui64ValidPkgEnd := 0,
      m_ui64AppConfirmAck := a, m_ui64AppConfirmAckTmp := t, sent := log\<rparr>"
    using recv_drain_end [OF "0.prems"(1,4)] by blast
  then show ?case
    using k "0.prems"(2) by (intro conjI exI [of _ "m_vecUnvalidPkgs s"]) auto
next
  case (Suc n)
  let ?v = "m_vecUnvalidPkgs s"
  have ke: "k \<le> e"
    using Suc.hyps(2) by simp
  have win: "k \<in> {B <.. B + length ?v}"
    using Suc.prems(7,9) ke by auto
  have valid: "0 < m_ui64ValidPkgBegin s \<and> m_ui64ValidPkgBegin s \<le> m_ui64ValidPkgEnd s"
    using ke Suc.prems(5-7) by (simp add: word_le_nat_alt word_less_nat_alt)
  have slot: "slot (m_ui64ValidPkgBegin s) (m_ui32UnvalidPkgsSize s) = k mod length ?v"
    using Suc.prems(3,5) by (simp add: slot_def)
  have pkg: "is_pkg pay k (?v ! (k mod length ?v))"
    using stores_get(3) [OF Suc.prems(2) win] ke by simp
  define s1 where "s1 = s\<lparr>m_vecUnvalidPkgs := ?v[k mod length ?v := None],
    m_ui64ValidPkgBegin := m_ui64ValidPkgBegin s + 1\<rparr>"
  have "get_next_recved_data buf answers s = Inr (CMNERR_SUC, ?v ! (k mod length ?v), answers, s1)"
    using Suc.prems(4) valid slot stores_get(1) [OF Suc.prems(2) win] stores_remove(1) [OF Suc.prems(2) win]
    by (simp add: get_next_recved_data_def s1_def Let_def)
  then obtain ps1 where ps: "ps = ?v ! (k mod length ?v) # ps1"
    and rest: "recv_drain buf answers s1 = Inr (ps1, answers', s')"
    using Suc.prems(1) by (auto simp: recv_drain.simps [of buf answers s] bindr_Inr_iff)
  have "W \<union> {k..e} - {k} = W \<union> {Suc k..e}"
    using Suc.prems(11) ke by auto
  then have st1: "stores pay (m_vecUnvalidPkgs s1) B (W \<union> {Suc k..e})"
    using stores_remove(2) [OF Suc.prems(2) win] by (simp add: s1_def)
  have "unat (m_ui64ValidPkgBegin s1) = Suc k"
    using Suc.prems(5,10) ke by (simp add: s1_def unat_add_fits)
  then have IH: "map (map_option mem_data) ps1 = map (Some \<circ> pay) [Suc k..<Suc e] \<and>
      (\<exists>v a t log. stores pay v B W \<and> length v = length (m_vecUnvalidPkgs s1) \<and>
         s' = s1\<lparr>m_vecUnvalidPkgs := v, m_ui64ValidPkgBegin := 0, m_ui64ValidPkgEnd := 0,
           m_ui64AppConfirmAck := a, m_ui64AppConfirmAckTmp := t, sent := log\<rparr>)"
    using Suc.hyps(1) [of "Suc k" s1 ps1] Suc.hyps(2) rest st1 Suc.prems(3-11) ke
    by (simp add: s1_def)
  have "map_option mem_data (?v ! (k mod length ?v)) = Some (pay k)"
    using pkg by (auto simp: is_pkg_def)
  moreover have "[k..<Suc e] = k # [Suc k..<Suc e]"
    using ke by (simp add: upt_conv_Cons)
  ultimately have "map (map_option mem_data) ps = map (Some \<circ> pay) [k..<Suc e]"
    using ps IH by simp
  then show ?case
    using IH by (auto simp: s1_def)
qed

section \<open>The invariant between two datagrams\<close>

text \<open>\<open>m_ui64UnvalidPkgBegin\<close> and \<open>m_ui64UnvalidPkgEnd\<close> are the ends of the waiting set, or both zero.\<close>

definition ends_of :: "nat set \<Rightarrow> u64 \<Rightarrow> u64 \<Rightarrow> bool" where
  "ends_of W b e \<longleftrightarrow> (if W = {} then b = 0 \<and> e = 0 else unat b = Min W \<and> unat e = Max W)"

definition waiting :: "(nat \<Rightarrow> bytes) \<Rightarrow> nat set \<Rightarrow> CRmpSock \<Rightarrow> bool" where
  "waiting pay W s \<longleftrightarrow>
     stores pay (m_vecUnvalidPkgs s) (Suc (unat (m_ui64LatestRecvedValidSeqNo s))) W \<and>
     unat (m_ui32UnvalidPkgsSize s) = length (m_vecUnvalidPkgs s) \<and>
     (\<forall>q \<in> W. Suc (unat (m_ui64LatestRecvedValidSeqNo s)) < q) \<and>
     ends_of W (m_ui64UnvalidPkgBegin s) (m_ui64UnvalidPkgEnd s) \<and>
     m_ui64ValidPkgBegin s = 0 \<and> m_ui64ValidPkgEnd s = 0"

lemma stores_finite: "stores pay v B W \<Longrightarrow> finite W"
  by (auto simp: stores_def intro: finite_subset)

lemma stores_bound: "stores pay v B W \<Longrightarrow> q \<in> W \<Longrightarrow> B < q \<and> q \<le> B + length v"
  by (auto simp: stores_def)

lemma ends_of_insert:
  assumes "ends_of W b e" and "finite W" and "unat q \<notin> W" and "q > 0" and "\<forall>r \<in> W. 0 < r"
  shows "ends_of (insert (unat q) W)
    (if b = 0 then q else if q < b then q else b) (if b = 0 then q else if q < b then e else if q > e then q else e)"
proof (cases "W = {}")
  case True
  then show ?thesis
    using assms(1) by (simp add: ends_of_def)
next
  case False
  then have b: "unat b = Min W" "unat e = Max W"
    using assms(1) by (simp_all add: ends_of_def)
  then have "Min W \<in> W" "Min W \<le> Max W" and "b \<noteq> 0"
    using False assms(2,5) by (auto simp: unat_eq_zero [symmetric] simp del: unat_eq_zero)
  moreover have "Min (insert (unat q) W) = min (unat q) (unat b)"
    and "Max (insert (unat q) W) = max (unat q) (unat e)"
    using False b assms(2) by simp_all
  ultimately show ?thesis
    using b(1,2) [symmetric] by (simp add: ends_of_def word_less_nat_alt min_def max_def)
qed

lemma activate_spec:
  assumes st: "stores pay (m_vecUnvalidPkgs s) B W"
    and sz: "unat (m_ui32UnvalidPkgsSize s) = length (m_vecUnvalidPkgs s)"
    and en: "ends_of W (m_ui64UnvalidPkgBegin s) (m_ui64UnvalidPkgEnd s)"
    and ub: "unat (m_ui64UnvalidPkgBegin s) = B + 1" and fits: "B + length (m_vecUnvalidPkgs s) < 2 ^ 64"
  shows "\<exists>e b' ue'. activate_unordered s = Inr (s\<lparr>m_ui64ValidPkgBegin := m_ui64UnvalidPkgBegin s,
      m_ui64ValidPkgEnd := e, m_ui64UnvalidPkgBegin := b', m_ui64UnvalidPkgEnd := ue',
      m_ui64LatestRecvedValidSeqNo := e\<rparr>) \<and>
    B + 1 \<le> unat e \<and> unat e \<le> B + length (m_vecUnvalidPkgs s) \<and> {B + 1..unat e} \<subseteq> W \<and>
    Suc (unat e) \<notin> W \<and> ends_of {q \<in> W. unat e < q} b' ue'"
proof -
  let ?v = "m_vecUnvalidPkgs s" and ?ub = "m_ui64UnvalidPkgBegin s" and ?ue = "m_ui64UnvalidPkgEnd s"
    and ?sz = "m_ui32UnvalidPkgsSize s"
  note fin = stores_finite [OF st]
  have "W \<noteq> {}"
    using en ub by (auto simp: ends_of_def)
  then have minW: "Min W = B + 1" and maxW: "unat ?ue = Max W"
    using en ub by (simp_all add: ends_of_def)
  have inW: "B + 1 \<in> W" "unat ?ue \<in> W"
    using Min_in [OF fin \<open>W \<noteq> {}\<close>] Max_in [OF fin \<open>W \<noteq> {}\<close>] minW maxW by simp_all
  have ue: "B + 1 \<le> unat ?ue" "unat ?ue \<le> B + length ?v"
    using minW inW fin stores_bound [OF st inW(2)] by (simp_all add: Min_le maxW \<open>W \<noteq> {}\<close>)
  obtain e where e: "find_valid_end ?v ?sz ?ue ?ub = Inr e" "B + 1 \<le> unat e" "unat e \<le> unat ?ue"
      "{B + 1 <.. unat e} \<subseteq> W" "e < ?ue \<longrightarrow> Suc (unat e) \<notin> W"
    using find_valid_end_spec [OF st sz, of ?ub ?ue] ub ue by auto
  have "{B + 1..unat e} = insert (B + 1) {B + 1 <.. unat e}"
    using e(2) by auto
  then have run: "{B + 1..unat e} \<subseteq> W"
    using e(4) inW(1) by simp
  have next_free: "Suc (unat e) \<notin> W"
  proof (cases "e < ?ue")
    case True
    then show ?thesis
      using e(5) by simp
  next
    case False
    then have "Max W < Suc (unat e)"
      using e(3) maxW by (simp add: word_less_nat_alt)
    then show ?thesis
      using fin Max_ge not_le by blast
  qed
  show ?thesis
  proof (cases "e < ?ue")
    case False
    then have "unat e = Max W"
      using e(3) maxW by (simp add: word_less_nat_alt)
    then have "{q \<in> W. unat e < q} = {}"
      using fin by (auto dest: Max_ge)
    then have "ends_of {q \<in> W. unat e < q} 0 0"
      by (simp add: ends_of_def)
    moreover have "activate_unordered s = Inr (s\<lparr>m_ui64ValidPkgBegin := ?ub, m_ui64ValidPkgEnd := e,
        m_ui64UnvalidPkgBegin := 0, m_ui64UnvalidPkgEnd := 0, m_ui64LatestRecvedValidSeqNo := e\<rparr>)"
      using e(1) False by (simp add: activate_unordered_def Let_def)
    ultimately show ?thesis
      using e(2) le_trans [OF e(3) ue(2)] run next_free by blast
  next
    case True
    have Suc_e: "unat (e + 1) = Suc (unat e)"
      using unat_Suc_u64 [OF True] .
    have "e + 1 \<le> ?ue" "B < unat (e + 1)"
      using True Suc_e e(2) by (simp_all add: word_le_nat_alt word_less_nat_alt)
    from find_unvalid_begin_spec [OF st sz this(2,1) ue(2)] obtain b' where
        b': "find_unvalid_begin ?v ?sz ?ue (e + 1) = Inr b'" "Suc (unat e) \<le> unat b'"
        "b' \<le> ?ue" "{Suc (unat e) ..< unat b'} \<inter> W = {}" "b' < ?ue \<longrightarrow> unat b' \<in> W"
      unfolding Suc_e by blast
    let ?W = "{q \<in> W. unat e < q}"
    have b'_in: "unat b' \<in> ?W"
      using b'(2,3,5) inW(2) by (cases "b' < ?ue") auto
    have "Min ?W = unat b'"
    proof (rule Min_eqI)
      fix q assume "q \<in> ?W"
      then show "unat b' \<le> q"
        using b'(4) by (metis (no_types, lifting) Int_iff Suc_le_eq atLeastLessThan_iff empty_iff mem_Collect_eq not_le)
    qed (use fin b'_in in auto)
    moreover have "Max ?W = unat ?ue"
    proof (rule Max_eqI)
      show "unat ?ue \<in> ?W"
        using inW(2) True by (simp add: word_less_nat_alt)
    qed (use fin maxW in auto)
    ultimately have "ends_of ?W b' ?ue"
      using b'_in by (auto simp: ends_of_def)
    moreover have "activate_unordered s = Inr (s\<lparr>m_ui64ValidPkgBegin := ?ub, m_ui64ValidPkgEnd := e,
        m_ui64UnvalidPkgBegin := b', m_ui64UnvalidPkgEnd := ?ue, m_ui64LatestRecvedValidSeqNo := e\<rparr>)"
      using e(1) True b'(1) by (simp add: activate_unordered_def Let_def)
    ultimately show ?thesis
      using e(2) le_trans [OF e(3) ue(2)] run next_free by blast
  qed
qed

section \<open>One data package\<close>

text \<open>The block in \<open>m_pMem\<close> when \<open>recvep_handle_odata\<close> is called: the header is stripped.\<close>

definition carries :: "(nat \<Rightarrow> bytes) \<Rightarrow> u64 \<Rightarrow> CMemBlock \<Rightarrow> bool" where
  "carries pay seq b \<longleftrightarrow> mem_wf b \<and> get_u64 (get_data b) 0 (m_bytes b) = Inr seq \<and>
     8 \<le> length (mem_data b) \<and> drop 8 (mem_data b) = pay (unat seq) \<and> pay (unat seq) \<noteq> []"

lemma carries_strip:
  assumes "carries pay seq b"
  shows "is_pkg pay (unat seq) (Some (dec_head_data 8 b))" and "get_len (dec_head_data 8 b) > 0"
proof -
  have wf: "mem_wf b" and le: "unat (8 :: u32) \<le> unat (m_ui32Len b)"
    using assms length_mem_data [of b] by (simp_all add: carries_def)
  note dec = dec_head_data_wf [OF wf le]
  show pkg: "is_pkg pay (unat seq) (Some (dec_head_data 8 b))"
    using dec assms by (simp add: is_pkg_def carries_def)
  then have "length (mem_data (dec_head_data 8 b)) \<noteq> 0"
    by (auto simp: is_pkg_def)
  then show "get_len (dec_head_data 8 b) > 0"
    unfolding length_mem_data [OF dec(1)] by (simp add: get_len_def word_less_nat_alt)
qed

lemma recv_drain_first:
  assumes "recv_drain buf answers s = Inr (ps, answers', s')" and "m_pMem s = Some b" and "get_len b > 0"
  shows "\<exists>ps1. ps = Some b # ps1 \<and>
    recv_drain buf answers (s\<lparr>m_pMem := None\<rparr>) = Inr (ps1, answers', s')"
proof -
  have "get_next_recved_data buf answers s = Inr (0, Some b, answers, s\<lparr>m_pMem := None\<rparr>)"
    using assms(2,3) by (simp add: get_next_recved_data_def)
  then show ?thesis
    using assms(1) by (auto simp: recv_drain.simps [of buf answers s] bindr_Inr_iff)
qed

text \<open>The next package of the stream, whether or not early ones follow it.\<close>

lemma odata_next:
  assumes w: "waiting pay W s" and b: "m_pMem s = Some b" "carries pay seq b"
    and seq: "seq = 1 + m_ui64LatestRecvedValidSeqNo s"
    and fits: "unat (m_ui64LatestRecvedValidSeqNo s) + length (m_vecUnvalidPkgs s) + 2 < 2 ^ 64"
  shows "\<exists>s1. recvep_handle_odata s = Inr (CMNERR_ODATA_READY, s1) \<and>
    (\<forall>buf answers ps answers' s'. recv_drain buf answers s1 = Inr (ps, answers', s') \<longrightarrow>
      (let L = unat (m_ui64LatestRecvedValidSeqNo s); L' = unat (m_ui64LatestRecvedValidSeqNo s') in
       map (map_option mem_data) ps = map (Some \<circ> pay) [Suc L..<Suc L'] \<and>
       L < L' \<and> L' \<le> L + length (m_vecUnvalidPkgs s) + 1 \<and>
       {Suc (Suc L)..L'} \<subseteq> W \<and> Suc L' \<notin> W \<and> waiting pay {q \<in> W. L' < q} s' \<and>
       m_pMem s' = None \<and> length (m_vecUnvalidPkgs s') = length (m_vecUnvalidPkgs s)))"
proof -
  let ?L = "unat (m_ui64LatestRecvedValidSeqNo s)" and ?v = "m_vecUnvalidPkgs s"
  define b1 where "b1 = dec_head_data 8 b"
  have v: "?v \<noteq> []"
    using w stores_nonempty by (auto simp: waiting_def)
  have Suc_L: "unat (m_ui64LatestRecvedValidSeqNo s + 1) = Suc ?L"
    using fits by (simp add: unat_add_fits)
  have Suc_Suc_L: "unat (m_ui64LatestRecvedValidSeqNo s + 1 + 1) = Suc (Suc ?L)"
    using fits v Suc_L unat_add_fits [of "m_ui64LatestRecvedValidSeqNo s + 1" 1]
    by (cases ?v) (simp_all only: unat_1 list.size, simp_all)
  note Suc_L = Suc_L Suc_Suc_L
  have b1: "map_option mem_data (Some b1) = Some (pay (Suc ?L))" "get_len b1 > 0"
    using carries_strip [OF b(2)] Suc_L seq by (auto simp: b1_def is_pkg_def add.commute)
  define s0 where "s0 = s\<lparr>m_pMem := Some b1, m_ui64LatestRecvedValidSeqNo := m_ui64LatestRecvedValidSeqNo s + 1\<rparr>"
  have handle: "recvep_handle_odata s =
      bindr (if m_ui64LatestRecvedValidSeqNo s0 + 1 = m_ui64UnvalidPkgBegin s0
             then activate_unordered s0 else Inr s0) (\<lambda>s. Inr (CMNERR_ODATA_READY, s))"
    using b seq by (simp add: recvep_handle_odata_def carries_def s0_def b1_def Let_def)
  have w': "stores pay ?v (Suc ?L) W" "unat (m_ui32UnvalidPkgsSize s) = length ?v"
      "\<forall>q \<in> W. Suc ?L < q" "ends_of W (m_ui64UnvalidPkgBegin s) (m_ui64UnvalidPkgEnd s)"
      "m_ui64ValidPkgBegin s = 0" "m_ui64ValidPkgEnd s = 0"
    using w by (simp_all add: waiting_def)
  show ?thesis
  proof (cases "m_ui64LatestRecvedValidSeqNo s + 1 + 1 = m_ui64UnvalidPkgBegin s")
    case True
    then have ub: "unat (m_ui64UnvalidPkgBegin s0) = Suc ?L + 1"
      using Suc_L by (simp add: s0_def)
    from activate_spec [of pay s0 "Suc ?L" W] w' ub fits obtain e b' ue' where
      act: "activate_unordered s0 = Inr (s0\<lparr>m_ui64ValidPkgBegin := m_ui64UnvalidPkgBegin s,
        m_ui64ValidPkgEnd := e, m_ui64UnvalidPkgBegin := b', m_ui64UnvalidPkgEnd := ue',
        m_ui64LatestRecvedValidSeqNo := e\<rparr>)"
      and e: "?L + 2 \<le> unat e" "unat e \<le> Suc ?L + length ?v" "{?L + 2..unat e} \<subseteq> W" "Suc (unat e) \<notin> W"
        "ends_of {q \<in> W. unat e < q} b' ue'"
      by (auto simp: s0_def)
    define s1 where "s1 = s0\<lparr>m_ui64ValidPkgBegin := m_ui64UnvalidPkgBegin s,
        m_ui64ValidPkgEnd := e, m_ui64UnvalidPkgBegin := b', m_ui64UnvalidPkgEnd := ue',
        m_ui64LatestRecvedValidSeqNo := e\<rparr>"
    have handle1: "recvep_handle_odata s = Inr (CMNERR_ODATA_READY, s1)"
      using handle act True by (simp add: s1_def s0_def)
    show ?thesis
    proof (intro exI [of _ s1] conjI allI impI)
      show "recvep_handle_odata s = Inr (CMNERR_ODATA_READY, s1)"
        by (rule handle1)
      fix buf answers ps answers' s'
      assume "recv_drain buf answers s1 = Inr (ps, answers', s')"
      then obtain ps1 where ps: "ps = Some b1 # ps1"
        and rest: "recv_drain buf answers (s1\<lparr>m_pMem := None\<rparr>) = Inr (ps1, answers', s')"
        using recv_drain_first [of buf answers s1 ps answers' s' b1] b1 by (auto simp: s1_def s0_def)
      let ?W = "{q \<in> W. unat e < q}"
      have "W = ?W \<union> {?L + 2..unat e}"
        using e(3) w'(3) by auto
      then have st: "stores pay ?v (Suc ?L) (?W \<union> {?L + 2..unat e})"
        using w'(1) by argo
      have "map (map_option mem_data) ps1 = map (Some \<circ> pay) [?L + 2..<Suc (unat e)] \<and>
        (\<exists>v a t log. stores pay v (Suc ?L) ?W \<and> length v = length ?v \<and>
           s' = s1\<lparr>m_pMem := None, m_vecUnvalidPkgs := v, m_ui64ValidPkgBegin := 0, m_ui64ValidPkgEnd := 0,
             m_ui64AppConfirmAck := a, m_ui64AppConfirmAckTmp := t, sent := log\<rparr>)"
      proof -
        have fields: "m_vecUnvalidPkgs (s1\<lparr>m_pMem := None\<rparr>) = ?v"
            "m_ui32UnvalidPkgsSize (s1\<lparr>m_pMem := None\<rparr>) = m_ui32UnvalidPkgsSize s"
            "m_pMem (s1\<lparr>m_pMem := None\<rparr>) = None"
            "unat (m_ui64ValidPkgBegin (s1\<lparr>m_pMem := None\<rparr>)) = ?L + 2"
            "m_ui64ValidPkgEnd (s1\<lparr>m_pMem := None\<rparr>) = e"
          using ub by (simp_all add: s1_def s0_def)
        have bounds: "Suc ?L < ?L + 2" "?L + 2 \<le> Suc (unat e)" "unat e \<le> Suc ?L + length ?v"
            "Suc (unat e) < 2 ^ 64" "\<forall>q \<in> ?W. unat e < q"
          using e(1,2) fits by simp_all
        show ?thesis
          using recv_drain_valid [OF rest, unfolded fields, OF st w'(2) refl refl refl bounds] by simp
      qed
      then obtain v1 a t log where ps1: "map (map_option mem_data) ps1 = map (Some \<circ> pay) [?L + 2..<Suc (unat e)]"
        and v1: "stores pay v1 (Suc ?L) ?W" "length v1 = length ?v"
        and s': "s' = s1\<lparr>m_pMem := None, m_vecUnvalidPkgs := v1, m_ui64ValidPkgBegin := 0, m_ui64ValidPkgEnd := 0,
             m_ui64AppConfirmAck := a, m_ui64AppConfirmAckTmp := t, sent := log\<rparr>"
        by blast
      have "[Suc ?L..<Suc (unat e)] = Suc ?L # [?L + 2..<Suc (unat e)]"
        using e(1) by (simp add: upt_conv_Cons)
      then have "map (map_option mem_data) ps = map (Some \<circ> pay) [Suc ?L..<Suc (unat e)]"
        using ps ps1 b1(1) by simp
      moreover have ahead: "\<forall>q \<in> ?W. Suc (unat e) < q"
        using e(4) by (metis (no_types, lifting) Suc_lessI mem_Collect_eq)
      moreover have "stores pay v1 (Suc (unat e)) ?W"
      proof -
        have "stores pay v1 (unat e) ?W"
          using stores_rebase [OF v1(1), of "unat e"] e(1,2) v1(2) by simp
        from stores_rebase [OF this, of "Suc (unat e)"] show ?thesis
          using ahead v v1(2) by (cases ?v) auto
      qed
      ultimately show "let L = ?L; L' = unat (m_ui64LatestRecvedValidSeqNo s') in
       map (map_option mem_data) ps = map (Some \<circ> pay) [Suc L..<Suc L'] \<and>
       L < L' \<and> L' \<le> L + length (m_vecUnvalidPkgs s) + 1 \<and>
       {Suc (Suc L)..L'} \<subseteq> W \<and> Suc L' \<notin> W \<and> waiting pay {q \<in> W. L' < q} s' \<and>
       m_pMem s' = None \<and> length (m_vecUnvalidPkgs s') = length (m_vecUnvalidPkgs s)"
        using e v1(2) w'(2) by (simp add: s' s1_def s0_def waiting_def)
    qed
  next
    case False
    have handle0: "recvep_handle_odata s = Inr (CMNERR_ODATA_READY, s0)"
      using handle False by (simp add: s0_def)
    have not_next: "Suc (Suc ?L) \<notin> W"
    proof
      assume in_W: "Suc (Suc ?L) \<in> W"
      then have "Min W = Suc (Suc ?L)"
        using stores_finite [OF w'(1)] w'(3) by (intro Min_eqI) auto
      moreover have "W \<noteq> {}"
        using in_W by blast
      ultimately have "unat (m_ui64UnvalidPkgBegin s) = Suc (Suc ?L)"
        using w'(4) by (simp add: ends_of_def)
      then show False
        using False Suc_L(2) by (metis word_unat_eq_iff)
    qed
    have "\<forall>q \<in> W. Suc (Suc ?L) < q"
      using w'(3) not_next by (metis Suc_lessI)
    then have "stores pay ?v (Suc (Suc ?L)) W"
      using stores_rebase [OF w'(1), of "Suc (Suc ?L)"] v by (cases ?v) auto
    moreover have "{q \<in> W. Suc ?L < q} = W"
      using w'(3) by auto
    moreover have "\<forall>q \<in> W. Suc (Suc ?L) < q"
      using w'(3) not_next by (metis Suc_lessI)
    ultimately have w0: "waiting pay {q \<in> W. Suc ?L < q} (s0\<lparr>m_pMem := None\<rparr>)"
      using w' Suc_L(1) by (simp add: waiting_def s0_def)
    show ?thesis
    proof (intro exI [of _ s0] conjI allI impI)
      show "recvep_handle_odata s = Inr (CMNERR_ODATA_READY, s0)"
        by (rule handle0)
      fix buf answers ps answers' s'
      assume "recv_drain buf answers s0 = Inr (ps, answers', s')"
      then obtain ps1 where ps: "ps = Some b1 # ps1"
        and rest: "recv_drain buf answers (s0\<lparr>m_pMem := None\<rparr>) = Inr (ps1, answers', s')"
        using recv_drain_first [of buf answers s0 ps answers' s' b1] b1 by (auto simp: s0_def)
      then obtain a t log where "ps1 = []" and s': "s' = s0\<lparr>m_pMem := None, m_ui64ValidPkgBegin := 0,
          m_ui64ValidPkgEnd := 0, m_ui64AppConfirmAck := a, m_ui64AppConfirmAckTmp := t, sent := log\<rparr>"
        using recv_drain_end [OF rest] w'(5) by (auto simp: s0_def)
      then have "map (map_option mem_data) ps = map (Some \<circ> pay) [Suc ?L..<Suc (Suc ?L)]"
        using ps b1(1) by simp
      then show "let L = ?L; L' = unat (m_ui64LatestRecvedValidSeqNo s') in
       map (map_option mem_data) ps = map (Some \<circ> pay) [Suc L..<Suc L'] \<and>
       L < L' \<and> L' \<le> L + length (m_vecUnvalidPkgs s) + 1 \<and>
       {Suc (Suc L)..L'} \<subseteq> W \<and> Suc L' \<notin> W \<and> waiting pay {q \<in> W. L' < q} s' \<and>
       m_pMem s' = None \<and> length (m_vecUnvalidPkgs s') = length (m_vecUnvalidPkgs s)"
        using w0 not_next Suc_L by (simp add: s' s0_def waiting_def)
    qed
  qed
qed

text \<open>A package that has been taken already is dropped.\<close>

lemma odata_repeated:
  assumes "m_pMem s = Some b" and "carries pay seq b" and "seq \<le> m_ui64LatestRecvedValidSeqNo s"
    and "unat (m_ui64LatestRecvedValidSeqNo s) + 1 < 2 ^ 64"
  shows "recvep_handle_odata s =
    Inr (CMNERR_SUC, s\<lparr>m_pMem := Some (reset_mem False (dec_head_data 8 b))\<rparr>)"
proof -
  have "unat (1 + m_ui64LatestRecvedValidSeqNo s) = Suc (unat (m_ui64LatestRecvedValidSeqNo s))"
    using assms(4) by (simp add: unat_add_fits)
  then have "seq \<noteq> 1 + m_ui64LatestRecvedValidSeqNo s"
    using assms(3) by (auto simp: word_le_nat_alt)
  then show ?thesis
    using assms by (simp add: recvep_handle_odata_def carries_def Let_def)
qed

text \<open>A package ahead of its turn is kept, with the ends of the waiting set adjusted.\<close>

lemma odata_ahead_branch:
  assumes "m_pMem s = Some b" and "carries pay seq b"
    and "Suc (unat (m_ui64LatestRecvedValidSeqNo s)) < unat seq"
  shows "recvep_handle_odata s =
    bindr (store_unordered seq (dec_head_data 8 b) (s\<lparr>m_pMem := Some (dec_head_data 8 b)\<rparr>))
      (\<lambda>s. Inr (CMNERR_SUC, s))"
proof -
  have "unat (1 + m_ui64LatestRecvedValidSeqNo s) = Suc (unat (m_ui64LatestRecvedValidSeqNo s))"
    using assms(3) unat_u64_lt [of seq] by (simp add: unat_add_fits)
  then have "seq \<noteq> 1 + m_ui64LatestRecvedValidSeqNo s" and "\<not> seq \<le> m_ui64LatestRecvedValidSeqNo s"
    using assms(3) by (auto simp: word_le_nat_alt)
  then show ?thesis
    using assms by (simp add: recvep_handle_odata_def carries_def Let_def)
qed

lemma odata_ahead:
  assumes w: "waiting pay W s" and b: "m_pMem s = Some b" "carries pay seq b"
    and ahead: "Suc (unat (m_ui64LatestRecvedValidSeqNo s)) < unat seq"
    and win: "unat seq \<le> unat (m_ui64LatestRecvedValidSeqNo s) + length (m_vecUnvalidPkgs s) + 1"
    and edge: "W = {} \<or> unat seq \<le> unat (m_ui64LatestRecvedValidSeqNo s) + length (m_vecUnvalidPkgs s)"
    and new: "unat seq \<notin> W"
  shows "\<exists>s'. recvep_handle_odata s = Inr (CMNERR_SUC, s') \<and> waiting pay (insert (unat seq) W) s' \<and>
    m_pMem s' = None \<and> m_ui64LatestRecvedValidSeqNo s' = m_ui64LatestRecvedValidSeqNo s \<and>
    length (m_vecUnvalidPkgs s') = length (m_vecUnvalidPkgs s)"
proof -
  let ?L = "unat (m_ui64LatestRecvedValidSeqNo s)" and ?v = "m_vecUnvalidPkgs s"
    and ?ub = "m_ui64UnvalidPkgBegin s" and ?ue = "m_ui64UnvalidPkgEnd s" and ?b = "dec_head_data 8 b"
  have st: "stores pay ?v (Suc ?L) W" and sz: "unat (m_ui32UnvalidPkgsSize s) = length ?v"
    using w by (simp_all add: waiting_def)
  have q: "unat seq \<in> {Suc ?L <.. Suc ?L + length ?v}"
    using ahead win by simp
  note ins = stores_insert [OF st q carries_strip(1) [OF b(2)]]
  have none: "?v ! (unat seq mod length ?v) = None"
    using stores_get(2) [OF st q] new by simp
  have slot: "slot seq (m_ui32UnvalidPkgsSize s) = unat seq mod length ?v"
    using slot_nat [OF sz refl] .
  have "unat (seq - m_ui64LatestRecvedValidSeqNo s) = unat seq - ?L"
    using ahead by (simp add: unat_sub_fits word_le_nat_alt)
  moreover have "unat (ucast (m_ui32UnvalidPkgsSize s) :: u64) = length ?v"
    using sz by (simp add: unat_u32_u64)
  moreover have "?ub = 0" if "W = {}"
    using w that by (simp add: waiting_def ends_of_def)
  ultimately have in_win: "?ub \<noteq> 0 \<longrightarrow> \<not> seq - m_ui64LatestRecvedValidSeqNo s > ucast (m_ui32UnvalidPkgsSize s)"
    using edge by (auto simp: word_less_nat_alt)
  define b' where "b' = (if ?ub = 0 then seq else if seq < ?ub then seq else ?ub)"
  define e' where "e' = (if ?ub = 0 then seq else if seq < ?ub then ?ue else if seq > ?ue then seq else ?ue)"
  define s' where "s' = s\<lparr>m_ui64UnvalidPkgBegin := b', m_ui64UnvalidPkgEnd := e',
    m_vecUnvalidPkgs := ?v[unat seq mod length ?v := Some ?b], m_pMem := None\<rparr>"
  have "store_unordered seq ?b (s\<lparr>m_pMem := Some ?b\<rparr>) = Inr s'"
    using in_win slot stores_get(1) [OF st q] none ins(1)
    by (simp add: store_unordered_def s'_def b'_def e'_def Let_def)
  then have "recvep_handle_odata s = Inr (CMNERR_SUC, s')"
    using odata_ahead_branch [OF b ahead] by simp
  moreover have "ends_of (insert (unat seq) W) b' e'"
    unfolding b'_def e'_def
    by (rule ends_of_insert) (use w st new ahead stores_finite in \<open>auto simp: waiting_def word_less_nat_alt\<close>)
  then have "waiting pay (insert (unat seq) W) s'"
    using w ins(2) ahead sz by (simp add: waiting_def s'_def)
  ultimately show ?thesis
    by (auto simp: s'_def)
qed

text \<open>
  The number just behind the window is let in when nothing waits. When something waits it ends
  the process, if it is not the one that waits.
\<close>

lemma odata_behind_window:
  assumes w: "waiting pay W s" and b: "m_pMem s = Some b" "carries pay seq b" and W: "W \<noteq> {}"
    and seq: "unat seq = unat (m_ui64LatestRecvedValidSeqNo s) + length (m_vecUnvalidPkgs s) + 1"
    and new: "unat seq \<notin> W"
  shows "recvep_handle_odata s = Inl Assert_failed"
proof -
  let ?L = "unat (m_ui64LatestRecvedValidSeqNo s)" and ?v = "m_vecUnvalidPkgs s"
  have st: "stores pay ?v (Suc ?L) W" and sz: "unat (m_ui32UnvalidPkgsSize s) = length ?v"
    and en: "ends_of W (m_ui64UnvalidPkgBegin s) (m_ui64UnvalidPkgEnd s)"
    using w by (simp_all add: waiting_def)
  have "?v \<noteq> []"
    using st by (rule stores_nonempty)
  then have ahead: "Suc ?L < unat seq"
    using seq by simp
  have "unat (seq - m_ui64LatestRecvedValidSeqNo s) = unat seq - ?L"
    using ahead by (simp add: unat_sub_fits word_le_nat_alt)
  moreover have "unat (ucast (m_ui32UnvalidPkgsSize s) :: u64) = length ?v"
    using sz by (simp add: unat_u32_u64)
  ultimately have far: "seq - m_ui64LatestRecvedValidSeqNo s > ucast (m_ui32UnvalidPkgsSize s)"
    using seq by (simp add: word_less_nat_alt)
  have ends: "unat (m_ui64UnvalidPkgBegin s) \<in> W" "unat (m_ui64UnvalidPkgEnd s) \<in> W"
    using en Min_in [OF stores_finite [OF st] W] Max_in [OF stores_finite [OF st] W] W
    by (simp_all add: ends_of_def)
  have "unat (m_ui64UnvalidPkgEnd s) < unat seq" "unat (m_ui64UnvalidPkgBegin s) < unat seq"
    using stores_bound [OF st ends(2)] stores_bound [OF st ends(1)] seq new ends
    by (metis Suc_eq_plus1 add_Suc le_neq_implies_less)+
  moreover have "m_ui64UnvalidPkgBegin s \<noteq> 0"
    using stores_bound [OF st ends(1)] by auto
  ultimately have "store_unordered seq (dec_head_data 8 b) (s\<lparr>m_pMem := Some (dec_head_data 8 b)\<rparr>) = Inl Assert_failed"
    using far by (simp add: store_unordered_def word_less_nat_alt)
  then show ?thesis
    using odata_ahead_branch [OF b ahead] by simp
qed

text \<open>A second copy of a package that waits ends the process.\<close>

lemma odata_waiting_again:
  assumes w: "waiting pay W s" and b: "m_pMem s = Some b" "carries pay seq b" and W: "unat seq \<in> W"
  shows "recvep_handle_odata s = Inl Assert_failed"
proof -
  let ?L = "unat (m_ui64LatestRecvedValidSeqNo s)" and ?v = "m_vecUnvalidPkgs s"
  have st: "stores pay ?v (Suc ?L) W" and sz: "unat (m_ui32UnvalidPkgsSize s) = length ?v"
    and en: "ends_of W (m_ui64UnvalidPkgBegin s) (m_ui64UnvalidPkgEnd s)"
    and ahead: "Suc ?L < unat seq"
    using w W by (simp_all add: waiting_def)
  have q: "unat seq \<in> {Suc ?L <.. Suc ?L + length ?v}"
    using stores_bound [OF st W] by simp
  have "W \<noteq> {}"
    using W by blast
  then have ends: "unat (m_ui64UnvalidPkgBegin s) \<le> unat seq" "unat seq \<le> unat (m_ui64UnvalidPkgEnd s)"
    using en W stores_finite [OF st] by (simp_all add: ends_of_def)
  have "?v ! (unat seq mod length ?v) \<noteq> None"
    using stores_get(2) [OF st q] W by simp
  moreover have "\<not> seq < m_ui64UnvalidPkgBegin s" "\<not> seq > m_ui64UnvalidPkgEnd s"
    using ends by (simp_all add: word_less_nat_alt)
  moreover have "m_ui64UnvalidPkgBegin s \<noteq> 0"
  proof -
    have "unat (m_ui64UnvalidPkgBegin s) \<in> W"
      using en Min_in [OF stores_finite [OF st]] \<open>W \<noteq> {}\<close> by (simp add: ends_of_def)
    then show ?thesis
      using stores_bound [OF st] by fastforce
  qed
  ultimately have "store_unordered seq (dec_head_data 8 b) (s\<lparr>m_pMem := Some (dec_head_data 8 b)\<rparr>) =
      Inl Assert_failed"
    using slot_nat [OF sz refl, of seq] stores_get(1) [OF st q]
    by (auto simp: store_unordered_def Let_def)
  then show ?thesis
    using odata_ahead_branch [OF b ahead] by simp
qed

section \<open>A stream of data packages\<close>

text \<open>A block arrives, is handled, and what has become ready is taken out by the endpoint.\<close>

definition recv_odata ::
  "bytes \<Rightarrow> answers \<Rightarrow> CMemBlock \<Rightarrow> CRmpSock \<Rightarrow> (CMemBlock option list \<times> answers \<times> CRmpSock) res" where
  "recv_odata buf answers b s =
     bindr (recvep_handle_odata (s\<lparr>m_pMem := Some b\<rparr>)) (\<lambda>(code, s).
     if code = CMNERR_ODATA_READY then recv_drain buf answers s else Inr ([], answers, s))"

text \<open>
  Arrivals within the window, with the sequence numbers that arrived and the blocks that
  the application got.
\<close>

inductive recv_run ::
  "(nat \<Rightarrow> bytes) \<Rightarrow> u64 list \<Rightarrow> CMemBlock option list \<Rightarrow> CRmpSock \<Rightarrow> CRmpSock \<Rightarrow> bool"
  for pay :: "nat \<Rightarrow> bytes" where
  recv_nil: "recv_run pay [] [] s s"
| recv_step: "recv_run pay seqs ps s s1 \<Longrightarrow> carries pay seq b \<Longrightarrow> 0 < seq \<Longrightarrow>
    unat seq \<le> unat (m_ui64LatestRecvedValidSeqNo s1) + length (m_vecUnvalidPkgs s1) + 1 \<Longrightarrow>
    unat (m_ui64LatestRecvedValidSeqNo s1) + length (m_vecUnvalidPkgs s1) + 2 < 2 ^ 64 \<Longrightarrow>
    recv_odata buf answers b s1 = Inr (qs, answers', s2) \<Longrightarrow>
    recv_run pay (seqs @ [seq]) (ps @ qs) s s2"

lemma waiting_pMem [simp]: "waiting pay W (s\<lparr>m_pMem := p\<rparr>) = waiting pay W s"
  by (simp add: waiting_def)

text \<open>
  The invariant of the run: \<open>L\<close> is the end of the longest complete beginning of what
  arrived, the rest waits, and the application has got \<open>1 .. L\<close>.
\<close>

definition in_order :: "(nat \<Rightarrow> bytes) \<Rightarrow> nat set \<Rightarrow> CMemBlock option list \<Rightarrow> CRmpSock \<Rightarrow> bool" where
  "in_order pay A ps s \<longleftrightarrow>
     (let L = unat (m_ui64LatestRecvedValidSeqNo s) in
      waiting pay {q \<in> A. L < q} s \<and> {1..L} \<subseteq> A \<and> Suc L \<notin> A \<and>
      map (map_option mem_data) ps = map (Some \<circ> pay) [1..<Suc L])"

lemma in_order_step:
  assumes inv: "in_order pay A ps s" and b: "carries pay seq b" and pos: "0 < seq"
    and win: "unat seq \<le> unat (m_ui64LatestRecvedValidSeqNo s) + length (m_vecUnvalidPkgs s) + 1"
    and fits: "unat (m_ui64LatestRecvedValidSeqNo s) + length (m_vecUnvalidPkgs s) + 2 < 2 ^ 64"
    and step: "recv_odata buf answers b s = Inr (qs, answers', s')"
  shows "in_order pay (insert (unat seq) A) (ps @ qs) s' \<and>
    length (m_vecUnvalidPkgs s') = length (m_vecUnvalidPkgs s)"
proof -
  let ?L = "unat (m_ui64LatestRecvedValidSeqNo s)" and ?s = "s\<lparr>m_pMem := Some b\<rparr>"
  let ?W = "{q \<in> A. ?L < q}"
  have w: "waiting pay ?W ?s" and A: "{1..?L} \<subseteq> A" "Suc ?L \<notin> A"
    and ps: "map (map_option mem_data) ps = map (Some \<circ> pay) [1..<Suc ?L]"
    using inv by (simp_all add: in_order_def Let_def)
  have pos': "0 < unat seq"
    using pos by (simp add: word_less_nat_alt)
  have Suc_L: "unat (1 + m_ui64LatestRecvedValidSeqNo s) = Suc ?L"
    using fits by (simp add: unat_add_fits)
  consider "unat seq \<le> ?L" | "unat seq = Suc ?L" | "Suc ?L < unat seq"
    by linarith
  then show ?thesis
  proof cases
    case 1
    then have "recvep_handle_odata ?s = Inr (CMNERR_SUC, ?s\<lparr>m_pMem := Some (reset_mem False (dec_head_data 8 b))\<rparr>)"
      using odata_repeated [of ?s b pay seq] b fits by (simp add: word_le_nat_alt)
    then have s': "s' = s\<lparr>m_pMem := Some (reset_mem False (dec_head_data 8 b))\<rparr>" and "qs = []"
      using step by (auto simp: recv_odata_def)
    moreover have "insert (unat seq) A = A"
      using 1 A(1) pos' by auto
    ultimately show ?thesis
      using inv by (simp add: in_order_def)
  next
    case 2
    then have "seq = 1 + m_ui64LatestRecvedValidSeqNo s"
      using Suc_L by (simp add: word_unat_eq_iff)
    then obtain s1 where s1: "recvep_handle_odata ?s = Inr (CMNERR_ODATA_READY, s1)"
      and drained: "\<forall>buf answers ps answers' s'. recv_drain buf answers s1 = Inr (ps, answers', s') \<longrightarrow>
      (let L = ?L; L' = unat (m_ui64LatestRecvedValidSeqNo s') in
       map (map_option mem_data) ps = map (Some \<circ> pay) [Suc L..<Suc L'] \<and>
       L < L' \<and> L' \<le> L + length (m_vecUnvalidPkgs s) + 1 \<and>
       {Suc (Suc L)..L'} \<subseteq> ?W \<and> Suc L' \<notin> ?W \<and> waiting pay {q \<in> ?W. L' < q} s' \<and>
       m_pMem s' = None \<and> length (m_vecUnvalidPkgs s') = length (m_vecUnvalidPkgs s))"
      using odata_next [OF w _ b] fits by auto
    have "recv_drain buf answers s1 = Inr (qs, answers', s')"
      using step s1 by (simp add: recv_odata_def)
    note d = drained [rule_format, OF this, unfolded Let_def]
    let ?L' = "unat (m_ui64LatestRecvedValidSeqNo s')"
    have run: "{Suc (Suc ?L)..?L'} \<subseteq> ?W" and lt: "?L < ?L'" and free: "Suc ?L' \<notin> ?W"
      using d by blast+
    have "{q \<in> insert (unat seq) A. ?L' < q} = {q \<in> ?W. ?L' < q}"
      using 2 lt by auto
    moreover have "{1..?L'} \<subseteq> insert (unat seq) A"
    proof
      fix q assume "q \<in> {1..?L'}"
      then consider "q \<in> {1..?L}" | "q = Suc ?L" | "q \<in> {Suc (Suc ?L)..?L'}"
        by force
      then show "q \<in> insert (unat seq) A"
        using A(1) run 2 by cases auto
    qed
    moreover have "Suc ?L' \<notin> insert (unat seq) A"
      using free lt 2 by simp
    moreover have "[1..<Suc ?L'] = [1..<Suc ?L] @ [Suc ?L..<Suc ?L']"
      using lt upt_add_eq_append [of 1 "Suc ?L" "?L' - ?L"] by simp
    then have "map (map_option mem_data) (ps @ qs) = map (Some \<circ> pay) [1..<Suc ?L']"
      using ps d by (simp del: upt_Suc)
    ultimately show ?thesis
      using d by (simp add: in_order_def Let_def del: upt_Suc)
  next
    case 3
    show ?thesis
    proof (cases "unat seq \<in> A")
      case True
      then have "recvep_handle_odata ?s = Inl Assert_failed"
        using odata_waiting_again [OF w _ b] 3 by simp
      then show ?thesis
        using step by (simp add: recv_odata_def)
    next
      case False
      have edge: "?W = {} \<or> unat seq \<le> ?L + length (m_vecUnvalidPkgs s)"
      proof (rule ccontr)
        assume "\<not> (?W = {} \<or> unat seq \<le> ?L + length (m_vecUnvalidPkgs s))"
        then have "recvep_handle_odata ?s = Inl Assert_failed"
          using odata_behind_window [OF w _ b] win False by auto
        then show False
          using step by (simp add: recv_odata_def)
      qed
      with False obtain s1 where s1: "recvep_handle_odata ?s = Inr (CMNERR_SUC, s1)"
        "waiting pay (insert (unat seq) ?W) s1"
        "m_ui64LatestRecvedValidSeqNo s1 = m_ui64LatestRecvedValidSeqNo s"
        "length (m_vecUnvalidPkgs s1) = length (m_vecUnvalidPkgs s)"
        using odata_ahead [OF w _ b] 3 win by auto
      moreover have "s' = s1" "qs = []"
        using step s1(1) by (simp_all add: recv_odata_def)
      moreover have "{q \<in> insert (unat seq) A. ?L < q} = insert (unat seq) ?W"
        using 3 by auto
      ultimately show ?thesis
        using A ps 3 by (auto simp: in_order_def Let_def simp del: upt_Suc)
    qed
  qed
qed

lemma recv_run_in_order:
  "recv_run pay seqs ps s s' \<Longrightarrow> in_order pay {} [] s \<Longrightarrow>
   in_order pay (unat ` set seqs) ps s' \<and> length (m_vecUnvalidPkgs s') = length (m_vecUnvalidPkgs s)"
proof (induction rule: recv_run.induct)
  case (recv_nil s)
  then show ?case by simp
next
  case (recv_step seqs ps s s1 seq b buf answers qs answers' s2)
  then show ?case
    using in_order_step [of pay "unat ` set seqs" ps s1 seq b buf answers qs answers' s2] by simp
qed

text \<open>A socket that has just been opened as a receiver.\<close>

definition fresh_recver :: "CRmpSock \<Rightarrow> bool" where
  "fresh_recver s \<longleftrightarrow>
     m_ui64LatestRecvedValidSeqNo s = 0 \<and> m_ui64UnvalidPkgBegin s = 0 \<and> m_ui64UnvalidPkgEnd s = 0 \<and>
     m_ui64ValidPkgBegin s = 0 \<and> m_ui64ValidPkgEnd s = 0 \<and> m_vecUnvalidPkgs s \<noteq> [] \<and>
     (\<forall>p \<in> set (m_vecUnvalidPkgs s). p = None) \<and>
     unat (m_ui32UnvalidPkgsSize s) = length (m_vecUnvalidPkgs s)"

lemma opened_recver_fresh:
  assumes "new_rmp_sock init RMP_RECV_SOCK = Inr s0"
  shows "fresh_recver (snd (rmp_open ip port sid cnt keep speed hb ans s0))"
  using assms
  by (auto simp: new_rmp_sock_def Let_def fresh_recver_def rmp_open_def rmp_open_handle_def
      UNORDERED_PKGS_CNT_def)

lemma fresh_in_order: "fresh_recver s \<Longrightarrow> in_order pay {} [] s"
  by (simp add: fresh_recver_def in_order_def waiting_def stores_empty ends_of_def Let_def)

section \<open>The loop always delivers\<close>

lemma set_ack_total:
  assumes "length buf = STACK_BUF"
  shows "\<exists>answers' s'. set_ack flag buf (Os_ok n # answers) s = Inr (answers', s')"
proof -
  obtain d where "ack_pkg (m_ui64LatestRecvedValidSeqNo s) (m_epid s) buf = Inr d"
    using ack_pkg_total [of buf] assms by (auto simp: STACK_BUF_def)
  then show ?thesis
    by (auto simp: set_ack_def Let_def udp_send_bytes_def)
qed

text \<open>No read of the loop is out of bounds when the size is the length of the vector.\<close>

lemma get_next_total:
  assumes "length buf = STACK_BUF" and "m_vecUnvalidPkgs s \<noteq> []"
    and "unat (m_ui32UnvalidPkgsSize s) = length (m_vecUnvalidPkgs s)"
  shows "\<exists>code p answers' s'. get_next_recved_data buf (Os_ok n # answers) s = Inr (code, p, answers', s') \<and>
    (code = CMNERR_SUC \<longrightarrow> answers' = Os_ok n # answers \<and>
       length (m_vecUnvalidPkgs s') = length (m_vecUnvalidPkgs s) \<and>
       m_ui32UnvalidPkgsSize s' = m_ui32UnvalidPkgsSize s)"
proof (cases "case m_pMem s of None \<Rightarrow> False | Some b \<Rightarrow> get_len b > 0")
  case True
  then show ?thesis
    by (simp add: get_next_recved_data_def)
next
  case no_mem: False
  show ?thesis
  proof (cases "0 < m_ui64ValidPkgBegin s \<and> m_ui64ValidPkgBegin s \<le> m_ui64ValidPkgEnd s")
    case True
    have "slot (m_ui64ValidPkgBegin s) (m_ui32UnvalidPkgsSize s) < length (m_vecUnvalidPkgs s)"
      using assms(2,3) by (simp add: slot_def)
    then show ?thesis
      using True no_mem by (simp add: get_next_recved_data_def vec_get_def vec_set_def Let_def)
  next
    case False
    then show ?thesis
      using no_mem set_ack_total [OF assms(1), of False n answers
          "s\<lparr>m_ui64ValidPkgBegin := 0, m_ui64ValidPkgEnd := 0\<rparr>"]
      by (auto simp: get_next_recved_data_def)
  qed
qed

lemma recv_drain_total:
  assumes "length buf = STACK_BUF" and "m_vecUnvalidPkgs s \<noteq> []"
    and "unat (m_ui32UnvalidPkgsSize s) = length (m_vecUnvalidPkgs s)"
  shows "\<exists>ps answers' s'. recv_drain buf (Os_ok n # answers) s = Inr (ps, answers', s')"
  using assms
proof (induction "drain_left s" arbitrary: s rule: less_induct)
  case less
  from get_next_total [OF less.prems, of n answers] obtain code p answers1 s1 where
    next1: "get_next_recved_data buf (Os_ok n # answers) s = Inr (code, p, answers1, s1)"
    and keep: "code = CMNERR_SUC \<Longrightarrow> answers1 = Os_ok n # answers \<and>
       length (m_vecUnvalidPkgs s1) = length (m_vecUnvalidPkgs s) \<and>
       m_ui32UnvalidPkgsSize s1 = m_ui32UnvalidPkgsSize s"
    by blast
  show ?case
  proof (cases "code = CMNERR_SUC")
    case False
    then show ?thesis
      using next1 by (simp add: recv_drain.simps [of buf _ s])
  next
    case True
    then have "drain_left s1 < drain_left s"
      using get_next_decreases next1 by simp
    moreover have "m_vecUnvalidPkgs s1 \<noteq> []"
      using keep [OF True] less.prems(2) by force
    ultimately have "\<exists>ps answers' s'. recv_drain buf (Os_ok n # answers) s1 = Inr (ps, answers', s')"
      using less.hyps [of s1] less.prems keep [OF True] by simp
    then show ?thesis
      using next1 True keep [OF True] by (auto simp: recv_drain.simps [of buf _ s])
  qed
qed

lemma activate_frame:
  assumes "activate_unordered s = Inr s1"
  shows "m_vecUnvalidPkgs s1 = m_vecUnvalidPkgs s \<and> m_ui32UnvalidPkgsSize s1 = m_ui32UnvalidPkgsSize s"
proof -
  let ?v = "m_vecUnvalidPkgs s" and ?sz = "m_ui32UnvalidPkgsSize s" and ?ue = "m_ui64UnvalidPkgEnd s"
  obtain e where e: "find_valid_end ?v ?sz ?ue (m_ui64UnvalidPkgBegin s) = Inr e"
    using assms by (auto simp: activate_unordered_def Let_def elim: bindr_InrE)
  show ?thesis
  proof (cases "e < ?ue")
    case True
    then obtain b where "find_unvalid_begin ?v ?sz ?ue (e + 1) = Inr b"
      using assms e by (auto simp: activate_unordered_def Let_def elim!: bindr_InrE)
    then show ?thesis
      using assms e True by (auto simp: activate_unordered_def Let_def)
  next
    case False
    then show ?thesis
      using assms e by (auto simp: activate_unordered_def Let_def)
  qed
qed

lemma odata_ready_frame:
  assumes "recvep_handle_odata s = Inr (CMNERR_ODATA_READY, s1)"
  shows "m_vecUnvalidPkgs s1 = m_vecUnvalidPkgs s \<and> m_ui32UnvalidPkgsSize s1 = m_ui32UnvalidPkgsSize s"
  using assms
  by (auto simp: recvep_handle_odata_def bindr_Inr_iff Let_def split: if_splits dest: activate_frame)

lemma recv_odata_total:
  assumes inv: "in_order pay A ps s" and b: "carries pay seq b"
    and win: "unat seq \<le> unat (m_ui64LatestRecvedValidSeqNo s) + length (m_vecUnvalidPkgs s)"
    and fits: "unat (m_ui64LatestRecvedValidSeqNo s) + length (m_vecUnvalidPkgs s) + 2 < 2 ^ 64"
    and new: "unat seq \<notin> A" and buf: "length buf = STACK_BUF"
  shows "\<exists>qs answers' s'. recv_odata buf (Os_ok n # answers) b s = Inr (qs, answers', s')"
proof -
  let ?L = "unat (m_ui64LatestRecvedValidSeqNo s)" and ?s = "s\<lparr>m_pMem := Some b\<rparr>"
  have w: "waiting pay {q \<in> A. ?L < q} ?s"
    using inv by (simp add: in_order_def Let_def)
  then have vec: "m_vecUnvalidPkgs s \<noteq> []" "unat (m_ui32UnvalidPkgsSize s) = length (m_vecUnvalidPkgs s)"
    using stores_nonempty by (auto simp: waiting_def)
  have Suc_L: "unat (1 + m_ui64LatestRecvedValidSeqNo s) = Suc ?L"
    using fits by (simp add: unat_add_fits)
  consider "unat seq \<le> ?L" | "unat seq = Suc ?L" | "Suc ?L < unat seq"
    by linarith
  then show ?thesis
  proof cases
    case 1
    then show ?thesis
      using odata_repeated [of ?s b pay seq] b fits by (simp add: recv_odata_def word_le_nat_alt)
  next
    case 2
    then have "seq = 1 + m_ui64LatestRecvedValidSeqNo s"
      using Suc_L by (simp add: word_unat_eq_iff)
    then obtain s1 where s1: "recvep_handle_odata ?s = Inr (CMNERR_ODATA_READY, s1)"
      using odata_next [OF w _ b] fits by auto
    from odata_ready_frame [OF this] vec show ?thesis
      using recv_drain_total [OF buf, of s1 n answers] s1 by (simp add: recv_odata_def)
  next
    case 3
    then show ?thesis
      using odata_ahead [OF w _ b] win new by (fastforce simp: recv_odata_def)
  qed
qed

section \<open>Properties\<close>

text \<open>A run can go on with any package that is not waiting, if the kernel takes the answer.\<close>

lemma recv_run_extend:
  assumes fresh: "fresh_recver s0" and run: "recv_run pay seqs ps s0 s" and b: "carries pay seq b"
    and pos: "0 < seq" and new: "unat seq \<notin> unat ` set seqs" and buf: "length buf = STACK_BUF"
    and win: "unat seq \<le> unat (m_ui64LatestRecvedValidSeqNo s) + length (m_vecUnvalidPkgs s)"
    and fits: "unat (m_ui64LatestRecvedValidSeqNo s) + length (m_vecUnvalidPkgs s) + 2 < 2 ^ 64"
  shows "\<exists>qs answers' s'. recv_odata buf (Os_ok n # answers) b s = Inr (qs, answers', s') \<and>
    recv_run pay (seqs @ [seq]) (ps @ qs) s0 s'"
proof -
  have "in_order pay (unat ` set seqs) ps s"
    using recv_run_in_order [OF run fresh_in_order [OF fresh]] by simp
  from recv_odata_total [OF this b win fits new buf, of n answers] show ?thesis
    using recv_step [OF run b pos le_trans [OF win le_add1] fits] by blast
qed

text \<open>C3: In order, exactly once. Let data packages arrive at a freshly opened receiver in any
  order and with any repetitions the code survives, each among the next \<open>M + 1\<close> after what has
  been taken, \<open>M\<close> being the length of \<open>m_vecUnvalidPkgs\<close>. Then the application has been given the payloads of the sequence numbers
  1, 2, ..., L, each once and in this order, where L is the largest number such that all of
  1, ..., L have arrived; L is \<open>m_ui64LatestRecvedValidSeqNo\<close>.\<close>

theorem rmp_in_order_exactly_once:
  assumes "fresh_recver s0" and "recv_run pay seqs ps s0 s"
  shows "let L = unat (m_ui64LatestRecvedValidSeqNo s) in
    map (map_option mem_data) ps = map (Some \<circ> pay) [1..<Suc L] \<and>
    {1..L} \<subseteq> unat ` set seqs \<and> Suc L \<notin> unat ` set seqs"
  using recv_run_in_order [OF assms(2) fresh_in_order [OF assms(1)]]
  by (simp add: in_order_def Let_def)

definition small_recver :: CRmpSock where
  "small_recver = \<lparr>m_i32Type = 0, m_hSock_rmp = 3, m_epid = 1, m_ui8SenderId = 0, m_pMem = None,
     sent = [], m_ui64ValidPkgBegin = 0, m_ui64ValidPkgEnd = 0,
     m_addrSender = \<lparr>sin_addr = 0, sin_port = 0\<rparr>,
     m_ui64LatestRecvedValidSeqNo = 0, m_ui64LastSendNakTime = 0, m_ui32SendAckCnt = 100,
     m_ui64AppConfirmAck = 0, m_ui64AppConfirmAckTmp = 0, m_ui64UnvalidPkgBegin = 0,
     m_ui64UnvalidPkgEnd = 0, m_ui64LastSendAckTime = 0,
     m_vecUnvalidPkgs = [None, None, None], m_ui32UnvalidPkgsSize = 3,
     m_ui32SenderWinSize = 0, m_vecSendWin = [], m_ui64ValidSendingDataHead = 0,
     m_ui64ValidSendingDataTail = 1, m_ui64SendingSeqNo = 0, m_ui64LastHbTime = 0,
     m_ui64HbInterval = 0, m_ui32SpeedHelper = 0, m_ui64LastSendingSeqNo = 0,
     m_ui64LastSendAndAckWinSize = 0, m_ui64LastSpeedControlSeqNo = 0,
     m_ui64LastSpeedControlTime = 0, m_addrMulticast = \<lparr>sin_addr = 0, sin_port = 0\<rparr>,
     m_ui64MaxKeepAliveTimeUs = 0, m_ui32Naks = 0, m_ui32SendSpeed = 0, m_mapRecvers = Map.empty\<rparr>"

definition odata_block :: "u64 \<Rightarrow> bytes \<Rightarrow> CMemBlock" where
  "odata_block seq p = \<lparr>m_bytes = le_bytes 8 (unat seq) @ p, m_ui32InitOffset = 0,
     m_ui32Sz = word_of_nat (8 + length p), m_ui32Offset = 0, m_ui32Len = word_of_nat (8 + length p)\<rparr>"

definition example_pay :: "nat \<Rightarrow> bytes" where
  "example_pay q = [word_of_nat q, 7]"

lemma odata_block_carries: "carries example_pay seq (odata_block seq (example_pay (unat seq)))"
proof -
  let ?b = "odata_block seq (example_pay (unat seq))"
  have le: "length (le_bytes 8 (unat seq)) = 8"
    by simp
  have "mem_wf ?b" and data: "mem_data ?b = le_bytes 8 (unat seq) @ example_pay (unat seq)"
    by (simp_all add: odata_block_def example_pay_def mem_wf_def mem_data_def)
  moreover have "get_u64 (get_data ?b) 0 (m_bytes ?b) = Inr seq"
    using unat_u64_lt [of seq]
    by (simp add: get_u64_def get_field_def read_at_def odata_block_def get_data_def le_nat_le_bytes)
  ultimately show ?thesis
    by (simp add: carries_def example_pay_def)
qed

lemma small_recver_fresh: "fresh_recver small_recver"
  by (simp add: fresh_recver_def small_recver_def)

theorem rmp_in_order_exactly_once_witness:
  "\<exists>ps s. recv_run example_pay [2, 1] ps small_recver s \<and>
    (let L = unat (m_ui64LatestRecvedValidSeqNo s) in
     map (map_option mem_data) ps = map (Some \<circ> example_pay) [1..<Suc L] \<and>
     {1..L} \<subseteq> unat ` set [2, 1 :: u64] \<and> Suc L \<notin> unat ` set [2, 1 :: u64])"
proof -
  let ?buf = "replicate STACK_BUF (0 :: u8)"
  note extend = recv_run_extend [OF small_recver_fresh _ _ _ _ length_replicate, of example_pay]
  obtain ps1 s1 where run1: "recv_run example_pay [2] ps1 small_recver s1"
    using extend [OF recv_nil odata_block_carries [of 2], of 0 0 "[]"] by (auto simp: small_recver_def)
  have "in_order example_pay {2} ps1 s1" and len: "length (m_vecUnvalidPkgs s1) = 3"
    using recv_run_in_order [OF run1 fresh_in_order [OF small_recver_fresh]] by (auto simp: small_recver_def)
  then have "unat (m_ui64LatestRecvedValidSeqNo s1) = 0"
    by (cases "unat (m_ui64LatestRecvedValidSeqNo s1)") (auto simp: in_order_def Let_def)
  then obtain ps s where run: "recv_run example_pay [2, 1] ps small_recver s"
    using extend [OF run1 odata_block_carries [of 1], of 0 0 "[]"] len by auto
  show ?thesis
    using rmp_in_order_exactly_once [OF small_recver_fresh run] run by blast
qed

text \<open>C15: The receiver is never stuck. After any run, a package within the window whose number
  has not arrived yet is handled without a failed assertion or an access out of bounds, and
  the delivery loop ends, provided the kernel takes the acknowledgement it may send.\<close>

theorem rmp_receiver_progress:
  assumes "fresh_recver s0" and "recv_run pay seqs ps s0 s" and "carries pay seq b" and "0 < seq"
    and "unat seq \<notin> unat ` set seqs" and "length buf = STACK_BUF"
    and "unat seq \<le> unat (m_ui64LatestRecvedValidSeqNo s) + length (m_vecUnvalidPkgs s)"
    and "unat (m_ui64LatestRecvedValidSeqNo s) + length (m_vecUnvalidPkgs s) + 2 < 2 ^ 64"
  shows "\<exists>qs answers' s'. recv_odata buf (Os_ok n # answers) b s = Inr (qs, answers', s')"
  using recv_run_extend [OF assms] by blast

theorem rmp_receiver_progress_witness:
  "\<exists>qs answers' s'. recv_odata (replicate STACK_BUF 0) [Os_ok 0]
     (odata_block 3 (example_pay (unat (3 :: u64)))) small_recver = Inr (qs, answers', s')"
  by (rule rmp_receiver_progress [OF small_recver_fresh recv_nil odata_block_carries])
    (simp_all add: small_recver_def)

text \<open>A second copy of a package that is waiting in the window ends the process: after any
  run, if the number has arrived but has not been taken yet, the assertion that its element
  of \<open>m_vecUnvalidPkgs\<close> is free fails. On a network that repeats datagrams, and with a
  sender that answers every negative acknowledgement by repeating packages, this is an
  ordinary event.\<close>

theorem rmp_waiting_twice_aborts:
  assumes "fresh_recver s0" and "recv_run pay seqs ps s0 s" and "carries pay seq b"
    and "seq \<in> set seqs" and "m_ui64LatestRecvedValidSeqNo s < seq"
  shows "recv_odata buf answers b s = Inl Assert_failed"
proof -
  have inv: "in_order pay (unat ` set seqs) ps s"
    using recv_run_in_order [OF assms(2) fresh_in_order [OF assms(1)]] by simp
  let ?W = "{q \<in> unat ` set seqs. unat (m_ui64LatestRecvedValidSeqNo s) < q}"
  have "waiting pay ?W (s\<lparr>m_pMem := Some b\<rparr>)" and "unat seq \<in> ?W"
    using inv assms(4,5) by (auto simp: in_order_def Let_def word_less_nat_alt)
  then have "recvep_handle_odata (s\<lparr>m_pMem := Some b\<rparr>) = Inl Assert_failed"
    using odata_waiting_again [of pay ?W "s\<lparr>m_pMem := Some b\<rparr>" b seq] assms(3) by simp
  then show ?thesis
    by (simp add: recv_odata_def)
qed

theorem rmp_waiting_twice_aborts_witness:
  "\<exists>ps s. recv_run example_pay [2] ps small_recver s \<and>
     recv_odata [] [] (odata_block 2 (example_pay (unat (2 :: u64)))) s = Inl Assert_failed"
proof -
  obtain ps s where run: "recv_run example_pay [2] ps small_recver s"
    using recv_run_extend [OF small_recver_fresh recv_nil odata_block_carries [of 2] _ _ length_replicate,
        of 0 0 "[]"] by (auto simp: small_recver_def)
  have "in_order example_pay {2} ps s"
    using recv_run_in_order [OF run fresh_in_order [OF small_recver_fresh]] by simp
  then have "unat (m_ui64LatestRecvedValidSeqNo s) = 0"
    by (cases "unat (m_ui64LatestRecvedValidSeqNo s)") (auto simp: in_order_def Let_def)
  then have "m_ui64LatestRecvedValidSeqNo s < 2"
    by (simp add: word_less_nat_alt)
  then show ?thesis
    using rmp_waiting_twice_aborts [OF small_recver_fresh run odata_block_carries, of 2 "[]" "[]"] run
    by auto
qed

text \<open>C28: The window of the receiver is one element too short for its own test. With \<open>M\<close> elements it
  could keep the packages \<open>L + 2 .. L + M + 1\<close>, and it does keep \<open>L + M + 1\<close> when nothing else
  waits; but when something waits the same package ends the process, though its element is
  free. The sender's flow control lets it send exactly that far: with the constants of the
  source the receiver has 100000 elements and the sender may be 100000 packages ahead of
  \<open>L + 1\<close>.\<close>

theorem rmp_window_edge:
  assumes "fresh_recver s0" and "recv_run pay seqs ps s0 s" and "carries pay seq b" and "seq \<notin> set seqs"
    and "unat seq = unat (m_ui64LatestRecvedValidSeqNo s) + length (m_vecUnvalidPkgs s) + 1"
  shows "if \<exists>q \<in> set seqs. m_ui64LatestRecvedValidSeqNo s < q
    then recv_odata buf answers b s = Inl Assert_failed
    else \<exists>s'. recv_odata buf answers b s = Inr ([], answers, s') \<and>
      m_ui64UnvalidPkgBegin s' = seq \<and> m_ui64UnvalidPkgEnd s' = seq"
proof -
  let ?L = "unat (m_ui64LatestRecvedValidSeqNo s)" and ?s = "s\<lparr>m_pMem := Some b\<rparr>"
  let ?W = "{q \<in> unat ` set seqs. ?L < q}"
  have "in_order pay (unat ` set seqs) ps s"
    using recv_run_in_order [OF assms(2) fresh_in_order [OF assms(1)]] by simp
  then have w: "waiting pay ?W ?s"
    by (simp add: in_order_def Let_def)
  have some: "(\<exists>q \<in> set seqs. m_ui64LatestRecvedValidSeqNo s < q) \<longleftrightarrow> ?W \<noteq> {}"
    by (auto simp: word_less_nat_alt)
  have new: "unat seq \<notin> ?W"
    using assms(4) by (auto simp: word_unat_eq_iff [symmetric])
  have "m_vecUnvalidPkgs s \<noteq> []"
    using w stores_nonempty by (auto simp: waiting_def)
  then have ahead: "Suc ?L < unat seq"
    using assms(5) by simp
  show ?thesis
  proof (cases "?W = {}")
    case False
    then have "recvep_handle_odata ?s = Inl Assert_failed"
      using odata_behind_window [OF w _ assms(3) False] assms(5) new by simp
    then show ?thesis
      using some False by (simp add: recv_odata_def)
  next
    case True
    obtain s' where s': "recvep_handle_odata ?s = Inr (CMNERR_SUC, s')" "waiting pay (insert (unat seq) ?W) s'"
      using odata_ahead [OF w _ assms(3) _ _ _ new] ahead assms(5) True by auto
    then have "ends_of {unat seq} (m_ui64UnvalidPkgBegin s') (m_ui64UnvalidPkgEnd s')"
      using True by (simp add: waiting_def)
    then have "m_ui64UnvalidPkgBegin s' = seq" "m_ui64UnvalidPkgEnd s' = seq"
      by (simp_all add: ends_of_def word_unat_eq_iff)
    then show ?thesis
      using some True s'(1) by (simp add: recv_odata_def)
  qed
qed

theorem rmp_window_edge_witness:
  "\<exists>ps s. recv_run example_pay [2] ps small_recver s \<and>
     recv_odata [] [] (odata_block 4 (example_pay (unat (4 :: u64)))) s = Inl Assert_failed"
proof -
  obtain ps s where run: "recv_run example_pay [2] ps small_recver s"
    using recv_run_extend [OF small_recver_fresh recv_nil odata_block_carries [of 2] _ _ length_replicate,
        of 0 0 "[]"] by (auto simp: small_recver_def)
  have inv: "in_order example_pay {2} ps s" and len: "length (m_vecUnvalidPkgs s) = 3"
    using recv_run_in_order [OF run fresh_in_order [OF small_recver_fresh]] by (simp_all add: small_recver_def)
  have "unat (m_ui64LatestRecvedValidSeqNo s) = 0"
    using inv by (cases "unat (m_ui64LatestRecvedValidSeqNo s)") (auto simp: in_order_def Let_def)
  then show ?thesis
    using rmp_window_edge [OF small_recver_fresh run odata_block_carries, of 4 "[]" "[]"] run len
    by (auto simp: word_less_nat_alt)
qed

end
