(* ===== verification/RmpSender.thy ===== *)
theory RmpSender
  imports RmpSock
begin

text \<open>
  The sending end of \<open>CRmpSock\<close>: \<open>send\<close> puts a package into the send window, the sender's
  part of \<open>handle_can_send\<close> multicasts the window in order and sends heartbeats,
  \<open>sendep_handle_nak\<close> repeats what a receiver lost, and \<open>sendep_handle_ack\<close> moves the head of
  the window to the slowest live receiver. The theory shows that a package stays in its
  element of the window until every live receiver has acknowledged it.
\<close>

section \<open>Operations\<close>

text \<open>The element of the send window that a sequence number falls on.\<close>

definition win_slot :: "u64 \<Rightarrow> CRmpSock \<Rightarrow> nat" where
  "win_slot seq s = unat seq mod unat (m_ui32SenderWinSize s)"

text \<open>
  \<open>send\<close> writes the headers into the room in front of the data; the block must have been
  made with exactly that room. The caller gets the block back when there is no space.
\<close>

definition rmp_send :: "CMemBlock \<Rightarrow> CRmpSock \<Rightarrow> (int \<times> CMemBlock option \<times> CRmpSock) res" where
  "rmp_send pMem s =
     bindr (cmn_assert (unat (get_offset pMem) = sizeof_SRmpHdr + sizeof_SRmpOdata)) (\<lambda>_.
     let (code1, b1) = inc_head_data (word_of_nat sizeof_SRmpOdata) pMem; odata = get_data b1;
         (code2, b2) = inc_head_data (word_of_nat sizeof_SRmpHdr) b1; hdr = get_data b2 in
     bindr (cmn_assert (code1 = CMNERR_SUC)) (\<lambda>_.
     bindr (cmn_assert (code2 = CMNERR_SUC)) (\<lambda>_.
     bindr (set_hdr_opcode hdr (opcode_val EP_DATA) (m_bytes b2)) (\<lambda>bs.
     bindr (set_hdr_len hdr (unat (get_len b2)) bs) (\<lambda>bs.
     bindr (set_hdr_src_id hdr (unat (m_ui8SenderId s)) bs) (\<lambda>bs.
     if win_slot (m_ui64ValidSendingDataTail s + 1) s = win_slot (m_ui64ValidSendingDataHead s) s
     then Inr (CMNERR_NO_SPACE, Some (b2\<lparr>m_bytes := bs\<rparr>), s)
     else bindr (set_u64 odata 0 (m_ui64ValidSendingDataTail s) bs) (\<lambda>bs.
          bindr (vec_set (m_vecSendWin s) (win_slot (m_ui64ValidSendingDataTail s) s)
                   (Some (b2\<lparr>m_bytes := bs\<rparr>))) (\<lambda>v.
          Inr (CMNERR_SUC, None,
               s\<lparr>m_vecSendWin := v, m_ui64ValidSendingDataTail := m_ui64ValidSendingDataTail s + 1\<rparr>)))))))))"

text \<open>
  The sender's loop in \<open>handle_can_send\<close>. It stops when a tenth of the window is unacknowledged
  or everything has been sent, and then sends a heartbeat if the interval has passed;
  \<open>m_ui64LastHbTime\<close> is set once and never moved.
\<close>

definition send_heartbeat :: "u64 \<Rightarrow> bytes \<Rightarrow> answers \<Rightarrow> CRmpSock \<Rightarrow> (answers \<times> CRmpSock) res" where
  "send_heartbeat now buf answers s =
     (let s = (if m_ui64LastHbTime s = 0 then s\<lparr>m_ui64LastHbTime := now\<rparr> else s) in
      if now - m_ui64LastHbTime s > m_ui64HbInterval s
      then bindr (hb_pkg (m_ui8SenderId s) (m_ui64SendingSeqNo s) (m_ui64ValidSendingDataHead s) buf) (\<lambda>d.
           bindr (udp_send_bytes d (m_addrMulticast s) answers s) (\<lambda>(code, answers, s).
           bindr (cmn_assert (code = CMNERR_SUC)) (\<lambda>_. Inr (answers, s))))
      else Inr (answers, s))"

definition nothing_to_send :: "CRmpSock \<Rightarrow> bool" where
  "nothing_to_send s \<longleftrightarrow>
     m_ui64SendingSeqNo s + 1 - m_ui64ValidSendingDataHead s > ucast (m_ui32SenderWinSize s div 10) \<or>
     m_ui64SendingSeqNo s + 1 = m_ui64ValidSendingDataTail s"

lemma sendto_loop_shorter:
  "sendto_loop d dest answers s = Inr (code, answers', s') \<Longrightarrow> length answers' < length answers"
  by (induction answers) (auto split: os_ret.splits if_splits)

lemma udp_send_mem_shorter:
  "udp_send_mem p dest answers s = Inr (code, answers', s') \<Longrightarrow> length answers' < length answers"
  by (auto simp: udp_send_mem_def bindr_Inr_iff dest: sendto_loop_shorter)

function sendep_handle_can_send ::
  "u64 \<Rightarrow> bytes \<Rightarrow> answers \<Rightarrow> CRmpSock \<Rightarrow> (int \<times> answers \<times> CRmpSock) res" where
  "sendep_handle_can_send now buf answers s =
     (if nothing_to_send s
      then bindr (send_heartbeat now buf answers s) (\<lambda>(answers, s). Inr (CMNERR_SUC, answers, s))
      else bindr (cmn_assert (m_ui64SendingSeqNo s < m_ui64ValidSendingDataTail s)) (\<lambda>_.
           bindr (vec_get (m_vecSendWin s) (win_slot (m_ui64SendingSeqNo s + 1) s)) (\<lambda>p.
           bindr (udp_send_mem p (m_addrMulticast s) answers s) (\<lambda>(code, answers, s).
           if code = CMNERR_IO_ERR \<or> code = CMNERR_SEND_PENDING then Inr (code, answers, s)
           else sendep_handle_can_send now buf answers
                  (s\<lparr>m_ui64SendingSeqNo := m_ui64SendingSeqNo s + 1\<rparr>)))))"
  by pat_completeness auto
termination
  by (relation "measure (\<lambda>(now, buf, answers, s). length answers)") (auto dest: udp_send_mem_shorter)

declare sendep_handle_can_send.simps [simp del]

text \<open>The repetition of lost packages; a full kernel buffer is tried again at once.\<close>

function resend_range ::
  "u64 \<Rightarrow> u64 \<Rightarrow> int \<Rightarrow> answers \<Rightarrow> CRmpSock \<Rightarrow> (int \<times> answers \<times> CRmpSock) res" where
  "resend_range i last_lost code answers s =
     (if i \<le> last_lost
      then bindr (vec_get (m_vecSendWin s) (win_slot i s)) (\<lambda>p.
           bindr (udp_send_mem p (m_addrMulticast s) answers s) (\<lambda>(code, answers, s).
           if code = CMNERR_SEND_PENDING then resend_range i last_lost code answers s
           else if code \<noteq> CMNERR_SUC then Inr (code, answers, s)
           else resend_range (i + 1) last_lost code answers s))
      else Inr (code, answers, s))"
  by pat_completeness auto
termination
  by (relation "measure (\<lambda>(i, e, code, answers, s). length answers)") (auto dest: udp_send_mem_shorter)

declare resend_range.simps [simp del]

definition MAX_NAK_CNT :: u32 where "MAX_NAK_CNT = 1000"
definition CUT_SPEED :: u32 where "CUT_SPEED = 10000"
definition INC_SPEED :: u32 where "INC_SPEED = 1000"
definition INC_SPEED_INTERVAL :: u64 where "INC_SPEED_INTERVAL = 10000"

text \<open>\<open>m_mapRecvers[id].member = ...\<close>: the entry is made if it is not there, then changed.\<close>

definition update_recver ::
  "recver_ops \<Rightarrow> u64 \<Rightarrow> (SRecverInfo \<Rightarrow> SRecverInfo) \<Rightarrow> recver_map \<Rightarrow> recver_map res" where
  "update_recver ops k f m =
     bindr (touch_entry ops k m) (\<lambda>m. bindr (deref (m k)) (\<lambda>r. Inr (m(k \<mapsto> f r))))"

definition sendep_handle_nak ::
  "recver_ops \<Rightarrow> u64 \<Rightarrow> answers \<Rightarrow> CRmpSock \<Rightarrow> (int \<times> answers \<times> CRmpSock) res" where
  "sendep_handle_nak ops now answers s =
     bindr (deref (m_pMem s)) (\<lambda>b.
     let p = get_data b; b' = dec_head_data (word_of_nat sizeof_SRmpNak) b in
     bindr (get_u64 p 0 (m_bytes b)) (\<lambda>fst_lost.
     bindr (get_u64 p 1 (m_bytes b)) (\<lambda>lst_lost.
     bindr (get_u64 p 2 (m_bytes b)) (\<lambda>epid.
     bindr (update_recver ops epid (\<lambda>r. r\<lparr>ui64LastUpdateTimeUs := now\<rparr>) (m_mapRecvers s)) (\<lambda>m.
     bindr (update_recver ops epid (\<lambda>r. r\<lparr>ui32Naks := ui32Naks r + 1\<rparr>) m) (\<lambda>m.
     let s = s\<lparr>m_mapRecvers := m, m_ui32Naks := m_ui32Naks s + 1\<rparr>;
         s = (if m_ui32Naks s > MAX_NAK_CNT
              then s\<lparr>m_ui32Naks := 0, m_ui32SendSpeed := m_ui32SendSpeed s - CUT_SPEED\<rparr> else s) in
     if fst_lost < m_ui64ValidSendingDataHead s \<or> lst_lost \<ge> m_ui64ValidSendingDataTail s
     then Inl Assert_failed
     else resend_range fst_lost lst_lost CMNERR_SUC answers
            (s\<lparr>m_pMem := Some (reset_mem False b')\<rparr>)))))))"

text \<open>The scan for the slowest receiver drops the entries that have been silent for too long.\<close>

fun ack_scan ::
  "recver_ops \<Rightarrow> u64 \<Rightarrow> u64 \<Rightarrow> u64 list \<Rightarrow> u64 \<Rightarrow> recver_map \<Rightarrow> (u64 \<times> recver_map) res" where
  "ack_scan ops now keep [] mini m = Inr (mini, m)"
| "ack_scan ops now keep (k # ks) mini m =
     bindr (deref (m k)) (\<lambda>r.
     if now - ui64LastUpdateTimeUs r > keep
     then bindr (erase_entry ops k m) (\<lambda>m. ack_scan ops now keep ks mini m)
     else ack_scan ops now keep ks
            (if mini > ui64LastRecvedSeqNo r then ui64LastRecvedSeqNo r else mini) m)"

text \<open>\<open>m_mapRecvers.begin ()->second\<close> needs an element.\<close>

definition slowest_recver ::
  "recver_ops \<Rightarrow> u64 \<Rightarrow> u64 \<Rightarrow> recver_map \<Rightarrow> (u64 \<times> recver_map) res" where
  "slowest_recver ops now keep m =
     (case iter_order ops m of
        [] \<Rightarrow> Inl Null_deref
      | k # ks \<Rightarrow> bindr (deref (m k)) (\<lambda>r. ack_scan ops now keep (k # ks) (ui64LastRecvedSeqNo r) m))"

definition control_speed :: "CRmpSock \<Rightarrow> CRmpSock" where
  "control_speed s =
     (if m_ui64SendingSeqNo s - m_ui64ValidSendingDataHead s < m_ui64LastSendAndAckWinSize s
      then let s = s\<lparr>m_ui32SpeedHelper := m_ui32SpeedHelper s + 1\<rparr>;
               s = (if m_ui32SpeedHelper s > 1000 \<and>
                       m_ui64SendingSeqNo s - m_ui64LastSendingSeqNo s > INC_SPEED_INTERVAL
                    then s\<lparr>m_ui64LastSendAndAckWinSize :=
                             m_ui64SendingSeqNo s - m_ui64ValidSendingDataHead s,
                           m_ui32SendSpeed := m_ui32SendSpeed s + INC_SPEED\<rparr>
                    else s)
           in s\<lparr>m_ui64LastSendingSeqNo := m_ui64SendingSeqNo s\<rparr>
      else s\<lparr>m_ui32SpeedHelper := 0\<rparr>)"

definition sendep_handle_ack :: "recver_ops \<Rightarrow> u64 \<Rightarrow> CRmpSock \<Rightarrow> (int \<times> CRmpSock) res" where
  "sendep_handle_ack ops now s =
     bindr (deref (m_pMem s)) (\<lambda>b.
     let p = get_data b; b' = dec_head_data (word_of_nat sizeof_SRmpAck) b in
     bindr (get_u64 p 0 (m_bytes b)) (\<lambda>seq.
     bindr (get_u64 p 1 (m_bytes b)) (\<lambda>epid.
     bindr (update_recver ops epid (\<lambda>r. r\<lparr>ui64LastUpdateTimeUs := now\<rparr>) (m_mapRecvers s)) (\<lambda>m.
     let s = s\<lparr>m_mapRecvers := m\<rparr> in
     if seq < m_ui64ValidSendingDataHead s then Inl Assert_failed
     else
       bindr (update_recver ops epid (\<lambda>r. r\<lparr>ui64LastRecvedSeqNo :=
                (if ui64LastRecvedSeqNo r > seq then ui64LastRecvedSeqNo r else seq)\<rparr>) m) (\<lambda>m.
       bindr (slowest_recver ops now (m_ui64MaxKeepAliveTimeUs s) m) (\<lambda>(mini, m).
       let s = s\<lparr>m_mapRecvers := m, m_pMem := Some (reset_mem False b')\<rparr> in
       if mini < m_ui64ValidSendingDataHead s then Inr (CMNERR_SUC, s)
       else Inr (CMNERR_SUC, control_speed (s\<lparr>m_ui64ValidSendingDataHead := mini + 1\<rparr>))))))))"

definition sendep_handle_pkg ::
  "recver_ops \<Rightarrow> u64 \<Rightarrow> answers \<Rightarrow> CRmpSock \<Rightarrow> (int \<times> answers \<times> CRmpSock) res" where
  "sendep_handle_pkg ops now answers s =
     bindr (deref (m_pMem s)) (\<lambda>b.
     let p = get_data b in
     bindr (hdr_opcode p (m_bytes b)) (\<lambda>opc.
     if opc \<noteq> opcode_val EP_ACK \<and> opc \<noteq> opcode_val EP_NAK then Inl Assert_failed
     else
       let s = s\<lparr>m_pMem := Some (dec_head_data (word_of_nat sizeof_SRmpHdr) b)\<rparr> in
       if opc = opcode_val EP_NAK then sendep_handle_nak ops now answers s
       else bindr (sendep_handle_ack ops now s) (\<lambda>(code, s). Inr (code, answers, s))))"

section \<open>The send window\<close>

text \<open>
  The datagram of a data package: header, sequence number, payload. \<open>src\<close> is the sender's id.
\<close>

definition odata_fields :: "u8 \<Rightarrow> u64 \<Rightarrow> bytes \<Rightarrow> bytes \<Rightarrow> bool" where
  "odata_fields src seq payload d \<longleftrightarrow>
     16 \<le> length d \<and> hdr_opcode 0 d = Inr (opcode_val EP_DATA) \<and> hdr_src_id 0 d = Inr (unat src) \<and>
     hdr_len 0 d = Inr (length d mod 2 ^ 24) \<and> get_u64 8 0 d = Inr seq \<and> drop 16 d = payload"

definition is_odata :: "u8 \<Rightarrow> (nat \<Rightarrow> bytes) \<Rightarrow> nat \<Rightarrow> CMemBlock option \<Rightarrow> bool" where
  "is_odata src pay q p \<longleftrightarrow>
     (\<exists>b. p = Some b \<and> mem_wf b \<and> q < 2 ^ 64 \<and> odata_fields src (word_of_nat q) (pay q) (mem_data b))"

definition window_from :: "CRmpSock \<Rightarrow> nat" where
  "window_from s = max 1 (unat (m_ui64ValidSendingDataHead s))"

text \<open>
  The window holds every package from the head to the tail, \<open>pay\<close> gives their payloads, and
  what has been multicast lies before the tail.
\<close>

definition sender_inv :: "(nat \<Rightarrow> bytes) \<Rightarrow> CRmpSock \<Rightarrow> bool" where
  "sender_inv pay s \<longleftrightarrow>
     unat (m_ui32SenderWinSize s) = length (m_vecSendWin s) \<and> 2 \<le> length (m_vecSendWin s) \<and>
     1 \<le> unat (m_ui64ValidSendingDataTail s) \<and>
     unat (m_ui64ValidSendingDataHead s) \<le> unat (m_ui64ValidSendingDataTail s) \<and>
     unat (m_ui64ValidSendingDataTail s) < unat (m_ui64ValidSendingDataHead s) + length (m_vecSendWin s) \<and>
     unat (m_ui64ValidSendingDataHead s) \<le> unat (m_ui64SendingSeqNo s) + 1 \<and>
     unat (m_ui64SendingSeqNo s) < unat (m_ui64ValidSendingDataTail s) \<and>
     (\<forall>q. window_from s \<le> q \<and> q < unat (m_ui64ValidSendingDataTail s) \<longrightarrow>
        is_odata (m_ui8SenderId s) pay q (m_vecSendWin s ! (q mod length (m_vecSendWin s))))"

lemma sender_inv_win:
  assumes "sender_inv pay s"
  shows "win_slot seq s = unat seq mod length (m_vecSendWin s)"
    and "win_slot seq s < length (m_vecSendWin s)"
proof -
  have "unat (m_ui32SenderWinSize s) = length (m_vecSendWin s)" and "0 < length (m_vecSendWin s)"
    using assms by (auto simp: sender_inv_def)
  then show "win_slot seq s = unat seq mod length (m_vecSendWin s)"
    and "win_slot seq s < length (m_vecSendWin s)"
    by (simp_all add: win_slot_def)
qed

text \<open>The test for a full window says that the next number falls on the head's element.\<close>

lemma window_full_iff:
  assumes "sender_inv pay s" and "unat (m_ui64ValidSendingDataTail s) + 1 < 2 ^ 64"
  shows "win_slot (m_ui64ValidSendingDataTail s + 1) s = win_slot (m_ui64ValidSendingDataHead s) s \<longleftrightarrow>
    unat (m_ui64ValidSendingDataTail s) + 1 = unat (m_ui64ValidSendingDataHead s) + length (m_vecSendWin s)"
proof -
  let ?h = "unat (m_ui64ValidSendingDataHead s)" and ?t = "unat (m_ui64ValidSendingDataTail s)"
    and ?n = "length (m_vecSendWin s)"
  have t1: "unat (m_ui64ValidSendingDataTail s + 1) = ?t + 1"
    using assms(2) by (simp add: unat_add_fits)
  have "(?t + 1) mod ?n = ?h mod ?n \<longleftrightarrow> ?t + 1 = ?h + ?n"
  proof
    assume eq: "(?t + 1) mod ?n = ?h mod ?n"
    have "?t + 1 = ?h + ?n"
    proof (rule mod_window_inj [of _ ?h ?n])
      show "?t + 1 \<in> {?h <.. ?h + ?n}" "?h + ?n \<in> {?h <.. ?h + ?n}"
        using assms(1) by (auto simp: sender_inv_def)
      show "(?t + 1) mod ?n = (?h + ?n) mod ?n"
        using eq by simp
    qed
    then show "?t + 1 = ?h + ?n" .
  next
    assume "?t + 1 = ?h + ?n"
    then show "(?t + 1) mod ?n = ?h mod ?n"
      by simp
  qed
  then show ?thesis
    using t1 sender_inv_win(1) [OF assms(1)] by simp
qed

section \<open>Making a package\<close>

lemma two_headers:
  assumes wf: "mem_wf b" and off: "unat (m_ui32Offset b) = 16"
  shows "\<exists>b1 b2. inc_head_data 8 b = (CMNERR_SUC, b1) \<and> inc_head_data 8 b1 = (CMNERR_SUC, b2) \<and>
    mem_wf b2 \<and> m_bytes b2 = m_bytes b \<and> get_data b1 = 8 \<and> get_data b2 = 0 \<and>
    unat (get_len b2) = length (mem_data b) + 16 \<and> m_ui32Offset b2 = 0 \<and>
    drop 16 (mem_data b2) = mem_data b"
proof -
  have off': "m_ui32Offset b = 16"
    using off by (simp add: word_unat_eq_iff)
  obtain b1 where b1: "inc_head_data 8 b = (CMNERR_SUC, b1)" "mem_wf b1"
      "length (mem_data b1) = 8 + length (mem_data b)" "drop 8 (mem_data b1) = mem_data b"
    using inc_head_data_wf [OF wf, of 8] off' by auto
  then have off1: "m_ui32Offset b1 = 8" "m_bytes b1 = m_bytes b"
    using off' by (auto simp: inc_head_data_def)
  obtain b2 where b2: "inc_head_data 8 b1 = (CMNERR_SUC, b2)" "mem_wf b2"
      "length (mem_data b2) = 8 + length (mem_data b1)" "drop 8 (mem_data b2) = mem_data b1"
    using inc_head_data_wf [OF b1(2), of 8] off1 by auto
  then have off2: "m_ui32Offset b2 = 0" "m_bytes b2 = m_bytes b"
    using off1 by (auto simp: inc_head_data_def)
  have "drop 16 (mem_data b2) = drop 8 (drop 8 (mem_data b2))"
    by simp
  then show ?thesis
    using b1 b2 off1 off2 by (simp add: get_data_def get_len_def length_mem_data)
qed

text \<open>The headers in the block, and what a receiver will read in the datagram.\<close>

lemma odata_headers:
  assumes wf: "mem_wf b" and off: "m_ui32Offset b = 0" and n: "16 \<le> unat (get_len b)"
    and b1: "set_hdr_opcode 0 (opcode_val EP_DATA) (m_bytes b) = Inr bs1"
    and b2: "set_hdr_len 0 (unat (get_len b)) bs1 = Inr bs2"
    and b3: "set_hdr_src_id 0 (unat src) bs2 = Inr bs3"
    and b4: "set_u64 8 0 seq bs3 = Inr bs4"
  shows "mem_wf (b\<lparr>m_bytes := bs4\<rparr>)"
    and "odata_fields src seq (drop 16 (mem_data b)) (mem_data (b\<lparr>m_bytes := bs4\<rparr>))"
proof -
  let ?n = "unat (get_len b)"
  have len: "length bs4 = length (m_bytes b)"
    using b1 b2 b3 b4 set_field_length
    by (auto simp: set_hdr_opcode_def set_hdr_len_def set_hdr_src_id_def set_u64_def)
  then show wf4: "mem_wf (b\<lparr>m_bytes := bs4\<rparr>)"
    using wf by (simp add: mem_wf_def)
  have "?n \<le> length bs4"
    using wf len by (simp add: mem_wf_def get_len_def)
  then have d: "read_at 0 ?n bs4 = Inr (mem_data (b\<lparr>m_bytes := bs4\<rparr>))"
    using off by (simp add: read_at_def mem_data_def get_len_def)
  have ld: "length (mem_data (b\<lparr>m_bytes := bs4\<rparr>)) = ?n"
    using length_mem_data [OF wf4] by (simp add: get_len_def)
  have opc: "get_field 3 1 bs4 = Inr 0"
    using get_set_field [of 3 1 "opcode_val EP_DATA" "m_bytes b" bs1] b1 b2 b3 b4
      get_other_field(1) [of 0 3 ?n bs1 bs2 3 1] get_other_field(1) [of 4 1 "unat src" bs2 bs3 3 1]
      get_other_field(1) [of 8 8 "unat seq" bs3 bs4 3 1]
    by (simp add: set_hdr_opcode_def set_hdr_len_def set_hdr_src_id_def set_u64_def)
  have hl: "get_field 0 3 bs4 = Inr (?n mod 2 ^ 24)"
    using get_set_field [of 0 3 ?n bs1 bs2] b2 b3 b4
      get_other_field(1) [of 4 1 "unat src" bs2 bs3 0 3] get_other_field(1) [of 8 8 "unat seq" bs3 bs4 0 3]
    by (simp add: set_hdr_len_def set_hdr_src_id_def set_u64_def)
  have sid: "get_field 4 1 bs4 = Inr (unat src)"
    using get_set_field [of 4 1 "unat src" bs2 bs3] b3 b4 unat_u8_lt [of src]
      get_other_field(1) [of 8 8 "unat seq" bs3 bs4 4 1]
    by (simp add: set_hdr_src_id_def set_u64_def)
  have drop16: "drop 16 bs4 = drop 16 (m_bytes b)"
    using b1 b2 b3 b4 set_field_drop [of 3 1 _ "m_bytes b" bs1 16] set_field_drop [of 0 3 _ bs1 bs2 16]
      set_field_drop [of 4 1 _ bs2 bs3 16] set_field_drop [of 8 8 _ bs3 bs4 16]
    by (simp add: set_hdr_opcode_def set_hdr_len_def set_hdr_src_id_def set_u64_def)
  have "drop 16 (mem_data (b\<lparr>m_bytes := bs4\<rparr>)) = drop 16 (mem_data b)"
    using drop16 off by (simp add: mem_data_def drop_take)
  then show "odata_fields src seq (drop 16 (mem_data b)) (mem_data (b\<lparr>m_bytes := bs4\<rparr>))"
    using n ld opc hl sid get_set_u64 [OF b4] get_field_prefix [OF d] get_u64_prefix [OF d, of 8 0]
    by (simp add: odata_fields_def hdr_opcode_def hdr_src_id_def hdr_len_def)
qed

text \<open>All the writes of \<open>send\<close> stay inside the block.\<close>

lemma odata_headers_total:
  assumes "mem_wf b" and "m_ui32Offset b = 0" and "16 \<le> unat (get_len b)"
  shows "\<exists>bs1 bs2 bs3 bs4. set_hdr_opcode 0 (opcode_val EP_DATA) (m_bytes b) = Inr bs1 \<and>
    set_hdr_len 0 (unat (get_len b)) bs1 = Inr bs2 \<and> set_hdr_src_id 0 (unat src) bs2 = Inr bs3 \<and>
    set_u64 8 0 seq bs3 = Inr bs4"
proof -
  have n: "16 \<le> length (m_bytes b)"
    using assms by (simp add: mem_wf_def get_len_def)
  obtain bs1 where b1: "set_hdr_opcode 0 (opcode_val EP_DATA) (m_bytes b) = Inr bs1" "16 \<le> length bs1"
    using set_field_fits [of 3 1 "m_bytes b"] set_field_length [of 3 1 _ "m_bytes b"] n
    by (fastforce simp: set_hdr_opcode_def)
  obtain bs2 where b2: "set_hdr_len 0 (unat (get_len b)) bs1 = Inr bs2" "16 \<le> length bs2"
    using set_field_fits [of 0 3 bs1] set_field_length [of 0 3 _ bs1] b1
    by (fastforce simp: set_hdr_len_def)
  obtain bs3 where b3: "set_hdr_src_id 0 (unat src) bs2 = Inr bs3" "16 \<le> length bs3"
    using set_field_fits [of 4 1 bs2] set_field_length [of 4 1 _ bs2] b2
    by (fastforce simp: set_hdr_src_id_def)
  obtain bs4 where "set_u64 8 0 seq bs3 = Inr bs4"
    using set_field_fits [of 8 8 bs3] b3 by (fastforce simp: set_u64_def)
  then show ?thesis
    using b1 b2 b3 by blast
qed

lemma sender_inv_pkg:
  "sender_inv pay s \<Longrightarrow> window_from s \<le> q \<Longrightarrow> q < unat (m_ui64ValidSendingDataTail s) \<Longrightarrow>
   is_odata (m_ui8SenderId s) pay q (m_vecSendWin s ! (q mod length (m_vecSendWin s)))"
  unfolding sender_inv_def by blast

text \<open>\<open>send\<close> with the assertions and the writes out of the way.\<close>

definition send_tail :: "CMemBlock \<Rightarrow> CMemBlock \<Rightarrow> CRmpSock \<Rightarrow> (int \<times> CMemBlock option \<times> CRmpSock) res" where
  "send_tail b3 b4 s =
     (if win_slot (m_ui64ValidSendingDataTail s + 1) s = win_slot (m_ui64ValidSendingDataHead s) s
      then Inr (CMNERR_NO_SPACE, Some b3, s)
      else bindr (vec_set (m_vecSendWin s) (win_slot (m_ui64ValidSendingDataTail s) s) (Some b4)) (\<lambda>v.
           Inr (CMNERR_SUC, None,
             s\<lparr>m_vecSendWin := v, m_ui64ValidSendingDataTail := m_ui64ValidSendingDataTail s + 1\<rparr>)))"

lemma rmp_send_shape:
  assumes wf: "mem_wf b" and off: "unat (get_offset b) = 16"
  shows "\<exists>b3 b4. m_ui32Offset b3 = 0 \<and> mem_wf b4 \<and>
    odata_fields (m_ui8SenderId s) (m_ui64ValidSendingDataTail s) (mem_data b) (mem_data b4) \<and>
    rmp_send b s = send_tail b3 b4 s"
proof -
  have off': "unat (m_ui32Offset b) = 16"
    using off by (simp add: get_offset_def)
  obtain b1 b2 where b: "inc_head_data 8 b = (CMNERR_SUC, b1)" "inc_head_data 8 b1 = (CMNERR_SUC, b2)"
      "mem_wf b2" "get_data b1 = 8" "get_data b2 = 0" "unat (get_len b2) = length (mem_data b) + 16"
      "m_ui32Offset b2 = 0" "drop 16 (mem_data b2) = mem_data b"
    using two_headers [OF wf off'] by blast
  have n: "16 \<le> unat (get_len b2)"
    using b(6) by simp
  obtain bs1 bs2 bs3 bs4 where bs: "set_hdr_opcode 0 (opcode_val EP_DATA) (m_bytes b2) = Inr bs1"
      "set_hdr_len 0 (unat (get_len b2)) bs1 = Inr bs2"
      "set_hdr_src_id 0 (unat (m_ui8SenderId s)) bs2 = Inr bs3"
      "set_u64 8 0 (m_ui64ValidSendingDataTail s) bs3 = Inr bs4"
    using odata_headers_total [OF b(3,7) n] by blast
  note hdrs = odata_headers [OF b(3,7) n bs]
  have "rmp_send b s = send_tail (b2\<lparr>m_bytes := bs3\<rparr>) (b2\<lparr>m_bytes := bs4\<rparr>) s"
    using off b bs by (simp add: rmp_send_def send_tail_def)
  then show ?thesis
    using hdrs b(7,8) by (intro exI [of _ "b2\<lparr>m_bytes := bs3\<rparr>"] exI [of _ "b2\<lparr>m_bytes := bs4\<rparr>"]) simp
qed

lemma sender_inv_push:
  assumes inv: "sender_inv pay s" and room: "unat (m_ui64ValidSendingDataTail s) + 1 <
      unat (m_ui64ValidSendingDataHead s) + length (m_vecSendWin s)"
    and big: "unat (m_ui64ValidSendingDataTail s) + 1 < 2 ^ 64" and b4: "mem_wf b4"
      "odata_fields (m_ui8SenderId s) (m_ui64ValidSendingDataTail s) payload (mem_data b4)"
  shows "sender_inv (pay(unat (m_ui64ValidSendingDataTail s) := payload))
    (s\<lparr>m_vecSendWin := (m_vecSendWin s)[win_slot (m_ui64ValidSendingDataTail s) s := Some b4],
       m_ui64ValidSendingDataTail := m_ui64ValidSendingDataTail s + 1\<rparr>)"
proof -
  let ?h = "unat (m_ui64ValidSendingDataHead s)" and ?t = "unat (m_ui64ValidSendingDataTail s)"
    and ?v = "m_vecSendWin s"
  have t1: "unat (m_ui64ValidSendingDataTail s + 1) = ?t + 1"
    using big by (simp add: unat_add_fits)
  have slot: "win_slot (m_ui64ValidSendingDataTail s) s = ?t mod length ?v"
    using sender_inv_win(1) [OF inv] .
  have "is_odata (m_ui8SenderId s) (pay(?t := payload)) q
      (?v[?t mod length ?v := Some b4] ! (q mod length ?v))"
    if "window_from s \<le> q" "q < ?t + 1" for q
  proof (cases "q = ?t")
    case True
    moreover have "?t mod length ?v < length ?v"
      using sender_inv_win(2) [OF inv, of "m_ui64ValidSendingDataTail s"] slot by simp
    ultimately show ?thesis
      using b4 unat_u64_lt [of "m_ui64ValidSendingDataTail s"] by (simp add: is_odata_def)
  next
    case False
    have "q mod length ?v \<noteq> ?t mod length ?v"
    proof
      assume "q mod length ?v = ?t mod length ?v"
      then have "q = ?t"
        using that room False by (intro mod_window_inj [of q "q - 1" "length ?v" ?t])
          (auto simp: window_from_def)
      then show False
        using False by simp
    qed
    moreover have "is_odata (m_ui8SenderId s) pay q (?v ! (q mod length ?v))"
      using sender_inv_pkg [OF inv] that False by simp
    ultimately show ?thesis
      using False by (simp add: is_odata_def)
  qed
  then show ?thesis
    using inv room t1 slot by (auto simp: sender_inv_def window_from_def)
qed

lemma rmp_send_spec:
  assumes inv: "sender_inv pay s" and wf: "mem_wf b" and off: "unat (get_offset b) = 16"
    and big: "unat (m_ui64ValidSendingDataTail s) + 1 < 2 ^ 64"
  shows "if unat (m_ui64ValidSendingDataTail s) + 1 =
        unat (m_ui64ValidSendingDataHead s) + length (m_vecSendWin s)
    then \<exists>b'. rmp_send b s = Inr (CMNERR_NO_SPACE, Some b', s) \<and> get_offset b' = 0
    else \<exists>s'. rmp_send b s = Inr (CMNERR_SUC, None, s') \<and>
      sender_inv (pay(unat (m_ui64ValidSendingDataTail s) := mem_data b)) s' \<and>
      m_ui64ValidSendingDataTail s' = m_ui64ValidSendingDataTail s + 1 \<and>
      m_ui64ValidSendingDataHead s' = m_ui64ValidSendingDataHead s \<and>
      m_ui64SendingSeqNo s' = m_ui64SendingSeqNo s \<and> sent s' = sent s"
proof -
  obtain b3 b4 where b3: "m_ui32Offset b3 = 0" and b4: "mem_wf b4"
    "odata_fields (m_ui8SenderId s) (m_ui64ValidSendingDataTail s) (mem_data b) (mem_data b4)"
    and shape: "rmp_send b s = send_tail b3 b4 s"
    using rmp_send_shape [OF wf off, of s] by blast
  show ?thesis
  proof (cases "unat (m_ui64ValidSendingDataTail s) + 1 =
        unat (m_ui64ValidSendingDataHead s) + length (m_vecSendWin s)")
    case True
    then show ?thesis
      using shape b3 window_full_iff [OF inv big] by (simp add: get_offset_def send_tail_def)
  next
    case False
    have room: "unat (m_ui64ValidSendingDataTail s) + 1 <
        unat (m_ui64ValidSendingDataHead s) + length (m_vecSendWin s)"
      using False inv by (simp add: sender_inv_def)
    have set: "vec_set (m_vecSendWin s) (win_slot (m_ui64ValidSendingDataTail s) s) (Some b4) =
        Inr ((m_vecSendWin s)[win_slot (m_ui64ValidSendingDataTail s) s := Some b4])"
      using sender_inv_win(2) [OF inv] by (simp add: vec_set_def)
    show ?thesis
      using False shape window_full_iff [OF inv big] set sender_inv_push [OF inv room big b4]
      by (simp add: send_tail_def)
  qed
qed

section \<open>Multicasting the window\<close>

text \<open>The log entries \<open>ds\<close> are the data packages \<open>qs\<close>, sent to \<open>dest\<close>.\<close>

definition carry :: "u8 \<Rightarrow> (nat \<Rightarrow> bytes) \<Rightarrow> sn_sock_addr \<Rightarrow> nat list \<Rightarrow> (bytes \<times> sn_sock_addr) list \<Rightarrow> bool" where
  "carry src pay dest qs ds \<longleftrightarrow>
     list_all2 (\<lambda>q d. snd d = dest \<and> odata_fields src (word_of_nat q) (pay q) (fst d)) qs ds"

lemma carry_simps [simp]:
  "carry src pay dest [] ds \<longleftrightarrow> ds = []"
  "carry src pay dest (q # qs) (d # ds) \<longleftrightarrow>
     snd d = dest \<and> odata_fields src (word_of_nat q) (pay q) (fst d) \<and> carry src pay dest qs ds"
  by (auto simp: carry_def)

lemma sendto_loop_cases:
  "sendto_loop d dest answers s = Inr (code, answers', s') \<Longrightarrow>
   (code = CMNERR_SUC \<and> s' = s\<lparr>sent := sent s @ [(d, dest)]\<rparr>) \<or>
   ((code = CMNERR_SEND_PENDING \<or> code = CMNERR_IO_ERR) \<and> s' = s)"
  by (induction answers) (auto split: os_ret.splits if_splits)

lemma udp_send_pkg:
  assumes "udp_send_mem p dest answers s = Inr (code, answers', s')" and "is_odata src pay q p"
  shows "(code = CMNERR_SUC \<and> (\<exists>d. odata_fields src (word_of_nat q) (pay q) d \<and>
      s' = s\<lparr>sent := sent s @ [(d, dest)]\<rparr>)) \<or>
    ((code = CMNERR_SEND_PENDING \<or> code = CMNERR_IO_ERR) \<and> s' = s)"
proof -
  obtain b where b: "p = Some b" "mem_wf b" "odata_fields src (word_of_nat q) (pay q) (mem_data b)"
    using assms(2) by (auto simp: is_odata_def)
  have "read_at (get_data b) (unat (get_len b)) (m_bytes b) = Inr (mem_data b)"
    using b(2) by (simp add: read_at_def get_data_def get_len_def mem_data_def mem_wf_def)
  then have "sendto_loop (mem_data b) dest answers s = Inr (code, answers', s')"
    using assms(1) b(1) by (simp add: udp_send_mem_def)
  from sendto_loop_cases [OF this] show ?thesis
    using b(3) by blast
qed

lemma send_heartbeat_frame:
  assumes "send_heartbeat now buf answers s = Inr (answers', s')"
  shows "\<exists>t hb. s' = s\<lparr>m_ui64LastHbTime := t, sent := sent s @ hb\<rparr> \<and> length hb \<le> 1 \<and>
    (\<forall>x \<in> set hb. hb_pkg (m_ui8SenderId s) (m_ui64SendingSeqNo s) (m_ui64ValidSendingDataHead s) buf = Inr (fst x))"
proof -
  define s1 where "s1 = (if m_ui64LastHbTime s = 0 then s\<lparr>m_ui64LastHbTime := now\<rparr> else s)"
  have s1: "s1 = s\<lparr>m_ui64LastHbTime := m_ui64LastHbTime s1\<rparr>"
    by (simp add: s1_def)
  show ?thesis
  proof (cases "now - m_ui64LastHbTime s1 > m_ui64HbInterval s1")
    case False
    then have "s' = s1"
      using assms by (simp add: send_heartbeat_def s1_def Let_def split: if_splits)
    then have "s' = s\<lparr>m_ui64LastHbTime := m_ui64LastHbTime s1, sent := sent s @ []\<rparr>"
      by (auto simp: s1_def)
    then show ?thesis
      by (intro exI [of _ "m_ui64LastHbTime s1"] exI [of _ "[]"]) simp
  next
    case True
    then obtain d code answers1 s2 where
      hb: "hb_pkg (m_ui8SenderId s1) (m_ui64SendingSeqNo s1) (m_ui64ValidSendingDataHead s1) buf = Inr d" and
      d: "udp_send_bytes d (m_addrMulticast s1) answers s1 = Inr (code, answers1, s2)"
      and "code = CMNERR_SUC" "s' = s2"
      using assms unfolding send_heartbeat_def s1_def [symmetric] Let_def
      by (auto elim!: bindr_InrE)
    then have "s' = s1\<lparr>sent := sent s1 @ [(d, m_addrMulticast s1)]\<rparr>"
      using sendto_loop_cases [of d "m_addrMulticast s1" answers s1 code answers1 s2]
      by (auto simp: udp_send_bytes_def)
    moreover have "sent s1 = sent s"
      by (simp add: s1_def)
    ultimately have "s' = s\<lparr>m_ui64LastHbTime := m_ui64LastHbTime s1, sent := sent s @ [(d, m_addrMulticast s1)]\<rparr>"
      by (subst (asm) s1) simp
    moreover have "hb_pkg (m_ui8SenderId s) (m_ui64SendingSeqNo s) (m_ui64ValidSendingDataHead s) buf = Inr d"
      using hb by (simp add: s1_def split: if_splits)
    ultimately show ?thesis
      by (intro exI [of _ "m_ui64LastHbTime s1"] exI [of _ "[(d, m_addrMulticast s1)]"]) simp
  qed
qed

lemma sender_inv_sent [simp]:
  "sender_inv pay (s\<lparr>sent := x\<rparr>) = sender_inv pay s"
  "sender_inv pay (s\<lparr>m_ui64LastHbTime := t\<rparr>) = sender_inv pay s"
  "sender_inv pay (s\<lparr>m_pMem := p\<rparr>) = sender_inv pay s"
  "sender_inv pay (s\<lparr>m_mapRecvers := m\<rparr>) = sender_inv pay s"
  "sender_inv pay (s\<lparr>m_ui32Naks := c\<rparr>) = sender_inv pay s"
  "sender_inv pay (s\<lparr>m_ui32SendSpeed := sp\<rparr>) = sender_inv pay s"
  by (simp_all add: sender_inv_def window_from_def)

lemma next_to_send:
  assumes inv: "sender_inv pay s" and more: "\<not> nothing_to_send s"
  shows "unat (m_ui64SendingSeqNo s + 1) = unat (m_ui64SendingSeqNo s) + 1"
    and "unat (m_ui64SendingSeqNo s) + 1 < unat (m_ui64ValidSendingDataTail s)"
    and "is_odata (m_ui8SenderId s) pay (unat (m_ui64SendingSeqNo s) + 1)
      (m_vecSendWin s ! win_slot (m_ui64SendingSeqNo s + 1) s)"
    and "sender_inv pay (s\<lparr>m_ui64SendingSeqNo := m_ui64SendingSeqNo s + 1\<rparr>)"
    and "unat (m_ui64SendingSeqNo s) + 1 \<le> unat (m_ui64ValidSendingDataHead s) + unat (m_ui32SenderWinSize s) div 10"
proof -
  have lt: "unat (m_ui64SendingSeqNo s) < unat (m_ui64ValidSendingDataTail s)"
    using inv by (simp add: sender_inv_def)
  then show nxt: "unat (m_ui64SendingSeqNo s + 1) = unat (m_ui64SendingSeqNo s) + 1"
    using unat_u64_lt [of "m_ui64ValidSendingDataTail s"] by (simp add: unat_add_fits)
  have "m_ui64SendingSeqNo s + 1 \<noteq> m_ui64ValidSendingDataTail s"
    using more by (simp add: nothing_to_send_def)
  then show lt': "unat (m_ui64SendingSeqNo s) + 1 < unat (m_ui64ValidSendingDataTail s)"
    using lt nxt by (metis Suc_eq_plus1 Suc_lessI word_unat_eq_iff)
  have "window_from s \<le> unat (m_ui64SendingSeqNo s) + 1"
    using inv by (simp add: sender_inv_def window_from_def)
  then show "is_odata (m_ui8SenderId s) pay (unat (m_ui64SendingSeqNo s) + 1)
      (m_vecSendWin s ! win_slot (m_ui64SendingSeqNo s + 1) s)"
    using sender_inv_pkg [OF inv _ lt'] sender_inv_win(1) [OF inv] nxt by simp
  show "sender_inv pay (s\<lparr>m_ui64SendingSeqNo := m_ui64SendingSeqNo s + 1\<rparr>)"
    using inv nxt lt' by (simp add: sender_inv_def window_from_def)
  have "m_ui64ValidSendingDataHead s \<le> m_ui64SendingSeqNo s + 1"
    using inv nxt by (simp add: sender_inv_def word_le_nat_alt)
  then have "unat (m_ui64SendingSeqNo s + 1 - m_ui64ValidSendingDataHead s) =
      unat (m_ui64SendingSeqNo s) + 1 - unat (m_ui64ValidSendingDataHead s)"
    using nxt by (simp add: unat_sub_fits)
  moreover have "unat (ucast (m_ui32SenderWinSize s div 10) :: u64) = unat (m_ui32SenderWinSize s) div 10"
    by (simp add: unat_u32_u64 unat_div_distrib)
  moreover have "\<not> m_ui64SendingSeqNo s + 1 - m_ui64ValidSendingDataHead s > ucast (m_ui32SenderWinSize s div 10)"
    using more by (simp add: nothing_to_send_def)
  ultimately show "unat (m_ui64SendingSeqNo s) + 1 \<le>
      unat (m_ui64ValidSendingDataHead s) + unat (m_ui32SenderWinSize s) div 10"
    by (simp add: word_less_nat_alt)
qed

lemma sendep_can_send_spec:
  assumes "sendep_handle_can_send now buf answers s = Inr (code, answers', s')" and "sender_inv pay s"
  shows "\<exists>n ds hb t. s' = s\<lparr>m_ui64SendingSeqNo := word_of_nat (unat (m_ui64SendingSeqNo s) + n),
      m_ui64LastHbTime := t, sent := sent s @ ds @ hb\<rparr> \<and>
    carry (m_ui8SenderId s) pay (m_addrMulticast s)
      [unat (m_ui64SendingSeqNo s) + 1..<unat (m_ui64SendingSeqNo s) + 1 + n] ds \<and>
    unat (m_ui64SendingSeqNo s) + n < unat (m_ui64ValidSendingDataTail s) \<and>
    length hb \<le> 1 \<and> sender_inv pay s' \<and>
    (n = 0 \<or> unat (m_ui64SendingSeqNo s) + n \<le>
      unat (m_ui64ValidSendingDataHead s) + unat (m_ui32SenderWinSize s) div 10) \<and>
    (\<forall>x \<in> set hb. hb_pkg (m_ui8SenderId s) (word_of_nat (unat (m_ui64SendingSeqNo s) + n))
      (m_ui64ValidSendingDataHead s) buf = Inr (fst x))"
  using assms
proof (induction now buf answers s rule: sendep_handle_can_send.induct)
  case (1 now buf answers s)
  show ?case
  proof (cases "nothing_to_send s")
    case True
    then obtain answers1 where "send_heartbeat now buf answers s = Inr (answers1, s')"
      using 1(2) by (auto simp: sendep_handle_can_send.simps [of now buf answers s] bindr_Inr_iff)
    from send_heartbeat_frame [OF this] obtain t hb where
      "s' = s\<lparr>m_ui64LastHbTime := t, sent := sent s @ hb\<rparr>" "length hb \<le> 1"
      "\<forall>x \<in> set hb. hb_pkg (m_ui8SenderId s) (m_ui64SendingSeqNo s) (m_ui64ValidSendingDataHead s) buf = Inr (fst x)"
      by blast
    then show ?thesis
      using 1(3) by - (rule exI [of _ 0], rule exI [of _ "[]"], rule exI [of _ hb], rule exI [of _ t],
          simp add: sender_inv_def window_from_def)
  next
    case False
    note nxt = next_to_send [OF 1(3) False]
    let ?p = "m_vecSendWin s ! win_slot (m_ui64SendingSeqNo s + 1) s"
    have get: "vec_get (m_vecSendWin s) (win_slot (m_ui64SendingSeqNo s + 1) s) = Inr ?p"
      using sender_inv_win(2) [OF 1(3)] by (simp add: vec_get_def)
    have lt: "m_ui64SendingSeqNo s < m_ui64ValidSendingDataTail s"
      using 1(3) by (simp add: sender_inv_def word_less_nat_alt)
    obtain c answers1 s1 where
      snd1: "udp_send_mem ?p (m_addrMulticast s) answers s = Inr (c, answers1, s1)"
      and rest: "(if c = CMNERR_IO_ERR \<or> c = CMNERR_SEND_PENDING then Inr (c, answers1, s1)
         else sendep_handle_can_send now buf answers1
            (s1\<lparr>m_ui64SendingSeqNo := m_ui64SendingSeqNo s1 + 1\<rparr>)) = Inr (code, answers', s')"
      using 1(2) False get lt
      by (auto simp: sendep_handle_can_send.simps [of now buf answers s] bindr_Inr_iff)
    from udp_send_pkg [OF snd1 nxt(3)] show ?thesis
    proof
      assume "(c = CMNERR_SEND_PENDING \<or> c = CMNERR_IO_ERR) \<and> s1 = s"
      then have "s' = s"
        using rest by auto
      then show ?thesis
        using 1(3) by - (rule exI [of _ 0], rule exI [of _ "[]"], rule exI [of _ "[]"],
            rule exI [of _ "m_ui64LastHbTime s"], simp add: sender_inv_def)
    next
      assume "c = CMNERR_SUC \<and> (\<exists>d. odata_fields (m_ui8SenderId s)
          (word_of_nat (unat (m_ui64SendingSeqNo s) + 1)) (pay (unat (m_ui64SendingSeqNo s) + 1)) d \<and>
          s1 = s\<lparr>sent := sent s @ [(d, m_addrMulticast s)]\<rparr>)"
      then obtain d where c: "c = CMNERR_SUC"
        and d: "odata_fields (m_ui8SenderId s) (word_of_nat (unat (m_ui64SendingSeqNo s) + 1))
          (pay (unat (m_ui64SendingSeqNo s) + 1)) d"
        and s1: "s1 = s\<lparr>sent := sent s @ [(d, m_addrMulticast s)]\<rparr>"
        by blast
      define s2 where "s2 = s1\<lparr>m_ui64SendingSeqNo := m_ui64SendingSeqNo s1 + 1\<rparr>"
      have run: "sendep_handle_can_send now buf answers1 s2 = Inr (code, answers', s')"
        using rest c by (simp add: s2_def)
      have inv2: "sender_inv pay s2"
        using nxt(4) by (simp add: s2_def s1 sender_inv_def window_from_def)
      have started: "cmn_assert (m_ui64SendingSeqNo s < m_ui64ValidSendingDataTail s) = Inr ()"
        and go: "\<not> (c = CMNERR_IO_ERR \<or> c = CMNERR_SEND_PENDING)"
        using lt c by simp_all
      note ih = 1(1) [OF False started get snd1 refl refl go, folded s2_def]
      obtain n ds hb t where
        IH: "s' = s2\<lparr>m_ui64SendingSeqNo := word_of_nat (unat (m_ui64SendingSeqNo s2) + n),
          m_ui64LastHbTime := t, sent := sent s2 @ ds @ hb\<rparr>"
        "carry (m_ui8SenderId s2) pay (m_addrMulticast s2)
          [unat (m_ui64SendingSeqNo s2) + 1..<unat (m_ui64SendingSeqNo s2) + 1 + n] ds"
        "unat (m_ui64SendingSeqNo s2) + n < unat (m_ui64ValidSendingDataTail s2)"
        "length hb \<le> 1" "sender_inv pay s'"
        "n = 0 \<or> unat (m_ui64SendingSeqNo s2) + n \<le>
          unat (m_ui64ValidSendingDataHead s2) + unat (m_ui32SenderWinSize s2) div 10"
        "\<forall>x \<in> set hb. hb_pkg (m_ui8SenderId s2) (word_of_nat (unat (m_ui64SendingSeqNo s2) + n))
          (m_ui64ValidSendingDataHead s2) buf = Inr (fst x)"
        using ih [OF run inv2] by (elim exE conjE) (rule that; assumption)
      have num: "unat (m_ui64SendingSeqNo s2) = unat (m_ui64SendingSeqNo s) + 1"
        using nxt(1) by (simp add: s2_def s1)
      have "carry (m_ui8SenderId s) pay (m_addrMulticast s)
          [unat (m_ui64SendingSeqNo s) + 1..<unat (m_ui64SendingSeqNo s) + 1 + Suc n]
          ((d, m_addrMulticast s) # ds)"
        using IH(2) d num by (simp add: s2_def s1 upt_conv_Cons del: upt_Suc)
      moreover have "s' = s\<lparr>m_ui64SendingSeqNo := word_of_nat (unat (m_ui64SendingSeqNo s) + Suc n),
          m_ui64LastHbTime := t, sent := sent s @ ((d, m_addrMulticast s) # ds) @ hb\<rparr>"
        using IH(1) num by (simp add: s2_def s1)
      moreover have "unat (m_ui64SendingSeqNo s) + Suc n < unat (m_ui64ValidSendingDataTail s)"
        using IH(3) num by (simp add: s2_def s1)
      moreover have "unat (m_ui64SendingSeqNo s) + Suc n \<le>
          unat (m_ui64ValidSendingDataHead s) + unat (m_ui32SenderWinSize s) div 10"
        using IH(6) nxt(5) num by (auto simp: s2_def s1)
      moreover have "\<forall>x \<in> set hb. hb_pkg (m_ui8SenderId s) (word_of_nat (unat (m_ui64SendingSeqNo s) + Suc n))
          (m_ui64ValidSendingDataHead s) buf = Inr (fst x)"
        using IH(7) unfolding num by (simp add: s2_def s1)
      ultimately show ?thesis
        using IH(4,5) by (intro exI [of _ "Suc n"] exI [of _ "(d, m_addrMulticast s) # ds"] exI [of _ hb]
            exI [of _ t] conjI disjI2)
    qed
  qed
qed

section \<open>Repeating what was lost\<close>

lemma resend_range_spec:
  assumes "resend_range i e code0 answers s = Inr (code, answers', s')" and "sender_inv pay s"
    and "window_from s \<le> unat i" and "unat e < unat (m_ui64ValidSendingDataTail s)"
  shows "\<exists>ds. s' = s\<lparr>sent := sent s @ ds\<rparr> \<and>
    carry (m_ui8SenderId s) pay (m_addrMulticast s) [unat i..<unat i + length ds] ds \<and>
    (code = CMNERR_SUC \<and> i \<le> e \<longrightarrow> unat i + length ds = unat e + 1) \<and>
    (ds = [] \<or> unat i + length ds \<le> unat e + 1)"
  using assms
proof (induction i e code0 answers s rule: resend_range.induct)
  case (1 i e code0 answers s)
  show ?case
  proof (cases "i \<le> e")
    case False
    then have "s' = s"
      using 1(3) by (simp add: resend_range.simps [of i e code0 answers s])
    then show ?thesis
      using False by (intro exI [of _ "[]"]) simp
  next
    case True
    let ?p = "m_vecSendWin s ! win_slot i s"
    have get: "vec_get (m_vecSendWin s) (win_slot i s) = Inr ?p"
      using sender_inv_win(2) [OF 1(4)] by (simp add: vec_get_def)
    have pkg: "is_odata (m_ui8SenderId s) pay (unat i) ?p"
      using sender_inv_pkg [OF 1(4,5)] sender_inv_win(1) [OF 1(4)] True 1(6) by (simp add: word_le_nat_alt)
    obtain c answers1 s1 where
      snd1: "udp_send_mem ?p (m_addrMulticast s) answers s = Inr (c, answers1, s1)"
      and rest: "(if c = CMNERR_SEND_PENDING then resend_range i e c answers1 s1
         else if c \<noteq> CMNERR_SUC then Inr (c, answers1, s1)
         else resend_range (i + 1) e c answers1 s1) = Inr (code, answers', s')"
      using 1(3) True get by (auto simp: resend_range.simps [of i e code0 answers s] bindr_Inr_iff)
    note IH = 1(1) [OF True get snd1 refl refl] and IH' = 1(2) [OF True get snd1 refl refl]
    from udp_send_pkg [OF snd1 pkg] show ?thesis
    proof
      assume fail: "(c = CMNERR_SEND_PENDING \<or> c = CMNERR_IO_ERR) \<and> s1 = s"
      show ?thesis
      proof (cases "c = CMNERR_SEND_PENDING")
        case True
        then show ?thesis
          using IH rest fail 1(4-6) by simp
      next
        case False
        then have "s' = s" "code = CMNERR_IO_ERR"
          using rest fail by auto
        then show ?thesis
          by (intro exI [of _ "[]"]) simp
      qed
    next
      assume "c = CMNERR_SUC \<and> (\<exists>d. odata_fields (m_ui8SenderId s) (word_of_nat (unat i)) (pay (unat i)) d \<and>
          s1 = s\<lparr>sent := sent s @ [(d, m_addrMulticast s)]\<rparr>)"
      then obtain d where c: "c = CMNERR_SUC"
        and d: "odata_fields (m_ui8SenderId s) i (pay (unat i)) d"
        and s1: "s1 = s\<lparr>sent := sent s @ [(d, m_addrMulticast s)]\<rparr>"
        by auto
      have i1: "unat (i + 1) = unat i + 1"
        using True 1(6) unat_u64_lt [of "m_ui64ValidSendingDataTail s"]
        by (simp add: unat_add_fits word_le_nat_alt)
      have prems: "sender_inv pay s1" "window_from s1 \<le> unat (i + 1)"
        "unat e < unat (m_ui64ValidSendingDataTail s1)"
        using 1(4-6) i1 by (simp_all add: s1 window_from_def)
      have run: "resend_range (i + 1) e c answers1 s1 = Inr (code, answers', s')"
        using rest c by simp
      obtain ds where ds: "s' = s1\<lparr>sent := sent s1 @ ds\<rparr>"
        "carry (m_ui8SenderId s1) pay (m_addrMulticast s1) [unat (i + 1)..<unat (i + 1) + length ds] ds"
        "code = CMNERR_SUC \<and> i + 1 \<le> e \<longrightarrow> unat (i + 1) + length ds = unat e + 1"
        "ds = [] \<or> unat (i + 1) + length ds \<le> unat e + 1"
        using IH' c run prems by auto
      have "carry (m_ui8SenderId s) pay (m_addrMulticast s)
          [unat i..<unat i + length ((d, m_addrMulticast s) # ds)] ((d, m_addrMulticast s) # ds)"
        using ds(2) d i1 by (simp add: s1 upt_conv_Cons del: upt_Suc)
      moreover have "s' = s\<lparr>sent := sent s @ ((d, m_addrMulticast s) # ds)\<rparr>"
        using ds(1) by (simp add: s1)
      moreover have "unat i + length ((d, m_addrMulticast s) # ds) = unat e + 1" if "code = CMNERR_SUC"
      proof (cases "i + 1 \<le> e")
        case True
        then show ?thesis
          using ds(3) that i1 by simp
      next
        case False
        then have "unat e = unat i"
          using \<open>i \<le> e\<close> i1 by (simp add: word_le_nat_alt)
        moreover have "s' = s1"
          using run False by (simp add: resend_range.simps [of "i + 1" e c])
        then have "sent s1 = sent s1 @ ds"
          using arg_cong [OF ds(1), of sent] by simp
        then have "ds = []"
          by simp
        ultimately show ?thesis
          by simp
      qed
      moreover have "unat i + length ((d, m_addrMulticast s) # ds) \<le> unat e + 1"
        using ds(4) True i1 by (auto simp: word_le_nat_alt)
      ultimately show ?thesis
        by blast
    qed
  qed
qed

section \<open>The slowest receiver\<close>

text \<open>
  What any container of receivers does: \<open>operator[]\<close> makes a missing entry, \<open>erase\<close> removes
  the one it is given, unless they refuse, and the iteration visits each entry once.
\<close>

definition good_container :: "recver_ops \<Rightarrow> bool" where
  "good_container ops \<longleftrightarrow>
     (\<forall>k m m'. touch_entry ops k m = Inr m' \<longrightarrow> m' = (if m k = None then m(k \<mapsto> new_recver) else m)) \<and>
     (\<forall>k m m'. erase_entry ops k m = Inr m' \<longrightarrow> m' = m(k := None)) \<and>
     (\<forall>m. distinct (iter_order ops m) \<and> set (iter_order ops m) = dom m)"

lemma update_recver_spec:
  assumes "good_container ops" and "update_recver ops k f m = Inr m'"
  shows "m' = m(k \<mapsto> f (case m k of None \<Rightarrow> new_recver | Some r \<Rightarrow> r))"
proof -
  obtain m1 r where m1: "touch_entry ops k m = Inr m1" "m1 k = Some r" "m' = m1(k \<mapsto> f r)"
    using assms(2) by (auto simp: update_recver_def deref_def elim!: bindr_InrE split: option.splits)
  have "m1 = (if m k = None then m(k \<mapsto> new_recver) else m)"
    using assms(1) m1(1) by (simp add: good_container_def)
  then show ?thesis
    using m1(2,3) by (cases "m k") auto
qed

lemma ack_scan_spec:
  assumes good: "good_container ops" and scan: "ack_scan ops now keep ks mini m = Inr (mini', m')"
    and ks: "distinct ks" "set ks \<subseteq> dom m"
  shows "mini' \<le> mini \<and> (\<forall>k r. m' k = Some r \<longrightarrow> m k = Some r) \<and> (\<forall>k. k \<notin> set ks \<longrightarrow> m' k = m k) \<and>
    (\<forall>k \<in> set ks. \<forall>r. m' k = Some r \<longrightarrow> mini' \<le> ui64LastRecvedSeqNo r)"
  using scan ks
proof (induction ks arbitrary: mini m)
  case Nil
  then show ?case by simp
next
  case (Cons k ks)
  obtain r where r: "m k = Some r"
    using Cons.prems(3) by auto
  show ?case
  proof (cases "now - ui64LastUpdateTimeUs r > keep")
    case True
    then obtain m1 where m1: "erase_entry ops k m = Inr m1"
      and rest: "ack_scan ops now keep ks mini m1 = Inr (mini', m')"
      using Cons.prems(1) r by (auto simp: bindr_Inr_iff)
    have m1': "m1 = m(k := None)"
      using good m1 by (simp add: good_container_def)
    have "distinct ks" and "set ks \<subseteq> dom m1" and k: "k \<notin> set ks"
      using Cons.prems(2,3) by (auto simp: m1')
    note IH = Cons.IH [OF rest this(1,2)]
    have le: "mini' \<le> mini" and frame: "\<And>k1. k1 \<notin> set ks \<Longrightarrow> m' k1 = m1 k1"
      and from_m1: "\<And>k1 r1. m' k1 = Some r1 \<Longrightarrow> m1 k1 = Some r1"
      and least: "\<And>k1 r1. k1 \<in> set ks \<Longrightarrow> m' k1 = Some r1 \<Longrightarrow> mini' \<le> ui64LastRecvedSeqNo r1"
      using IH by blast+
    have old: "m k1 = Some r1" if "m' k1 = Some r1" for k1 r1
      using from_m1 [OF that] by (simp add: m1' split: if_splits)
    have gone: "m' k = None"
      using frame [OF k] by (simp add: m1')
    have keep: "m' k1 = m k1" if "k1 \<notin> set (k # ks)" for k1
      using frame [of k1] that by (simp add: m1')
    have "mini' \<le> ui64LastRecvedSeqNo r1" if "k1 \<in> set (k # ks)" "m' k1 = Some r1" for k1 r1
      using least [of k1 r1] gone that by (cases "k1 = k") simp_all
    then show ?thesis
      using le old keep by blast
  next
    case False
    define mini1 where "mini1 = (if mini > ui64LastRecvedSeqNo r then ui64LastRecvedSeqNo r else mini)"
    have "ack_scan ops now keep ks mini1 m = Inr (mini', m')"
      using Cons.prems(1) r False by (simp add: mini1_def)
    note IH = Cons.IH [OF this]
    have ks: "distinct ks" "set ks \<subseteq> dom m"
      using Cons.prems(2,3) by simp_all
    have le: "mini' \<le> mini1" and frame: "\<And>k1. k1 \<notin> set ks \<Longrightarrow> m' k1 = m k1"
      and old: "\<And>k1 r1. m' k1 = Some r1 \<Longrightarrow> m k1 = Some r1"
      and least: "\<And>k1 r1. k1 \<in> set ks \<Longrightarrow> m' k1 = Some r1 \<Longrightarrow> mini' \<le> ui64LastRecvedSeqNo r1"
      using IH [OF ks] by blast+
    have le1: "mini1 \<le> mini" "mini1 \<le> ui64LastRecvedSeqNo r"
      by (auto simp: mini1_def)
    have "mini' \<le> ui64LastRecvedSeqNo r1" if "k1 \<in> set (k # ks)" "m' k1 = Some r1" for k1 r1
    proof (cases "k1 \<in> set ks")
      case True
      then show ?thesis
        using least that(2) by blast
    next
      case False
      then have "r1 = r"
        using that r old [OF that(2)] by simp
      then show ?thesis
        using order_trans [OF le le1(2)] by simp
    qed
    then show ?thesis
      using order_trans [OF le le1(1)] old frame by (metis list.set_intros(2))
  qed
qed

lemma slowest_recver_spec:
  assumes good: "good_container ops" and slow: "slowest_recver ops now keep m = Inr (mini, m')"
  shows "(\<exists>k r. m k = Some r \<and> mini \<le> ui64LastRecvedSeqNo r) \<and>
    (\<forall>k r. m' k = Some r \<longrightarrow> m k = Some r \<and> mini \<le> ui64LastRecvedSeqNo r)"
proof -
  have order: "distinct (iter_order ops m)" "set (iter_order ops m) = dom m"
    using good by (simp_all add: good_container_def)
  obtain k ks where ks: "iter_order ops m = k # ks"
    using slow by (auto simp: slowest_recver_def split: list.splits)
  then have "k \<in> dom m"
    using order(2) by (metis list.set_intros(1))
  then obtain r where r: "m k = Some r"
    by blast
  have scan: "ack_scan ops now keep (iter_order ops m) (ui64LastRecvedSeqNo r) m = Inr (mini, m')"
    using slow ks r by (simp add: slowest_recver_def)
  note spec = ack_scan_spec [OF good scan order(1) equalityD1 [OF order(2)], unfolded order(2)]
  have "m k1 = Some r1 \<and> mini \<le> ui64LastRecvedSeqNo r1" if "m' k1 = Some r1" for k1 r1
    using spec that by blast
  then show ?thesis
    using spec r by blast
qed

section \<open>The sender as a state machine\<close>

text \<open>No live receiver has acknowledged more than was multicast.\<close>

definition acks_inv :: "CRmpSock \<Rightarrow> bool" where
  "acks_inv s \<longleftrightarrow>
     (\<forall>k r. m_mapRecvers s k = Some r \<longrightarrow> ui64LastRecvedSeqNo r \<le> m_ui64SendingSeqNo s)"

text \<open>The same for any bound.\<close>

definition acks_below :: "nat \<Rightarrow> CRmpSock \<Rightarrow> bool" where
  "acks_below n s \<longleftrightarrow> (\<forall>k r. m_mapRecvers s k = Some r \<longrightarrow> unat (ui64LastRecvedSeqNo r) \<le> n)"

lemma acks_inv_below: "acks_inv s \<longleftrightarrow> acks_below (unat (m_ui64SendingSeqNo s)) s"
  by (simp add: acks_inv_def acks_below_def word_le_nat_alt)

text \<open>An acknowledgement and a negative one as they lie in \<open>m_pMem\<close>, header stripped.\<close>

definition ack_in :: "u64 \<Rightarrow> u64 \<Rightarrow> CMemBlock \<Rightarrow> bool" where
  "ack_in seq epid b \<longleftrightarrow> get_u64 (get_data b) 0 (m_bytes b) = Inr seq \<and>
     get_u64 (get_data b) 1 (m_bytes b) = Inr epid"

definition nak_in :: "u64 \<Rightarrow> u64 \<Rightarrow> u64 \<Rightarrow> CMemBlock \<Rightarrow> bool" where
  "nak_in b e epid blk \<longleftrightarrow> get_u64 (get_data blk) 0 (m_bytes blk) = Inr b \<and>
     get_u64 (get_data blk) 1 (m_bytes blk) = Inr e \<and> get_u64 (get_data blk) 2 (m_bytes blk) = Inr epid"

lemma control_speed_frame:
  "sender_inv pay (control_speed s) = sender_inv pay s"
  "m_ui64ValidSendingDataHead (control_speed s) = m_ui64ValidSendingDataHead s"
  "m_mapRecvers (control_speed s) = m_mapRecvers s"
  "m_ui64SendingSeqNo (control_speed s) = m_ui64SendingSeqNo s"
  "sent (control_speed s) = sent s"
  "m_pMem (control_speed s) = m_pMem s"
  by (auto simp: control_speed_def Let_def sender_inv_def window_from_def)

lemma sender_inv_head:
  assumes inv: "sender_inv pay s" and h: "m_ui64ValidSendingDataHead s \<le> h"
    and le: "unat h \<le> unat (m_ui64SendingSeqNo s) + 1"
  shows "sender_inv pay (s\<lparr>m_ui64ValidSendingDataHead := h\<rparr>)"
proof -
  have "unat h \<le> unat (m_ui64ValidSendingDataTail s)"
    using inv le by (simp add: sender_inv_def)
  then show ?thesis
    using inv le h by (simp add: sender_inv_def window_from_def word_le_nat_alt)
qed

lemma handle_ack_spec:
  assumes good: "good_container ops" and inv: "sender_inv pay s" and acks: "acks_below n s"
    and n: "n \<le> unat (m_ui64SendingSeqNo s)"
    and b: "m_pMem s = Some b" "ack_in seq epid b" and seq: "unat seq \<le> n"
    and run: "sendep_handle_ack ops now s = Inr (code, s')"
  shows "code = CMNERR_SUC \<and> sender_inv pay s' \<and> acks_below n s' \<and> sent s' = sent s \<and>
    m_ui64SendingSeqNo s' = m_ui64SendingSeqNo s \<and>
    unat (m_ui64ValidSendingDataHead s') \<le> max (unat (m_ui64ValidSendingDataHead s)) (n + 1) \<and>
    m_ui64ValidSendingDataHead s \<le> m_ui64ValidSendingDataHead s' \<and>
    (m_ui64ValidSendingDataHead s' \<noteq> m_ui64ValidSendingDataHead s \<longrightarrow>
      (\<forall>k r. m_mapRecvers s' k = Some r \<longrightarrow> m_ui64ValidSendingDataHead s' \<le> ui64LastRecvedSeqNo r + 1))"
proof -
  let ?now = "\<lambda>r. r\<lparr>ui64LastUpdateTimeUs := now\<rparr>"
    and ?upd = "\<lambda>r. r\<lparr>ui64LastRecvedSeqNo := (if ui64LastRecvedSeqNo r > seq then ui64LastRecvedSeqNo r else seq)\<rparr>"
  obtain m1 where m1: "update_recver ops epid ?now (m_mapRecvers s) = Inr m1"
    using run b by (auto simp: sendep_handle_ack_def ack_in_def Let_def elim!: bindr_InrE)
  then have "\<not> seq < m_ui64ValidSendingDataHead s"
    using run b by (auto simp: sendep_handle_ack_def ack_in_def Let_def)
  with m1 obtain m2 where m2: "update_recver ops epid ?upd m1 = Inr m2"
    using run b by (auto simp: sendep_handle_ack_def ack_in_def Let_def elim!: bindr_InrE)
  obtain mini m3 where m3: "slowest_recver ops now (m_ui64MaxKeepAliveTimeUs s) m2 = Inr (mini, m3)"
    using run b m1 m2 \<open>\<not> seq < m_ui64ValidSendingDataHead s\<close>
    by (auto simp: sendep_handle_ack_def ack_in_def Let_def elim!: bindr_InrE)
  define s3 where "s3 = s\<lparr>m_mapRecvers := m3,
    m_pMem := Some (reset_mem False (dec_head_data (word_of_nat sizeof_SRmpAck) b))\<rparr>"
  have res: "(code, s') = (if mini < m_ui64ValidSendingDataHead s then (CMNERR_SUC, s3)
      else (CMNERR_SUC, control_speed (s3\<lparr>m_ui64ValidSendingDataHead := mini + 1\<rparr>)))"
    using run b m1 m2 m3 \<open>\<not> seq < m_ui64ValidSendingDataHead s\<close>
    by (auto simp: sendep_handle_ack_def ack_in_def Let_def s3_def)
  have m1': "m1 = (m_mapRecvers s)(epid \<mapsto> ?now (case m_mapRecvers s epid of None \<Rightarrow> new_recver | Some r \<Rightarrow> r))"
    using update_recver_spec [OF good m1] .
  have m2': "m2 = m1(epid \<mapsto> ?upd (case m1 epid of None \<Rightarrow> new_recver | Some r \<Rightarrow> r))"
    using update_recver_spec [OF good m2] .
  have old: "unat (ui64LastRecvedSeqNo (case m_mapRecvers s epid of None \<Rightarrow> new_recver | Some r \<Rightarrow> r)) \<le> n"
    using acks by (auto simp: acks_below_def new_recver_def split: option.splits)
  have below2: "unat (ui64LastRecvedSeqNo r) \<le> n" if "m2 k = Some r" for k r
    using that acks old seq by (auto simp: m1' m2' acks_below_def split: if_splits)
  then have le2: "ui64LastRecvedSeqNo r \<le> m_ui64SendingSeqNo s" if "m2 k = Some r" for k r
    using that n order_trans by (fastforce simp: word_le_nat_alt)
  have slow: "\<exists>k r. m2 k = Some r \<and> mini \<le> ui64LastRecvedSeqNo r"
      "\<forall>k r. m3 k = Some r \<longrightarrow> m2 k = Some r \<and> mini \<le> ui64LastRecvedSeqNo r"
    using slowest_recver_spec [OF good m3] by blast+
  then have mini: "mini \<le> m_ui64SendingSeqNo s" and mini_n: "unat mini \<le> n"
    using le2 below2 by (meson order_trans word_le_nat_alt)+
  have big: "unat (m_ui64SendingSeqNo s) + 1 < 2 ^ 64"
    using inv unat_u64_lt [of "m_ui64ValidSendingDataTail s"] by (simp add: sender_inv_def)
  have plus1: "unat (r + 1) = unat r + 1" if "r \<le> m_ui64SendingSeqNo s" for r
    using that big by (simp add: unat_add_fits word_le_nat_alt)
  have acks3: "acks_below n s3"
    using slow below2 by (auto simp: acks_below_def s3_def)
  have inv3: "sender_inv pay s3"
    using inv by (simp add: s3_def)
  show ?thesis
  proof (cases "mini < m_ui64ValidSendingDataHead s")
    case True
    then show ?thesis
      using res acks3 inv3 by (simp add: s3_def)
  next
    case False
    have s': "code = CMNERR_SUC" "s' = control_speed (s3\<lparr>m_ui64ValidSendingDataHead := mini + 1\<rparr>)"
      using res False by simp_all
    have up: "m_ui64ValidSendingDataHead s \<le> mini + 1"
      using False plus1 [OF mini] by (simp add: word_le_nat_alt word_less_nat_alt)
    have "sender_inv pay (s3\<lparr>m_ui64ValidSendingDataHead := mini + 1\<rparr>)"
      by (rule sender_inv_head [OF inv3]) (use up plus1 [OF mini] mini in \<open>simp_all add: s3_def word_le_nat_alt\<close>)
    moreover have "acks_below n s'"
      using acks3 by (simp add: s' acks_below_def control_speed_frame)
    moreover have "mini + 1 \<le> ui64LastRecvedSeqNo r + 1" if "m3 k = Some r" for k r
    proof -
      have "mini \<le> ui64LastRecvedSeqNo r" "ui64LastRecvedSeqNo r \<le> m_ui64SendingSeqNo s"
        using slow(2) that le2 by blast+
      then show ?thesis
        using plus1 mini by (simp add: word_le_nat_alt)
    qed
    ultimately show ?thesis
      using s' up plus1 [OF mini] mini_n by (simp add: control_speed_frame) (simp add: s3_def)
  qed
qed

lemma udp_send_mem_frame:
  "udp_send_mem p dest answers s = Inr (code, answers', s') \<Longrightarrow> \<exists>x. s' = s\<lparr>sent := x\<rparr>"
proof -
  assume "udp_send_mem p dest answers s = Inr (code, answers', s')"
  then obtain d where "sendto_loop d dest answers s = Inr (code, answers', s')"
    by (auto simp: udp_send_mem_def elim!: bindr_InrE)
  from sendto_loop_cases [OF this] show ?thesis
    by (auto intro: exI [of _ "sent s"])
qed

lemma resend_range_frame:
  "resend_range i e code0 answers s = Inr (code, answers', s') \<Longrightarrow> \<exists>x. s' = s\<lparr>sent := x\<rparr>"
proof (induction i e code0 answers s rule: resend_range.induct)
  case (1 i e code0 answers s)
  show ?case
  proof (cases "i \<le> e")
    case False
    then show ?thesis
      using 1(3) by (auto simp: resend_range.simps [of i e code0 answers s] intro: exI [of _ "sent s"])
  next
    case True
    obtain p c answers1 s1 where get: "vec_get (m_vecSendWin s) (win_slot i s) = Inr p"
      and snd1: "udp_send_mem p (m_addrMulticast s) answers s = Inr (c, answers1, s1)"
      and rest: "(if c = CMNERR_SEND_PENDING then resend_range i e c answers1 s1
         else if c \<noteq> CMNERR_SUC then Inr (c, answers1, s1)
         else resend_range (i + 1) e c answers1 s1) = Inr (code, answers', s')"
      using 1(3) True by (auto simp: resend_range.simps [of i e code0 answers s] bindr_Inr_iff)
    note IH = 1(1) [OF True get snd1 refl refl] and IH' = 1(2) [OF True get snd1 refl refl]
    obtain x where s1: "s1 = s\<lparr>sent := x\<rparr>"
      using udp_send_mem_frame [OF snd1] by blast
    have "\<exists>y. s' = s1\<lparr>sent := y\<rparr>"
      using IH IH' rest by (auto split: if_splits intro: exI [of _ "sent s1"])
    then show ?thesis
      using s1 by auto
  qed
qed

text \<open>The fields of a sender that no datagram it receives changes.\<close>

definition sender_same :: "CRmpSock \<Rightarrow> CRmpSock \<Rightarrow> bool" where
  "sender_same s s' \<longleftrightarrow> m_i32Type s' = m_i32Type s \<and> m_ui8SenderId s' = m_ui8SenderId s \<and>
     m_ui32SenderWinSize s' = m_ui32SenderWinSize s \<and> m_ui64SendingSeqNo s' = m_ui64SendingSeqNo s \<and>
     m_ui64ValidSendingDataTail s' = m_ui64ValidSendingDataTail s"

lemma nak_head_frame:
  assumes "sendep_handle_nak ops now answers s = Inr (code, answers', s')"
  shows "m_ui64ValidSendingDataHead s' = m_ui64ValidSendingDataHead s \<and> sender_same s s' \<and>
    m_pMem s' = map_option (\<lambda>b. reset_mem False (dec_head_data 24 b)) (m_pMem s)"
  unfolding sender_same_def using assms
  by (auto simp: sendep_handle_nak_def Let_def deref_def split: if_splits option.splits
      elim!: bindr_InrE dest!: resend_range_frame)

lemma ack_frame:
  assumes "sendep_handle_ack ops now s = Inr (code, s')"
  shows "sender_same s s' \<and>
    m_pMem s' = map_option (\<lambda>b. reset_mem False (dec_head_data 16 b)) (m_pMem s)"
proof -
  have speed: "m_i32Type (control_speed t) = m_i32Type t" "m_ui8SenderId (control_speed t) = m_ui8SenderId t"
    "m_ui32SenderWinSize (control_speed t) = m_ui32SenderWinSize t"
    "m_ui64ValidSendingDataTail (control_speed t) = m_ui64ValidSendingDataTail t" for t
    by (simp_all add: control_speed_def Let_def)
  show ?thesis
    unfolding sender_same_def using assms
    by (auto simp: sendep_handle_ack_def Let_def control_speed_frame speed deref_def
        split: if_splits option.splits elim!: bindr_InrE)
qed

lemma handle_nak_spec:
  assumes inv: "sender_inv pay s" and acks: "acks_below n s" and good: "good_container ops"
    and b: "m_pMem s = Some blk" "nak_in b e epid blk"
    and run: "sendep_handle_nak ops now answers s = Inr (code, answers', s')"
  shows "m_ui64ValidSendingDataHead s \<le> b \<and> e < m_ui64ValidSendingDataTail s \<and> acks_below n s' \<and>
    m_ui64SendingSeqNo s' = m_ui64SendingSeqNo s \<and>
    sender_inv pay s' \<and>
    (0 < b \<longrightarrow> (\<exists>ds. sent s' = sent s @ ds \<and>
       carry (m_ui8SenderId s) pay (m_addrMulticast s) [unat b..<unat b + length ds] ds \<and>
       (code = CMNERR_SUC \<and> b \<le> e \<longrightarrow> unat b + length ds = unat e + 1) \<and>
       (ds = [] \<or> unat b + length ds \<le> unat e + 1)))"
proof -
  obtain m1 where m1: "update_recver ops epid (\<lambda>r. r\<lparr>ui64LastUpdateTimeUs := now\<rparr>) (m_mapRecvers s) = Inr m1"
    using run b by (auto simp: sendep_handle_nak_def nak_in_def Let_def elim!: bindr_InrE)
  then obtain m2 where m2: "update_recver ops epid (\<lambda>r. r\<lparr>ui32Naks := ui32Naks r + 1\<rparr>) m1 = Inr m2"
    using run b by (auto simp: sendep_handle_nak_def nak_in_def Let_def elim!: bindr_InrE)
  define c where "c = (if m_ui32Naks s + 1 > MAX_NAK_CNT then 0 else m_ui32Naks s + 1)"
  define sp where "sp = (if m_ui32Naks s + 1 > MAX_NAK_CNT then m_ui32SendSpeed s - CUT_SPEED else m_ui32SendSpeed s)"
  define s1 where "s1 = s\<lparr>m_mapRecvers := m2, m_ui32Naks := c, m_ui32SendSpeed := sp,
    m_pMem := Some (reset_mem False (dec_head_data (word_of_nat sizeof_SRmpNak) blk))\<rparr>"
  have rest: "(if b < m_ui64ValidSendingDataHead s \<or> e \<ge> m_ui64ValidSendingDataTail s then Inl Assert_failed
      else resend_range b e CMNERR_SUC answers s1) = Inr (code, answers', s')"
    using run b m1 m2
    by (cases "m_ui32Naks s + 1 > MAX_NAK_CNT")
      (simp_all add: sendep_handle_nak_def nak_in_def Let_def s1_def c_def sp_def cong: if_cong)
  then have range: "m_ui64ValidSendingDataHead s \<le> b" "e < m_ui64ValidSendingDataTail s"
    and resend: "resend_range b e CMNERR_SUC answers s1 = Inr (code, answers', s')"
    by (auto split: if_splits)
  have inv1: "sender_inv pay s1"
    using inv by (simp add: s1_def)
  have m1': "m1 = (m_mapRecvers s)(epid \<mapsto> (case m_mapRecvers s epid of None \<Rightarrow> new_recver | Some r \<Rightarrow> r)\<lparr>ui64LastUpdateTimeUs := now\<rparr>)"
    using update_recver_spec [OF good m1] .
  have m2': "m2 = m1(epid \<mapsto> (case m1 epid of None \<Rightarrow> new_recver | Some r \<Rightarrow> r)\<lparr>ui32Naks := ui32Naks (case m1 epid of None \<Rightarrow> new_recver | Some r \<Rightarrow> r) + 1\<rparr>)"
    using update_recver_spec [OF good m2] .
  have "unat (ui64LastRecvedSeqNo (case m_mapRecvers s epid of None \<Rightarrow> new_recver | Some r \<Rightarrow> r)) \<le> n"
    using acks by (auto simp: acks_below_def new_recver_def split: option.splits)
  then have acks1: "acks_below n s1"
    using acks by (auto simp: acks_below_def s1_def m1' m2' split: if_splits)
  have frame: "\<exists>x. s' = s1\<lparr>sent := x\<rparr>"
    using resend_range_frame [OF resend] .
  show ?thesis
  proof (intro conjI impI)
    show "m_ui64ValidSendingDataHead s \<le> b" "e < m_ui64ValidSendingDataTail s"
      by (fact range)+
    show "acks_below n s'"
      using frame acks1 by (auto simp: acks_below_def)
    show "m_ui64SendingSeqNo s' = m_ui64SendingSeqNo s"
      using frame by (auto simp: s1_def)
    show "sender_inv pay s'"
      using frame inv1 by auto
    assume "0 < b"
    then have "window_from s1 \<le> unat b"
      using range(1) by (simp add: window_from_def s1_def word_le_nat_alt word_less_nat_alt)
    moreover have "unat e < unat (m_ui64ValidSendingDataTail s1)"
      using range(2) by (simp add: s1_def word_less_nat_alt)
    ultimately obtain ds where ds: "s' = s1\<lparr>sent := sent s1 @ ds\<rparr>"
      "carry (m_ui8SenderId s1) pay (m_addrMulticast s1) [unat b..<unat b + length ds] ds"
      "code = CMNERR_SUC \<and> b \<le> e \<longrightarrow> unat b + length ds = unat e + 1"
      "ds = [] \<or> unat b + length ds \<le> unat e + 1"
      using resend_range_spec [OF resend inv1] by blast
    have "sent s' = sent s @ ds"
      using ds(1) by (simp add: s1_def)
    then show "\<exists>ds. sent s' = sent s @ ds \<and>
       carry (m_ui8SenderId s) pay (m_addrMulticast s) [unat b..<unat b + length ds] ds \<and>
       (code = CMNERR_SUC \<and> b \<le> e \<longrightarrow> unat b + length ds = unat e + 1) \<and>
       (ds = [] \<or> unat b + length ds \<le> unat e + 1)"
      using ds(2,3,4) by (intro exI [of _ ds]) (simp add: s1_def)
  qed
qed

text \<open>
  The steps of an open sender. The state carries the payload given to each sequence number.
  An acknowledgement from a receiver never covers what was not multicast yet.
\<close>

inductive sender_step ::
  "recver_ops \<Rightarrow> (nat \<Rightarrow> bytes) \<times> CRmpSock \<Rightarrow> (nat \<Rightarrow> bytes) \<times> CRmpSock \<Rightarrow> bool"
  for ops :: recver_ops where
  step_send: "mem_wf b \<Longrightarrow> unat (get_offset b) = 16 \<Longrightarrow>
    unat (m_ui64ValidSendingDataTail s) + 1 < 2 ^ 64 \<Longrightarrow> rmp_send b s = Inr (code, p, s') \<Longrightarrow>
    sender_step ops (pay, s)
      (if code = CMNERR_SUC then pay(unat (m_ui64ValidSendingDataTail s) := mem_data b) else pay, s')"
| step_multicast: "sendep_handle_can_send now buf answers s = Inr (code, answers', s') \<Longrightarrow>
    sender_step ops (pay, s) (pay, s')"
| step_nak: "nak_in b e epid blk \<Longrightarrow>
    sendep_handle_nak ops now answers (s\<lparr>m_pMem := Some blk\<rparr>) = Inr (code, answers', s') \<Longrightarrow>
    sender_step ops (pay, s) (pay, s')"
| step_ack: "ack_in seq epid blk \<Longrightarrow> seq \<le> m_ui64SendingSeqNo s \<Longrightarrow>
    sendep_handle_ack ops now (s\<lparr>m_pMem := Some blk\<rparr>) = Inr (code, s') \<Longrightarrow>
    sender_step ops (pay, s) (pay, s')"

inductive_cases sender_stepE: "sender_step ops x y"

lemma acks_inv_frame:
  "acks_inv s \<Longrightarrow> m_mapRecvers s' = m_mapRecvers s \<Longrightarrow> m_ui64SendingSeqNo s \<le> m_ui64SendingSeqNo s' \<Longrightarrow>
   acks_inv s'"
  by (auto simp: acks_inv_def intro: order_trans)

lemma rmp_send_frame:
  assumes "rmp_send b s = Inr (code, p, s')"
  shows "m_mapRecvers s' = m_mapRecvers s \<and> m_ui64SendingSeqNo s' = m_ui64SendingSeqNo s \<and>
    m_ui32SenderWinSize s' = m_ui32SenderWinSize s \<and> m_addrMulticast s' = m_addrMulticast s"
  using assms
  by (auto simp: rmp_send_def Let_def bindr_Inr_iff split: prod.splits if_splits)

lemma sender_step_inv:
  assumes "sender_step ops (pay, s) (pay', s')" and good: "good_container ops"
    and inv: "sender_inv pay s" and acks: "acks_inv s"
  shows "sender_inv pay' s' \<and> acks_inv s' \<and>
    m_ui64ValidSendingDataHead s \<le> m_ui64ValidSendingDataHead s'"
  using assms(1)
proof (cases rule: sender_step.cases)
  case (step_send b code p)
  have "if unat (m_ui64ValidSendingDataTail s) + 1 =
        unat (m_ui64ValidSendingDataHead s) + length (m_vecSendWin s)
    then code = CMNERR_NO_SPACE \<and> s' = s
    else code = CMNERR_SUC \<and> sender_inv (pay(unat (m_ui64ValidSendingDataTail s) := mem_data b)) s' \<and>
      m_ui64ValidSendingDataHead s' = m_ui64ValidSendingDataHead s"
    using rmp_send_spec [OF inv step_send(2-4)] step_send(5) by (auto split: if_splits)
  then show ?thesis
    using step_send(1) inv acks_inv_frame [OF acks] rmp_send_frame [OF step_send(5)]
    by (auto split: if_splits)
next
  case (step_multicast now buf answers code answers')
  obtain n t log where s': "s' = s\<lparr>m_ui64SendingSeqNo := word_of_nat (unat (m_ui64SendingSeqNo s) + n),
      m_ui64LastHbTime := t, sent := log\<rparr>" "sender_inv pay s'"
    "unat (m_ui64SendingSeqNo s) + n < unat (m_ui64ValidSendingDataTail s)"
    using sendep_can_send_spec [OF step_multicast(2) inv] by blast
  have "unat (m_ui64SendingSeqNo s) + n < 2 ^ 64"
    using s'(3) unat_u64_lt [of "m_ui64ValidSendingDataTail s"] by simp
  then have "unat (word_of_nat (unat (m_ui64SendingSeqNo s) + n) :: u64) = unat (m_ui64SendingSeqNo s) + n"
    by (intro unat_word_of_nat_u64) simp
  moreover have "m_ui64SendingSeqNo s' = word_of_nat (unat (m_ui64SendingSeqNo s) + n)"
    using s'(1) by simp
  ultimately have "m_ui64SendingSeqNo s \<le> m_ui64SendingSeqNo s'"
    unfolding word_le_nat_alt by (metis le_add1)
  then show ?thesis
    using step_multicast(1) s' acks_inv_frame [OF acks, of s'] by simp
next
  case (step_nak b e epid blk now answers code answers')
  have acks0: "acks_inv (s\<lparr>m_pMem := Some blk\<rparr>)"
    using acks by (simp add: acks_inv_def)
  have "m_ui64ValidSendingDataHead s' = m_ui64ValidSendingDataHead s"
    using nak_head_frame [OF step_nak(3)] by auto
  then show ?thesis
    using handle_nak_spec [OF _ acks0 [unfolded acks_inv_below] good _ step_nak(2,3)] inv step_nak(1)
    by (simp add: acks_inv_below)
next
  case (step_ack seq epid blk now code)
  have acks0: "acks_inv (s\<lparr>m_pMem := Some blk\<rparr>)"
    using acks by (simp add: acks_inv_def)
  show ?thesis
    using handle_ack_spec [OF good _ acks0 [unfolded acks_inv_below] _ _ step_ack(2) _ step_ack(4)] inv step_ack(1,3)
    by (simp add: acks_inv_below word_le_nat_alt)
qed

definition fresh_sender :: "CRmpSock \<Rightarrow> bool" where
  "fresh_sender s \<longleftrightarrow>
     m_ui64ValidSendingDataHead s = 0 \<and> m_ui64ValidSendingDataTail s = 1 \<and> m_ui64SendingSeqNo s = 0 \<and>
     unat (m_ui32SenderWinSize s) = length (m_vecSendWin s) \<and> 2 \<le> length (m_vecSendWin s) \<and>
     m_mapRecvers s = Map.empty"

lemma opened_sender_fresh:
  assumes "new_rmp_sock init RMP_SEND_SOCK = Inr s0"
  shows "fresh_sender (snd (rmp_open ip port sid cnt keep speed hb ans s0))"
  using assms
  by (auto simp: new_rmp_sock_def Let_def fresh_sender_def rmp_open_def rmp_open_handle_def
      SEND_WIN_SIZE_def)

lemma fresh_sender_inv: "fresh_sender s \<Longrightarrow> sender_inv pay s \<and> acks_inv s"
  by (auto simp: fresh_sender_def sender_inv_def window_from_def acks_inv_def)

lemma sender_steps_inv:
  assumes "(sender_step ops)\<^sup>*\<^sup>* x y" and good: "good_container ops"
    and "sender_inv (fst x) (snd x) \<and> acks_inv (snd x)"
  shows "sender_inv (fst y) (snd y) \<and> acks_inv (snd y)"
  using assms(1,3)
proof (induction rule: rtranclp_induct)
  case base
  then show ?case .
next
  case (step y z)
  then show ?case
    using sender_step_inv [of ops "fst y" "snd y" "fst z" "snd z"] good by simp
qed

section \<open>Containers\<close>

text \<open>The ordered map of the library, and the hash map as the code sets it up.\<close>

definition std_map_ops :: recver_ops where
  "std_map_ops = \<lparr>touch_entry = (\<lambda>k m. Inr (if m k = None then m(k \<mapsto> new_recver) else m)),
     erase_entry = (\<lambda>k m. Inr (m(k := None))),
     iter_order = (\<lambda>m. sorted_list_of_set (dom m))\<rparr>"

definition dense_hash_ops :: recver_ops where
  "dense_hash_ops = \<lparr>touch_entry = (\<lambda>k m. if k = 0 then Inl Assert_failed
       else Inr (if m k = None then m(k \<mapsto> new_recver) else m)),
     erase_entry = (\<lambda>k m. Inl Assert_failed),
     iter_order = (\<lambda>m. sorted_list_of_set (dom m))\<rparr>"

lemma containers_good: "good_container std_map_ops" "good_container dense_hash_ops"
  by (auto simp: good_container_def std_map_ops_def dense_hash_ops_def split: if_splits)

section \<open>Properties\<close>

text \<open>C5: What can still be asked for is still there. In every state an open sender reaches by
  sending, multicasting, and handling acknowledgements and negative acknowledgements, the
  send window holds, at its place, the complete package of every sequence number from the
  head (the first one a live receiver may lack) to the tail; the window never wraps onto
  itself, and nothing beyond the tail has been multicast.\<close>

theorem rmp_sender_window_safe:
  assumes "good_container ops" and "fresh_sender s0" and "(sender_step ops)\<^sup>*\<^sup>* (pay0, s0) (pay, s)"
  shows "(\<forall>q. max 1 (unat (m_ui64ValidSendingDataHead s)) \<le> q \<and> q < unat (m_ui64ValidSendingDataTail s) \<longrightarrow>
      is_odata (m_ui8SenderId s) pay q (m_vecSendWin s ! (q mod length (m_vecSendWin s)))) \<and>
    unat (m_ui64ValidSendingDataTail s) < unat (m_ui64ValidSendingDataHead s) + length (m_vecSendWin s) \<and>
    m_ui64SendingSeqNo s < m_ui64ValidSendingDataTail s"
proof -
  have "sender_inv pay s"
    using sender_steps_inv [OF assms(3,1)] fresh_sender_inv [OF assms(2)] by simp
  then show ?thesis
    unfolding sender_inv_def window_from_def by (simp add: word_less_nat_alt)
qed

definition small_sender :: CRmpSock where
  "small_sender = \<lparr>m_i32Type = 1, m_hSock_rmp = 3, m_epid = 0, m_ui8SenderId = 9, m_pMem = None,
     sent = [], m_ui64ValidPkgBegin = 0, m_ui64ValidPkgEnd = 0,
     m_addrSender = \<lparr>sin_addr = 0, sin_port = 0\<rparr>,
     m_ui64LatestRecvedValidSeqNo = 0, m_ui64LastSendNakTime = 0, m_ui32SendAckCnt = 0,
     m_ui64AppConfirmAck = 0, m_ui64AppConfirmAckTmp = 0, m_ui64UnvalidPkgBegin = 0,
     m_ui64UnvalidPkgEnd = 0, m_ui64LastSendAckTime = 0,
     m_vecUnvalidPkgs = [], m_ui32UnvalidPkgsSize = 0,
     m_ui32SenderWinSize = 10, m_vecSendWin = replicate 10 None, m_ui64ValidSendingDataHead = 0,
     m_ui64ValidSendingDataTail = 1, m_ui64SendingSeqNo = 0, m_ui64LastHbTime = 0,
     m_ui64HbInterval = 1000, m_ui32SpeedHelper = 0, m_ui64LastSendingSeqNo = 0,
     m_ui64LastSendAndAckWinSize = 0, m_ui64LastSpeedControlSeqNo = 0,
     m_ui64LastSpeedControlTime = 0, m_addrMulticast = \<lparr>sin_addr = 7, sin_port = 5\<rparr>,
     m_ui64MaxKeepAliveTimeUs = 1000, m_ui32Naks = 0, m_ui32SendSpeed = 500,
     m_mapRecvers = Map.empty\<rparr>"

lemma small_sender_fresh: "fresh_sender small_sender"
  by (simp add: fresh_sender_def small_sender_def)

text \<open>A block of the application: sixteen bytes of room, then the payload 65, 66.\<close>

definition app_block :: CMemBlock where
  "app_block = \<lparr>m_bytes = replicate 16 0 @ [65, 66], m_ui32InitOffset = 16, m_ui32Sz = 18,
     m_ui32Offset = 16, m_ui32Len = 2\<rparr>"

lemma app_block_ok: "mem_wf app_block" "unat (get_offset app_block) = 16" "mem_data app_block = [65, 66]"
  by (simp_all add: app_block_def mem_wf_def get_offset_def mem_data_def)

lemma small_sender_send:
  "\<exists>s'. rmp_send app_block small_sender = Inr (CMNERR_SUC, None, s') \<and>
     sender_inv ((\<lambda>_. [])(1 := [65, 66])) s' \<and> m_ui64ValidSendingDataTail s' = 2 \<and>
     m_ui64ValidSendingDataHead s' = 0 \<and> m_ui64SendingSeqNo s' = 0 \<and> sent s' = []"
proof -
  have "sender_inv (\<lambda>_. []) small_sender"
    using fresh_sender_inv [OF small_sender_fresh] by blast
  from rmp_send_spec [OF this app_block_ok(1,2)] show ?thesis
    using app_block_ok(3) by (simp add: small_sender_def fun_upd_def)
qed

theorem rmp_sender_window_safe_witness:
  "\<exists>pay s. (sender_step dense_hash_ops)\<^sup>*\<^sup>* (\<lambda>_. [], small_sender) (pay, s) \<and>
     m_ui64ValidSendingDataTail s = 2 \<and>
     is_odata (m_ui8SenderId s) pay 1 (m_vecSendWin s ! (1 mod length (m_vecSendWin s)))"
proof -
  obtain s' where s': "rmp_send app_block small_sender = Inr (CMNERR_SUC, None, s')"
    "m_ui64ValidSendingDataTail s' = 2" "m_ui64ValidSendingDataHead s' = 0"
    using small_sender_send by blast
  have "unat (m_ui64ValidSendingDataTail small_sender) + 1 < 2 ^ 64"
    by (simp add: small_sender_def)
  from step_send [OF app_block_ok(1,2) this s'(1), of dense_hash_ops "\<lambda>_. []"]
  have run: "(sender_step dense_hash_ops)\<^sup>*\<^sup>* (\<lambda>_. [], small_sender)
      ((\<lambda>_. [])(unat (m_ui64ValidSendingDataTail small_sender) := mem_data app_block), s')"
    by (simp add: r_into_rtranclp)
  note safe = rmp_sender_window_safe [OF containers_good(2) small_sender_fresh run]
  have "is_odata (m_ui8SenderId s')
      ((\<lambda>_. [])(unat (m_ui64ValidSendingDataTail small_sender) := mem_data app_block)) 1
      (m_vecSendWin s' ! (1 mod length (m_vecSendWin s')))"
    by (rule safe [THEN conjunct1, rule_format, of 1]) (simp add: s'(2,3))
  then show ?thesis
    using run s'(2) by blast
qed

text \<open>C24: \<open>send\<close> never faults on a block with the room it asks for. It is refused with
  \<open>CMNERR_NO_SPACE\<close> exactly when the window is full (the socket is then unchanged, but the
  caller's block has lost its header room, so the same call on the same block fails the
  assertion on the offset); otherwise the package gets the next sequence number, and a reader
  of its datagram finds the header, this number and the payload.\<close>

theorem rmp_send_correct:
  assumes "sender_inv pay s" and "mem_wf b" and "unat (get_offset b) = 16"
    and "unat (m_ui64ValidSendingDataTail s) + 1 < 2 ^ 64"
  shows "if unat (m_ui64ValidSendingDataTail s) + 1 =
        unat (m_ui64ValidSendingDataHead s) + length (m_vecSendWin s)
    then \<exists>b'. rmp_send b s = Inr (CMNERR_NO_SPACE, Some b', s) \<and> rmp_send b' s = Inl Assert_failed
    else \<exists>s'. rmp_send b s = Inr (CMNERR_SUC, None, s') \<and>
      m_ui64ValidSendingDataTail s' = m_ui64ValidSendingDataTail s + 1 \<and>
      m_ui64ValidSendingDataHead s' = m_ui64ValidSendingDataHead s \<and> sent s' = sent s \<and>
      is_odata (m_ui8SenderId s') (pay(unat (m_ui64ValidSendingDataTail s) := mem_data b))
        (unat (m_ui64ValidSendingDataTail s))
        (m_vecSendWin s' ! (unat (m_ui64ValidSendingDataTail s) mod length (m_vecSendWin s')))"
proof (cases "unat (m_ui64ValidSendingDataTail s) + 1 =
        unat (m_ui64ValidSendingDataHead s) + length (m_vecSendWin s)")
  case True
  then obtain b' where b': "rmp_send b s = Inr (CMNERR_NO_SPACE, Some b', s)" "get_offset b' = 0"
    using rmp_send_spec [OF assms] by auto
  then have "rmp_send b' s = Inl Assert_failed"
    by (simp add: rmp_send_def)
  then show ?thesis
    using True b'(1) by simp
next
  case False
  then obtain s' where s': "rmp_send b s = Inr (CMNERR_SUC, None, s')"
    "sender_inv (pay(unat (m_ui64ValidSendingDataTail s) := mem_data b)) s'"
    "m_ui64ValidSendingDataTail s' = m_ui64ValidSendingDataTail s + 1"
    "m_ui64ValidSendingDataHead s' = m_ui64ValidSendingDataHead s" "sent s' = sent s"
    using rmp_send_spec [OF assms] by auto
  have "window_from s' \<le> unat (m_ui64ValidSendingDataTail s)"
    using assms(1) s'(4) by (simp add: window_from_def sender_inv_def)
  moreover have "unat (m_ui64ValidSendingDataTail s) < unat (m_ui64ValidSendingDataTail s')"
    using s'(3) assms(4) by (simp add: unat_add_fits)
  ultimately show ?thesis
    using False s' sender_inv_pkg [OF s'(2)] by simp
qed

theorem rmp_send_correct_witness:
  "\<exists>s'. rmp_send app_block small_sender = Inr (CMNERR_SUC, None, s') \<and>
     m_ui64ValidSendingDataTail s' = 2 \<and>
     is_odata (m_ui8SenderId s') ((\<lambda>_. [])(1 := [65, 66])) 1
       (m_vecSendWin s' ! (1 mod length (m_vecSendWin s')))"
proof -
  have inv: "sender_inv (\<lambda>_. []) small_sender"
    using fresh_sender_inv [OF small_sender_fresh] by blast
  have vals: "unat (m_ui64ValidSendingDataTail small_sender) = 1"
    "unat (m_ui64ValidSendingDataHead small_sender) = 0" "length (m_vecSendWin small_sender) = 10"
    "m_ui64ValidSendingDataTail small_sender + 1 = 2"
    by (simp_all add: small_sender_def)
  show ?thesis
    using rmp_send_correct [OF inv app_block_ok(1,2), unfolded vals app_block_ok(3)] by auto
qed




definition ack_block :: CMemBlock where
  "ack_block = \<lparr>m_bytes = replicate 8 0 @ [0, 0, 0, 0, 0, 0, 0, 0] @ [5, 0, 0, 0, 0, 0, 0, 0],
     m_ui32InitOffset = 0, m_ui32Sz = 24,
     m_ui32Offset = 8, m_ui32Len = 16\<rparr>"

definition acked_sender :: CRmpSock where
  "acked_sender = small_sender\<lparr>m_pMem := Some ack_block\<rparr>"

lemma ack_block_in: "ack_in 0 5 ack_block"
  by (simp add: ack_in_def ack_block_def get_data_def get_u64_def get_field_def read_at_def)

lemma acked_sender_run:
  "\<exists>s'. sendep_handle_ack std_map_ops 7 acked_sender = Inr (CMNERR_SUC, s') \<and>
     m_ui64ValidSendingDataHead s' = 1"
proof -
  let ?r = "\<lparr>ui64LastRecvedSeqNo = 0, ui32Naks = 0, ui64LastUpdateTimeUs = 7\<rparr>"
  have map: "m_mapRecvers acked_sender = Map.empty" "m_pMem acked_sender = Some ack_block"
    "m_ui64ValidSendingDataHead acked_sender = 0" "m_ui64MaxKeepAliveTimeUs acked_sender = 1000"
    by (simp_all add: acked_sender_def small_sender_def)
  have u1: "update_recver std_map_ops 5 (\<lambda>r. r\<lparr>ui64LastUpdateTimeUs := 7\<rparr>) Map.empty = Inr [5 \<mapsto> ?r]"
    by (simp add: update_recver_def std_map_ops_def new_recver_def)
  have u2: "update_recver std_map_ops 5 (\<lambda>r. r\<lparr>ui64LastRecvedSeqNo :=
      (if ui64LastRecvedSeqNo r > 0 then ui64LastRecvedSeqNo r else 0)\<rparr>) [5 \<mapsto> ?r] = Inr [5 \<mapsto> ?r]"
    by (simp add: update_recver_def std_map_ops_def)
  have sl: "slowest_recver std_map_ops 7 1000 [5 \<mapsto> ?r] = Inr (0, [5 \<mapsto> ?r])"
    by (simp add: slowest_recver_def std_map_ops_def)
  show ?thesis
    using ack_block_in u1 u2 sl
    by (simp add: sendep_handle_ack_def map ack_in_def control_speed_frame)
qed



text \<open>A receiver asks for package 1, which it lost.\<close>

definition nak_block :: CMemBlock where
  "nak_block = \<lparr>m_bytes = replicate 8 0 @ [1, 0, 0, 0, 0, 0, 0, 0] @ [1, 0, 0, 0, 0, 0, 0, 0] @
     [5, 0, 0, 0, 0, 0, 0, 0], m_ui32InitOffset = 0, m_ui32Sz = 32, m_ui32Offset = 8, m_ui32Len = 24\<rparr>"

lemma nak_block_in: "nak_in 1 1 5 nak_block"
  by (simp add: nak_in_def nak_block_def get_data_def get_u64_def get_field_def read_at_def)

lemma small_sender_multicast:
  "\<exists>s. sender_inv ((\<lambda>_. [])(1 := [65, 66])) s \<and> acks_inv s \<and> m_mapRecvers s = Map.empty \<and>
     m_ui64ValidSendingDataHead s = 0 \<and> m_ui64ValidSendingDataTail s = 2"
proof -
  obtain s where s: "rmp_send app_block small_sender = Inr (CMNERR_SUC, None, s)"
    "sender_inv ((\<lambda>_. [])(1 := [65, 66])) s" "m_ui64ValidSendingDataTail s = 2"
    "m_ui64ValidSendingDataHead s = 0"
    using small_sender_send by blast
  have "m_mapRecvers s = Map.empty"
    using rmp_send_frame [OF s(1)] by (simp add: small_sender_def)
  then show ?thesis
    using s by (intro exI [of _ s]) (simp add: acks_inv_def)
qed


end
