(* ===== verification/RmpProto.thy ===== *)
theory RmpProto
  imports RmpReceiver RmpSender
begin

text \<open>
  The two entry points of \<open>CRmpSock\<close> the engine calls, \<open>handle_can_send\<close> and \<open>handle_can_recv\<close>
  (\<open>libcomm_net/src/network/sn_socket_impl.cpp\<close>), and the protocol end to end: a sender and a
  receiver joined by a network that may lose, repeat and reorder datagrams. The theory shows
  that what the receiver delivers is always a beginning of what the sender was given.
\<close>

section \<open>The entry points\<close>

text \<open>
  A receiver acknowledges in time, a sender sends what it may. \<open>now\<close> is the clock, the two
  arrays are those the functions have on the stack.
\<close>

definition rmp_handle_can_send ::
  "u64 \<Rightarrow> bytes \<Rightarrow> bytes \<Rightarrow> answers \<Rightarrow> CRmpSock \<Rightarrow> (int \<times> answers \<times> CRmpSock) res" where
  "rmp_handle_can_send now buf nak_buf answers s =
     (if m_i32Type s = RMP_RECV_SOCK then recvep_handle_can_send now buf nak_buf answers s
      else sendep_handle_can_send now buf answers s)"

text \<open>
  One round of the loop of \<open>handle_can_recv\<close>: the clock, what \<open>recvfrom\<close> answers, the memory of a
  fresh block, the array on the stack and the answers to what is sent in the round.
\<close>

record recv_round =
  rd_now :: u64
  rd_dgram :: "(bytes \<times> sn_sock_addr) os_ret"
  rd_raw :: bytes
  rd_buf :: bytes
  rd_answers :: answers

definition ready_mem :: "bytes \<Rightarrow> CRmpSock \<Rightarrow> CMemBlock res" where
  "ready_mem raw s =
     (case m_pMem s of
        None \<Rightarrow> Inr (new_mem raw 0)
      | Some b \<Rightarrow> bindr (cmn_assert (get_len b = 0 \<and> get_offset b = 0)) (\<lambda>_. Inr b))"

definition handle_pkg :: "recver_ops \<Rightarrow> recv_round \<Rightarrow> sn_sock_addr \<Rightarrow> CRmpSock \<Rightarrow> (int \<times> answers \<times> CRmpSock) res" where
  "handle_pkg ops v src s =
     (if m_i32Type s = RMP_RECV_SOCK then recvep_handle_pkg (rd_buf v) (rd_answers v) src s
      else if m_i32Type s = RMP_SEND_SOCK then sendep_handle_pkg ops (rd_now v) (rd_answers v) s
      else Inl Assert_failed)"

fun rmp_handle_can_recv :: "recver_ops \<Rightarrow> recv_round list \<Rightarrow> CRmpSock \<Rightarrow> (int \<times> CRmpSock) res" where
  "rmp_handle_can_recv ops [] s = Inl Awaiting_os"
| "rmp_handle_can_recv ops (v # vs) s =
     bindr (ready_mem (rd_raw v) s) (\<lambda>b.
     bindr (udp_recv (rd_dgram v) b) (\<lambda>(code, b, src).
     let s = s\<lparr>m_pMem := Some b\<rparr> in
     if code \<noteq> CMNERR_SUC then Inr (code, s)
     else bindr (deref src) (\<lambda>src.
          bindr (handle_pkg ops v src s) (\<lambda>(code, answers, s).
          if code \<noteq> CMNERR_SUC then Inr (code, s) else rmp_handle_can_recv ops vs s))))"

text \<open>
  What \<open>CRmpEndpoint::handle_input_evt\<close> does with it: when a data package is ready, all blocks
  that have become available are taken out. The result has the code and the blocks.
\<close>

definition rmp_input ::
  "recver_ops \<Rightarrow> recv_round list \<Rightarrow> bytes \<Rightarrow> answers \<Rightarrow> CRmpSock \<Rightarrow> (int \<times> CMemBlock option list \<times> CRmpSock) res" where
  "rmp_input ops vs buf answers s =
     bindr (rmp_handle_can_recv ops vs s) (\<lambda>(code, s).
     if code = CMNERR_ODATA_READY
     then bindr (recv_drain buf answers s) (\<lambda>(ps, answers, s). Inr (code, ps, s))
     else Inr (code, [], s))"

section \<open>Datagrams\<close>

text \<open>A read that succeeds on the datagram succeeds on the block it was received into.\<close>

lemma get_field_append: "get_field p w d = Inr x \<Longrightarrow> get_field p w (d @ rest) = Inr x"
  by (auto simp: get_field_def bindr_Inr_iff read_at_def split: if_splits)

lemma get_u64_append: "get_u64 p i d = Inr x \<Longrightarrow> get_u64 p i (d @ rest) = Inr x"
  by (auto simp: get_u64_def bindr_Inr_iff dest: get_field_append)

lemma udp_recv_block:
  assumes "udp_recv (Os_ok (d, a)) b = Inr (code, b', src)" and "mem_wf b"
  shows "code = CMNERR_SUC" and "src = Some a" and "mem_wf b'" and "m_ui32Offset b' = 0"
    and "mem_data b' = d" and "\<exists>rest. m_bytes b' = d @ rest" and "unat (m_ui32Len b') = length d"
proof -
  have zero: "m_ui32Offset b = 0" "m_ui32Len b = 0"
    using assms(1) by (auto simp: udp_recv_def bindr_Inr_iff get_offset_def get_len_def)
  obtain bs where bs: "write_at 0 d (m_bytes b) = Inr bs"
    and b': "b' = inc_len (word_of_nat (length d)) (b\<lparr>m_bytes := bs\<rparr>)" "code = CMNERR_SUC" "src = Some a"
    using assms(1) by (auto simp: udp_recv_def bindr_Inr_iff)
  have room: "length d \<le> length (m_bytes b)" and "bs = d @ drop (length d) (m_bytes b)"
    using bs by (auto simp: write_at_def split: if_splits)
  then have bytes: "m_bytes b' = d @ drop (length d) (m_bytes b)"
    using b' by (simp add: inc_len_def)
  have "length d < 2 ^ 32"
    using room assms(2) unat_u32_lt [of "m_ui32Sz b"] by (simp add: mem_wf_def)
  then have len: "unat (word_of_nat (length d) :: u32) = length d"
    by (simp add: unat_word_of_nat_u32)
  then show "unat (m_ui32Len b') = length d"
    using zero b' by (simp add: inc_len_def)
  then show "mem_wf b'"
    using room bytes assms(2) b' zero by (simp add: mem_wf_def inc_len_def)
  show off: "m_ui32Offset b' = 0"
    using zero b' by (simp add: inc_len_def)
  show "code = CMNERR_SUC" "src = Some a"
    using b' by simp_all
  show "mem_data b' = d"
    using \<open>unat (m_ui32Len b') = length d\<close> off bytes by (simp add: mem_data_def)
  show "\<exists>rest. m_bytes b' = d @ rest"
    using bytes by blast
qed

lemma udp_recv_fail:
  "udp_recv (Os_fail e) b = Inr (code, b', src) \<Longrightarrow> code \<noteq> CMNERR_SUC \<and> code \<noteq> CMNERR_ODATA_READY \<and> b' = b"
  by (auto simp: udp_recv_def bindr_Inr_iff split: if_splits)

definition pmem_wf :: "CRmpSock \<Rightarrow> bool" where
  "pmem_wf s \<longleftrightarrow> (\<forall>b. m_pMem s = Some b \<longrightarrow> mem_wf b)"

lemma ready_mem_wf:
  assumes "ready_mem raw s = Inr b" and "pmem_wf s" and "length raw < 2 ^ 32"
  shows "mem_wf b"
proof (cases "m_pMem s")
  case None
  then have "b = new_mem raw 0"
    using assms(1) by (simp add: ready_mem_def)
  moreover have "length raw = unat (m_ui32Sz (new_mem raw 0))"
    using assms(3) by (simp add: new_mem_def unat_word_of_nat_u32)
  ultimately show ?thesis
    using mem_wf_new [of raw 0] by simp
next
  case (Some b1)
  then show ?thesis
    using assms(1,2) by (auto simp: ready_mem_def pmem_wf_def bindr_Inr_iff)
qed

section \<open>What travels\<close>

text \<open>
  Datagrams of a receiver that has taken everything up to \<open>L\<close>, when the sender has multicast
  up to \<open>n\<close>: acknowledgements of at most \<open>L\<close>, and requests for packages that were sent.
\<close>

definition up_ok :: "nat \<Rightarrow> nat \<Rightarrow> bytes \<Rightarrow> bool" where
  "up_ok L n d \<longleftrightarrow>
     (\<exists>seq epid. hdr_opcode 0 d = Inr (opcode_val EP_ACK) \<and> get_u64 8 0 d = Inr seq \<and> get_u64 8 1 d = Inr epid \<and>
        unat seq \<le> L) \<or>
     (\<exists>b e epid. hdr_opcode 0 d = Inr (opcode_val EP_NAK) \<and> get_u64 8 0 d = Inr b \<and> get_u64 8 1 d = Inr e \<and>
        get_u64 8 2 d = Inr epid \<and> 0 < b \<and> unat e \<le> n)"

text \<open>Datagrams of the sender: data packages, and heartbeats that announce at most \<open>n\<close>.\<close>

definition down_ok :: "u8 \<Rightarrow> (nat \<Rightarrow> bytes) \<Rightarrow> nat \<Rightarrow> bytes \<Rightarrow> bool" where
  "down_ok sid pay n d \<longleftrightarrow>
     (\<exists>q. 1 \<le> q \<and> q \<le> n \<and> odata_fields sid (word_of_nat q) (pay q) d) \<or>
     (\<exists>latest. hdr_opcode 0 d = Inr (opcode_val EP_HB) \<and> get_u64 8 0 d = Inr latest \<and> unat latest \<le> n)"

lemma up_ok_mono: "up_ok L n d \<Longrightarrow> L \<le> L' \<Longrightarrow> n \<le> n' \<Longrightarrow> up_ok L' n' d"
  unfolding up_ok_def by (meson le_trans)

lemma down_ok_mono:
  assumes "down_ok sid pay n d" and "n \<le> n'" and "\<And>q. 1 \<le> q \<Longrightarrow> q \<le> n \<Longrightarrow> pay' q = pay q"
  shows "down_ok sid pay' n' d"
  using assms(1) unfolding down_ok_def
proof (elim disjE exE conjE)
  fix q assume "1 \<le> q" "q \<le> n" "odata_fields sid (word_of_nat q) (pay q) d"
  then show "(\<exists>q. 1 \<le> q \<and> q \<le> n' \<and> odata_fields sid (word_of_nat q) (pay' q) d) \<or>
     (\<exists>latest. hdr_opcode 0 d = Inr (opcode_val EP_HB) \<and> get_u64 8 0 d = Inr latest \<and> unat latest \<le> n')"
    using assms(2,3) by (intro disjI1 exI [of _ q]) simp
qed (use assms(2) in auto)

lemma ack_pkg_up:
  assumes "ack_pkg seq epid buf = Inr d" and "length buf = STACK_BUF" and "unat seq \<le> L"
  shows "up_ok L n d"
  using ctrl_pkg_fields [of "[seq, epid]" buf None EP_ACK] assms
  by (fastforce simp: ack_pkg_def STACK_BUF_def up_ok_def)

lemma nak_pkg_up:
  assumes "nak_pkg b e epid buf = Inr d" and "length buf = STACK_BUF" and "0 < b" and "unat e \<le> n"
  shows "up_ok L n d"
proof -
  obtain d' where "ctrl_pkg EP_NAK None [b, e, epid] buf = Inr d'" "hdr_opcode 0 d' = Inr (opcode_val EP_NAK)"
    "\<forall>j < 3. get_u64 8 j d' = Inr ([b, e, epid] ! j)"
    using ctrl_pkg_fields [of "[b, e, epid]" buf None EP_NAK] assms(2) by (auto simp: STACK_BUF_def)
  moreover have "d' = d"
    using calculation(1) assms(1) by (simp add: nak_pkg_def)
  ultimately have "hdr_opcode 0 d = Inr (opcode_val EP_NAK)" "get_u64 8 0 d = Inr b" "get_u64 8 1 d = Inr e"
    "get_u64 8 2 d = Inr epid"
    by (auto simp: numeral_2_eq_2 numeral_3_eq_3)
  then show ?thesis
    using assms(3,4) unfolding up_ok_def by blast
qed

lemma hb_pkg_down:
  assumes "hb_pkg sid latest oldest buf = Inr d" and "length buf = STACK_BUF" and "unat latest \<le> n"
  shows "down_ok sid' pay n d"
proof -
  have "unat sid < 256"
    using unat_u8_lt [of sid] by simp
  then obtain d' where "ctrl_pkg EP_HB (Some (unat sid)) [latest, oldest] buf = Inr d'"
    "hdr_opcode 0 d' = Inr (opcode_val EP_HB)" "\<forall>j < 2. get_u64 8 j d' = Inr ([latest, oldest] ! j)"
    using ctrl_pkg_fields [of "[latest, oldest]" buf "Some (unat sid)" EP_HB] assms(2) by (auto simp: STACK_BUF_def)
  then have "hdr_opcode 0 d = Inr (opcode_val EP_HB)" "get_u64 8 0 d = Inr latest"
    using assms(1) by (auto simp: hb_pkg_def)
  then show ?thesis
    using assms(3) unfolding down_ok_def by blast
qed

section \<open>The receiver's side\<close>

text \<open>The fields the order of delivery depends on.\<close>

definition recv_same :: "CRmpSock \<Rightarrow> CRmpSock \<Rightarrow> bool" where
  "recv_same s s' \<longleftrightarrow> m_vecUnvalidPkgs s' = m_vecUnvalidPkgs s \<and>
     m_ui32UnvalidPkgsSize s' = m_ui32UnvalidPkgsSize s \<and>
     m_ui64LatestRecvedValidSeqNo s' = m_ui64LatestRecvedValidSeqNo s \<and>
     m_ui64UnvalidPkgBegin s' = m_ui64UnvalidPkgBegin s \<and> m_ui64UnvalidPkgEnd s' = m_ui64UnvalidPkgEnd s \<and>
     m_ui64ValidPkgBegin s' = m_ui64ValidPkgBegin s \<and> m_ui64ValidPkgEnd s' = m_ui64ValidPkgEnd s \<and>
     m_i32Type s' = m_i32Type s"

lemma recv_same_refl [simp]: "recv_same s s"
  by (simp add: recv_same_def)

lemma recv_same_trans: "recv_same s s' \<Longrightarrow> recv_same s' s'' \<Longrightarrow> recv_same s s''"
  by (simp add: recv_same_def)

lemma in_order_same: "recv_same s s' \<Longrightarrow> in_order pay A ps s' = in_order pay A ps s"
  by (simp add: recv_same_def in_order_def waiting_def)

text \<open>The log grows by datagrams of a receiver only.\<close>

definition sent_up :: "nat \<Rightarrow> nat \<Rightarrow> CRmpSock \<Rightarrow> bool" where
  "sent_up L n s \<longleftrightarrow> (\<forall>x \<in> set (sent s). up_ok L n (fst x))"

lemma sent_up_mono: "sent_up L n s \<Longrightarrow> L \<le> L' \<Longrightarrow> n \<le> n' \<Longrightarrow> sent_up L' n' s"
  by (auto simp: sent_up_def intro: up_ok_mono)

lemma sendto_up:
  assumes "udp_send_bytes d dest answers s = Inr (code, answers', s')" and "up_ok L n d" and "sent_up L n s"
  shows "recv_same s s' \<and> m_pMem s' = m_pMem s \<and> sent_up L n s'"
  using sendto_loop_cases [of d dest answers s code answers' s'] assms
  by (auto simp: udp_send_bytes_def recv_same_def sent_up_def)

lemma set_ack_up:
  assumes "set_ack flag buf answers s = Inr (answers', s')" and "length buf = STACK_BUF" and "sent_up L n s"
    and "unat (m_ui64LatestRecvedValidSeqNo s) \<le> L"
  shows "recv_same s s' \<and> m_pMem s' = m_pMem s \<and> sent_up L n s'"
proof -
  define s1 where "s1 = s\<lparr>m_ui64AppConfirmAck := m_ui64LatestRecvedValidSeqNo s\<rparr>"
  define s2 where "s2 = (if \<not> flag then s1\<lparr>m_ui64AppConfirmAckTmp := m_ui64AppConfirmAck s1\<rparr> else s1)"
  have s2: "recv_same s s2" "m_pMem s2 = m_pMem s" "sent_up L n s2" "m_ui64AppConfirmAck s2 = m_ui64LatestRecvedValidSeqNo s"
    "recv_same s s1" "m_pMem s1 = m_pMem s" "sent_up L n s1"
    using assms(3) by (auto simp: s1_def s2_def recv_same_def sent_up_def)
  from assms(1) consider "s' = s1"
    | d code where "ack_pkg (m_ui64AppConfirmAck s2) (m_epid s2) buf = Inr d"
        "udp_send_bytes d (m_addrSender s2) answers s2 = Inr (code, answers', s')"
    by (auto simp: set_ack_def s1_def s2_def Let_def bindr_Inr_iff split: if_splits)
  then show ?thesis
  proof cases
    case 1
    then show ?thesis
      using s2 by simp
  next
    case 2
    have "up_ok L n d"
      using ack_pkg_up [OF 2(1) assms(2)] assms(4) s2(4) by simp
    then show ?thesis
      using sendto_up [OF 2(2) _ s2(3)] s2(1,2) recv_same_trans by auto
  qed
qed

lemma recv_drain_up:
  assumes "recv_drain buf answers s = Inr (ps, answers', s')" and "length buf = STACK_BUF" and "sent_up L n s"
    and "unat (m_ui64LatestRecvedValidSeqNo s) \<le> L"
  shows "sent_up L n s' \<and> m_ui64LatestRecvedValidSeqNo s' = m_ui64LatestRecvedValidSeqNo s \<and>
    m_i32Type s' = m_i32Type s \<and> (pmem_wf s \<longrightarrow> pmem_wf s')"
  using assms
proof (induction buf answers s arbitrary: ps rule: recv_drain.induct)
  case (1 buf answers s)
  obtain code p answers1 s1 where nxt: "get_next_recved_data buf answers s = Inr (code, p, answers1, s1)"
    and rest: "(if code = CMNERR_SUC
      then bindr (recv_drain buf answers1 s1) (\<lambda>(ps, answers, s''). Inr (p # ps, answers, s''))
      else Inr ([], answers1, s1)) = Inr (ps, answers', s')"
    using 1(2) by (auto simp: recv_drain.simps [of buf answers s] bindr_Inr_iff)
  have s1: "sent_up L n s1 \<and> m_ui64LatestRecvedValidSeqNo s1 = m_ui64LatestRecvedValidSeqNo s \<and>
      m_i32Type s1 = m_i32Type s \<and> (pmem_wf s \<longrightarrow> pmem_wf s1)"
  proof (cases "case m_pMem s of None \<Rightarrow> False | Some b \<Rightarrow> get_len b > 0")
    case True
    then have "s1 = s\<lparr>m_pMem := None\<rparr>"
      using nxt by (auto simp: get_next_recved_data_def)
    then show ?thesis
      using 1(4) by (simp add: sent_up_def pmem_wf_def)
  next
    case no_mem: False
    show ?thesis
    proof (cases "0 < m_ui64ValidPkgBegin s \<and> m_ui64ValidPkgBegin s \<le> m_ui64ValidPkgEnd s")
      case True
      then obtain v where "s1 = s\<lparr>m_vecUnvalidPkgs := v, m_ui64ValidPkgBegin := m_ui64ValidPkgBegin s + 1\<rparr>"
        using nxt no_mem by (auto simp: get_next_recved_data_def bindr_Inr_iff Let_def)
      then show ?thesis
        using 1(4) by (simp add: sent_up_def pmem_wf_def)
    next
      case False
      let ?s = "s\<lparr>m_ui64ValidPkgBegin := 0, m_ui64ValidPkgEnd := 0\<rparr>"
      obtain answers2 where "set_ack False buf answers ?s = Inr (answers2, s1)"
        using False nxt no_mem by (auto simp: get_next_recved_data_def bindr_Inr_iff)
      from set_ack_up [OF this 1(3), of L n] 1(4,5) show ?thesis
        by (simp add: sent_up_def recv_same_def pmem_wf_def)
    qed
  qed
  show ?case
  proof (cases "code = CMNERR_SUC")
    case False
    then show ?thesis
      using rest s1 by simp
  next
    case True
    then obtain qs where "recv_drain buf answers1 s1 = Inr (qs, answers', s')"
      using rest by (auto simp: bindr_Inr_iff)
    from 1(1) [OF nxt refl refl refl True this 1(3)] s1 1(5) show ?thesis
      by auto
  qed
qed

lemma activate_quiet:
  "activate_unordered s = Inr s' \<Longrightarrow> sent s' = sent s \<and> m_i32Type s' = m_i32Type s \<and> m_pMem s' = m_pMem s"
  unfolding activate_unordered_def Let_def
  by (elim bindr_InrE)
    (auto simp del: find_valid_end.simps find_unvalid_begin.simps elim!: bindr_InrE split: if_splits)

lemma store_frame:
  "store_unordered q c s = Inr s' \<Longrightarrow> sent s' = sent s \<and> m_i32Type s' = m_i32Type s \<and> m_pMem s' = None \<and>
    m_ui64LatestRecvedValidSeqNo s' = m_ui64LatestRecvedValidSeqNo s"
  by (auto simp: store_unordered_def bindr_Inr_iff Let_def split: if_splits)

lemma odata_handle_frame:
  assumes "recvep_handle_odata s = Inr (code, s')" and "m_pMem s = Some b" and "mem_wf b" and "8 \<le> length (mem_data b)"
  shows "sent s' = sent s \<and> m_i32Type s' = m_i32Type s \<and> pmem_wf s' \<and>
    (code \<noteq> CMNERR_ODATA_READY \<longrightarrow> m_ui64LatestRecvedValidSeqNo s' = m_ui64LatestRecvedValidSeqNo s)"
proof -
  have wf: "mem_wf (dec_head_data 8 b)"
    using dec_head_data_wf [OF assms(3), of 8] length_mem_data [OF assms(3)] assms(4) by simp
  then have wf': "mem_wf (reset_mem False (dec_head_data 8 b))"
    by (simp add: reset_mem_wf)
  obtain seq where run: "(let b' = dec_head_data (word_of_nat sizeof_SRmpOdata) b; s = s\<lparr>m_pMem := Some b'\<rparr> in
     if seq = 1 + m_ui64LatestRecvedValidSeqNo s then
       let s = s\<lparr>m_ui64LatestRecvedValidSeqNo := m_ui64LatestRecvedValidSeqNo s + 1\<rparr> in
       bindr (if m_ui64LatestRecvedValidSeqNo s + 1 = m_ui64UnvalidPkgBegin s
              then activate_unordered s else Inr s) (\<lambda>s. Inr (CMNERR_ODATA_READY, s))
     else if seq \<le> m_ui64LatestRecvedValidSeqNo s
     then Inr (CMNERR_SUC, s\<lparr>m_pMem := Some (reset_mem False b')\<rparr>)
     else bindr (store_unordered seq b' s) (\<lambda>s. Inr (CMNERR_SUC, s))) = Inr (code, s')"
    using assms(1) unfolding recvep_handle_odata_def assms(2)
    by (elim bindr_InrE) (simp only: deref_simps sum.inject)
  let ?s = "s\<lparr>m_pMem := Some (dec_head_data 8 b)\<rparr>"
  let ?t = "?s\<lparr>m_ui64LatestRecvedValidSeqNo := m_ui64LatestRecvedValidSeqNo s + 1\<rparr>"
  consider (in_turn) s1 where "code = CMNERR_ODATA_READY" "s' = s1" "activate_unordered ?t = Inr s1 \<or> s1 = ?t"
    | (old) "code = CMNERR_SUC" "s' = ?s\<lparr>m_pMem := Some (reset_mem False (dec_head_data 8 b))\<rparr>"
    | (ahead) s1 where "code = CMNERR_SUC" "s' = s1" "store_unordered seq (dec_head_data 8 b) ?s = Inr s1"
    using run by (auto simp: Let_def simp del: find_valid_end.simps find_unvalid_begin.simps
      elim!: bindr_InrE split: if_splits)
  then show ?thesis
  proof cases
    case (in_turn s1)
    then have "sent s1 = sent s \<and> m_i32Type s1 = m_i32Type s \<and> m_pMem s1 = Some (dec_head_data 8 b)"
      using activate_quiet [of ?t s1] by auto
    then show ?thesis
      using in_turn wf by (simp add: pmem_wf_def)
  next
    case old
    then show ?thesis
      using wf' by (simp add: pmem_wf_def)
  next
    case (ahead s1)
    then show ?thesis
      using store_frame [OF ahead(3)] by (simp add: pmem_wf_def)
  qed
qed

text \<open>The invariant of a receiver when the sender has multicast up to \<open>n\<close>.\<close>

definition recv_good :: "(nat \<Rightarrow> bytes) \<Rightarrow> nat \<Rightarrow> nat \<Rightarrow> CMemBlock option list \<Rightarrow> CRmpSock \<Rightarrow> bool" where
  "recv_good pay M n ps s \<longleftrightarrow>
     (\<exists>A. A \<subseteq> {1..n} \<and> in_order pay A ps s) \<and> pmem_wf s \<and> length (m_vecUnvalidPkgs s) = M \<and>
     m_i32Type s = RMP_RECV_SOCK \<and> sent_up (unat (m_ui64LatestRecvedValidSeqNo s)) n s"

lemma recv_good_latest:
  assumes "recv_good pay M n ps s"
  shows "unat (m_ui64LatestRecvedValidSeqNo s) \<le> n"
proof -
  let ?L = "unat (m_ui64LatestRecvedValidSeqNo s)"
  obtain A where A: "A \<subseteq> {1..n}" "{1..?L} \<subseteq> A"
    using assms by (auto simp: recv_good_def in_order_def Let_def)
  show ?thesis
  proof (cases "1 \<le> ?L")
    case True
    then have "?L \<in> {1..?L}"
      by simp
    then have "?L \<in> {1..n}"
      using A by blast
    then show ?thesis
      by simp
  qed simp
qed

lemma odata_fields_carries:
  assumes "odata_fields sid seq payload d" and "mem_wf b" and "m_ui32Offset b = 0" and "mem_data b = d"
    and "m_bytes b = d @ rest" and "payload = pay (unat seq)" and "payload \<noteq> []"
  shows "carries pay seq (dec_head_data 8 b)"
proof -
  have len: "16 \<le> length d" and seq: "get_u64 8 0 d = Inr seq" and dat: "drop 16 d = payload"
    using assms(1) by (simp_all add: odata_fields_def)
  have "8 \<le> unat (m_ui32Len b)"
    using length_mem_data [OF assms(2)] assms(4) len by simp
  then have dec: "mem_wf (dec_head_data 8 b)" "mem_data (dec_head_data 8 b) = drop 8 d"
    using dec_head_data_wf [OF assms(2), of 8] assms(4) by simp_all
  moreover have "get_u64 (get_data (dec_head_data 8 b)) 0 (m_bytes (dec_head_data 8 b)) = Inr seq"
    using get_u64_append [OF seq, of rest] assms(3,5) by (simp add: dec_head_data_def get_data_def)
  ultimately show ?thesis
    using len dat assms(6,7) by (simp add: carries_def)
qed

lemma recver_odata:
  assumes good: "recv_good pay M n ps s" and b: "carries pay seq b" and q: "1 \<le> unat seq" "unat seq \<le> n"
    and win: "n \<le> unat (m_ui64LatestRecvedValidSeqNo s) + M + 1"
    and fits: "unat (m_ui64LatestRecvedValidSeqNo s) + M + 2 < 2 ^ 64"
    and run: "recvep_handle_odata (s\<lparr>m_pMem := Some b\<rparr>) = Inr (code, s')"
  shows "if code = CMNERR_ODATA_READY
    then \<forall>buf answers qs answers' s2. length buf = STACK_BUF \<longrightarrow> recv_drain buf answers s' = Inr (qs, answers', s2) \<longrightarrow>
      recv_good pay M n (ps @ qs) s2 \<and>
      m_ui64LatestRecvedValidSeqNo s \<le> m_ui64LatestRecvedValidSeqNo s2
    else recv_good pay M n ps s' \<and> m_ui64LatestRecvedValidSeqNo s' = m_ui64LatestRecvedValidSeqNo s"
proof -
  let ?L = "unat (m_ui64LatestRecvedValidSeqNo s)"
  obtain A where A: "A \<subseteq> {1..n}" "in_order pay A ps s"
    using good by (auto simp: recv_good_def)
  have len: "length (m_vecUnvalidPkgs s) = M"
    using good by (simp add: recv_good_def)
  have pos: "0 < seq"
    using q(1) by (simp add: word_less_nat_alt)
  have wf: "mem_wf b" "8 \<le> length (mem_data b)"
    using b by (simp_all add: carries_def)
  note frame = odata_handle_frame [OF run _ wf, simplified]
  have step: "in_order pay (insert (unat seq) A) (ps @ qs) s2 \<and> length (m_vecUnvalidPkgs s2) = M"
    if "recv_odata buf answers b s = Inr (qs, answers', s2)" for buf answers qs answers' s2
    using in_order_step [OF A(2) b pos _ _ that] q(2) win fits len by simp
  have sub: "insert (unat seq) A \<subseteq> {1..n}"
    using A(1) q by simp
  show ?thesis
  proof (cases "code = CMNERR_ODATA_READY")
    case False
    then have "recv_odata [] [] b s = Inr ([], [], s')"
      using run by (simp add: recv_odata_def)
    note inv = step [OF this]
    have "\<exists>A. A \<subseteq> {1..n} \<and> in_order pay A ps s'"
      using inv sub by (intro exI [of _ "insert (unat seq) A"]) simp
    then show ?thesis
      using False frame inv good by (simp add: recv_good_def sent_up_def)
  next
    case True
    have "recv_good pay M n (ps @ qs) s2 \<and> m_ui64LatestRecvedValidSeqNo s \<le> m_ui64LatestRecvedValidSeqNo s2"
      if buf: "length buf = STACK_BUF" and drain: "recv_drain buf answers s' = Inr (qs, answers', s2)"
      for buf answers qs answers' s2
    proof -
      have "recv_odata buf answers b s = Inr (qs, answers', s2)"
        using run True drain by (simp add: recv_odata_def)
      note inv = step [OF this]
      have up: "?L \<le> unat (m_ui64LatestRecvedValidSeqNo s2)"
      proof -
        have "{1..?L} \<subseteq> A"
          using A(2) by (simp add: in_order_def Let_def)
        moreover have "Suc (unat (m_ui64LatestRecvedValidSeqNo s2)) \<notin> insert (unat seq) A"
          using inv by (simp add: in_order_def Let_def)
        ultimately show ?thesis
          by (metis One_nat_def Suc_leI atLeastAtMost_iff insert_iff le_add1 not_le plus_1_eq_Suc subsetD)
      qed
      have same: "m_ui64LatestRecvedValidSeqNo s' = m_ui64LatestRecvedValidSeqNo s2"
      proof -
        have "sent_up ?L n s'"
          using frame good by (simp add: recv_good_def sent_up_def)
        then have "sent_up (unat (m_ui64LatestRecvedValidSeqNo s') + ?L) n s'"
          by (rule sent_up_mono) simp_all
        from recv_drain_up [OF drain buf this] show ?thesis
          by simp
      qed
      have "sent_up ?L n s'"
        using frame good by (simp add: recv_good_def sent_up_def)
      then have "sent_up (unat (m_ui64LatestRecvedValidSeqNo s')) n s'"
        by (rule sent_up_mono) (simp_all add: same up)
      note out = recv_drain_up [OF drain buf this order_refl]
      have "\<exists>A. A \<subseteq> {1..n} \<and> in_order pay A (ps @ qs) s2"
        using inv sub by (intro exI [of _ "insert (unat seq) A"]) simp
      then show ?thesis
        using out inv frame good up same by (simp add: recv_good_def word_le_nat_alt)
    qed
    then show ?thesis
      using True by simp
  qed
qed

text \<open>
  What a call of the receiver leaves behind: when a package is ready, the invariant holds
  once it and those behind it have been taken out; otherwise it holds at once.
\<close>

definition recv_outcome ::
  "(nat \<Rightarrow> bytes) \<Rightarrow> nat \<Rightarrow> nat \<Rightarrow> CMemBlock option list \<Rightarrow> CRmpSock \<Rightarrow> int \<Rightarrow> CRmpSock \<Rightarrow> bool" where
  "recv_outcome pay M n ps s code s' \<longleftrightarrow>
     (if code = CMNERR_ODATA_READY
      then \<forall>buf answers qs answers' s2. length buf = STACK_BUF \<longrightarrow> recv_drain buf answers s' = Inr (qs, answers', s2) \<longrightarrow>
        recv_good pay M n (ps @ qs) s2 \<and> m_ui64LatestRecvedValidSeqNo s \<le> m_ui64LatestRecvedValidSeqNo s2
      else recv_good pay M n ps s' \<and> m_ui64LatestRecvedValidSeqNo s' = m_ui64LatestRecvedValidSeqNo s)"

lemma recv_outcome_quiet:
  "recv_good pay M n ps s' \<Longrightarrow> recv_same s s' \<Longrightarrow> code \<noteq> CMNERR_ODATA_READY \<Longrightarrow> recv_outcome pay M n ps s code s'"
  by (simp add: recv_outcome_def recv_same_def)

lemma recv_outcome_from:
  assumes "m_ui64LatestRecvedValidSeqNo s0 = m_ui64LatestRecvedValidSeqNo s" and "recv_outcome pay M n ps s0 code s'"
  shows "recv_outcome pay M n ps s code s'"
  using assms(2) unfolding recv_outcome_def assms(1) .

lemma recv_good_frame:
  assumes "recv_good pay M n ps s" and "recv_same s s'" and "pmem_wf s'"
    and "sent_up (unat (m_ui64LatestRecvedValidSeqNo s)) n s'"
  shows "recv_good pay M n ps s'"
  using assms in_order_same [OF assms(2)] by (simp add: recv_good_def recv_same_def)

lemma hdr_append:
  "hdr_opcode p d = Inr x \<Longrightarrow> hdr_opcode p (d @ rest) = Inr x"
  "hdr_src_id p d = Inr x \<Longrightarrow> hdr_src_id p (d @ rest) = Inr x"
  by (simp_all add: hdr_opcode_def hdr_src_id_def get_field_append)

lemma get_u64_length: "get_u64 p i d = Inr x \<Longrightarrow> p + 8 * i + 8 \<le> length d"
  by (auto simp: get_u64_def get_field_def bindr_Inr_iff read_at_def split: if_splits)

lemma recver_hb:
  assumes good: "recv_good pay M n ps s" and b: "m_pMem s = Some b" "mem_wf b"
    and latest: "get_u64 (get_data b) 0 (m_bytes b) = Inr latest" "unat latest \<le> n"
    and buf: "length buf = STACK_BUF" and fits: "unat (m_ui64LatestRecvedValidSeqNo s) + 1 < 2 ^ 64"
    and run: "recvep_handle_hb buf answers s = Inr (code, answers', s')"
  shows "recv_good pay M n ps s' \<and> recv_same s s' \<and> code \<noteq> CMNERR_ODATA_READY"
proof -
  let ?L = "m_ui64LatestRecvedValidSeqNo s"
  obtain s1 where ask: "(if latest > ?L
      then bindr (nak_pkg (?L + 1) latest (m_epid s) buf) (\<lambda>d. udp_send_bytes d (m_addrSender s) answers s)
      else Inr (CMNERR_SUC, answers, s)) = Inr (code, answers', s1)"
    and s': "s' = s1\<lparr>m_pMem := Some (reset_mem False b)\<rparr>"
    using run b latest by (auto simp: recvep_handle_hb_def elim!: bindr_InrE)
  have up: "sent_up (unat ?L) n s"
    using good by (simp add: recv_good_def)
  have "recv_same s s1 \<and> sent_up (unat ?L) n s1 \<and> code \<noteq> CMNERR_ODATA_READY"
  proof (cases "latest > ?L")
    case False
    then show ?thesis
      using ask up by simp
  next
    case True
    then obtain d where d: "nak_pkg (?L + 1) latest (m_epid s) buf = Inr d"
        "udp_send_bytes d (m_addrSender s) answers s = Inr (code, answers', s1)"
      using ask by (auto elim!: bindr_InrE)
    have "0 < ?L + 1"
      using fits unat_add_fits [of ?L 1] by (simp add: word_less_nat_alt)
    then have "up_ok (unat ?L) n d"
      using nak_pkg_up [OF d(1) buf] latest(2) by simp
    then show ?thesis
      using sendto_up [OF d(2) _ up] sendto_loop_cases [of d "m_addrSender s" answers s code answers' s1] d(2)
      by (auto simp: udp_send_bytes_def)
  qed
  moreover have "recv_same s1 s'" "sent s' = sent s1" "pmem_wf s'"
    using s' b(2) by (simp_all add: recv_same_def pmem_wf_def reset_mem_wf)
  ultimately show ?thesis
    using recv_good_frame [OF good, of s'] recv_same_trans [of s s1 s'] by (simp add: sent_up_def)
qed

text \<open>The block that \<open>udp_recv\<close> filled with a datagram.\<close>

definition holds :: "bytes \<Rightarrow> CMemBlock \<Rightarrow> bool" where
  "holds d b \<longleftrightarrow> mem_wf b \<and> m_ui32Offset b = 0 \<and> mem_data b = d \<and> (\<exists>rest. m_bytes b = d @ rest) \<and>
     unat (m_ui32Len b) = length d"

lemma holds_reads:
  assumes "holds d b"
  shows "hdr_opcode 0 d = Inr x \<Longrightarrow> hdr_opcode (get_data b) (m_bytes b) = Inr x"
    and "hdr_src_id 0 d = Inr y \<Longrightarrow> hdr_src_id (get_data b) (m_bytes b) = Inr y"
    and "get_u64 8 i d = Inr z \<Longrightarrow> get_u64 (get_data (dec_head_data 8 b)) i (m_bytes (dec_head_data 8 b)) = Inr z"
    and "8 \<le> length d \<Longrightarrow> mem_wf (dec_head_data 8 b)"
  using assms dec_head_data_wf [of b 8]
  by (auto simp: holds_def hdr_append get_data_def dec_head_data_def get_u64_append)

lemma recver_pkg:
  assumes good: "recv_good pay M n ps s" and b: "holds d b" and d: "down_ok sid pay n d"
    and buf: "length buf = STACK_BUF" and full: "\<forall>q. pay q \<noteq> []" and n: "n < 2 ^ 64"
    and win: "n \<le> unat (m_ui64LatestRecvedValidSeqNo s) + M + 1"
    and fits: "unat (m_ui64LatestRecvedValidSeqNo s) + M + 2 < 2 ^ 64"
    and run: "recvep_handle_pkg buf answers src (s\<lparr>m_pMem := Some b\<rparr>) = Inr (code, answers', s')"
  shows "recv_outcome pay M n ps s code s'"
proof -
  let ?b = "dec_head_data 8 b"
  define s1 where "s1 = (if sin_addr (m_addrSender s) \<noteq> sin_addr src \<or> sin_port (m_addrSender s) \<noteq> sin_port src
    then s\<lparr>m_pMem := Some ?b, m_addrSender := src\<rparr> else s\<lparr>m_pMem := Some ?b\<rparr>)"
  have s1: "s1 = s\<lparr>m_pMem := Some ?b\<rparr> \<or> s1 = s\<lparr>m_pMem := Some ?b, m_addrSender := src\<rparr>"
    by (simp add: s1_def)
  obtain opc where opc: "hdr_opcode (get_data b) (m_bytes b) = Inr opc"
    and go: "opc = opcode_val EP_DATA \<and> recvep_handle_odata s1 = Inr (code, s') \<or>
      opc = opcode_val EP_HB \<and> recvep_handle_hb buf answers s1 = Inr (code, answers', s')"
    using run by (auto simp: recvep_handle_pkg_def s1_def Let_def elim!: bindr_InrE split: if_splits)
  from d show ?thesis
    unfolding down_ok_def
  proof (elim disjE exE conjE)
    fix q assume q: "1 \<le> q" "q \<le> n" and fields: "odata_fields sid (word_of_nat q) (pay q) d"
    have num: "unat (word_of_nat q :: u64) = q"
      using q(2) n by (intro unat_word_of_nat_u64) simp
    obtain rest where "m_bytes b = d @ rest"
      using b by (auto simp: holds_def)
    then have carry: "carries pay (word_of_nat q) ?b"
      using odata_fields_carries [OF fields, of b rest pay] b full num by (simp add: holds_def)
    have "hdr_opcode (get_data b) (m_bytes b) = Inr (opcode_val EP_DATA)"
      using holds_reads(1) [OF b] fields by (simp add: odata_fields_def)
    then have odata: "recvep_handle_odata s1 = Inr (code, s')"
      using go opc by auto
    define s0 where "s0 = s1\<lparr>m_pMem := None\<rparr>"
    have s0: "recv_same s s0" "sent s0 = sent s" "s0\<lparr>m_pMem := Some ?b\<rparr> = s1" "pmem_wf s0"
      using s1 by (auto simp: s0_def recv_same_def pmem_wf_def)
    have good0: "recv_good pay M n ps s0"
      using recv_good_frame [OF good s0(1,4)] good s0(2) by (simp add: recv_good_def sent_up_def)
    have same: "m_ui64LatestRecvedValidSeqNo s0 = m_ui64LatestRecvedValidSeqNo s"
      using s0(1) by (simp add: recv_same_def)
    have "recv_outcome pay M n ps s0 code s'"
      unfolding recv_outcome_def
      by (rule recver_odata [OF good0 carry]) (use num q win fits odata s0(3) same in simp_all)
    then show ?thesis
      by (rule recv_outcome_from [OF same])
  next
    fix latest assume hb: "hdr_opcode 0 d = Inr (opcode_val EP_HB)" "get_u64 8 0 d = Inr latest" "unat latest \<le> n"
    have "hdr_opcode (get_data b) (m_bytes b) = Inr (opcode_val EP_HB)"
      using holds_reads(1) [OF b hb(1)] .
    then have run1: "recvep_handle_hb buf answers s1 = Inr (code, answers', s')"
      using go opc by auto
    have wf: "mem_wf ?b"
      using holds_reads(4) [OF b] get_u64_length [OF hb(2)] by simp
    have s1': "recv_same s s1" "sent s1 = sent s" "m_pMem s1 = Some ?b"
      using s1 by (auto simp: recv_same_def)
    have good1: "recv_good pay M n ps s1"
      using recv_good_frame [OF good s1'(1)] good wf s1'(2,3) by (simp add: recv_good_def sent_up_def pmem_wf_def)
    have "m_ui64LatestRecvedValidSeqNo s1 = m_ui64LatestRecvedValidSeqNo s"
      using s1'(1) by (simp add: recv_same_def)
    then show ?thesis
      using recver_hb [OF good1 s1'(3) wf holds_reads(3) [OF b hb(2)] hb(3) buf _ run1] fits
        recv_same_trans [OF s1'(1)] by (auto intro: recv_outcome_quiet)
  qed
qed

text \<open>The whole loop: every datagram of the rounds was sent by the sender.\<close>

definition good_round :: "(bytes \<Rightarrow> bool) \<Rightarrow> recv_round \<Rightarrow> bool" where
  "good_round P v \<longleftrightarrow> length (rd_raw v) < 2 ^ 32 \<and> length (rd_buf v) = STACK_BUF \<and>
     (\<forall>d a. rd_dgram v = Os_ok (d, a) \<longrightarrow> P d)"

lemma udp_recv_holds:
  assumes "udp_recv ans b = Inr (code, b', src)" and "mem_wf b"
  shows "(code = CMNERR_SUC \<and> (\<exists>d a. ans = Os_ok (d, a) \<and> src = Some a \<and> holds d b')) \<or>
    (code \<noteq> CMNERR_SUC \<and> code \<noteq> CMNERR_ODATA_READY \<and> b' = b)"
proof (cases ans)
  case (Os_fail e)
  then show ?thesis
    using udp_recv_fail [of e b code b' src] assms(1) by simp
next
  case (Os_ok x)
  then obtain d a where ans: "ans = Os_ok (d, a)"
    by (cases x) simp
  then show ?thesis
    using udp_recv_block [OF assms(1) [unfolded ans] assms(2)] by (simp add: holds_def)
qed

lemma recver_loop:
  assumes "rmp_handle_can_recv ops vs s = Inr (code, s')" and "recv_good pay M n ps s"
    and "\<forall>v \<in> set vs. good_round (down_ok sid pay n) v" and full: "\<forall>q. pay q \<noteq> []" and n: "n < 2 ^ 64"
    and "n \<le> unat (m_ui64LatestRecvedValidSeqNo s) + M + 1"
    and "unat (m_ui64LatestRecvedValidSeqNo s) + M + 2 < 2 ^ 64"
  shows "recv_outcome pay M n ps s code s'"
  using assms(1-3,6,7)
proof (induction vs arbitrary: s)
  case Nil
  then show ?case by simp
next
  case (Cons v vs)
  have round: "length (rd_raw v) < 2 ^ 32" "length (rd_buf v) = STACK_BUF"
    "\<And>d a. rd_dgram v = Os_ok (d, a) \<Longrightarrow> down_ok sid pay n d"
    using Cons.prems(3) by (auto simp: good_round_def)
  have kind: "m_i32Type s = RMP_RECV_SOCK" and pwf: "pmem_wf s"
    using Cons.prems(2) by (simp_all add: recv_good_def)
  obtain b c b1 src where b: "ready_mem (rd_raw v) s = Inr b" "udp_recv (rd_dgram v) b = Inr (c, b1, src)"
    and rest: "(let s = s\<lparr>m_pMem := Some b1\<rparr> in
      if c \<noteq> CMNERR_SUC then Inr (c, s)
      else bindr (deref src) (\<lambda>src. bindr (handle_pkg ops v src s) (\<lambda>(code, answers, s).
           if code \<noteq> CMNERR_SUC then Inr (code, s) else rmp_handle_can_recv ops vs s))) = Inr (code, s')"
    using Cons.prems(1) by (auto elim!: bindr_InrE)
  have wf: "mem_wf b"
    using ready_mem_wf [OF b(1) pwf round(1)] .
  from udp_recv_holds [OF b(2) wf] show ?case
  proof (elim disjE conjE exE)
    assume fail: "c \<noteq> CMNERR_SUC" "c \<noteq> CMNERR_ODATA_READY" "b1 = b"
    then have "code = c" "s' = s\<lparr>m_pMem := Some b\<rparr>"
      using rest by simp_all
    moreover have "recv_good pay M n ps (s\<lparr>m_pMem := Some b\<rparr>)"
      by (rule recv_good_frame [OF Cons.prems(2)])
        (use Cons.prems(2) wf in \<open>simp_all add: recv_same_def pmem_wf_def recv_good_def sent_up_def\<close>)
    ultimately show ?thesis
      using fail(2) by (intro recv_outcome_quiet) (simp_all add: recv_same_def)
  next
    fix d a assume got: "c = CMNERR_SUC" "rd_dgram v = Os_ok (d, a)" "src = Some a" "holds d b1"
    obtain c2 answers2 s2 where
      pkg: "recvep_handle_pkg (rd_buf v) (rd_answers v) a (s\<lparr>m_pMem := Some b1\<rparr>) = Inr (c2, answers2, s2)"
      and next_round: "(if c2 \<noteq> CMNERR_SUC then Inr (c2, s2) else rmp_handle_can_recv ops vs s2) = Inr (code, s')"
      using rest got(1,3) kind by (auto simp: handle_pkg_def elim!: bindr_InrE)
    have out: "recv_outcome pay M n ps s c2 s2"
      by (rule recver_pkg [OF Cons.prems(2) got(4) round(3) [OF got(2)] round(2) full n Cons.prems(4,5) pkg])
    show ?thesis
    proof (cases "c2 = CMNERR_SUC")
      case False
      then show ?thesis
        using next_round out by simp
    next
      case True
      then have again: "rmp_handle_can_recv ops vs s2 = Inr (code, s')" and good2: "recv_good pay M n ps s2"
        and same: "m_ui64LatestRecvedValidSeqNo s2 = m_ui64LatestRecvedValidSeqNo s"
        using next_round out by (simp_all add: recv_outcome_def)
      have "recv_outcome pay M n ps s2 code s'"
        using Cons.IH [OF again good2] Cons.prems(3-5) same by simp
      then show ?thesis
        by (rule recv_outcome_from [OF same])
    qed
  qed
qed

lemma recver_input:
  assumes run: "rmp_input ops vs buf answers s = Inr (code, qs, s')" and buf: "length buf = STACK_BUF"
    and "recv_good pay M n ps s" and "\<forall>v \<in> set vs. good_round (down_ok sid pay n) v" and "\<forall>q. pay q \<noteq> []"
    and "n < 2 ^ 64" and "n \<le> unat (m_ui64LatestRecvedValidSeqNo s) + M + 1"
    and "unat (m_ui64LatestRecvedValidSeqNo s) + M + 2 < 2 ^ 64"
  shows "recv_good pay M n (ps @ qs) s' \<and> m_ui64LatestRecvedValidSeqNo s \<le> m_ui64LatestRecvedValidSeqNo s'"
proof -
  obtain s1 where loop: "rmp_handle_can_recv ops vs s = Inr (code, s1)"
    and rest: "(if code = CMNERR_ODATA_READY
      then bindr (recv_drain buf answers s1) (\<lambda>(ps, answers, s). Inr (code, ps, s))
      else Inr (code, [], s1)) = Inr (code, qs, s')"
    using run by (auto simp: rmp_input_def elim!: bindr_InrE split: if_splits)
  note out = recver_loop [OF loop assms(3-8)]
  show ?thesis
  proof (cases "code = CMNERR_ODATA_READY")
    case False
    then show ?thesis
      using rest out by (simp add: recv_outcome_def)
  next
    case True
    then obtain answers2 where "recv_drain buf answers s1 = Inr (qs, answers2, s')"
      using rest by (auto elim!: bindr_InrE)
    then show ?thesis
      using out True buf by (simp add: recv_outcome_def)
  qed
qed

lemma waiting_begin:
  assumes "recv_good pay M n ps s" and "m_ui64LatestRecvedValidSeqNo s < m_ui64UnvalidPkgBegin s"
  shows "unat (m_ui64UnvalidPkgBegin s) \<le> n"
proof -
  let ?L = "unat (m_ui64LatestRecvedValidSeqNo s)"
  obtain A where A: "A \<subseteq> {1..n}" "waiting pay {q \<in> A. ?L < q} s"
    using assms(1) by (auto simp: recv_good_def in_order_def Let_def)
  have ends: "ends_of {q \<in> A. ?L < q} (m_ui64UnvalidPkgBegin s) (m_ui64UnvalidPkgEnd s)"
    using A(2) by (simp add: waiting_def)
  moreover have "m_ui64UnvalidPkgBegin s \<noteq> 0"
    using assms(2) by auto
  ultimately have ne: "{q \<in> A. ?L < q} \<noteq> {}" and mini: "unat (m_ui64UnvalidPkgBegin s) = Min {q \<in> A. ?L < q}"
    by (auto simp: ends_of_def split: if_splits)
  have "finite {q \<in> A. ?L < q}"
    using A(1) finite_subset [of A "{1..n}"] by simp
  then have "Min {q \<in> A. ?L < q} \<in> {q \<in> A. ?L < q}"
    using ne Min_in by blast
  then have "Min {q \<in> A. ?L < q} \<in> {1..n}"
    using A(1) by blast
  then show ?thesis
    using mini by simp
qed

lemma recver_timer:
  assumes good: "recv_good pay M n ps s" and bufs: "length buf = STACK_BUF" "length nak_buf = STACK_BUF"
    and run: "recvep_handle_can_send now buf nak_buf answers s = Inr (code, answers', s')"
  shows "recv_good pay M n ps s' \<and> m_ui64LatestRecvedValidSeqNo s' = m_ui64LatestRecvedValidSeqNo s"
proof -
  let ?L = "m_ui64LatestRecvedValidSeqNo s"
  have up: "sent_up (unat ?L) n s" and pwf: "pmem_wf s"
    using good by (simp_all add: recv_good_def)
  define s1 where "s1 = (if m_ui64LastSendAckTime s = 0 then s\<lparr>m_ui64LastSendAckTime := now\<rparr> else s)"
  have s1: "recv_same s s1" "m_pMem s1 = m_pMem s" "sent s1 = sent s"
    by (simp_all add: s1_def recv_same_def)
  obtain answers1 s2 where ack: "(if now - m_ui64LastSendAckTime s1 > SEND_ACK_INTERVAL
      then set_ack True buf answers (s1\<lparr>m_ui64LastSendAckTime := now\<rparr>) else Inr (answers, s1)) = Inr (answers1, s2)"
    and rest: "(let s = (if m_ui64LastSendNakTime s2 = 0 then s2\<lparr>m_ui64LastSendNakTime := now\<rparr> else s2) in
      if now - m_ui64LastSendNakTime s > SEND_NAK_INTERVAL \<and>
         m_ui64LatestRecvedValidSeqNo s < m_ui64UnvalidPkgBegin s
      then let s = s\<lparr>m_ui64LastSendNakTime := now\<rparr>;
               fst_lost = m_ui64LatestRecvedValidSeqNo s + 1; lst_lost = m_ui64UnvalidPkgBegin s - 1 in
           bindr (nak_pkg fst_lost lst_lost (m_epid s) nak_buf) (\<lambda>d.
           if fst_lost \<le> lst_lost
           then bindr (udp_send_bytes d (m_addrSender s) answers1 s) (\<lambda>(code, answers, s).
                bindr (cmn_assert (code = CMNERR_SUC)) (\<lambda>_. Inr (CMNERR_SUC, answers, s)))
           else Inr (CMNERR_SUC, answers1, s))
      else Inr (CMNERR_SUC, answers1, s)) = Inr (code, answers', s')"
    using run unfolding recvep_handle_can_send_def s1_def [symmetric] Let_def
    by (elim bindr_InrE) (clarsimp simp only: prod.case prod.collapse split: prod.splits)
  have s2: "recv_same s s2 \<and> m_pMem s2 = m_pMem s \<and> sent_up (unat ?L) n s2"
  proof (cases "now - m_ui64LastSendAckTime s1 > SEND_ACK_INTERVAL")
    case False
    then show ?thesis
      using ack s1 up by (auto simp: sent_up_def)
  next
    case True
    let ?t = "s1\<lparr>m_ui64LastSendAckTime := now\<rparr>"
    have "recv_same s ?t" "m_pMem ?t = m_pMem s" "sent_up (unat ?L) n ?t"
      using s1 up by (simp_all add: recv_same_def sent_up_def)
    moreover have "set_ack True buf answers ?t = Inr (answers1, s2)"
      using ack True by simp
    ultimately show ?thesis
      using set_ack_up [of True buf answers ?t answers1 s2 "unat ?L" n] bufs(1) recv_same_trans [of s ?t s2]
      by (simp add: recv_same_def)
  qed
  define s3 where "s3 = (if m_ui64LastSendNakTime s2 = 0 then s2\<lparr>m_ui64LastSendNakTime := now\<rparr> else s2)"
  have s3: "recv_same s s3" "m_pMem s3 = m_pMem s" "sent_up (unat ?L) n s3"
    using s2 by (simp_all add: s3_def recv_same_def sent_up_def)
  have "recv_same s s' \<and> m_pMem s' = m_pMem s \<and> sent_up (unat ?L) n s'"
  proof (cases "now - m_ui64LastSendNakTime s3 > SEND_NAK_INTERVAL \<and>
      m_ui64LatestRecvedValidSeqNo s3 < m_ui64UnvalidPkgBegin s3")
    case False
    then show ?thesis
      using rest s3 unfolding s3_def [symmetric] Let_def by auto
  next
    case True
    define t where "t = s3\<lparr>m_ui64LastSendNakTime := now\<rparr>"
    have t: "recv_same s t" "m_pMem t = m_pMem s" "sent_up (unat ?L) n t"
      using s3 by (simp_all add: t_def recv_same_def sent_up_def)
    let ?f = "m_ui64LatestRecvedValidSeqNo t + 1" and ?l = "m_ui64UnvalidPkgBegin t - 1"
    obtain d where d: "nak_pkg ?f ?l (m_epid t) nak_buf = Inr d"
      and tail: "(if ?f \<le> ?l
        then bindr (udp_send_bytes d (m_addrSender t) answers1 t) (\<lambda>(code, answers, s).
             bindr (cmn_assert (code = CMNERR_SUC)) (\<lambda>_. Inr (CMNERR_SUC, answers, s)))
        else Inr (CMNERR_SUC, answers1, t)) = Inr (code, answers', s')"
      using rest True unfolding s3_def [symmetric] Let_def t_def by (auto elim!: bindr_InrE)
    show ?thesis
    proof (cases "?f \<le> ?l")
      case False
      then show ?thesis
        using tail t by simp
    next
      case go: True
      then obtain c where c: "udp_send_bytes d (m_addrSender t) answers1 t = Inr (c, answers', s')"
        using tail by (auto elim!: bindr_InrE)
      have same: "m_ui64LatestRecvedValidSeqNo t = ?L" "m_ui64UnvalidPkgBegin t = m_ui64UnvalidPkgBegin s"
        using t(1) by (simp_all add: recv_same_def)
      have lt: "?L < m_ui64UnvalidPkgBegin s"
        using True s3(1) by (simp add: recv_same_def)
      then have "unat ?L + 1 < 2 ^ 64"
        using unat_u64_lt [of "m_ui64UnvalidPkgBegin s"] by (simp add: word_less_nat_alt)
      then have "0 < ?f"
        unfolding same using unat_add_fits [of ?L 1] by (simp add: word_less_nat_alt)
      moreover have "1 \<le> m_ui64UnvalidPkgBegin s"
        using lt by (simp add: word_le_nat_alt word_less_nat_alt)
      then have "unat ?l \<le> n"
        unfolding same using waiting_begin [OF good lt] by (simp add: unat_sub_fits)
      ultimately have "up_ok (unat ?L) n d"
        using nak_pkg_up [OF d bufs(2)] by simp
      then show ?thesis
        using sendto_up [OF c _ t(3)] t(1,2) recv_same_trans [of s t s'] by simp
    qed
  qed
  then show ?thesis
    using recv_good_frame [OF good, of s'] pwf by (simp add: pmem_wf_def recv_same_def)
qed

section \<open>The sender's side\<close>

text \<open>The invariant of a sender whose receiver has taken everything up to \<open>L\<close>.\<close>

definition send_good :: "(nat \<Rightarrow> bytes) \<Rightarrow> u8 \<Rightarrow> nat \<Rightarrow> nat \<Rightarrow> CRmpSock \<Rightarrow> bool" where
  "send_good pay sid M L s \<longleftrightarrow>
     sender_inv pay s \<and> acks_below L s \<and> pmem_wf s \<and> m_i32Type s = RMP_SEND_SOCK \<and> m_ui8SenderId s = sid \<and>
     L \<le> unat (m_ui64SendingSeqNo s) \<and> unat (m_ui64ValidSendingDataHead s) \<le> L + 1 \<and>
     unat (m_ui64SendingSeqNo s) \<le> unat (m_ui64ValidSendingDataHead s) + unat (m_ui32SenderWinSize s) div 10 \<and>
     unat (m_ui32SenderWinSize s) div 10 \<le> M \<and> unat (m_ui64ValidSendingDataTail s) + M + 1 < 2 ^ 64 \<and>
     (\<forall>x \<in> set (sent s). down_ok sid pay (unat (m_ui64SendingSeqNo s)) (fst x))"

text \<open>The flow control keeps what is sent within the receiver's window.\<close>

lemma send_good_window:
  assumes "send_good pay sid M L s"
  shows "unat (m_ui64SendingSeqNo s) \<le> L + M + 1" and "L + M + 2 < 2 ^ 64"
  using assms by (auto simp: send_good_def sender_inv_def)

lemma send_good_more:
  assumes "send_good pay sid M L s" and "L \<le> L'" and "L' \<le> unat (m_ui64SendingSeqNo s)"
  shows "send_good pay sid M L' s"
  using assms by (auto simp: send_good_def acks_below_def intro: order_trans)

lemma carry_down:
  assumes "carry sid pay dest [a..<b] ds" and "1 \<le> a" and "b \<le> n + 1" and "x \<in> set ds"
  shows "down_ok sid pay n (fst x)"
proof -
  obtain i where i: "i < length ds" "x = ds ! i"
    using assms(4) by (auto simp: in_set_conv_nth)
  have "list_all2 (\<lambda>q d. snd d = dest \<and> odata_fields sid (word_of_nat q) (pay q) (fst d)) [a..<b] ds"
    using assms(1) by (simp add: carry_def)
  then have "odata_fields sid (word_of_nat ([a..<b] ! i)) (pay ([a..<b] ! i)) (fst x)" "i < b - a"
    using i list_all2_lengthD list_all2_nthD2 by fastforce+
  then have "odata_fields sid (word_of_nat (a + i)) (pay (a + i)) (fst x)" "1 \<le> a + i" "a + i \<le> n"
    using assms(2,3) by simp_all
  then show ?thesis
    unfolding down_ok_def by blast
qed

lemma rmp_send_same:
  "rmp_send b s = Inr (code, p, s') \<Longrightarrow> sent s' = sent s \<and> m_pMem s' = m_pMem s \<and> m_i32Type s' = m_i32Type s \<and>
    m_ui8SenderId s' = m_ui8SenderId s"
  by (auto simp: rmp_send_def Let_def bindr_Inr_iff split: prod.splits if_splits)

lemma sender_app:
  assumes good: "send_good pay sid M L s" and b: "mem_wf b" "unat (get_offset b) = 16"
    and pay: "mem_data b = pay (unat (m_ui64ValidSendingDataTail s))"
    and fits: "unat (m_ui64ValidSendingDataTail s) + M + 2 < 2 ^ 64"
    and run: "rmp_send b s = Inr (code, p, s')"
  shows "send_good pay sid M L s' \<and> m_ui64SendingSeqNo s' = m_ui64SendingSeqNo s"
proof -
  have inv: "sender_inv pay s" and big: "unat (m_ui64ValidSendingDataTail s) + 1 < 2 ^ 64"
    using good fits by (simp_all add: send_good_def)
  have same: "pay(unat (m_ui64ValidSendingDataTail s) := mem_data b) = pay"
    using pay by simp
  have "s' = s \<or> sender_inv pay s' \<and> m_ui64ValidSendingDataTail s' = m_ui64ValidSendingDataTail s + 1 \<and>
      m_ui64ValidSendingDataHead s' = m_ui64ValidSendingDataHead s"
    using rmp_send_spec [OF inv b big] run unfolding same by (auto split: if_splits)
  then show ?thesis
  proof
    assume "s' = s"
    then show ?thesis
      using good by simp
  next
    assume new: "sender_inv pay s' \<and> m_ui64ValidSendingDataTail s' = m_ui64ValidSendingDataTail s + 1 \<and>
      m_ui64ValidSendingDataHead s' = m_ui64ValidSendingDataHead s"
    have "unat (m_ui64ValidSendingDataTail s + 1) = unat (m_ui64ValidSendingDataTail s) + 1"
      using big by (simp add: unat_add_fits)
    then show ?thesis
      using new good fits rmp_send_frame [OF run] rmp_send_same [OF run]
      by (simp add: send_good_def acks_below_def pmem_wf_def)
  qed
qed

lemma sender_multicast:
  assumes good: "send_good pay sid M L s" and buf: "length buf = STACK_BUF"
    and run: "sendep_handle_can_send now buf answers s = Inr (code, answers', s')"
  shows "send_good pay sid M L s' \<and> unat (m_ui64SendingSeqNo s) \<le> unat (m_ui64SendingSeqNo s')"
proof -
  let ?S = "unat (m_ui64SendingSeqNo s)"
  have inv: "sender_inv pay s"
    using good by (simp add: send_good_def)
  obtain k ds hb t where s': "s' = s\<lparr>m_ui64SendingSeqNo := word_of_nat (?S + k),
      m_ui64LastHbTime := t, sent := sent s @ ds @ hb\<rparr>"
    and ds: "carry (m_ui8SenderId s) pay (m_addrMulticast s) [?S + 1..<?S + 1 + k] ds"
    and lt: "?S + k < unat (m_ui64ValidSendingDataTail s)" and inv': "sender_inv pay s'"
    and win: "k = 0 \<or> ?S + k \<le> unat (m_ui64ValidSendingDataHead s) + unat (m_ui32SenderWinSize s) div 10"
    and hb: "\<forall>x \<in> set hb. hb_pkg (m_ui8SenderId s) (word_of_nat (?S + k)) (m_ui64ValidSendingDataHead s) buf = Inr (fst x)"
    using sendep_can_send_spec [OF run inv] by (elim exE conjE) (rule that; assumption)
  have num: "unat (word_of_nat (?S + k) :: u64) = ?S + k"
    using lt unat_u64_lt [of "m_ui64ValidSendingDataTail s"] by (intro unat_word_of_nat_u64) simp
  have sid: "m_ui8SenderId s = sid"
    using good by (simp add: send_good_def)
  have "down_ok sid pay (?S + k) (fst x)" if "x \<in> set (sent s')" for x
  proof -
    from that s' consider "x \<in> set (sent s)" | "x \<in> set ds" | "x \<in> set hb"
      by auto
    then show ?thesis
    proof cases
      case 1
      then have "down_ok sid pay ?S (fst x)"
        using good by (simp add: send_good_def)
      then show ?thesis
        by (rule down_ok_mono) simp_all
    next
      case 2
      then show ?thesis
        using carry_down [OF ds [unfolded sid]] by simp
    next
      case 3
      then have "hb_pkg (m_ui8SenderId s) (word_of_nat (?S + k)) (m_ui64ValidSendingDataHead s) buf = Inr (fst x)"
        using hb by blast
      then show ?thesis
        by (rule hb_pkg_down [OF _ buf]) (simp only: num)
    qed
  qed
  then show ?thesis
    using good inv' num lt win s' by (auto simp: send_good_def acks_below_def pmem_wf_def)
qed

lemma reset_dec_wf: "mem_wf b \<Longrightarrow> mem_wf (reset_mem False (dec_head_data k b))"
  by (simp add: mem_wf_def reset_mem_def dec_head_data_def)

lemma sender_got:
  assumes good: "send_good pay sid M L s" and same: "sender_same s s'" "pmem_wf s'"
    and new: "sender_inv pay s'" "acks_below L s'"
    and head: "m_ui64ValidSendingDataHead s \<le> m_ui64ValidSendingDataHead s'" "unat (m_ui64ValidSendingDataHead s') \<le> L + 1"
    and log: "\<forall>x \<in> set (sent s'). down_ok sid pay (unat (m_ui64SendingSeqNo s)) (fst x)"
  shows "send_good pay sid M L s'"
  using assms by (simp add: send_good_def sender_same_def word_le_nat_alt)

lemma resend_range_code:
  "resend_range i e code0 answers s = Inr (code, answers', s') \<Longrightarrow> code0 \<noteq> CMNERR_ODATA_READY \<Longrightarrow>
   code \<noteq> CMNERR_ODATA_READY"
proof (induction i e code0 answers s rule: resend_range.induct)
  case (1 i e code0 answers s)
  show ?case
  proof (cases "i \<le> e")
    case False
    then show ?thesis
      using 1(3,4) by (simp add: resend_range.simps [of i e code0 answers s])
  next
    case True
    then obtain p c answers1 s1 where get: "vec_get (m_vecSendWin s) (win_slot i s) = Inr p"
        "udp_send_mem p (m_addrMulticast s) answers s = Inr (c, answers1, s1)"
      and rest: "(if c = CMNERR_SEND_PENDING then resend_range i e c answers1 s1
         else if c \<noteq> CMNERR_SUC then Inr (c, answers1, s1)
         else resend_range (i + 1) e c answers1 s1) = Inr (code, answers', s')"
      using 1(3) by (auto simp: resend_range.simps [of i e code0 answers s] bindr_Inr_iff)
    obtain b d where "sendto_loop d (m_addrMulticast s) answers s = Inr (c, answers1, s1)"
      using get(2) by (auto simp: udp_send_mem_def elim!: bindr_InrE)
    then have c: "c = CMNERR_SUC \<or> c = CMNERR_SEND_PENDING \<or> c = CMNERR_IO_ERR"
      using sendto_loop_cases by blast
    then show ?thesis
      using 1(1,2) [OF True get refl refl] rest by (auto split: if_splits)
  qed
qed

lemma nak_code:
  "sendep_handle_nak ops now answers s = Inr (code, answers', s') \<Longrightarrow> code \<noteq> CMNERR_ODATA_READY"
  by (auto simp: sendep_handle_nak_def Let_def split: if_splits elim!: bindr_InrE dest!: resend_range_code)

lemma sender_ack:
  assumes ops: "good_container ops" and good: "send_good pay sid M L s"
    and b: "m_pMem s = Some b" "mem_wf b" "ack_in seq epid b" and seq: "unat seq \<le> L"
    and run: "sendep_handle_ack ops now s = Inr (code, s')"
  shows "send_good pay sid M L s' \<and> sender_same s s' \<and> code \<noteq> CMNERR_ODATA_READY"
proof -
  have pre: "sender_inv pay s" "acks_below L s" "L \<le> unat (m_ui64SendingSeqNo s)"
    "unat (m_ui64ValidSendingDataHead s) \<le> L + 1"
    "\<forall>x \<in> set (sent s). down_ok sid pay (unat (m_ui64SendingSeqNo s)) (fst x)"
    using good by (simp_all add: send_good_def)
  note spec = handle_ack_spec [OF ops pre(1-3) b(1,3) seq run]
  have frame: "sender_same s s'" "pmem_wf s'"
    using ack_frame [OF run] b(1,2) by (simp_all add: pmem_wf_def reset_dec_wf)
  show ?thesis
    using sender_got [OF good frame] frame(1) spec pre(4,5) by simp
qed

lemma sender_nak:
  assumes ops: "good_container ops" and good: "send_good pay sid M L s"
    and b: "m_pMem s = Some b" "mem_wf b" "nak_in f e epid b"
    and rng: "0 < f" "unat e \<le> unat (m_ui64SendingSeqNo s)"
    and run: "sendep_handle_nak ops now answers s = Inr (code, answers', s')"
  shows "send_good pay sid M L s' \<and> sender_same s s' \<and> code \<noteq> CMNERR_ODATA_READY"
proof -
  let ?S = "unat (m_ui64SendingSeqNo s)"
  have pre: "sender_inv pay s" "acks_below L s" "unat (m_ui64ValidSendingDataHead s) \<le> L + 1"
    "\<forall>x \<in> set (sent s). down_ok sid pay ?S (fst x)" "m_ui8SenderId s = sid"
    using good by (simp_all add: send_good_def)
  note spec = handle_nak_spec [OF pre(1,2) ops b(1,3) run]
  have frame: "m_ui64ValidSendingDataHead s' = m_ui64ValidSendingDataHead s" "sender_same s s'" "pmem_wf s'"
    using nak_head_frame [OF run] b(1,2) by (simp_all add: pmem_wf_def reset_dec_wf)
  obtain ds where ds: "sent s' = sent s @ ds"
    "carry sid pay (m_addrMulticast s) [unat f..<unat f + length ds] ds"
    "ds = [] \<or> unat f + length ds \<le> unat e + 1"
    using spec rng(1) pre(5) by blast
  have "down_ok sid pay ?S (fst x)" if "x \<in> set ds" for x
    using carry_down [OF ds(2) _ _ that, of ?S] ds(3) that rng by (auto simp: word_less_nat_alt)
  then have "\<forall>x \<in> set (sent s'). down_ok sid pay ?S (fst x)"
    using ds(1) pre(4) by auto
  then show ?thesis
    using sender_got [OF good frame(2,3)] frame spec pre(3) nak_code [OF run] by simp
qed

lemma sender_pkg:
  assumes ops: "good_container ops" and good: "send_good pay sid M L s" and b: "holds d b"
    and d: "up_ok L (unat (m_ui64SendingSeqNo s)) d"
    and run: "sendep_handle_pkg ops now answers (s\<lparr>m_pMem := Some b\<rparr>) = Inr (code, answers', s')"
  shows "send_good pay sid M L s' \<and> sender_same s s' \<and> code \<noteq> CMNERR_ODATA_READY"
proof -
  let ?b = "dec_head_data 8 b"
  define s1 where "s1 = s\<lparr>m_pMem := Some ?b\<rparr>"
  obtain opc where opc: "hdr_opcode (get_data b) (m_bytes b) = Inr opc"
    and go: "opc = opcode_val EP_NAK \<and> sendep_handle_nak ops now answers s1 = Inr (code, answers', s') \<or>
      opc = opcode_val EP_ACK \<and> sendep_handle_ack ops now s1 = Inr (code, s')"
    using run by (auto simp: sendep_handle_pkg_def s1_def Let_def elim!: bindr_InrE split: if_splits)
  have "8 \<le> length d"
    using d get_u64_length by (fastforce simp: up_ok_def)
  then have wf: "mem_wf ?b"
    using holds_reads(4) [OF b] by simp
  have good1: "send_good pay sid M L s1" and same: "sender_same s1 = sender_same s" and mem: "m_pMem s1 = Some ?b"
    using good wf by (auto simp: s1_def send_good_def acks_below_def pmem_wf_def sender_same_def fun_eq_iff)
  from d show ?thesis
    unfolding up_ok_def
  proof (elim disjE exE conjE)
    fix seq epid
    assume ack: "hdr_opcode 0 d = Inr (opcode_val EP_ACK)" "get_u64 8 0 d = Inr seq" "get_u64 8 1 d = Inr epid"
      "unat seq \<le> L"
    then have "hdr_opcode (get_data b) (m_bytes b) = Inr (opcode_val EP_ACK)" "ack_in seq epid ?b"
      using holds_reads(1,3) [OF b] by (simp_all add: ack_in_def)
    then show ?thesis
      using sender_ack [OF ops good1 mem wf _ ack(4)] go opc same by auto
  next
    fix f e epid
    assume nak: "hdr_opcode 0 d = Inr (opcode_val EP_NAK)" "get_u64 8 0 d = Inr f" "get_u64 8 1 d = Inr e"
      "get_u64 8 2 d = Inr epid" "0 < f" "unat e \<le> unat (m_ui64SendingSeqNo s)"
    then have "hdr_opcode (get_data b) (m_bytes b) = Inr (opcode_val EP_NAK)" "nak_in f e epid ?b"
      using holds_reads(1,3) [OF b] by (simp_all add: nak_in_def)
    moreover have "unat e \<le> unat (m_ui64SendingSeqNo s1)"
      using nak(6) by (simp add: s1_def)
    ultimately show ?thesis
      using sender_nak [OF ops good1 mem wf _ nak(5)] go opc same by auto
  qed
qed

lemma sender_loop:
  assumes ops: "good_container ops"
    and "rmp_handle_can_recv ops vs s = Inr (code, s')" and "send_good pay sid M L s"
    and "\<forall>v \<in> set vs. good_round (up_ok L (unat (m_ui64SendingSeqNo s))) v"
  shows "send_good pay sid M L s' \<and> sender_same s s' \<and> code \<noteq> CMNERR_ODATA_READY"
  using assms(2-4)
proof (induction vs arbitrary: s)
  case Nil
  then show ?case by simp
next
  case (Cons v vs)
  have round: "length (rd_raw v) < 2 ^ 32"
    "\<And>d a. rd_dgram v = Os_ok (d, a) \<Longrightarrow> up_ok L (unat (m_ui64SendingSeqNo s)) d"
    using Cons.prems(3) by (auto simp: good_round_def)
  have kind: "m_i32Type s = RMP_SEND_SOCK" and pwf: "pmem_wf s"
    using Cons.prems(2) by (simp_all add: send_good_def)
  obtain b c b1 src where b: "ready_mem (rd_raw v) s = Inr b" "udp_recv (rd_dgram v) b = Inr (c, b1, src)"
    and rest: "(let s = s\<lparr>m_pMem := Some b1\<rparr> in
      if c \<noteq> CMNERR_SUC then Inr (c, s)
      else bindr (deref src) (\<lambda>src. bindr (handle_pkg ops v src s) (\<lambda>(code, answers, s).
           if code \<noteq> CMNERR_SUC then Inr (code, s) else rmp_handle_can_recv ops vs s))) = Inr (code, s')"
    using Cons.prems(1) by (auto elim!: bindr_InrE)
  have wf: "mem_wf b"
    using ready_mem_wf [OF b(1) pwf round(1)] .
  from udp_recv_holds [OF b(2) wf] show ?case
  proof (elim disjE conjE exE)
    assume fail: "c \<noteq> CMNERR_SUC" "c \<noteq> CMNERR_ODATA_READY" "b1 = b"
    then have "code = c" "s' = s\<lparr>m_pMem := Some b\<rparr>"
      using rest by simp_all
    then show ?thesis
      using Cons.prems(2) wf fail(2) by (simp add: send_good_def acks_below_def pmem_wf_def sender_same_def)
  next
    fix d a assume got: "c = CMNERR_SUC" "rd_dgram v = Os_ok (d, a)" "src = Some a" "holds d b1"
    obtain c2 answers2 s2 where
      pkg: "sendep_handle_pkg ops (rd_now v) (rd_answers v) (s\<lparr>m_pMem := Some b1\<rparr>) = Inr (c2, answers2, s2)"
      and next_round: "(if c2 \<noteq> CMNERR_SUC then Inr (c2, s2) else rmp_handle_can_recv ops vs s2) = Inr (code, s')"
      using rest got(1,3) kind by (auto simp: handle_pkg_def elim!: bindr_InrE)
    note out = sender_pkg [OF ops Cons.prems(2) got(4) round(2) [OF got(2)] pkg]
    show ?thesis
    proof (cases "c2 = CMNERR_SUC")
      case False
      then show ?thesis
        using next_round out by simp
    next
      case True
      then have again: "rmp_handle_can_recv ops vs s2 = Inr (code, s')"
        using next_round by simp
      have "send_good pay sid M L s' \<and> sender_same s2 s' \<and> code \<noteq> CMNERR_ODATA_READY"
        using Cons.IH [OF again] out Cons.prems(3) by (simp add: sender_same_def)
      then show ?thesis
        using out by (simp add: sender_same_def)
    qed
  qed
qed

section \<open>A sender and a receiver\<close>

text \<open>
  A sender, a receiver, and the blocks the receiver's application got. The network is the
  freedom of the steps: every datagram an end receives was sent by the other end at some
  time, so datagrams may be lost, repeated, delayed and reordered. The payloads the sending
  application hands over are \<open>pay 1\<close>, \<open>pay 2\<close>, and so on.
\<close>

record world =
  w_sender :: CRmpSock
  w_recver :: CRmpSock
  w_delivered :: "CMemBlock option list"

definition came_from :: "CRmpSock \<Rightarrow> recv_round list \<Rightarrow> bool" where
  "came_from s vs \<longleftrightarrow> (\<forall>v \<in> set vs. good_round (\<lambda>d. d \<in> fst ` set (sent s)) v)"

inductive world_step :: "recver_ops \<Rightarrow> (nat \<Rightarrow> bytes) \<Rightarrow> world \<Rightarrow> world \<Rightarrow> bool"
  for ops :: recver_ops and pay :: "nat \<Rightarrow> bytes" where
  app_sends: "mem_wf b \<Longrightarrow> unat (get_offset b) = 16 \<Longrightarrow>
    mem_data b = pay (unat (m_ui64ValidSendingDataTail (w_sender w))) \<Longrightarrow>
    unat (m_ui64ValidSendingDataTail (w_sender w)) + length (m_vecUnvalidPkgs (w_recver w)) + 2 < 2 ^ 64 \<Longrightarrow>
    rmp_send b (w_sender w) = Inr (code, p, s') \<Longrightarrow>
    world_step ops pay w (w\<lparr>w_sender := s'\<rparr>)"
| sender_writes: "length buf = STACK_BUF \<Longrightarrow>
    rmp_handle_can_send now buf nak_buf answers (w_sender w) = Inr (code, answers', s') \<Longrightarrow>
    world_step ops pay w (w\<lparr>w_sender := s'\<rparr>)"
| recver_writes: "length buf = STACK_BUF \<Longrightarrow> length nak_buf = STACK_BUF \<Longrightarrow>
    rmp_handle_can_send now buf nak_buf answers (w_recver w) = Inr (code, answers', s') \<Longrightarrow>
    world_step ops pay w (w\<lparr>w_recver := s'\<rparr>)"
| sender_reads: "came_from (w_recver w) vs \<Longrightarrow>
    rmp_input ops vs buf answers (w_sender w) = Inr (code, qs, s') \<Longrightarrow>
    world_step ops pay w (w\<lparr>w_sender := s'\<rparr>)"
| recver_reads: "came_from (w_sender w) vs \<Longrightarrow> length buf = STACK_BUF \<Longrightarrow>
    rmp_input ops vs buf answers (w_recver w) = Inr (code, qs, s') \<Longrightarrow>
    world_step ops pay w (w\<lparr>w_recver := s', w_delivered := w_delivered w @ qs\<rparr>)"

definition taken_to :: "world \<Rightarrow> nat" where
  "taken_to w = unat (m_ui64LatestRecvedValidSeqNo (w_recver w))"

definition sent_to :: "world \<Rightarrow> nat" where
  "sent_to w = unat (m_ui64SendingSeqNo (w_sender w))"

definition world_inv :: "(nat \<Rightarrow> bytes) \<Rightarrow> u8 \<Rightarrow> nat \<Rightarrow> world \<Rightarrow> bool" where
  "world_inv pay sid M w \<longleftrightarrow>
     recv_good pay M (sent_to w) (w_delivered w) (w_recver w) \<and> send_good pay sid M (taken_to w) (w_sender w)"

lemma recv_good_more:
  assumes "recv_good pay M n ps s" and "n \<le> n'"
  shows "recv_good pay M n' ps s"
proof -
  obtain A where "A \<subseteq> {1..n}" "in_order pay A ps s"
    using assms(1) by (auto simp: recv_good_def)
  then have "\<exists>A. A \<subseteq> {1..n'} \<and> in_order pay A ps s"
    using assms(2) by (intro exI [of _ A]) auto
  moreover have "sent_up (unat (m_ui64LatestRecvedValidSeqNo s)) n' s"
    using assms sent_up_mono [OF _ order_refl assms(2)] by (simp add: recv_good_def)
  ultimately show ?thesis
    using assms(1) by (simp add: recv_good_def)
qed

lemma came_from_good:
  assumes "came_from s vs" and "\<And>x. x \<in> set (sent s) \<Longrightarrow> P (fst x)"
  shows "\<forall>v \<in> set vs. good_round P v"
proof -
  have "P d" if "d \<in> fst ` set (sent s)" for d
    using that assms(2) by (elim imageE) simp
  then show ?thesis
    using assms(1) by (simp add: came_from_def good_round_def)
qed

lemma sender_new_inv:
  assumes "world_inv pay sid M w" and "send_good pay sid M (taken_to w) s'"
    and "m_ui64SendingSeqNo (w_sender w) \<le> m_ui64SendingSeqNo s'"
  shows "world_inv pay sid M (w\<lparr>w_sender := s'\<rparr>)"
  using assms recv_good_more [of pay M "sent_to w" "w_delivered w" "w_recver w" "unat (m_ui64SendingSeqNo s')"]
  by (simp add: world_inv_def sent_to_def taken_to_def word_le_nat_alt)

lemma world_step_inv:
  assumes "world_step ops pay w w'" and inv: "world_inv pay sid M w"
    and ops: "good_container ops" and full: "\<forall>q. pay q \<noteq> []"
  shows "world_inv pay sid M w'"
proof -
  let ?r = "w_recver w" and ?s = "w_sender w"
  have r: "recv_good pay M (sent_to w) (w_delivered w) ?r" and s: "send_good pay sid M (taken_to w) ?s"
    using inv by (simp_all add: world_inv_def)
  have types: "m_i32Type ?s = RMP_SEND_SOCK" "m_i32Type ?r = RMP_RECV_SOCK" and M: "length (m_vecUnvalidPkgs ?r) = M"
    using r s by (simp_all add: recv_good_def send_good_def)
  from assms(1) show ?thesis
  proof (cases rule: world_step.cases)
    case (app_sends b code p s')
    have "send_good pay sid M (taken_to w) s' \<and> m_ui64SendingSeqNo s' = m_ui64SendingSeqNo ?s"
      using sender_app [OF s app_sends(2-4) _ app_sends(6)] app_sends(5) M by simp
    then show ?thesis
      using sender_new_inv [OF inv, of s'] app_sends(1) by simp
  next
    case (sender_writes buf now nak_buf answers code answers' s')
    have "sendep_handle_can_send now buf answers ?s = Inr (code, answers', s')"
      using sender_writes(3) types(1) by (simp add: rmp_handle_can_send_def)
    from sender_multicast [OF s sender_writes(2) this] sender_writes(1) show ?thesis
      by (auto intro: sender_new_inv [OF inv] simp: word_le_nat_alt)
  next
    case (recver_writes buf nak_buf now answers code answers' s')
    have "recvep_handle_can_send now buf nak_buf answers ?r = Inr (code, answers', s')"
      using recver_writes(4) types(2) by (simp add: rmp_handle_can_send_def)
    from recver_timer [OF r recver_writes(2,3) this] s recver_writes(1) show ?thesis
      by (simp add: world_inv_def taken_to_def sent_to_def)
  next
    case (sender_reads vs buf answers code qs s')
    have up: "up_ok (taken_to w) (sent_to w) (fst x)" if "x \<in> set (sent ?r)" for x
      using r that by (auto simp: recv_good_def sent_up_def taken_to_def)
    obtain s1 where loop: "rmp_handle_can_recv ops vs ?s = Inr (code, s1)"
      and rest: "code \<noteq> CMNERR_ODATA_READY \<Longrightarrow> s' = s1"
      using sender_reads(3) by (auto simp: rmp_input_def elim!: bindr_InrE split: if_splits)
    have "send_good pay sid M (taken_to w) s1 \<and> sender_same ?s s1 \<and> code \<noteq> CMNERR_ODATA_READY"
      by (rule sender_loop [OF ops loop s])
        (use came_from_good [OF sender_reads(2), of "up_ok (taken_to w) (sent_to w)"] up in \<open>simp add: sent_to_def\<close>)
    then show ?thesis
      using rest sender_reads(1) by (auto intro: sender_new_inv [OF inv] simp: sender_same_def)
  next
    case (recver_reads vs buf answers code qs s')
    have down: "down_ok sid pay (sent_to w) (fst x)" if "x \<in> set (sent ?s)" for x
      using s that by (auto simp: send_good_def sent_to_def)
    have "sent_to w < 2 ^ 64"
      using unat_u64_lt [of "m_ui64SendingSeqNo ?s"] by (simp add: sent_to_def)
    note out = recver_input [OF recver_reads(4,3) r
        came_from_good [OF recver_reads(2), of "down_ok sid pay (sent_to w)", OF down] full this]
    have new: "recv_good pay M (sent_to w) (w_delivered w @ qs) s' \<and>
        m_ui64LatestRecvedValidSeqNo ?r \<le> m_ui64LatestRecvedValidSeqNo s'"
      by (rule out) (use send_good_window [OF s] in \<open>simp_all add: sent_to_def taken_to_def\<close>)
    have "send_good pay sid M (unat (m_ui64LatestRecvedValidSeqNo s')) ?s"
      by (rule send_good_more [OF s]) (use new recv_good_latest [OF conjunct1 [OF new]] in
          \<open>simp_all add: taken_to_def sent_to_def word_le_nat_alt\<close>)
    then show ?thesis
      using new recver_reads(1) by (simp add: world_inv_def taken_to_def sent_to_def)
  qed
qed

definition new_world :: "CRmpSock \<Rightarrow> CRmpSock \<Rightarrow> world" where
  "new_world s r = \<lparr>w_sender = s, w_recver = r, w_delivered = []\<rparr>"

text \<open>Two ends as \<open>open\<close> leaves them; a tenth of the send window fits into the receiver's.\<close>

definition fresh_ends :: "CRmpSock \<Rightarrow> CRmpSock \<Rightarrow> bool" where
  "fresh_ends s r \<longleftrightarrow> fresh_sender s \<and> m_i32Type s = RMP_SEND_SOCK \<and> m_pMem s = None \<and> sent s = [] \<and>
     fresh_recver r \<and> m_i32Type r = RMP_RECV_SOCK \<and> m_pMem r = None \<and> sent r = [] \<and>
     unat (m_ui32SenderWinSize s) div 10 \<le> length (m_vecUnvalidPkgs r)"

lemma new_world_inv:
  assumes "fresh_ends s r"
  shows "world_inv pay (m_ui8SenderId s) (length (m_vecUnvalidPkgs r)) (new_world s r)"
proof -
  have r: "fresh_recver r" and s: "fresh_sender s"
    using assms by (simp_all add: fresh_ends_def)
  have "length (m_vecUnvalidPkgs r) < 2 ^ 32"
    using r unat_u32_lt [of "m_ui32UnvalidPkgsSize r"] by (simp add: fresh_recver_def)
  then have "send_good pay (m_ui8SenderId s) (length (m_vecUnvalidPkgs r)) 0 s"
    using assms fresh_sender_inv [OF s, of pay]
    by (auto simp: send_good_def pmem_wf_def fresh_ends_def fresh_sender_def acks_below_def)
  moreover have "\<exists>A. A \<subseteq> {1..0} \<and> in_order pay A [] r"
    using fresh_in_order [OF r] by blast
  then have "recv_good pay (length (m_vecUnvalidPkgs r)) 0 [] r"
    using assms by (simp add: recv_good_def pmem_wf_def sent_up_def fresh_ends_def fresh_recver_def)
  ultimately show ?thesis
    using r s by (simp add: world_inv_def new_world_def sent_to_def taken_to_def fresh_recver_def fresh_sender_def)
qed

lemma world_steps_inv:
  assumes "(world_step ops pay)\<^sup>*\<^sup>* w w'" and "world_inv pay sid M w"
    and "good_container ops" and "\<forall>q. pay q \<noteq> []"
  shows "world_inv pay sid M w'"
  using assms by (induction rule: rtranclp_induct) (auto intro: world_step_inv)

section \<open>Properties\<close>

text \<open>C1: The protocol end to end. A sender and a receiver that were just opened run in any way: the
  application sends, both ends are told they may send or receive, with any clock and any answers of
  the kernel, and datagrams are lost, repeated, delayed and reordered at will. Then the
  receiver's application has got, block by block, exactly the first payloads given to the sender, each
  once and in order, as far as the receiver has got; the receiver is never ahead of the sender;
  and whatever it still lacks of what was multicast lies complete in the send window, so it can be repeated.\<close>

theorem rmp_end_to_end:
  assumes "good_container ops" and "\<forall>q. pay q \<noteq> []" and "fresh_ends s r"
    and "(world_step ops pay)\<^sup>*\<^sup>* (new_world s r) w"
  shows "map (map_option mem_data) (w_delivered w) = map (Some \<circ> pay) [1..<Suc (taken_to w)] \<and>
    taken_to w \<le> sent_to w \<and>
    (\<forall>q. taken_to w < q \<and> q \<le> sent_to w \<longrightarrow>
      is_odata (m_ui8SenderId s) pay q
        (m_vecSendWin (w_sender w) ! (q mod length (m_vecSendWin (w_sender w)))))"
proof -
  have inv: "world_inv pay (m_ui8SenderId s) (length (m_vecUnvalidPkgs r)) w"
    using world_steps_inv [OF assms(4) new_world_inv [OF assms(3)] assms(1,2)] .
  then obtain A where "in_order pay A (w_delivered w) (w_recver w)"
    by (auto simp: world_inv_def recv_good_def)
  then have order: "map (map_option mem_data) (w_delivered w) = map (Some \<circ> pay) [1..<Suc (taken_to w)]"
    by (simp add: in_order_def Let_def taken_to_def)
  have good: "send_good pay (m_ui8SenderId s) (length (m_vecUnvalidPkgs r)) (taken_to w) (w_sender w)"
    using inv by (simp add: world_inv_def)
  then have inv_s: "sender_inv pay (w_sender w)" "m_ui8SenderId (w_sender w) = m_ui8SenderId s"
    and head: "unat (m_ui64ValidSendingDataHead (w_sender w)) \<le> taken_to w + 1" and le: "taken_to w \<le> sent_to w"
    by (simp_all add: send_good_def sent_to_def)
  have "is_odata (m_ui8SenderId s) pay q
      (m_vecSendWin (w_sender w) ! (q mod length (m_vecSendWin (w_sender w))))"
    if "taken_to w < q" "q \<le> sent_to w" for q
  proof -
    have "window_from (w_sender w) \<le> q" "q < unat (m_ui64ValidSendingDataTail (w_sender w))"
      using that head inv_s(1) by (auto simp: sender_inv_def window_from_def sent_to_def)
    then show ?thesis
      using sender_inv_pkg [OF inv_s(1)] inv_s(2) by simp
  qed
  then show ?thesis
    using order le by blast
qed

text \<open>A run: one payload is sent, multicast, and received.\<close>

definition demo_dgram :: bytes where
  "demo_dgram = [18, 0, 0, 0, 9, 0, 0, 0, 1, 0, 0, 0, 0, 0, 0, 0, 65, 66]"

definition demo_recver :: CRmpSock where
  "demo_recver = small_recver\<lparr>m_ui8SenderId := 9\<rparr>"

definition demo_round :: recv_round where
  "demo_round = \<lparr>rd_now = 5, rd_dgram = Os_ok (demo_dgram, \<lparr>sin_addr = 1, sin_port = 2\<rparr>), rd_raw = replicate 32 0,
     rd_buf = replicate STACK_BUF 0, rd_answers = []\<rparr>"

lemma demo_multicast:
  "case bindr (rmp_send app_block small_sender)
      (\<lambda>(c, p, s). rmp_handle_can_send 5 (replicate STACK_BUF 0) [] [Os_ok 18] s) of
     Inl _ \<Rightarrow> False | Inr (c, a, s) \<Rightarrow> map fst (sent s) = [demo_dgram]"
  by code_simp

lemma demo_arrives:
  obtains s where "rmp_handle_can_recv std_map_ops [demo_round] demo_recver = Inr (CMNERR_ODATA_READY, s)"
    and "m_ui64LatestRecvedValidSeqNo s = 1" and "m_vecUnvalidPkgs s \<noteq> []"
    and "unat (m_ui32UnvalidPkgsSize s) = length (m_vecUnvalidPkgs s)" and "sent s = []"
  by (simp add: demo_round_def demo_recver_def small_recver_def ready_mem_def new_mem_def udp_recv_def
      write_at_def demo_dgram_def handle_pkg_def recvep_handle_pkg_def recvep_handle_odata_def Let_def hdr_opcode_def
      hdr_src_id_def get_field_def read_at_def get_data_def get_u64_def dec_head_data_def inc_len_def
      get_offset_def get_len_def)

lemma demo_input:
  obtains qs r where
    "rmp_input std_map_ops [demo_round] (replicate STACK_BUF 0) [Os_ok 0] demo_recver = Inr (CMNERR_ODATA_READY, qs, r)"
    and "m_ui64LatestRecvedValidSeqNo r = 1"
proof -
  obtain s where s: "rmp_handle_can_recv std_map_ops [demo_round] demo_recver = Inr (CMNERR_ODATA_READY, s)"
    "m_ui64LatestRecvedValidSeqNo s = 1" "m_vecUnvalidPkgs s \<noteq> []"
    "unat (m_ui32UnvalidPkgsSize s) = length (m_vecUnvalidPkgs s)" "sent s = []"
    by (rule demo_arrives)
  obtain qs answers r where drain: "recv_drain (replicate STACK_BUF 0) [Os_ok 0] s = Inr (qs, answers, r)"
    using recv_drain_total [OF length_replicate s(3,4)] by blast
  moreover have "m_ui64LatestRecvedValidSeqNo r = 1"
    using recv_drain_up [OF drain length_replicate, of 1 0] s(2,5) by (simp add: sent_up_def)
  ultimately show ?thesis
    using s(1) by (intro that) (simp_all add: rmp_input_def)
qed

lemma demo_fresh_ends: "fresh_ends small_sender demo_recver"
  using small_sender_fresh small_recver_fresh
  by (simp add: fresh_ends_def fresh_recver_def demo_recver_def small_sender_def small_recver_def)

lemma demo_down: "down_ok 9 (\<lambda>_. [65, 66]) 1 demo_dgram"
  unfolding down_ok_def
  by (intro disjI1 exI [of _ 1]) (simp add: odata_fields_def demo_dgram_def hdr_opcode_def hdr_src_id_def hdr_len_def
    get_u64_def get_field_def read_at_def)

theorem rmp_end_to_end_witness:
  "\<exists>w. (world_step std_map_ops (\<lambda>_. [65, 66]))\<^sup>*\<^sup>* (new_world small_sender demo_recver) w \<and>
     map (map_option mem_data) (w_delivered w) = [Some [65, 66]]"
proof -
  let ?pay = "\<lambda>_::nat. [65, 66] :: bytes" and ?w0 = "new_world small_sender demo_recver"
  obtain c0 p s1 c1 a1 s2 where s1: "rmp_send app_block small_sender = Inr (c0, p, s1)"
    and s2: "rmp_handle_can_send 5 (replicate STACK_BUF 0) [] [Os_ok 18] s1 = Inr (c1, a1, s2)"
    and log: "map fst (sent s2) = [demo_dgram]"
    using demo_multicast by (auto split: sum.splits elim!: bindr_InrE)
  obtain qs r where
    r: "rmp_input std_map_ops [demo_round] (replicate STACK_BUF 0) [Os_ok 0] demo_recver = Inr (CMNERR_ODATA_READY, qs, r)"
    and one: "m_ui64LatestRecvedValidSeqNo r = 1"
    by (rule demo_input)
  let ?w1 = "?w0\<lparr>w_sender := s1\<rparr>"
  let ?w2 = "?w1\<lparr>w_sender := s2\<rparr>"
  let ?w3 = "?w2\<lparr>w_recver := r, w_delivered := w_delivered ?w2 @ qs\<rparr>"
  have "world_step std_map_ops ?pay ?w0 ?w1"
    by (rule app_sends [OF app_block_ok(1,2) _ _ _])
      (use s1 app_block_ok(3) in \<open>simp_all add: new_world_def small_sender_def demo_recver_def small_recver_def\<close>)
  moreover have "world_step std_map_ops ?pay ?w1 ?w2"
    by (rule sender_writes [OF length_replicate]) (use s2 in simp)
  moreover have "came_from (w_sender ?w2) [demo_round]"
    using log by (auto simp: came_from_def good_round_def demo_round_def)
  then have "world_step std_map_ops ?pay ?w2 ?w3"
    by (rule recver_reads [OF _ length_replicate]) (use r in \<open>simp add: new_world_def\<close>)
  ultimately have run: "(world_step std_map_ops ?pay)\<^sup>*\<^sup>* ?w0 ?w3"
    by (meson converse_rtranclp_into_rtranclp rtranclp.rtrancl_refl)
  note fresh = demo_fresh_ends
  have "map (map_option mem_data) (w_delivered ?w3) = map (Some \<circ> ?pay) [1..<Suc (taken_to ?w3)]"
    using rmp_end_to_end [OF containers_good(1) _ fresh run] by simp
  then show ?thesis
    using run one by (intro exI [of _ ?w3]) (simp add: taken_to_def)
qed
end
