(* ===== verification/SysUtils.thy ===== *)
theory SysUtils
  imports ErrInfo
begin

text \<open>
  The blocking mode of a descriptor, from \<open>libcomm_utils/src/utils/utils.cpp\<close>. The answers of the
  kernel are arguments.
\<close>

unbundle bit_operations_syntax

section \<open>Blocking mode\<close>

definition O_NONBLOCK :: u32 where "O_NONBLOCK = 0x800"

definition get_block_flag :: "int \<Rightarrow> int os_ret \<Rightarrow> int res" where
  "get_block_flag i32fd getfl = bindr (cmn_assert (-1 < i32fd)) (\<lambda>_. Inr (os_int getfl))"

text \<open>\<open>setfl\<close> is what \<open>fcntl (fd, F_SETFL, flags)\<close> answers.\<close>

definition set_block_flag :: "int \<Rightarrow> bool \<Rightarrow> int os_ret \<Rightarrow> (u32 \<Rightarrow> int os_ret) \<Rightarrow> int res" where
  "set_block_flag i32fd bBlockOrNot getfl setfl =
     bindr (cmn_assert (-1 < i32fd)) (\<lambda>_.
     bindr (get_block_flag i32fd getfl) (\<lambda>i32Flags.
     if 0 > i32Flags then Inr CMNERR_CALL_SYS_FUN_FAILED
     else Inr (os_int (setfl (if bBlockOrNot then word_of_int i32Flags AND NOT O_NONBLOCK
                              else word_of_int i32Flags OR O_NONBLOCK)))))"

end
