(* ===== verification/RmpEndpoint.thy ===== *)
theory RmpEndpoint
  imports IdlePool RmpProto SysUtils
begin

text \<open>
  \<open>CRmpEndpoint\<close> of \<open>libsmart_net/src/smart_net/sn_endpoint_impl.cpp\<close>: one end of the reliable
  multicast protocol. It makes its socket when it is opened, joins an output and then an input
  task of the engine, as a receiver joins the multicast group, and leaves the tasks in the
  opposite order. Its state machine runs on the endpoint alone. What the kernel and the engine
  answer is the argument of an event.
\<close>

section \<open>State\<close>

definition RMP_RECV_ENDPOINT :: int where [simp]: "RMP_RECV_ENDPOINT = 0"
definition RMP_SEND_ENDPOINT :: int where [simp]: "RMP_SEND_ENDPOINT = 1"

definition ES_OPENED :: int where [simp]: "ES_OPENED = 2"
definition ES_CLOSED :: int where [simp]: "ES_CLOSED = 5"
definition ES_ADDING_INTO_OT :: int where [simp]: "ES_ADDING_INTO_OT = 6"
definition ES_ADDING_INTO_IT :: int where [simp]: "ES_ADDING_INTO_IT = 7"
definition ES_DELING_FROM_IT :: int where [simp]: "ES_DELING_FROM_IT = 9"
definition ES_DELING_FROM_OT :: int where [simp]: "ES_DELING_FROM_OT = 10"

definition EE_NONE :: int where [simp]: "EE_NONE = 0"
definition EE_OPEN :: int where [simp]: "EE_OPEN = 1"
definition EE_CLOSE :: int where [simp]: "EE_CLOSE = 3"
definition EE_INTERNAL_ERR :: int where [simp]: "EE_INTERNAL_ERR = 6"
definition EE_ADDED_INTO_OT :: int where [simp]: "EE_ADDED_INTO_OT = 8"
definition EE_ADDED_INTO_IT :: int where [simp]: "EE_ADDED_INTO_IT = 9"
definition EE_DELED_FROM_IT :: int where [simp]: "EE_DELED_FROM_IT = 10"
definition EE_DELED_FROM_OT :: int where [simp]: "EE_DELED_FROM_OT = 11"

text \<open>\<open>rep_recved\<close> are the blocks given to \<open>on_recved_data\<close>, \<open>rep_calls\<close> the other calls.\<close>

record CRmpEndpoint =
  rep_state :: int
  rep_sock :: "CRmpSock option"
  m_strBindIp :: string
  m_ui16BindPort :: u16
  m_strMulticastIp :: string
  rep_type :: int
  rep_pending :: int
  m_ui32AckConfirmCnt :: u32
  rep_sender_id :: u8
  rep_calls :: "ep_call list"
  rep_recved :: "CMemBlock option list"

text \<open>
  The parameters of \<open>open\<close> (\<open>SParasEx\<close>), the address \<open>inet_addr\<close> makes of the group's, the memory of the new socket, and what the
  kernel answers to \<open>socket\<close>, \<open>bind\<close>, the two calls of \<open>fcntl\<close>, to joining the group and to
  \<open>getsockname\<close>; last what the engine answers.
\<close>

record rep_arg =
  strMulticast :: string
  strBindIp :: string
  ui16BindPort :: u16
  ui8SenderId :: u8
  ui32AckConfirmCnt :: u32
  group_addr :: u32
  sock_memory :: CRmpSock
  rep_socket_ans :: "int os_ret"
  rep_bind_ans :: "int os_ret"
  getfl_ans :: "int os_ret"
  setfl_ans :: "u32 \<Rightarrow> int os_ret"
  join_ans :: "int os_ret"
  local_ans :: "sn_sock_addr os_ret"
  rep_ret :: int

type_synonym rep_handler = "(CRmpEndpoint, rep_arg) transform"

text \<open>
  The constructor leaves the pending event as the allocator gave it; \<open>raw\<close> is that value. No
  function sets it to \<open>EE_NONE\<close>.
\<close>

definition new_rmp_endpoint :: "int \<Rightarrow> int \<Rightarrow> CRmpEndpoint res" where
  "new_rmp_endpoint raw i32Type =
     bindr (cmn_assert (i32Type = RMP_SEND_ENDPOINT \<or> i32Type = RMP_RECV_ENDPOINT)) (\<lambda>_.
     Inr \<lparr>rep_state = ES_CLOSED, rep_sock = None, m_strBindIp = '''', m_ui16BindPort = 0, m_strMulticastIp = '''',
          rep_type = i32Type, rep_pending = raw, m_ui32AckConfirmCnt = 0, rep_sender_id = 0, rep_calls = [],
          rep_recved = []\<rparr>)"

definition rep_set_cur :: "int \<Rightarrow> CRmpEndpoint \<Rightarrow> CRmpEndpoint" where
  "rep_set_cur s t = t\<lparr>rep_state := s\<rparr>"

definition rep_call :: "ep_call \<Rightarrow> CRmpEndpoint \<Rightarrow> CRmpEndpoint" where
  "rep_call c t = t\<lparr>rep_calls := rep_calls t @ [c]\<rparr>"

definition rep_close_sock :: "CRmpEndpoint \<Rightarrow> CRmpEndpoint res" where
  "rep_close_sock t = bindr (deref (rep_sock t)) (\<lambda>k. Inr (t\<lparr>rep_sock := Some (snd (rmp_close k))\<rparr>))"

section \<open>The functions of the machine\<close>

definition INIT_SPEED :: u32 where "INIT_SPEED = 500"
definition KEEP_ALIVE :: u64 where "KEEP_ALIVE = 1000000"
definition SENDER_HB_INTERVAL :: u64 where "SENDER_HB_INTERVAL = 1000000"

definition rmp_set_nonblock :: "bool \<Rightarrow> int os_ret \<Rightarrow> (u32 \<Rightarrow> int os_ret) \<Rightarrow> CRmpSock \<Rightarrow> int res" where
  "rmp_set_nonblock bFlag getfl setfl k = set_block_flag (m_hSock_rmp k) (\<not> bFlag) getfl setfl"

text \<open>Making the socket: the code of the first step that fails, and the socket so far.\<close>

definition make_sock :: "rep_arg \<Rightarrow> CRmpEndpoint \<Rightarrow> (int \<times> CRmpSock) res" where
  "make_sock v t =
     bindr (new_rmp_sock (sock_memory v) (if rep_type t = RMP_SEND_ENDPOINT then RMP_SEND_SOCK else RMP_RECV_SOCK)) (\<lambda>k.
     let (i32Ret, k) = rmp_open (group_addr v) (m_ui16BindPort t) (rep_sender_id t) (m_ui32AckConfirmCnt t)
                         KEEP_ALIVE INIT_SPEED SENDER_HB_INTERVAL (rep_socket_ans v) k in
     if i32Ret \<noteq> CMNERR_SUC then Inr (i32Ret, k)
     else bindr (if rep_type t = RMP_RECV_ENDPOINT then rmp_bind (rep_bind_ans v) k else Inr CMNERR_SUC) (\<lambda>i32Ret.
          if i32Ret \<noteq> CMNERR_SUC then Inr (i32Ret, k)
          else bindr (rmp_set_nonblock True (getfl_ans v) (setfl_ans v) k) (\<lambda>i32Ret. Inr (i32Ret, k))))"

definition handling_closed_to_adding_into_ot :: rep_handler where
  "handling_closed_to_adding_into_ot i32CurState i32Evt i32NextState pVoid t =
     (let t = t\<lparr>m_strMulticastIp := strMulticast pVoid, m_strBindIp := strBindIp pVoid,
                m_ui16BindPort := ui16BindPort pVoid, rep_sender_id := ui8SenderId pVoid,
                m_ui32AckConfirmCnt := ui32AckConfirmCnt pVoid\<rparr> in
      bindr (make_sock pVoid t) (\<lambda>(i32Ret, k).
      if i32Ret \<noteq> CMNERR_SUC then Inr (CMNERR_COMMON_ERR, t\<lparr>rep_sock := None\<rparr>)
      else Inr (rep_ret pVoid, rep_call (Engine_add EIT_OUTPUT_TYPE) (t\<lparr>rep_sock := Some k\<rparr>))))"

definition handling_close_while_adding_into_ot :: rep_handler where
  "handling_close_while_adding_into_ot i32CurState i32Evt i32NextState pVoid t =
     Inr (CMNERR_SUC, t\<lparr>rep_pending := EE_CLOSE\<rparr>)"

definition handling_internal_err_while_adding_into_ot :: rep_handler where
  "handling_internal_err_while_adding_into_ot i32CurState i32Evt i32NextState pVoid t =
     Inr (CMNERR_SUC, t\<lparr>rep_pending := EE_INTERNAL_ERR\<rparr>)"

definition handling_adding_into_ot_to_adding_into_it :: rep_handler where
  "handling_adding_into_ot_to_adding_into_it i32CurState i32Evt i32NextState pVoid t =
     (if rep_pending t = EE_CLOSE
      then bindr (rep_close_sock t) (\<lambda>t.
           Inr (CMNERR_COMMON_ERR, (rep_call (Engine_del EIT_OUTPUT_TYPE) t)\<lparr>rep_state := ES_DELING_FROM_OT\<rparr>))
      else bindr (cmn_assert (rep_pending t = EE_NONE)) (\<lambda>_.
           Inr (rep_ret pVoid, rep_call (Engine_add EIT_INPUT_TYPE) t)))"

definition handling_internal_err_while_adding_into_it :: rep_handler where
  "handling_internal_err_while_adding_into_it i32CurState i32Evt i32NextState pVoid t =
     Inr (CMNERR_SUC, t\<lparr>rep_pending := EE_INTERNAL_ERR\<rparr>)"

definition handling_close_while_adding_into_it :: rep_handler where
  "handling_close_while_adding_into_it i32CurState i32Evt i32NextState pVoid t =
     Inr (CMNERR_SUC, t\<lparr>rep_pending := EE_CLOSE\<rparr>)"

definition handling_adding_into_it_to_opened :: rep_handler where
  "handling_adding_into_it_to_opened i32CurState i32Evt i32NextState pVoid t =
     bindr (if rep_pending t \<noteq> EE_NONE then Inr (CMNERR_COMMON_ERR, t)
            else if rep_type t = RMP_RECV_ENDPOINT
            then bindr (deref (rep_sock t)) (\<lambda>k.
                 bindr (rmp_join_multicast_group (join_ans pVoid) (local_ans pVoid) k) (\<lambda>(i32Ret, k).
                 Inr (i32Ret, t\<lparr>rep_sock := Some k\<rparr>)))
            else Inr (CMNERR_SUC, t)) (\<lambda>(i32Ret, t).
     if i32Ret \<noteq> CMNERR_SUC
     then bindr (rep_close_sock t) (\<lambda>t.
          Inr (i32Ret, (rep_call (Engine_del EIT_INPUT_TYPE) t)\<lparr>rep_state := ES_DELING_FROM_IT\<rparr>))
     else Inr (i32Ret, rep_call On_opened t))"

definition handling_internal_err_while_opened :: rep_handler where
  "handling_internal_err_while_opened i32CurState i32Evt i32NextState pVoid t =
     bindr (rep_close_sock t) (\<lambda>t. Inr (rep_ret pVoid, rep_call (Engine_del EIT_INPUT_TYPE) t))"

definition handling_close_while_opened :: rep_handler where
  "handling_close_while_opened i32CurState i32Evt i32NextState pVoid t =
     bindr (rep_close_sock t) (\<lambda>t. Inr (rep_ret pVoid, rep_call (Engine_del EIT_INPUT_TYPE) t))"

definition handling_deling_from_it_to_deling_from_ot :: rep_handler where
  "handling_deling_from_it_to_deling_from_ot i32CurState i32Evt i32NextState pVoid t =
     Inr (rep_ret pVoid, rep_call (Engine_del EIT_OUTPUT_TYPE) t)"

definition handling_deling_from_ot_to_closed :: rep_handler where
  "handling_deling_from_ot_to_closed i32CurState i32Evt i32NextState pVoid t =
     Inr (CMNERR_COMMON_ERR, (rep_call On_closed (t\<lparr>rep_state := ES_CLOSED\<rparr>))\<lparr>rep_sock := None\<rparr>)"

definition rep_regs :: "(CRmpEndpoint, rep_arg) registration list" where
  "rep_regs =
    [(ES_CLOSED, EE_OPEN, ES_ADDING_INTO_OT, Some handling_closed_to_adding_into_ot),
     (ES_ADDING_INTO_OT, EE_CLOSE, ES_ADDING_INTO_OT, Some handling_close_while_adding_into_ot),
     (ES_ADDING_INTO_OT, EE_INTERNAL_ERR, ES_CLOSED, Some handling_internal_err_while_adding_into_ot),
     (ES_ADDING_INTO_OT, EE_ADDED_INTO_OT, ES_ADDING_INTO_IT, Some handling_adding_into_ot_to_adding_into_it),
     (ES_ADDING_INTO_IT, EE_INTERNAL_ERR, ES_ADDING_INTO_IT, Some handling_internal_err_while_adding_into_it),
     (ES_ADDING_INTO_IT, EE_CLOSE, ES_ADDING_INTO_IT, Some handling_close_while_adding_into_it),
     (ES_ADDING_INTO_IT, EE_ADDED_INTO_IT, ES_OPENED, Some handling_adding_into_it_to_opened),
     (ES_OPENED, EE_INTERNAL_ERR, ES_DELING_FROM_IT, Some handling_internal_err_while_opened),
     (ES_OPENED, EE_CLOSE, ES_DELING_FROM_IT, Some handling_close_while_opened),
     (ES_DELING_FROM_IT, EE_DELED_FROM_IT, ES_DELING_FROM_OT, Some handling_deling_from_it_to_deling_from_ot),
     (ES_DELING_FROM_OT, EE_DELED_FROM_OT, ES_CLOSED, Some handling_deling_from_ot_to_closed)]"

lemma rep_keys: "distinct (reg_keys rep_regs)"
  by (simp add: rep_regs_def)

definition rep_post :: "int \<Rightarrow> rep_arg \<Rightarrow> CRmpEndpoint \<Rightarrow> (int \<times> CRmpEndpoint) res" where
  "rep_post = post_evt rep_state rep_set_cur (table_of rep_regs)"


definition rep_post_void :: "int \<Rightarrow> rep_arg \<Rightarrow> CRmpEndpoint \<Rightarrow> CRmpEndpoint res" where
  "rep_post_void e v t = bindr (rep_post e v t) (\<lambda>(code, t). Inr t)"

section \<open>What others call\<close>

definition rep_open :: "rep_arg \<Rightarrow> CRmpEndpoint \<Rightarrow> (int \<times> CRmpEndpoint) res" where
  "rep_open v t = rep_post EE_OPEN v t"

definition rep_close :: "rep_arg \<Rightarrow> CRmpEndpoint \<Rightarrow> (int \<times> CRmpEndpoint) res" where
  "rep_close v t = rep_post EE_CLOSE v t"

definition rep_is_opened :: "CRmpEndpoint \<Rightarrow> bool" where
  "rep_is_opened t \<longleftrightarrow> rep_state t = ES_OPENED"

definition rep_get_ioobj_handle :: "CRmpEndpoint \<Rightarrow> int res" where
  "rep_get_ioobj_handle t = bindr (deref (rep_sock t)) (\<lambda>k. Inr (m_hSock_rmp k))"

definition rep_send_data :: "CMemBlock \<Rightarrow> CRmpEndpoint \<Rightarrow> (int \<times> CMemBlock option \<times> CRmpEndpoint) res" where
  "rep_send_data pData t =
     (if rep_state t = ES_OPENED
      then bindr (deref (rep_sock t)) (\<lambda>k.
           bindr (rmp_send pData k) (\<lambda>(code, p, k). Inr (code, p, t\<lparr>rep_sock := Some k\<rparr>)))
      else Inr (CMNERR_COMMON_ERR, Some pData, t))"

text \<open>\<open>vs\<close> are the rounds of \<open>handle_can_recv\<close>, \<open>answers\<close> the kernel's to what the drain sends.\<close>

definition rep_handle_input_evt ::
  "recver_ops \<Rightarrow> recv_round list \<Rightarrow> bytes \<Rightarrow> answers \<Rightarrow> rep_arg \<Rightarrow> CRmpEndpoint \<Rightarrow> CRmpEndpoint res" where
  "rep_handle_input_evt ops vs buf answers v t =
     (if rep_state t \<noteq> ES_OPENED then Inr t
      else bindr (deref (rep_sock t)) (\<lambda>k.
           bindr (rmp_input ops vs buf answers k) (\<lambda>(i32Ret, ps, k).
           let t = t\<lparr>rep_sock := Some k, rep_recved := rep_recved t @ ps\<rparr> in
           if i32Ret = CMNERR_ODATA_READY \<or> i32Ret = CMNERR_RECV_PENDING \<or> i32Ret = CMNERR_SUC then Inr t
           else rep_post_void EE_INTERNAL_ERR v t)))"

definition rep_handle_output_evt ::
  "u64 \<Rightarrow> bytes \<Rightarrow> bytes \<Rightarrow> answers \<Rightarrow> rep_arg \<Rightarrow> CRmpEndpoint \<Rightarrow> CRmpEndpoint res" where
  "rep_handle_output_evt now buf nak_buf answers v t =
     (if rep_state t \<noteq> ES_OPENED then Inr t
      else bindr (deref (rep_sock t)) (\<lambda>k.
           bindr (rmp_handle_can_send now buf nak_buf answers k) (\<lambda>(code, answers, k).
           let t = t\<lparr>rep_sock := Some k\<rparr> in
           if code = CMNERR_IO_ERR then rep_post_void EE_INTERNAL_ERR v t else Inr t)))"

definition rep_handle_io_error :: "rep_arg \<Rightarrow> CRmpEndpoint \<Rightarrow> CRmpEndpoint res" where
  "rep_handle_io_error v t = rep_post_void EE_INTERNAL_ERR v t"

definition rep_handle_added :: "int \<Rightarrow> int \<Rightarrow> rep_arg \<Rightarrow> CRmpEndpoint \<Rightarrow> CRmpEndpoint res" where
  "rep_handle_added i32IoType i32RetCode v t =
     bindr (if i32RetCode < 0 then rep_post_void EE_INTERNAL_ERR v t else Inr t) (\<lambda>t.
     if i32IoType = EIT_OUTPUT_TYPE then rep_post_void EE_ADDED_INTO_OT v t
     else if i32IoType = EIT_INPUT_TYPE then rep_post_void EE_ADDED_INTO_IT v t
     else Inl Assert_failed)"

definition rep_handle_deled :: "int \<Rightarrow> rep_arg \<Rightarrow> CRmpEndpoint \<Rightarrow> CRmpEndpoint res" where
  "rep_handle_deled i32IoType v t =
     (if i32IoType = EIT_INPUT_TYPE then rep_post_void EE_DELED_FROM_IT v t
      else if i32IoType = EIT_OUTPUT_TYPE then rep_post_void EE_DELED_FROM_OT v t
      else Inl Assert_failed)"

section \<open>The invariant\<close>

definition rep_states :: "int set" where
  "rep_states = {ES_OPENED, ES_CLOSED, ES_ADDING_INTO_OT, ES_ADDING_INTO_IT, ES_DELING_FROM_IT, ES_DELING_FROM_OT}"

text \<open>In which tasks an endpoint is, output and input, by its state.\<close>

definition rep_regs_of :: "int \<Rightarrow> int \<times> int" where
  "rep_regs_of s =
     (if s = ES_CLOSED \<or> s = ES_DELING_FROM_OT then (0, 0)
      else if s = ES_ADDING_INTO_OT \<or> s = ES_DELING_FROM_IT then (1, 0) else (1, 1))"

text \<open>While it is not leaving, an endpoint has an open socket of its kind.\<close>

definition rep_sock_ok :: "CRmpEndpoint \<Rightarrow> bool" where
  "rep_sock_ok t \<longleftrightarrow>
     (case rep_sock t of
        None \<Rightarrow> rep_state t = ES_CLOSED
      | Some k \<Rightarrow> rep_state t \<noteq> ES_CLOSED \<and> m_i32Type k = rep_type t \<and>
          (rep_state t = ES_OPENED \<or> rep_state t = ES_ADDING_INTO_OT \<or> rep_state t = ES_ADDING_INTO_IT
             \<longleftrightarrow> rmp_is_opened k))"

definition rep_inv :: "CRmpEndpoint \<Rightarrow> bool" where
  "rep_inv t \<longleftrightarrow>
     (registered EIT_OUTPUT_TYPE (rep_calls t), registered EIT_INPUT_TYPE (rep_calls t)) = rep_regs_of (rep_state t) \<and>
     rep_sock_ok t \<and> (rep_type t = RMP_SEND_ENDPOINT \<or> rep_type t = RMP_RECV_ENDPOINT) \<and>
     (rep_state t = ES_ADDING_INTO_OT \<longrightarrow> rep_pending t = EE_NONE \<or> rep_pending t = EE_CLOSE)"

text \<open>
  Proper events: the engine does not refuse, the endpoint is opened with nothing pending, there is no error while it
  joins the output task, and the kernel knows the address of a socket that joined the group.
\<close>

definition join_ok :: "rep_arg \<Rightarrow> bool" where
  "join_ok v \<longleftrightarrow> os_int (join_ans v) \<le> 0 \<and> (os_int (join_ans v) = CMNERR_SUC \<longrightarrow>
     (\<exists>a. local_ans v = Os_ok a \<and> (0::u64) < word_of_nat (unat (sin_addr a) + 2 ^ 32 * unat (sin_port a))))"

definition rep_ok :: "CRmpEndpoint \<Rightarrow> int \<Rightarrow> rep_arg \<Rightarrow> bool" where
  "rep_ok t e v \<longleftrightarrow> 0 \<le> rep_ret v \<and> join_ok v \<and> (e = EE_OPEN \<longrightarrow> rep_pending t = EE_NONE) \<and>
     (e = EE_INTERNAL_ERR \<longrightarrow> rep_state t \<noteq> ES_ADDING_INTO_OT)"

lemmas rep_handler_defs =
  handling_closed_to_adding_into_ot_def handling_close_while_adding_into_ot_def
  handling_internal_err_while_adding_into_ot_def handling_adding_into_ot_to_adding_into_it_def
  handling_internal_err_while_adding_into_it_def handling_close_while_adding_into_it_def
  handling_adding_into_it_to_opened_def handling_internal_err_while_opened_def
  handling_close_while_opened_def handling_deling_from_it_to_deling_from_ot_def
  handling_deling_from_ot_to_closed_def

lemma rep_simps [simp]:
  "rep_state (rep_set_cur s t) = s"
  "rep_calls (rep_set_cur s t) = rep_calls t" "rep_sock (rep_set_cur s t) = rep_sock t"
  "rep_type (rep_set_cur s t) = rep_type t" "rep_pending (rep_set_cur s t) = rep_pending t"
  "rep_recved (rep_set_cur s t) = rep_recved t"
  "rep_calls (rep_call c t) = rep_calls t @ [c]"
  "rep_state (rep_call c t) = rep_state t" "rep_sock (rep_call c t) = rep_sock t"
  "rep_type (rep_call c t) = rep_type t" "rep_pending (rep_call c t) = rep_pending t"
  "rep_recved (rep_call c t) = rep_recved t"
  by (simp_all add: rep_set_cur_def rep_call_def)

lemma rep_close_sock_Some [simp]:
  "rep_sock t = Some k \<Longrightarrow> rep_close_sock t = Inr (t\<lparr>rep_sock := Some (snd (rmp_close k))\<rparr>)"
  by (simp add: rep_close_sock_def)

lemma rmp_close_simps [simp]:
  "\<not> rmp_is_opened (snd (rmp_close k))" "m_i32Type (snd (rmp_close k)) = m_i32Type k"
  by (auto simp: rmp_close_def rmp_is_opened_def)

lemma make_sock_runs:
  assumes "rep_type t = RMP_SEND_ENDPOINT \<or> rep_type t = RMP_RECV_ENDPOINT"
  shows "\<exists>code k. make_sock v t = Inr (code, k) \<and> (code = CMNERR_SUC \<longrightarrow> rmp_is_opened k \<and> m_i32Type k = rep_type t)"
proof -
  let ?ty = "if rep_type t = RMP_SEND_ENDPOINT then RMP_SEND_SOCK else RMP_RECV_SOCK"
  obtain k0 where k0: "new_rmp_sock (sock_memory v) ?ty = Inr k0" "m_i32Type k0 = rep_type t" "m_hSock_rmp k0 = INVALID_SOCKET"
    using assms by (auto simp: new_rmp_sock_def Let_def)
  obtain c k1 where k1: "rmp_open (group_addr v) (m_ui16BindPort t) (rep_sender_id t) (m_ui32AckConfirmCnt t)
      KEEP_ALIVE INIT_SPEED SENDER_HB_INTERVAL (rep_socket_ans v) k0 = (c, k1)"
    by (meson surj_pair)
  have open1: "m_i32Type k1 = rep_type t" "c = CMNERR_SUC \<Longrightarrow> rmp_is_opened k1 \<and> -1 < m_hSock_rmp k1"
    using k0(2,3) k1 by (auto simp: rmp_open_def rmp_open_handle_def rmp_is_opened_def split: if_splits)
  show ?thesis
    using k0(1) k1 open1
    by (auto simp: make_sock_def rmp_bind_def rmp_set_nonblock_def set_block_flag_def get_block_flag_def
        rmp_is_opened_def)
qed

lemma join_runs:
  assumes "join_ok v"
  shows "\<exists>code k'. rmp_join_multicast_group (join_ans v) (local_ans v) k = Inr (code, k') \<and>
    m_i32Type k' = m_i32Type k \<and> rmp_is_opened k' = rmp_is_opened k"
  using assms by (auto simp: rmp_join_multicast_group_def join_ok_def rmp_is_opened_def Let_def)

lemma join_code:
  assumes "join_ok v" and "rmp_join_multicast_group (join_ans v) (local_ans v) k = Inr (code, k')"
  shows "code \<le> 0"
  using assms by (auto simp: rmp_join_multicast_group_def join_ok_def Let_def bindr_Inr_iff split: if_splits os_ret.splits)

lemma open_handler_runs:
  assumes "rep_inv t" and "rep_ok t EE_OPEN v" and "rep_state t = ES_CLOSED"
  shows "case handling_closed_to_adding_into_ot (rep_state t) e n v t of
      Inl f \<Rightarrow> False
    | Inr (code, t') \<Rightarrow> if code < 0 then rep_state t' \<in> rep_states \<and> rep_inv t'
        else rep_inv (rep_set_cur ES_ADDING_INTO_OT t')"
proof -
  let ?t = "t\<lparr>m_strMulticastIp := strMulticast v, m_strBindIp := strBindIp v, m_ui16BindPort := ui16BindPort v,
      rep_sender_id := ui8SenderId v, m_ui32AckConfirmCnt := ui32AckConfirmCnt v\<rparr>"
  have ty: "rep_type ?t = RMP_SEND_ENDPOINT \<or> rep_type ?t = RMP_RECV_ENDPOINT"
    using assms(1) by (simp add: rep_inv_def)
  obtain code k where k: "make_sock v ?t = Inr (code, k)"
    "code = CMNERR_SUC \<longrightarrow> rmp_is_opened k \<and> m_i32Type k = rep_type t"
    using make_sock_runs [OF ty, of v] by auto
  show ?thesis
    using assms k by (auto simp: handling_closed_to_adding_into_ot_def Let_def rep_inv_def rep_ok_def rep_sock_ok_def
        rep_regs_of_def rep_states_def split: option.splits)
qed

lemma opened_handler_runs:
  assumes "rep_inv t" and "rep_ok t e v" and "rep_state t = ES_ADDING_INTO_IT"
  shows "case handling_adding_into_it_to_opened (rep_state t) e n v t of
      Inl f \<Rightarrow> False
    | Inr (code, t') \<Rightarrow> if code < 0 then rep_state t' \<in> rep_states \<and> rep_inv t'
        else rep_inv (rep_set_cur ES_OPENED t')"
proof -
  obtain k where k: "rep_sock t = Some k" "rmp_is_opened k" "m_i32Type k = rep_type t"
    using assms by (auto simp: rep_inv_def rep_sock_ok_def split: option.splits)
  have join: "join_ok v"
    using assms(2) by (simp add: rep_ok_def)
  obtain code k' where j: "rmp_join_multicast_group (join_ans v) (local_ans v) k = Inr (code, k')"
    "m_i32Type k' = m_i32Type k" "rmp_is_opened k' = rmp_is_opened k"
    using join_runs [OF join] by blast
  note code = join_code [OF join j(1)]
  show ?thesis
    using assms k j code by (auto simp: handling_adding_into_it_to_opened_def rep_inv_def rep_sock_ok_def
        rep_regs_of_def rep_states_def)
qed

lemmas rep_inv_defs = rep_inv_def rep_ok_def rep_regs_of_def rep_states_def rep_sock_ok_def

lemma rep_handlers_run:
  assumes "(rep_state t, e, n, Some h) \<in> set rep_regs" and "rep_inv t" and "rep_ok t e v"
  shows "case h (rep_state t) e n v t of
      Inl f \<Rightarrow> False
    | Inr (code, t') \<Rightarrow> if code < 0 then rep_state t' \<in> rep_states \<and> rep_inv t' else rep_inv (rep_set_cur n t')"
  using assms unfolding rep_regs_def
  apply (simp only: list.set insert_iff empty_iff prod.inject option.inject simp_thms)
  apply (elim disjE conjE)
            apply (hypsubst, rule open_handler_runs; assumption)
           apply (auto simp: rep_handler_defs rep_inv_defs split: option.splits)[5]
      apply (hypsubst, rule opened_handler_runs; assumption)
     apply (auto simp: rep_handler_defs rep_inv_defs split: option.splits)
  done

interpretation rep: state_machine rep_state rep_set_cur rep_regs rep_states rep_ok rep_inv
proof
  show "rep_state (rep_set_cur s t) = s" for s t
    by simp
  show "distinct (reg_keys rep_regs)"
    by (rule rep_keys)
  show "n \<in> rep_states" if "(s, e, n, fn) \<in> set rep_regs" for s e n fn
    using that by (auto simp: rep_regs_def rep_states_def)
  show "case h (rep_state t) e n v t of
      Inl f \<Rightarrow> False
    | Inr (code, t') \<Rightarrow> if code < 0 then rep_state t' \<in> rep_states \<and> rep_inv t' else rep_inv (rep_set_cur n t')"
    if "(rep_state t, e, n, Some h) \<in> set rep_regs" "rep_inv t" "rep_ok t e v" for t e n h v
    by (rule rep_handlers_run [OF that])
  show "rep_inv (rep_set_cur n t)" if "(rep_state t, e, n, None) \<in> set rep_regs" "rep_inv t" for t e n
    using that by (simp add: rep_regs_def)
qed

section \<open>Running the machine\<close>

lemma rep_post_table:
  "rep_post e v t =
     (case reg_find rep_regs (rep_state t) e of
        None \<Rightarrow> Inr (-1, t)
      | Some (n, None) \<Rightarrow> Inr (0, rep_set_cur n t)
      | Some (n, Some h) \<Rightarrow>
          bindr (h (rep_state t) e n v t) (\<lambda>(code, t).
          if code < 0 then Inr (-2, t) else Inr (0, rep_set_cur n t)))"
  unfolding rep_post_def by (rule post_evt_table [OF rep_keys])

lemmas rep_step_simps = rep_post_table rep_post_void_def reg_find_Cons reg_find_Nil rep_regs_def
  handling_close_while_adding_into_ot_def
  handling_internal_err_while_adding_into_ot_def handling_adding_into_ot_to_adding_into_it_def
  handling_internal_err_while_adding_into_it_def handling_close_while_adding_into_it_def
  handling_adding_into_it_to_opened_def handling_internal_err_while_opened_def
  handling_close_while_opened_def handling_deling_from_it_to_deling_from_ot_def
  handling_deling_from_ot_to_closed_def rep_close_def rep_handle_added_def rep_handle_deled_def
  rep_handle_io_error_def

lemma rep_open_opened:
  assumes "rep_open v t = Inr (0, t1)" and "rep_state t = ES_CLOSED"
  shows "rep_state t1 = ES_ADDING_INTO_OT \<and> (\<exists>k. rep_sock t1 = Some k) \<and> rep_pending t1 = rep_pending t \<and>
    rep_calls t1 = rep_calls t @ [Engine_add EIT_OUTPUT_TYPE]"
  using assms
  by (auto simp: rep_open_def rep_post_table reg_find_Cons rep_regs_def handling_closed_to_adding_into_ot_def Let_def
      bindr_Inr_iff split: if_splits)

lemma new_rmp_endpoint_good:
  assumes "new_rmp_endpoint raw ty = Inr t"
  shows "rep_inv t \<and> rep_state t \<in> rep_states \<and> rep_state t = ES_CLOSED \<and> rep_pending t = raw"
  using assms by (auto simp: new_rmp_endpoint_def bindr_Inr_iff rep_inv_defs)

section \<open>Properties\<close>


definition demo_arg :: rep_arg where
  "demo_arg = \<lparr>strMulticast = ''224.0.0.1'', strBindIp = ''127.0.0.1'', ui16BindPort = 80, ui8SenderId = 9,
     ui32AckConfirmCnt = 100, group_addr = 7, sock_memory = small_recver, rep_socket_ans = Os_ok 5,
     rep_bind_ans = Os_ok 0, getfl_ans = Os_ok 0, setfl_ans = (\<lambda>_. Os_ok 0), join_ans = Os_ok 0,
     local_ans = Os_ok \<lparr>sin_addr = 1, sin_port = 2\<rparr>, rep_ret = 0\<rparr>"

lemma demo_arg_simps [simp]: "rep_ret demo_arg = 0" "join_ok demo_arg" "group_addr demo_arg = 7"
  by (simp_all add: demo_arg_def join_ok_def)

text \<open>An endpoint that is closed with nothing pending can be opened.\<close>

lemma demo_make_sock:
  assumes "rep_type t = RMP_RECV_ENDPOINT \<or> rep_type t = RMP_SEND_ENDPOINT"
  shows "\<exists>k. make_sock demo_arg t = Inr (CMNERR_SUC, k)"
  using assms by (auto simp: make_sock_def demo_arg_def new_rmp_sock_def rmp_open_def rmp_open_handle_def Let_def
      rmp_is_opened_def rmp_bind_def rmp_set_nonblock_def set_block_flag_def get_block_flag_def)

lemma demo_open:
  assumes "rep_state t = ES_CLOSED" and "rep_inv t"
  obtains k t1 where "rep_open demo_arg t = Inr (0, t1)" "rep_state t1 = ES_ADDING_INTO_OT" "rep_sock t1 = Some k"
    "rep_pending t1 = rep_pending t" "rep_calls t1 = rep_calls t @ [Engine_add EIT_OUTPUT_TYPE]" "rep_type t1 = rep_type t"
proof -
  let ?t = "t\<lparr>m_strMulticastIp := strMulticast demo_arg, m_strBindIp := strBindIp demo_arg,
      m_ui16BindPort := ui16BindPort demo_arg, rep_sender_id := ui8SenderId demo_arg,
      m_ui32AckConfirmCnt := ui32AckConfirmCnt demo_arg\<rparr>"
  obtain k where "make_sock demo_arg ?t = Inr (CMNERR_SUC, k)"
    using demo_make_sock [of ?t] assms(2) by (auto simp: rep_inv_def)
  then show ?thesis
    using assms(1) that [of "rep_set_cur ES_ADDING_INTO_OT (rep_call (Engine_add EIT_OUTPUT_TYPE) (?t\<lparr>rep_sock := Some k\<rparr>))" k]
    by (simp add: rep_open_def rep_post_table reg_find_Cons rep_regs_def handling_closed_to_adding_into_ot_def Let_def)
qed


text \<open>The pending event outlives the life it belongs to. A new endpoint whose memory happens to
  hold another value than \<open>EE_NONE\<close> or \<open>EE_CLOSE\<close> there, or one that had an error while it joined the
  input task, ends the process when, opened again, it has joined its output task; one that was
  closed while it joined a task leaves at once when it is opened again, and is closed with
  the event still pending. An error while it joins the output task makes it
  \<open>ES_CLOSED\<close> with its socket and registration left behind.\<close>

theorem rmp_endpoint_pending_event:
  assumes "rep_inv t" and "rep_state t = ES_CLOSED" and "rep_open v t = Inr (0, t1)" and "0 \<le> rep_ret w"
  shows "(rep_pending t \<noteq> EE_NONE \<and> rep_pending t \<noteq> EE_CLOSE \<longrightarrow>
      rep_handle_added EIT_OUTPUT_TYPE 0 w t1 = Inl Assert_failed) \<and>
    (rep_pending t = EE_CLOSE \<longrightarrow> (\<exists>t2 t3. rep_handle_added EIT_OUTPUT_TYPE 0 w t1 = Inr t2 \<and>
      rep_handle_deled EIT_OUTPUT_TYPE w t2 = Inr t3 \<and> rep_state t3 = ES_CLOSED \<and> rep_pending t3 = EE_CLOSE \<and>
      rep_calls t3 = rep_calls t @ [Engine_add EIT_OUTPUT_TYPE, Engine_del EIT_OUTPUT_TYPE, On_closed])) \<and>
    (\<exists>t2. rep_handle_io_error w t1 = Inr t2 \<and> rep_state t2 = ES_CLOSED \<and> rep_sock t2 = rep_sock t1 \<and>
      rep_sock t2 \<noteq> None \<and> registered EIT_OUTPUT_TYPE (rep_calls t2) = 1 \<and>
      rep_handle_added EIT_OUTPUT_TYPE 0 w t2 = Inr t2)"
proof -
  obtain k where t1: "rep_state t1 = ES_ADDING_INTO_OT" "rep_sock t1 = Some k" "rep_pending t1 = rep_pending t"
    "rep_calls t1 = rep_calls t @ [Engine_add EIT_OUTPUT_TYPE]"
    using rep_open_opened [OF assms(3,2)] by blast
  have "registered EIT_OUTPUT_TYPE (rep_calls t) = 0"
    using assms(1,2) by (simp add: rep_inv_def rep_regs_of_def)
  then show ?thesis
    using t1 assms(4) by (simp add: rep_step_simps)
qed

theorem rmp_endpoint_pending_event_witness:
  "\<exists>t t1. new_rmp_endpoint 77 RMP_RECV_ENDPOINT = Inr t \<and> rep_open demo_arg t = Inr (0, t1) \<and>
     rep_handle_added EIT_OUTPUT_TYPE 0 demo_arg t1 = Inl Assert_failed"
proof -
  obtain t where t: "new_rmp_endpoint 77 RMP_RECV_ENDPOINT = Inr t" "rep_type t = RMP_RECV_ENDPOINT"
    by (simp add: new_rmp_endpoint_def)
  have new: "rep_inv t" "rep_state t = ES_CLOSED" "rep_pending t = 77"
    using new_rmp_endpoint_good [OF t(1)] by simp_all
  obtain t1 where t1: "rep_open demo_arg t = Inr (0, t1)"
    using demo_open [OF new(2,1)] by metis
  have "0 \<le> rep_ret demo_arg"
    by simp
  from rmp_endpoint_pending_event [OF new(1,2) t1 this] show ?thesis
    using t(1) t1 new(3) by auto
qed

text \<open>The sockets two endpoints open.\<close>

lemma make_sock_sock:
  assumes "make_sock v t = Inr (code, k)"
  obtains k0 where "new_rmp_sock (sock_memory v) (if rep_type t = RMP_SEND_ENDPOINT then RMP_SEND_SOCK else RMP_RECV_SOCK) = Inr k0"
    and "k = snd (rmp_open (group_addr v) (m_ui16BindPort t) (rep_sender_id t) (m_ui32AckConfirmCnt t)
      KEEP_ALIVE INIT_SPEED SENDER_HB_INTERVAL (rep_socket_ans v) k0)"
proof -
  obtain k0 where k0: "new_rmp_sock (sock_memory v) (if rep_type t = RMP_SEND_ENDPOINT then RMP_SEND_SOCK else RMP_RECV_SOCK) = Inr k0"
    using assms unfolding make_sock_def by (elim bindr_InrE) (rule that)
  obtain c k1 where k1: "rmp_open (group_addr v) (m_ui16BindPort t) (rep_sender_id t) (m_ui32AckConfirmCnt t)
      KEEP_ALIVE INIT_SPEED SENDER_HB_INTERVAL (rep_socket_ans v) k0 = (c, k1)"
    by (meson surj_pair)
  have "k = k1"
    using assms unfolding make_sock_def k0 bindr.simps k1 by (auto elim!: bindr_InrE split: if_splits)
  then show ?thesis
    using that [OF k0] k1 by simp
qed

lemma rep_open_sock:
  assumes "rep_open v t = Inr (0, t1)" and "rep_state t = ES_CLOSED" and "rep_sock t1 = Some k"
  obtains k0 where "new_rmp_sock (sock_memory v) (if rep_type t = RMP_SEND_ENDPOINT then RMP_SEND_SOCK else RMP_RECV_SOCK) = Inr k0"
    and "k = snd (rmp_open (group_addr v) (ui16BindPort v) (ui8SenderId v) (ui32AckConfirmCnt v)
      KEEP_ALIVE INIT_SPEED SENDER_HB_INTERVAL (rep_socket_ans v) k0)"
proof -
  let ?t = "t\<lparr>m_strMulticastIp := strMulticast v, m_strBindIp := strBindIp v, m_ui16BindPort := ui16BindPort v,
      rep_sender_id := ui8SenderId v, m_ui32AckConfirmCnt := ui32AckConfirmCnt v\<rparr>"
  have "bindr (handling_closed_to_adding_into_ot (rep_state t) EE_OPEN ES_ADDING_INTO_OT v t) (\<lambda>(code, t).
      if code < 0 then Inr (-2 :: int, t) else Inr (0, rep_set_cur 6 t)) = Inr (0, t1)"
    using assms(1,2) by (simp add: rep_open_def rep_post_table reg_find_Cons rep_regs_def)
  then obtain c t2 where t2: "handling_closed_to_adding_into_ot (rep_state t) EE_OPEN ES_ADDING_INTO_OT v t = Inr (c, t2)"
    and t1: "t1 = rep_set_cur 6 t2" "\<not> c < 0"
    by (auto elim!: bindr_InrE split: if_splits)
  from t2 obtain code k' where k': "make_sock v ?t = Inr (code, k')"
    and "(if code \<noteq> CMNERR_SUC then Inr (CMNERR_COMMON_ERR, ?t\<lparr>rep_sock := None\<rparr>)
      else Inr (rep_ret v, rep_call (Engine_add EIT_OUTPUT_TYPE) (?t\<lparr>rep_sock := Some k'\<rparr>))) = (Inr (c, t2) :: _ res)"
    unfolding handling_closed_to_adding_into_ot_def Let_def by (auto elim!: bindr_InrE)
  then have "k' = k"
    using t1 assms(3) by (auto split: if_splits)
  then show ?thesis
    using make_sock_sock [OF k'] that by auto
qed

text \<open>C32: The endpoints start the protocol as it has to be started. The socket of a sending and the
  socket of a receiving endpoint, as \<open>open\<close> makes them whatever is in their memory, are fresh, and a
  tenth of the send window of a million is the size of the receiver's window of early packages; with
  such sockets everything the protocol promises from end to end holds.\<close>

theorem rmp_endpoints_start:
  assumes "rep_open v t = Inr (0, t1)" and "rep_state t = ES_CLOSED" and "rep_type t = RMP_SEND_ENDPOINT"
    and "rep_open u r = Inr (0, r1)" and "rep_state r = ES_CLOSED" and "rep_type r = RMP_RECV_ENDPOINT"
  shows "\<exists>ks kr. rep_sock t1 = Some ks \<and> rep_sock r1 = Some kr \<and> fresh_ends ks kr \<and>
    m_ui8SenderId ks = ui8SenderId v \<and>
    unat (m_ui32SenderWinSize ks) div 10 = length (m_vecUnvalidPkgs kr)"
proof -
  obtain ks kr where k: "rep_sock t1 = Some ks" "rep_sock r1 = Some kr"
    using rep_open_opened [OF assms(1,2)] rep_open_opened [OF assms(4,5)] by blast
  obtain s0 where s0: "new_rmp_sock (sock_memory v) RMP_SEND_SOCK = Inr s0"
    "ks = snd (rmp_open (group_addr v) (ui16BindPort v) (ui8SenderId v) (ui32AckConfirmCnt v)
      KEEP_ALIVE INIT_SPEED SENDER_HB_INTERVAL (rep_socket_ans v) s0)"
    using rep_open_sock [OF assms(1,2) k(1)] assms(3) by auto
  obtain s1 where s1: "new_rmp_sock (sock_memory u) RMP_RECV_SOCK = Inr s1"
    "kr = snd (rmp_open (group_addr u) (ui16BindPort u) (ui8SenderId u) (ui32AckConfirmCnt u)
      KEEP_ALIVE INIT_SPEED SENDER_HB_INTERVAL (rep_socket_ans u) s1)"
    using rep_open_sock [OF assms(4,5) k(2)] assms(6) by auto
  have fresh: "fresh_sender ks" "fresh_recver kr"
    using opened_sender_fresh [OF s0(1)] opened_recver_fresh [OF s1(1)] s0(2) s1(2) by simp_all
  have fields: "m_i32Type ks = RMP_SEND_SOCK" "m_pMem ks = None" "sent ks = []" "m_ui8SenderId ks = ui8SenderId v"
      "m_ui32SenderWinSize ks = SEND_WIN_SIZE"
    using s0 by (auto simp: new_rmp_sock_def rmp_open_def rmp_open_handle_def Let_def)
  have fields': "m_i32Type kr = RMP_RECV_SOCK" "m_pMem kr = None" "sent kr = []"
      "length (m_vecUnvalidPkgs kr) = unat UNORDERED_PKGS_CNT"
    using s1 by (auto simp: new_rmp_sock_def rmp_open_def rmp_open_handle_def Let_def)
  show ?thesis
    using k fresh fields fields' by (simp add: fresh_ends_def SEND_WIN_SIZE_def UNORDERED_PKGS_CNT_def)
qed

theorem rmp_endpoints_start_witness:
  "\<exists>t r t1 r1 ks kr. rep_open demo_arg t = Inr (0, t1) \<and> rep_open demo_arg r = Inr (0, r1) \<and>
     rep_sock t1 = Some ks \<and> rep_sock r1 = Some kr \<and> fresh_ends ks kr \<and> m_ui8SenderId ks = 9"
proof -
  obtain t where t: "new_rmp_endpoint 0 RMP_SEND_ENDPOINT = Inr t" "rep_type t = RMP_SEND_ENDPOINT"
    by (simp add: new_rmp_endpoint_def)
  obtain r where r: "new_rmp_endpoint 0 RMP_RECV_ENDPOINT = Inr r" "rep_type r = RMP_RECV_ENDPOINT"
    by (simp add: new_rmp_endpoint_def)
  have new: "rep_state t = ES_CLOSED" "rep_inv t" "rep_state r = ES_CLOSED" "rep_inv r"
    using new_rmp_endpoint_good [OF t(1)] new_rmp_endpoint_good [OF r(1)] by simp_all
  obtain t1 where t1: "rep_open demo_arg t = Inr (0, t1)"
    using demo_open [OF new(1,2)] by metis
  obtain r1 where r1: "rep_open demo_arg r = Inr (0, r1)"
    using demo_open [OF new(3,4)] by metis
  have "ui8SenderId demo_arg = 9"
    by (simp add: demo_arg_def)
  with rmp_endpoints_start [OF t1 new(1) t(2) r1 new(3) r(2)] show ?thesis
    using t1 r1 by metis
qed



end
