(* ===== verification/RmpFrame.thy ===== *)
theory RmpFrame
  imports RmpProto
begin

text \<open>
  What the socket's work leaves alone: sending, receiving and handing on never change the kind
  of a \<open>CRmpSock\<close> and its descriptor.
\<close>

definition sock_id :: "CRmpSock \<Rightarrow> int \<times> int" where
  "sock_id s = (m_hSock_rmp s, m_i32Type s)"

lemma sendto_loop_sock: "sendto_loop d dest as s = Inr (c, as', s') \<Longrightarrow> sock_id s' = sock_id s"
  by (induction d dest as s rule: sendto_loop.induct) (auto simp: sock_id_def split: os_ret.splits if_splits)

lemma udp_send_sock:
  "udp_send_bytes d dest as s = Inr (c, as', s') \<Longrightarrow> sock_id s' = sock_id s"
  "udp_send_mem m dest as s = Inr (c, as', s') \<Longrightarrow> sock_id s' = sock_id s"
  by (auto simp: udp_send_bytes_def udp_send_mem_def elim!: bindr_InrE dest: sendto_loop_sock)

lemma set_ack_sock: "set_ack f buf as s = Inr (as', s') \<Longrightarrow> sock_id s' = sock_id s"
  by (auto simp: set_ack_def Let_def elim!: bindr_InrE dest!: udp_send_sock split: if_splits)
    (auto simp: sock_id_def)

lemma get_next_sock: "get_next_recved_data buf as s = Inr (c, p, as', s') \<Longrightarrow> sock_id s' = sock_id s"
  by (auto simp: get_next_recved_data_def Let_def elim!: bindr_InrE dest!: set_ack_sock split: if_splits)
    (auto simp: sock_id_def)

lemma recv_drain_sock: "recv_drain buf as s = Inr (ps, as', s') \<Longrightarrow> sock_id s' = sock_id s"
proof (induction buf as s arbitrary: ps rule: recv_drain.induct)
  case (1 buf answers s)
  obtain code p answers1 s1 where nxt: "get_next_recved_data buf answers s = Inr (code, p, answers1, s1)"
    and rest: "(if code = CMNERR_SUC
      then bindr (recv_drain buf answers1 s1) (\<lambda>(ps, answers, s''). Inr (p # ps, answers, s''))
      else Inr ([], answers1, s1)) = Inr (ps, as', s')"
    using 1(2) by (auto simp: recv_drain.simps [of buf answers s] bindr_Inr_iff)
  show ?case
  proof (cases "code = CMNERR_SUC")
    case False
    then show ?thesis
      using rest get_next_sock [OF nxt] by simp
  next
    case True
    then obtain qs where "recv_drain buf answers1 s1 = Inr (qs, as', s')"
      using rest by (auto simp: bindr_Inr_iff)
    from 1(1) [OF nxt refl refl refl True this] get_next_sock [OF nxt] show ?thesis
      by simp
  qed
qed

lemma activate_sock: "activate_unordered s = Inr s' \<Longrightarrow> sock_id s' = sock_id s"
  by (auto simp: activate_unordered_def Let_def sock_id_def elim!: bindr_InrE split: if_splits)

lemma store_sock: "store_unordered q b s = Inr s' \<Longrightarrow> sock_id s' = sock_id s"
  by (auto simp: store_unordered_def Let_def sock_id_def elim!: bindr_InrE split: if_splits)

lemma odata_sock: "recvep_handle_odata s = Inr (c, s') \<Longrightarrow> sock_id s' = sock_id s"
  by (auto simp: recvep_handle_odata_def Let_def elim!: bindr_InrE dest!: activate_sock store_sock split: if_splits)
    (auto simp: sock_id_def)

lemma recvep_pkg_sock: "recvep_handle_pkg buf as src s = Inr (c, as', s') \<Longrightarrow> sock_id s' = sock_id s"
  by (auto simp: recvep_handle_pkg_def recvep_handle_hb_def Let_def elim!: bindr_InrE
      dest!: odata_sock udp_send_sock split: if_splits) (auto simp: sock_id_def)

lemma resend_sock: "resend_range i e code as s = Inr (c, as', s') \<Longrightarrow> sock_id s' = sock_id s"
proof (induction i e code as s rule: resend_range.induct)
  case (1 i e code as s)
  show ?case
  proof (cases "i \<le> e")
    case False
    then show ?thesis
      using 1(3) by (simp add: resend_range.simps [of i])
  next
    case True
    obtain p c1 as1 s1 where p: "vec_get (m_vecSendWin s) (win_slot i s) = Inr p"
      "udp_send_mem p (m_addrMulticast s) as s = Inr (c1, as1, s1)"
      and rest: "(if c1 = CMNERR_SEND_PENDING then resend_range i e c1 as1 s1
         else if c1 \<noteq> CMNERR_SUC then Inr (c1, as1, s1)
         else resend_range (i + 1) e c1 as1 s1) = Inr (c, as', s')"
      using 1(3) True by (auto simp: resend_range.simps [of i e code] elim!: bindr_InrE)
    note same = udp_send_sock(2) [OF p(2)]
    consider "c1 = CMNERR_SEND_PENDING" | "c1 \<noteq> CMNERR_SEND_PENDING" "c1 \<noteq> CMNERR_SUC"
      | "c1 = CMNERR_SUC" "c1 \<noteq> CMNERR_SEND_PENDING"
      by auto
    then show ?thesis
      using 1(1) [OF True p refl refl] 1(2) [OF True p refl refl] rest same by cases auto
  qed
qed

lemma control_speed_sock [simp]: "sock_id (control_speed s) = sock_id s"
  by (auto simp: control_speed_def Let_def sock_id_def)

lemma ack_sock: "sendep_handle_ack ops now s = Inr (c, s') \<Longrightarrow> sock_id s' = sock_id s"
  by (auto simp: sendep_handle_ack_def Let_def elim!: bindr_InrE split: if_splits) (auto simp: sock_id_def)

lemma nak_sock: "sendep_handle_nak ops now as s = Inr (c, as', s') \<Longrightarrow> sock_id s' = sock_id s"
  by (auto simp: sendep_handle_nak_def Let_def elim!: bindr_InrE dest!: resend_sock split: if_splits)
    (auto simp: sock_id_def)

lemma sendep_pkg_sock: "sendep_handle_pkg ops now as s = Inr (c, as', s') \<Longrightarrow> sock_id s' = sock_id s"
  by (auto simp: sendep_handle_pkg_def Let_def elim!: bindr_InrE dest!: nak_sock ack_sock split: if_splits)
    (auto simp: sock_id_def)

lemma can_recv_sock: "rmp_handle_can_recv ops vs s = Inr (c, s') \<Longrightarrow> sock_id s' = sock_id s"
proof (induction ops vs s rule: rmp_handle_can_recv.induct)
  case (2 ops v vs s)
  obtain b c1 b1 src where b: "ready_mem (rd_raw v) s = Inr b" "udp_recv (rd_dgram v) b = Inr (c1, b1, src)"
    and rest: "(if c1 \<noteq> CMNERR_SUC then Inr (c1, s\<lparr>m_pMem := Some b1\<rparr>)
      else bindr (deref src) (\<lambda>src. bindr (handle_pkg ops v src (s\<lparr>m_pMem := Some b1\<rparr>)) (\<lambda>(code, answers, s).
          if code \<noteq> CMNERR_SUC then Inr (code, s) else rmp_handle_can_recv ops vs s))) = Inr (c, s')"
    using 2(2) by (auto simp: Let_def elim!: bindr_InrE)
  have mem: "sock_id (s\<lparr>m_pMem := Some b1\<rparr>) = sock_id s"
    by (simp add: sock_id_def)
  show ?case
  proof (cases "c1 = CMNERR_SUC")
    case False
    then show ?thesis
      using rest mem by auto
  next
    case True
    then obtain a c2 as2 s2 where s2: "deref src = Inr a" "handle_pkg ops v a (s\<lparr>m_pMem := Some b1\<rparr>) = Inr (c2, as2, s2)"
      and rest: "(if c2 \<noteq> CMNERR_SUC then Inr (c2, s2) else rmp_handle_can_recv ops vs s2) = Inr (c, s')"
      using rest by (auto elim!: bindr_InrE)
    have "sock_id s2 = sock_id s"
      using s2(2) mem by (auto simp: handle_pkg_def dest: recvep_pkg_sock sendep_pkg_sock split: if_splits)
    then show ?thesis
      using rest 2(1) [OF b refl refl refl _ s2 refl refl] True by (auto split: if_splits)
  qed
qed simp

lemma rmp_input_sock: "rmp_input ops vs buf as s = Inr (c, ps, s') \<Longrightarrow> sock_id s' = sock_id s"
  by (auto simp: rmp_input_def elim!: bindr_InrE dest!: can_recv_sock recv_drain_sock split: if_splits)

lemma heartbeat_sock: "send_heartbeat now buf as s = Inr (as', s') \<Longrightarrow> sock_id s' = sock_id s"
  by (auto simp: send_heartbeat_def Let_def elim!: bindr_InrE dest!: udp_send_sock split: if_splits)
    (auto simp: sock_id_def)

lemma recvep_can_send_sock: "recvep_handle_can_send now buf nb as s = Inr (c, as', s') \<Longrightarrow> sock_id s' = sock_id s"
  by (auto simp: recvep_handle_can_send_def Let_def elim!: bindr_InrE dest!: set_ack_sock udp_send_sock split: if_splits)
    (auto simp: sock_id_def)

lemma sendep_can_send_sock: "sendep_handle_can_send now buf as s = Inr (c, as', s') \<Longrightarrow> sock_id s' = sock_id s"
proof (induction now buf as s rule: sendep_handle_can_send.induct)
  case (1 now buf as s)
  show ?case
  proof (cases "nothing_to_send s")
    case True
    then show ?thesis
      using 1(2) by (auto simp: sendep_handle_can_send.simps [of now] elim!: bindr_InrE dest: heartbeat_sock)
  next
    case False
    obtain p c1 as1 s1 where
      p: "cmn_assert (m_ui64SendingSeqNo s < m_ui64ValidSendingDataTail s) = Inr ()"
      "vec_get (m_vecSendWin s) (win_slot (m_ui64SendingSeqNo s + 1) s) = Inr p"
      "udp_send_mem p (m_addrMulticast s) as s = Inr (c1, as1, s1)"
      and rest: "(if c1 = CMNERR_IO_ERR \<or> c1 = CMNERR_SEND_PENDING then Inr (c1, as1, s1)
           else sendep_handle_can_send now buf as1
                  (s1\<lparr>m_ui64SendingSeqNo := m_ui64SendingSeqNo s1 + 1\<rparr>)) = Inr (c, as', s')"
      using 1(2) False by (auto simp: sendep_handle_can_send.simps [of now buf as s] elim!: bindr_InrE)
    have "sock_id (s1\<lparr>m_ui64SendingSeqNo := m_ui64SendingSeqNo s1 + 1\<rparr>) = sock_id s"
      using udp_send_sock(2) [OF p(3)] by (simp add: sock_id_def)
    then show ?thesis
      using rest 1(1) [OF False p refl refl] udp_send_sock(2) [OF p(3)] by (auto split: if_splits)
  qed
qed

lemma can_send_sock: "rmp_handle_can_send now buf nb as s = Inr (c, as', s') \<Longrightarrow> sock_id s' = sock_id s"
  by (auto simp: rmp_handle_can_send_def dest: recvep_can_send_sock sendep_can_send_sock split: if_splits)

end
