(* ===== verification/EngineNet.thy ===== *)
theory EngineNet
  imports Engine RmpEndpoint RmpFrame
begin

text \<open>
  The engine (\<open>framework/sn_engine.cpp\<close>) and the multicast endpoints
  (\<open>smart_net/sn_endpoint_impl.cpp\<close>) together. An endpoint's handlers call the engine, the
  engine puts it into the caches of a task's notifier, and the notifier's thread calls the
  endpoint's handlers. A world holds the engine and every endpoint, by its pointer; what the
  handlers asked of the engine, the calls they appended to \<open>rep_calls\<close>, is performed on it. The
  notifiers of the model are interpreted in the contract \<open>io_client\<close> of \<open>Epoll\<close> for every task.
\<close>

section \<open>The world\<close>

record net =
  net_eng :: CSNEngine
  net_objs :: "nat \<Rightarrow> IIoObj"
  net_eps :: "nat \<Rightarrow> CRmpEndpoint"

text \<open>What one call of the kernel, the clock and the memory give to an endpoint's handler.\<close>

record ep_in =
  in_ops :: recver_ops
  in_rounds :: "recv_round list"
  in_now :: u64
  in_buf :: bytes
  in_nak_buf :: bytes
  in_answers :: answers
  in_arg :: rep_arg

text \<open>The virtual functions of \<open>IIoObj\<close>, as \<open>CRmpEndpoint\<close> has them.\<close>

definition ep_callback :: "ep_in \<Rightarrow> io_call \<Rightarrow> CRmpEndpoint \<Rightarrow> CRmpEndpoint res" where
  "ep_callback a c t =
     (case c of
        Input_evt \<Rightarrow> rep_handle_input_evt (in_ops a) (in_rounds a) (in_buf a) (in_answers a) (in_arg a) t
      | Output_evt \<Rightarrow> rep_handle_output_evt (in_now a) (in_buf a) (in_nak_buf a) (in_answers a) (in_arg a) t
      | Io_error e \<Rightarrow> rep_handle_io_error (in_arg a) t
      | Added_into_io_task ty ret \<Rightarrow> rep_handle_added ty ret (in_arg a) t
      | Deled_from_io_task ty \<Rightarrow> rep_handle_deled ty (in_arg a) t)"

definition engine_call :: "nat \<Rightarrow> ep_call \<Rightarrow> net \<Rightarrow> net res" where
  "engine_call p c w =
     (case c of
        Engine_add ty \<Rightarrow>
          bindr (eng_add_endpoint (Some p) ty (net_objs w, net_eng w)) (\<lambda>(code, objs, t).
          Inr (w\<lparr>net_objs := objs, net_eng := t\<rparr>))
      | Engine_del ty \<Rightarrow>
          bindr (eng_del_endpoint (Some p) ty (net_objs w, net_eng w)) (\<lambda>(code, objs, t).
          Inr (w\<lparr>net_objs := objs, net_eng := t\<rparr>))
      | _ \<Rightarrow> Inr w)"

text \<open>A function of the endpoint at \<open>p\<close>, with what it asks of the engine.\<close>

definition ep_run :: "nat \<Rightarrow> (CRmpEndpoint \<Rightarrow> CRmpEndpoint res) \<Rightarrow> net \<Rightarrow> net res" where
  "ep_run p f w =
     bindr (f (net_eps w p)) (\<lambda>t.
     for_each (engine_call p) (drop (length (rep_calls (net_eps w p))) (rep_calls t))
       (w\<lparr>net_eps := (net_eps w)(p := t)\<rparr>))"

text \<open>
  The notifier of the task number \<open>i\<close> of type \<open>ty\<close> and its objects. \<open>env\<close> is what a call of
  the object at a pointer gets, in a world.
\<close>

definition net_io :: "(nat \<Rightarrow> net \<Rightarrow> ep_in) \<Rightarrow> int \<Rightarrow> nat \<Rightarrow> net io_objs" where
  "net_io env ty i =
     \<lparr>the_epoll = (\<lambda>w. the (eng_epoll ty i (net_eng w))),
      set_epoll = (\<lambda>t w. w\<lparr>net_eng := eng_set_epoll ty i t (net_eng w)\<rparr>),
      obj_of = (\<lambda>p w. net_objs w p),
      handle_of = (\<lambda>p w. rep_get_ioobj_handle (net_eps w p)),
      callback = (\<lambda>c p w. ep_run p (ep_callback (env p w) c) w)\<rparr>"

definition net_exec ::
  "(nat \<Rightarrow> net \<Rightarrow> ep_in) \<Rightarrow> int \<Rightarrow> nat \<Rightarrow> ctl list \<Rightarrow> wait \<Rightarrow> net \<Rightarrow> (int \<times> net) res" where
  "net_exec env ty i ctls wait w = epoll_exec (net_io env ty i) ctls wait w"

text \<open>What the application calls.\<close>

definition net_open :: "nat \<Rightarrow> rep_arg \<Rightarrow> net \<Rightarrow> net res" where
  "net_open p v = ep_run p (\<lambda>t. bindr (rep_open v t) (\<lambda>(code, t). Inr t))"

definition net_close :: "nat \<Rightarrow> rep_arg \<Rightarrow> net \<Rightarrow> net res" where
  "net_close p v = ep_run p (\<lambda>t. bindr (rep_close v t) (\<lambda>(code, t). Inr t))"

section \<open>Phases\<close>

text \<open>Where an endpoint stands with its tasks, by its state.\<close>

definition state_phase :: "int \<Rightarrow> int \<Rightarrow> io_phase" where
  "state_phase ty s =
     (if ty = EIT_OUTPUT_TYPE
      then (if s = ES_ADDING_INTO_OT then Adding else if s = ES_DELING_FROM_OT then Deling
            else if s = ES_CLOSED then Out else Inside)
      else (if s = ES_ADDING_INTO_IT then Adding else if s = ES_DELING_FROM_IT then Deling
            else if s = ES_OPENED then Inside else Out))"

definition net_phase :: "int \<Rightarrow> nat \<Rightarrow> nat \<Rightarrow> net \<Rightarrow> io_phase" where
  "net_phase ty i p w =
     (if get_task_id ty (net_objs w p) = Inr (int i) then state_phase ty (rep_state (net_eps w p)) else Out)"

definition net_linked :: "int \<Rightarrow> nat \<Rightarrow> net \<Rightarrow> bool" where
  "net_linked ty i w \<longleftrightarrow>
     linked (caches_of (the (eng_epoll ty i (net_eng w)))) (\<lambda>q. net_phase ty i q w) [] []"

definition joined_ok :: "CSNEngine \<Rightarrow> IIoObj \<Rightarrow> CRmpEndpoint \<Rightarrow> bool" where
  "joined_ok t obj e \<longleftrightarrow> rep_inv e \<and> rep_state e \<in> rep_states \<and>
     (\<forall>ty. io_type ty \<longrightarrow> (\<exists>evt. get_io_evt ty obj = Inr evt \<and> evt \<noteq> 0) \<and>
       (state_phase ty (rep_state e) \<noteq> Out \<longrightarrow> (\<exists>i < eng_tasks ty t. get_task_id ty obj = Inr (int i))))"

definition net_ok :: "net \<Rightarrow> bool" where
  "net_ok w \<longleftrightarrow> eng_good (net_eng w) \<and> (\<forall>p. joined_ok (net_eng w) (net_objs w p) (net_eps w p))"

definition net_good :: "int \<Rightarrow> nat \<Rightarrow> net \<Rightarrow> bool" where
  "net_good ty i w \<longleftrightarrow> net_ok w \<and> i < eng_tasks ty (net_eng w) \<and>
     (\<forall>ty' j. io_type ty' \<and> j < eng_tasks ty' (net_eng w) \<and> (ty', j) \<noteq> (ty, i) \<longrightarrow> net_linked ty' j w)"

definition env_ok :: "(nat \<Rightarrow> net \<Rightarrow> ep_in) \<Rightarrow> bool" where
  "env_ok env \<longleftrightarrow> (\<forall>p w. 0 \<le> rep_ret (in_arg (env p w)) \<and> join_ok (in_arg (env p w)))"

section \<open>What the calls do\<close>

text \<open>
  \<open>b\<close> is where the endpoint stands for each type when the calls are made; \<open>s\<close> is its new state.
\<close>

fun calls_fit :: "(int \<Rightarrow> io_phase) \<Rightarrow> ep_call list \<Rightarrow> int \<Rightarrow> bool" where
  "calls_fit b [Engine_add ty'] s \<longleftrightarrow> io_type ty' \<and> b ty' = Out \<and> state_phase ty' s = Adding \<and>
     (\<forall>ty \<in> {EIT_INPUT_TYPE, EIT_OUTPUT_TYPE} - {ty'}. state_phase ty s = b ty)"
| "calls_fit b [Engine_del ty'] s \<longleftrightarrow> io_type ty' \<and> b ty' = Inside \<and> state_phase ty' s = Deling \<and>
     (\<forall>ty \<in> {EIT_INPUT_TYPE, EIT_OUTPUT_TYPE} - {ty'}. state_phase ty s = b ty)"
| "calls_fit b [On_opened] s \<longleftrightarrow> (\<forall>ty \<in> {EIT_INPUT_TYPE, EIT_OUTPUT_TYPE}. state_phase ty s = b ty)"
| "calls_fit b [On_closed] s \<longleftrightarrow> (\<forall>ty \<in> {EIT_INPUT_TYPE, EIT_OUTPUT_TYPE}. state_phase ty s = b ty)"
| "calls_fit b [] s \<longleftrightarrow> (\<forall>ty \<in> {EIT_INPUT_TYPE, EIT_OUTPUT_TYPE}. state_phase ty s = b ty)"
| "calls_fit b _ s \<longleftrightarrow> False"

definition base_phase :: "(int \<Rightarrow> io_phase) \<Rightarrow> int \<Rightarrow> nat \<Rightarrow> nat \<Rightarrow> net \<Rightarrow> nat \<Rightarrow> io_phase" where
  "base_phase b ty i p w q =
     (if q = p then (if get_task_id ty (net_objs w p) = Inr (int i) then b ty else Out) else net_phase ty i q w)"

text \<open>What a task's notifier sees of the calls of one endpoint.\<close>

definition seen :: "(int \<Rightarrow> io_phase) \<Rightarrow> int \<Rightarrow> nat \<Rightarrow> nat \<Rightarrow> net \<Rightarrow> net \<Rightarrow> bool" where
  "seen b ty i p w w' \<longleftrightarrow>
     requested (caches_of (the (eng_epoll ty i (net_eng w)))) (base_phase b ty i p w)
       (caches_of (the (eng_epoll ty i (net_eng w')))) (\<lambda>q. net_phase ty i q w')"


lemma both_types: "io_type ty \<longleftrightarrow> ty \<in> {EIT_INPUT_TYPE, EIT_OUTPUT_TYPE}"
  by (auto simp: io_type_def)

definition calls_done :: "(int \<Rightarrow> io_phase) \<Rightarrow> nat \<Rightarrow> net \<Rightarrow> net \<Rightarrow> bool" where
  "calls_done b p w w' \<longleftrightarrow>
     net_eps w' = net_eps w \<and> eng_good (net_eng w') \<and>
     (\<forall>ty. eng_tasks ty (net_eng w') = eng_tasks ty (net_eng w)) \<and>
     (\<forall>q. q \<noteq> p \<longrightarrow> net_objs w' q = net_objs w q) \<and>
     (\<forall>ty. get_io_evt ty (net_objs w' p) = get_io_evt ty (net_objs w p)) \<and>
     (\<forall>ty. io_type ty \<and> state_phase ty (rep_state (net_eps w p)) \<noteq> Out \<longrightarrow>
       (\<exists>i < eng_tasks ty (net_eng w). get_task_id ty (net_objs w' p) = Inr (int i))) \<and>
     (\<forall>ty i. io_type ty \<and> i < eng_tasks ty (net_eng w) \<longrightarrow> seen b ty i p w w')"

definition has_tasks :: "(int \<Rightarrow> io_phase) \<Rightarrow> nat \<Rightarrow> net \<Rightarrow> bool" where
  "has_tasks b p w \<longleftrightarrow> eng_good (net_eng w) \<and>
     (\<forall>ty. io_type ty \<longrightarrow> (\<exists>evt. get_io_evt ty (net_objs w p) = Inr evt \<and> evt \<noteq> 0) \<and>
       (b ty \<noteq> Out \<longrightarrow> (\<exists>i < eng_tasks ty (net_eng w). get_task_id ty (net_objs w p) = Inr (int i))))"

lemma no_call_done:
  assumes "has_tasks b p w" and "\<And>ty. io_type ty \<Longrightarrow> state_phase ty (rep_state (net_eps w p)) = b ty"
  shows "calls_done b p w w"
proof -
  have "base_phase b ty i p w = (\<lambda>q. net_phase ty i q w)" if "io_type ty" for ty i
    using assms(2) [OF that] by (auto simp: base_phase_def net_phase_def)
  then have "seen b ty i p w w" if "io_type ty" for ty i
    using that by (simp add: seen_def requested_none)
  then show ?thesis
    using assms by (auto simp: calls_done_def has_tasks_def)
qed

lemma add_call_done:
  assumes "has_tasks b p w" and "calls_fit b [Engine_add ty'] (rep_state (net_eps w p))"
  shows "\<exists>w'. engine_call p (Engine_add ty') w = Inr w' \<and> calls_done b p w w'"
proof -
  let ?t = "net_eng w" and ?objs = "net_objs w" and ?s = "rep_state (net_eps w p)"
  have ty': "io_type ty'" and fit: "b ty' = Out" "state_phase ty' ?s = Adding"
    and other: "\<And>ty. io_type ty \<Longrightarrow> ty \<noteq> ty' \<Longrightarrow> state_phase ty ?s = b ty"
    using assms(2) by (auto simp: both_types)
  have good: "eng_good ?t"
    using assms(1) by (simp add: has_tasks_def)
  obtain evt where evt: "get_io_evt ty' (?objs p) = Inr evt" "evt \<noteq> 0"
    using assms(1) ty' by (auto simp: has_tasks_def)
  obtain i where i: "eng_pick ty' ?t = Inr i" "i < eng_tasks ty' ?t"
    using eng_pick_runs [OF good ty'] by blast
  obtain n where n: "eng_epoll ty' i ?t = Some n" "m_i32IoType n = ty'"
    using eng_good_epoll [OF good ty' i(2)] by blast
  let ?n = "n\<lparr>m_vecIoObjsAddCache := m_vecIoObjsAddCache n @ [p]\<rparr>"
  let ?w = "w\<lparr>net_objs := ?objs(p := with_task ty' i (?objs p)), net_eng := eng_set_epoll ty' i ?n ?t\<rparr>"
  have run: "engine_call p (Engine_add ty') w = Inr ?w"
    using eng_add_runs [where objs = ?objs and p = p, OF good ty' evt i n(1)] by (simp add: engine_call_def)
  have seen: "seen b ty j p w ?w" if j: "io_type ty" "j < eng_tasks ty ?t" for ty j
  proof (cases "(ty, j) = (ty', i)")
    case True
    have "(\<lambda>q. net_phase ty j q ?w) = (base_phase b ty j p w)(p := Adding)"
      using True ty' fit(2) by (auto simp: net_phase_def base_phase_def)
    moreover have "base_phase b ty j p w p = Out"
      using True fit(1) by (simp add: base_phase_def)
    ultimately show ?thesis
      using requested_add [of "base_phase b ty j p w" p "caches_of n"] True ty' i(2) n(1) by (simp add: seen_def)
  next
    case False
    have "(\<lambda>q. net_phase ty j q ?w) = base_phase b ty j p w"
      using False ty' j fit other by (cases "ty = ty'") (auto simp: net_phase_def base_phase_def)
    then show ?thesis
      using False ty' j by (simp add: seen_def requested_none)
  qed
  have ids: "\<exists>j < eng_tasks ty ?t. get_task_id ty (net_objs ?w p) = Inr (int j)"
    if "io_type ty" "state_phase ty ?s \<noteq> Out" for ty
    using that ty' i(2) other assms(1) by (cases "ty = ty'") (auto simp: has_tasks_def)
  have "eng_good (net_eng ?w)"
    using eng_good_set [OF good ty' i(2)] n(2) by simp
  then have "calls_done b p w ?w"
    using seen ids by (simp add: calls_done_def)
  then show ?thesis
    using run by blast
qed

lemma del_call_done:
  assumes "has_tasks b p w" and "calls_fit b [Engine_del ty'] (rep_state (net_eps w p))"
  shows "\<exists>w'. engine_call p (Engine_del ty') w = Inr w' \<and> calls_done b p w w'"
proof -
  let ?t = "net_eng w" and ?objs = "net_objs w" and ?s = "rep_state (net_eps w p)"
  have ty': "io_type ty'" and fit: "b ty' = Inside" "state_phase ty' ?s = Deling"
    and other: "\<And>ty. io_type ty \<Longrightarrow> ty \<noteq> ty' \<Longrightarrow> state_phase ty ?s = b ty"
    using assms(2) by (auto simp: both_types)
  have good: "eng_good ?t"
    using assms(1) by (simp add: has_tasks_def)
  obtain evt where evt: "get_io_evt ty' (?objs p) = Inr evt" "evt \<noteq> 0"
    using assms(1) ty' by (auto simp: has_tasks_def)
  have "b ty' \<noteq> Out"
    using fit(1) by simp
  then obtain i where i: "get_task_id ty' (?objs p) = Inr (int i)" "i < eng_tasks ty' ?t"
    using assms(1) ty' by (auto simp: has_tasks_def)
  obtain n where n: "eng_epoll ty' i ?t = Some n" "m_i32IoType n = ty'"
    using eng_good_epoll [OF good ty' i(2)] by blast
  let ?n = "n\<lparr>m_vecIoObjsDelCache := m_vecIoObjsDelCache n @ [p]\<rparr>"
  let ?w = "w\<lparr>net_eng := eng_set_epoll ty' i ?n ?t\<rparr>"
  have run: "engine_call p (Engine_del ty') w = Inr ?w"
    using eng_del_runs [where objs = ?objs and p = p, OF good ty' evt i n(1)] by (simp add: engine_call_def)
  have seen: "seen b ty j p w ?w" if j: "io_type ty" "j < eng_tasks ty ?t" for ty j
  proof (cases "(ty, j) = (ty', i)")
    case True
    have "(\<lambda>q. net_phase ty j q ?w) = (base_phase b ty j p w)(p := Deling)"
      using True ty' fit(2) i(1) by (auto simp: net_phase_def base_phase_def)
    moreover have "base_phase b ty j p w p = Inside"
      using True fit(1) i(1) by (simp add: base_phase_def)
    ultimately show ?thesis
      using requested_del [of "base_phase b ty j p w" p "caches_of n"] True ty' i(2) n(1) by (simp add: seen_def)
  next
    case False
    have "(\<lambda>q. net_phase ty j q ?w) = base_phase b ty j p w"
      using False ty' j fit other i(1) by (cases "ty = ty'") (auto simp: net_phase_def base_phase_def)
    then show ?thesis
      using False ty' j by (simp add: seen_def requested_none)
  qed
  have ids: "\<exists>j < eng_tasks ty ?t. get_task_id ty (net_objs ?w p) = Inr (int j)"
    if "io_type ty" "state_phase ty ?s \<noteq> Out" for ty
    using that ty' i other assms(1) by (cases "ty = ty'") (auto simp: has_tasks_def)
  have "eng_good (net_eng ?w)"
    using eng_good_set [OF good ty' i(2)] n(2) by simp
  then have "calls_done b p w ?w"
    using seen ids by (simp add: calls_done_def)
  then show ?thesis
    using run by blast
qed

lemma calls_run:
  assumes "has_tasks b p w" and "calls_fit b cs (rep_state (net_eps w p))"
  shows "\<exists>w'. for_each (engine_call p) cs w = Inr w' \<and> calls_done b p w w'"
proof -
  have none: "calls_done b p w w"
    if "\<forall>ty \<in> {EIT_INPUT_TYPE, EIT_OUTPUT_TYPE}. state_phase ty (rep_state (net_eps w p)) = b ty"
    using that by (intro no_call_done [OF assms(1)]) (auto simp: both_types)
  from assms(2) consider ty where "cs = [Engine_add ty]" | ty where "cs = [Engine_del ty]"
    | "cs = []" | "cs = [On_opened]" | "cs = [On_closed]"
    by (cases "(b, cs, rep_state (net_eps w p))" rule: calls_fit.cases) auto
  then show ?thesis
  proof cases
    case 1
    then show ?thesis
      using add_call_done [OF assms(1)] assms(2) by fastforce
  next
    case 2
    then show ?thesis
      using del_call_done [OF assms(1)] assms(2) by fastforce
  qed (use none assms(2) in \<open>auto simp: engine_call_def\<close>)
qed

section \<open>What the handlers ask for\<close>

lemma deref_InrE: "deref p = Inr x \<Longrightarrow> (p = Some x \<Longrightarrow> thesis) \<Longrightarrow> thesis"
  by (cases p) simp_all

definition fits :: "(int \<Rightarrow> io_phase) \<Rightarrow> CRmpEndpoint \<Rightarrow> CRmpEndpoint \<Rightarrow> bool" where
  "fits b t t' \<longleftrightarrow> rep_inv t' \<and> rep_state t' \<in> rep_states \<and>
     (\<exists>cs. rep_calls t' = rep_calls t @ cs \<and> calls_fit b cs (rep_state t'))"

abbreviation phases_of :: "CRmpEndpoint \<Rightarrow> int \<Rightarrow> io_phase" where
  "phases_of t \<equiv> (\<lambda>ty. state_phase ty (rep_state t))"

lemma fitsI:
  "rep_inv t' \<Longrightarrow> rep_state t' \<in> rep_states \<Longrightarrow> rep_calls t' = rep_calls t @ cs \<Longrightarrow>
   calls_fit b cs (rep_state t') \<Longrightarrow> fits b t t'"
  by (auto simp: fits_def)

lemma rep_post_runs:
  assumes "rep_inv t" and "rep_state t \<in> rep_states" and "rep_ok t e v"
  obtains code t' where "rep_post e v t = Inr (code, t')" and "rep_inv t'" and "rep_state t' \<in> rep_states"
  using rep.post_evt_runs [OF assms] by (auto simp: rep_post_def)

lemma added_fits:
  assumes "rep_inv t" and "rep_state t \<in> rep_states" and "0 \<le> rep_ret v" and "join_ok v"
    and "io_type ty" and "state_phase ty (rep_state t) = Adding"
  shows "\<exists>t'. rep_handle_added ty 0 v t = Inr t' \<and> fits ((phases_of t)(ty := Inside)) t t'"
proof (cases "ty = EIT_OUTPUT_TYPE")
  case True
  have s: "rep_state t = ES_ADDING_INTO_OT"
    using assms(6) True by (auto simp: state_phase_def split: if_splits)
  have ok: "rep_ok t EE_ADDED_INTO_OT v"
    using assms(3,4) by (simp add: rep_ok_def)
  obtain code t' where t': "rep_post EE_ADDED_INTO_OT v t = Inr (code, t')" "rep_inv t'" "rep_state t' \<in> rep_states"
    by (rule rep_post_runs [OF assms(1,2) ok])
  have "\<exists>cs. rep_calls t' = rep_calls t @ cs \<and> calls_fit ((phases_of t)(ty := Inside)) cs (rep_state t')"
    using t'(1) s True assms(1,3) by (auto simp: rep_step_simps state_phase_def io_type_def rep_inv_def rep_sock_ok_def
        split: if_splits option.splits)
  then show ?thesis
    using t' True by (simp add: rep_handle_added_def rep_post_void_def fits_def)
next
  case False
  then have ty: "ty = EIT_INPUT_TYPE"
    using assms(5) by (simp add: io_type_def)
  have s: "rep_state t = ES_ADDING_INTO_IT"
    using assms(6) ty by (auto simp: state_phase_def split: if_splits)
  have ok: "rep_ok t EE_ADDED_INTO_IT v"
    using assms(3,4) by (simp add: rep_ok_def)
  obtain code t' where t': "rep_post EE_ADDED_INTO_IT v t = Inr (code, t')" "rep_inv t'" "rep_state t' \<in> rep_states"
    by (rule rep_post_runs [OF assms(1,2) ok])
  obtain k where k: "rep_sock t = Some k"
    using assms(1) s by (auto simp: rep_inv_def rep_sock_ok_def split: option.splits)
  obtain c k' where j: "rmp_join_multicast_group (join_ans v) (local_ans v) k = Inr (c, k')"
    using join_runs [OF assms(4)] by blast
  have "\<exists>cs. rep_calls t' = rep_calls t @ cs \<and> calls_fit ((phases_of t)(ty := Inside)) cs (rep_state t')"
    using t'(1) s ty k j join_code [OF assms(4) j]
    by (auto simp: rep_step_simps state_phase_def io_type_def split: if_splits)
  then show ?thesis
    using t' ty by (simp add: rep_handle_added_def rep_post_void_def fits_def)
qed

lemma deled_fits:
  assumes "rep_inv t" and "rep_state t \<in> rep_states" and "0 \<le> rep_ret v" and "join_ok v"
    and "io_type ty" and "state_phase ty (rep_state t) = Deling"
  shows "\<exists>t'. rep_handle_deled ty v t = Inr t' \<and> fits ((phases_of t)(ty := Out)) t t'"
proof -
  let ?e = "if ty = EIT_INPUT_TYPE then EE_DELED_FROM_IT else EE_DELED_FROM_OT"
  have ty: "ty = EIT_INPUT_TYPE \<and> rep_state t = ES_DELING_FROM_IT \<or> ty = EIT_OUTPUT_TYPE \<and> rep_state t = ES_DELING_FROM_OT"
    using assms(5,6) by (auto simp: state_phase_def io_type_def split: if_splits)
  have ok: "rep_ok t ?e v"
    using assms(3,4) by (simp add: rep_ok_def)
  obtain code t' where t': "rep_post ?e v t = Inr (code, t')" "rep_inv t'" "rep_state t' \<in> rep_states"
    by (rule rep_post_runs [OF assms(1,2) ok])
  have "\<exists>cs. rep_calls t' = rep_calls t @ cs \<and> calls_fit ((phases_of t)(ty := Out)) cs (rep_state t')"
    using t'(1) ty assms(3) by (auto simp: rep_step_simps state_phase_def io_type_def)
  then show ?thesis
    using t' ty by (auto simp: rep_handle_deled_def rep_post_void_def fits_def)
qed

lemma post_err_fits:
  assumes "rep_inv t" and "rep_state t \<in> rep_states" and "0 \<le> rep_ret v" and "join_ok v"
    and "rep_state t \<noteq> ES_ADDING_INTO_OT" and "rep_post_void EE_INTERNAL_ERR v t = Inr t'"
  shows "fits (phases_of t) t t'"
proof -
  have ok: "rep_ok t EE_INTERNAL_ERR v"
    using assms(3-5) by (simp add: rep_ok_def)
  obtain code t1 where t1: "rep_post EE_INTERNAL_ERR v t = Inr (code, t1)" "rep_inv t1" "rep_state t1 \<in> rep_states"
    by (rule rep_post_runs [OF assms(1,2) ok])
  then have t': "rep_post EE_INTERNAL_ERR v t = Inr (code, t')" "rep_inv t'" "rep_state t' \<in> rep_states"
    using assms(6) by (simp_all add: rep_post_void_def)
  have k: "rep_state t = ES_OPENED \<Longrightarrow> \<exists>k. rep_sock t = Some k"
    using assms(1) by (auto simp: rep_inv_def rep_sock_ok_def split: option.splits)
  consider "rep_state t = ES_OPENED" | "rep_state t = ES_CLOSED" | "rep_state t = ES_ADDING_INTO_IT"
    | "rep_state t = ES_DELING_FROM_IT" | "rep_state t = ES_DELING_FROM_OT"
    using assms(2,5) by (auto simp: rep_states_def)
  then have "\<exists>cs. rep_calls t' = rep_calls t @ cs \<and> calls_fit (phases_of t) cs (rep_state t')"
    using t'(1) assms(3) k by cases (auto simp: rep_step_simps state_phase_def io_type_def)
  then show ?thesis
    using t' by (simp add: fits_def)
qed

lemma fits_same: "rep_inv t' \<Longrightarrow> rep_state t' \<in> rep_states \<Longrightarrow> rep_calls t' = rep_calls t \<Longrightarrow> rep_state t' = rep_state t \<Longrightarrow>
    fits (phases_of t) t t'"
  by (rule fitsI [where cs = "[]"]) simp_all

lemma fits_from:
  "fits b t1 t' \<Longrightarrow> rep_calls t1 = rep_calls t \<Longrightarrow> rep_state t1 = rep_state t \<Longrightarrow> fits b t t'"
  by (simp add: fits_def)

lemma rep_inv_sock:
  assumes "rep_inv t" and "rep_sock t = Some k" and "sock_id k' = sock_id k"
  shows "rep_inv (t\<lparr>rep_sock := Some k'\<rparr>)" and "rep_inv (t\<lparr>rep_sock := Some k', rep_recved := r\<rparr>)"
  using assms by (auto simp: rep_inv_def rep_sock_ok_def sock_id_def rmp_is_opened_def)

lemma input_fits:
  assumes "rep_inv t" and "rep_state t \<in> rep_states" and "0 \<le> rep_ret v" and "join_ok v"
    and "rep_handle_input_evt ops vs buf as v t = Inr t'"
  shows "fits (phases_of t) t t'"
proof (cases "rep_state t = ES_OPENED")
  case False
  then show ?thesis
    using assms(1,2,5) by (simp add: rep_handle_input_evt_def fits_same)
next
  case True
  then obtain k code ps k' where k: "rep_sock t = Some k" "rmp_input ops vs buf as k = Inr (code, ps, k')"
    and rest: "(let t = t\<lparr>rep_sock := Some k', rep_recved := rep_recved t @ ps\<rparr> in
           if code = CMNERR_ODATA_READY \<or> code = CMNERR_RECV_PENDING \<or> code = CMNERR_SUC then Inr t
           else rep_post_void EE_INTERNAL_ERR v t) = Inr t'"
    using assms(5) by (auto simp: rep_handle_input_evt_def elim!: bindr_InrE deref_InrE)
  let ?t = "t\<lparr>rep_sock := Some k', rep_recved := rep_recved t @ ps\<rparr>"
  have inv: "rep_inv ?t"
    by (rule rep_inv_sock(2) [OF assms(1) k(1) rmp_input_sock [OF k(2)]])
  show ?thesis
  proof (cases "code = CMNERR_ODATA_READY \<or> code = CMNERR_RECV_PENDING \<or> code = CMNERR_SUC")
    case True
    then show ?thesis
      using rest inv assms(2) by (auto simp: Let_def intro: fits_same)
  next
    case False
    then have "rep_post_void EE_INTERNAL_ERR v ?t = Inr t'"
      using rest by (simp add: Let_def)
    from post_err_fits [OF inv _ assms(3,4) _ this] show ?thesis
      using assms(2) True by (auto intro: fits_from [of _ ?t])
  qed
qed

lemma output_fits:
  assumes "rep_inv t" and "rep_state t \<in> rep_states" and "0 \<le> rep_ret v" and "join_ok v"
    and "rep_handle_output_evt now buf nb as v t = Inr t'"
  shows "fits (phases_of t) t t'"
proof (cases "rep_state t = ES_OPENED")
  case False
  then show ?thesis
    using assms(1,2,5) by (simp add: rep_handle_output_evt_def fits_same)
next
  case True
  then obtain k code as' k' where k: "rep_sock t = Some k" "rmp_handle_can_send now buf nb as k = Inr (code, as', k')"
    and rest: "(let t = t\<lparr>rep_sock := Some k'\<rparr> in
           if code = CMNERR_IO_ERR then rep_post_void EE_INTERNAL_ERR v t else Inr t) = Inr t'"
    using assms(5) by (auto simp: rep_handle_output_evt_def elim!: bindr_InrE deref_InrE)
  let ?t = "t\<lparr>rep_sock := Some k'\<rparr>"
  have inv: "rep_inv ?t"
    by (rule rep_inv_sock(1) [OF assms(1) k(1) can_send_sock [OF k(2)]])
  show ?thesis
  proof (cases "code = CMNERR_IO_ERR")
    case False
    then show ?thesis
      using rest inv assms(2) by (auto simp: Let_def intro: fits_same)
  next
    case err: True
    then have "rep_post_void EE_INTERNAL_ERR v ?t = Inr t'"
      using rest by (simp add: Let_def)
    from post_err_fits [OF inv _ assms(3,4) _ this] show ?thesis
      using assms(2) True by (auto intro: fits_from [of _ ?t])
  qed
qed

text \<open>An event, while the endpoint is in a task of some type.\<close>

lemma event_fits:
  assumes "rep_inv t" and "rep_state t \<in> rep_states" and "0 \<le> rep_ret (in_arg a)" and "join_ok (in_arg a)"
    and "state_phase ty (rep_state t) = Inside \<or> state_phase ty (rep_state t) = Deling"
    and "io_call_of evts = Some c" and "ep_callback a c t = Inr t'"
  shows "fits (phases_of t) t t'"
proof -
  have s: "rep_state t \<noteq> ES_ADDING_INTO_OT"
    using assms(5) by (auto simp: state_phase_def split: if_splits)
  have "c = Input_evt \<or> c = Output_evt \<or> (\<exists>e. c = Io_error e)"
    using assms(6) by (auto simp: io_call_of_def split: if_splits)
  then show ?thesis
    using assms(7) input_fits [OF assms(1-4)] output_fits [OF assms(1-4)] post_err_fits [OF assms(1-4) s]
    by (auto simp: ep_callback_def rep_handle_io_error_def)
qed

section \<open>A step of one endpoint\<close>

lemma ep_run_runs:
  assumes "net_ok w" and "f (net_eps w p) = Inr t" and "fits b (net_eps w p) t"
    and "\<And>ty. io_type ty \<Longrightarrow> b ty \<noteq> Out \<Longrightarrow> phases_of (net_eps w p) ty \<noteq> Out"
  shows "\<exists>w'. ep_run p f w = Inr w' \<and> net_ok w' \<and> net_eps w' = (net_eps w)(p := t) \<and>
    (\<forall>ty. eng_tasks ty (net_eng w') = eng_tasks ty (net_eng w)) \<and>
    (\<forall>ty i. io_type ty \<and> i < eng_tasks ty (net_eng w) \<longrightarrow> seen b ty i p w w')"
proof -
  let ?w = "w\<lparr>net_eps := (net_eps w)(p := t)\<rparr>"
  obtain cs where cs: "rep_calls t = rep_calls (net_eps w p) @ cs" "calls_fit b cs (rep_state t)"
    and inv: "rep_inv t" "rep_state t \<in> rep_states"
    using assms(3) by (auto simp: fits_def)
  have "has_tasks b p ?w"
    using assms(1,4) by (auto simp: has_tasks_def net_ok_def joined_ok_def)
  moreover have "calls_fit b cs (rep_state (net_eps ?w p))"
    using cs(2) by simp
  ultimately obtain w' where run: "for_each (engine_call p) cs ?w = Inr w'" and dn: "calls_done b p ?w w'"
    using calls_run by blast
  have good: "joined_ok (net_eng w') (net_objs w' q) (net_eps w' q)" for q
  proof (cases "q = p")
    case True
    have "\<exists>evt. get_io_evt ty (net_objs w p) = Inr evt \<and> evt \<noteq> 0" if "io_type ty" for ty
      using assms(1) that by (simp add: net_ok_def joined_ok_def)
    then show ?thesis
      using True dn inv by (simp add: joined_ok_def calls_done_def)
  next
    case False
    then show ?thesis
      using dn assms(1) by (simp add: calls_done_def net_ok_def joined_ok_def)
  qed
  have "seen b ty i p w w'" if "io_type ty" "i < eng_tasks ty (net_eng w)" for ty i
  proof -
    have "base_phase b ty i p ?w = base_phase b ty i p w"
      by (auto simp: base_phase_def net_phase_def)
    moreover have "seen b ty i p ?w w'"
      using dn that by (simp add: calls_done_def)
    ultimately show ?thesis
      by (simp add: seen_def)
  qed
  then show ?thesis
    using run dn cs(1) assms(2) good by (auto simp: ep_run_def calls_done_def net_ok_def)
qed

text \<open>For the notifier the endpoint is moved in, and for all others.\<close>

lemma ep_run_good:
  assumes "net_good ty i w" and "io_type ty" and "get_task_id ty (net_objs w p) = Inr (int i)"
    and "f (net_eps w p) = Inr t" and "fits ((phases_of (net_eps w p))(ty := x)) (net_eps w p) t"
    and "net_phase ty i p w \<noteq> Out"
  shows "\<exists>w'. ep_run p f w = Inr w' \<and> net_good ty i w' \<and>
    requested (caches_of (the (eng_epoll ty i (net_eng w)))) ((\<lambda>q. net_phase ty i q w)(p := x))
      (caches_of (the (eng_epoll ty i (net_eng w')))) (\<lambda>q. net_phase ty i q w')"
proof -
  let ?b = "(phases_of (net_eps w p))(ty := x)"
  have ok: "net_ok w" and i: "i < eng_tasks ty (net_eng w)"
    and others: "\<And>ty' j. io_type ty' \<Longrightarrow> j < eng_tasks ty' (net_eng w) \<Longrightarrow> (ty', j) \<noteq> (ty, i) \<Longrightarrow> net_linked ty' j w"
    using assms(1) by (auto simp: net_good_def)
  have "phases_of (net_eps w p) ty \<noteq> Out"
    using assms(6) by (auto simp: net_phase_def split: if_splits)
  then have kept: "phases_of (net_eps w p) ty' \<noteq> Out" if "io_type ty'" "?b ty' \<noteq> Out" for ty'
    using that by (cases "ty' = ty") simp_all
  obtain w' where w': "ep_run p f w = Inr w'" "net_ok w'"
    "\<forall>ty. eng_tasks ty (net_eng w') = eng_tasks ty (net_eng w)"
    "\<And>ty i. io_type ty \<Longrightarrow> i < eng_tasks ty (net_eng w) \<Longrightarrow> seen ?b ty i p w w'"
    using ep_run_runs [where f = f and p = p, OF ok assms(4,5) kept] by blast
  have own: "base_phase ?b ty i p w = (\<lambda>q. net_phase ty i q w)(p := x)"
    using assms(3) by (auto simp: base_phase_def)
  have "net_linked ty' j w'" if "io_type ty'" "j < eng_tasks ty' (net_eng w')" "(ty', j) \<noteq> (ty, i)" for ty' j
  proof -
    have "base_phase ?b ty' j p w = (\<lambda>q. net_phase ty' j q w)"
      using assms(3) that(3) by (cases "ty' = ty") (auto simp: base_phase_def net_phase_def)
    then show ?thesis
      using w'(3,4) that others [of ty' j] requested_linked by (fastforce simp: seen_def net_linked_def)
  qed
  then have "net_good ty i w'"
    using w'(2,3) i by (auto simp: net_good_def)
  then show ?thesis
    using w'(1) w'(4) [OF assms(2) i] own by (auto simp: seen_def)
qed

section \<open>The notifiers of the engine and their objects\<close>

lemma phase_id: "net_phase ty i p w \<noteq> Out \<Longrightarrow> get_task_id ty (net_objs w p) = Inr (int i) \<and>
    net_phase ty i p w = state_phase ty (rep_state (net_eps w p))"
  by (auto simp: net_phase_def split: if_splits)

lemma net_good_ep:
  "net_good ty i w \<Longrightarrow> rep_inv (net_eps w p) \<and> rep_state (net_eps w p) \<in> rep_states"
  "net_good ty i w \<Longrightarrow> io_type ty' \<Longrightarrow> \<exists>evt. get_io_evt ty' (net_objs w p) = Inr evt \<and> evt \<noteq> 0"
  by (simp_all add: net_good_def net_ok_def joined_ok_def)

lemma net_good_epoll:
  assumes "net_good ty i w" and "io_type ty"
  obtains n where "eng_epoll ty i (net_eng w) = Some n" and "m_i32IoType n = ty"
proof -
  have "eng_good (net_eng w)" "i < eng_tasks ty (net_eng w)"
    using assms(1) by (simp_all add: net_good_def net_ok_def)
  from eng_good_epoll [OF this(1) assms(2) this(2)] show ?thesis
    using that by blast
qed

lemma net_phase_eng [simp]: "net_phase ty i p (w\<lparr>net_eng := t\<rparr>) = net_phase ty i p w"
  by (simp add: net_phase_def)

lemma net_linked_set:
  "io_type ty \<Longrightarrow> io_type ty' \<Longrightarrow> (ty', j) \<noteq> (ty, i) \<Longrightarrow>
   net_linked ty' j (w\<lparr>net_eng := eng_set_epoll ty i n (net_eng w)\<rparr>) = net_linked ty' j w"
  by (simp add: net_linked_def)

lemma net_good_set:
  assumes "net_good ty i w" and "io_type ty" and "m_i32IoType n = ty"
  shows "net_good ty i (w\<lparr>net_eng := eng_set_epoll ty i n (net_eng w)\<rparr>)"
  using assms eng_good_set [of "net_eng w" ty i n]
  by (simp add: net_good_def net_ok_def joined_ok_def net_linked_set)

lemma rep_phase_sock:
  assumes "rep_inv t" and "state_phase ty (rep_state t) = Adding \<or> state_phase ty (rep_state t) = Deling"
  shows "\<exists>h. rep_get_ioobj_handle t = Inr h \<and> (state_phase ty (rep_state t) = Adding \<longrightarrow> 0 \<le> h)"
  using assms by (auto simp: rep_inv_def rep_sock_ok_def rep_get_ioobj_handle_def state_phase_def rmp_is_opened_def
      split: option.splits if_splits)

definition net_ready :: "(nat \<Rightarrow> net \<Rightarrow> ep_in) \<Rightarrow> int \<Rightarrow> nat \<Rightarrow> net \<Rightarrow> bool" where
  "net_ready env ty i w \<longleftrightarrow> env_ok env \<and> io_type ty \<and> net_good ty i w"

text \<open>Every notifier of the engine keeps the contract with the endpoints.\<close>

interpretation nio: io_client "net_io env ty i" ty "net_phase ty i" "net_ready env ty i" for env ty i
proof
  fix w t p
  show "net_phase ty i p (set_epoll (net_io env ty i) t w) = net_phase ty i p w"
    by (simp add: net_io_def net_phase_def)
  assume ready: "net_ready env ty i w"
  then have good: "net_good ty i w" and ty: "io_type ty" and env_ok: "env_ok env"
    by (simp_all add: net_ready_def)
  obtain n where n: "eng_epoll ty i (net_eng w) = Some n" "m_i32IoType n = ty"
    by (rule net_good_epoll [OF good ty])
  have i: "i < eng_tasks ty (net_eng w)"
    using good by (simp add: net_good_def)
  have env: "0 \<le> rep_ret (in_arg (env p w))" "join_ok (in_arg (env p w))"
    using env_ok by (simp_all add: env_ok_def)
  note inv = net_good_ep(1) [OF good, of p, THEN conjunct1] net_good_ep(1) [OF good, of p, THEN conjunct2]
  show "the_epoll (net_io env ty i) (set_epoll (net_io env ty i) t w) = t"
    using ty i by (simp add: net_io_def)
  show "net_ready env ty i (set_epoll (net_io env ty i) t w)" if "m_i32IoType t = ty"
    using net_good_set [OF good ty that] ty env_ok by (simp add: net_io_def net_ready_def)
  show "m_i32IoType (the_epoll (net_io env ty i) w) = ty"
    using n by (simp add: net_io_def)
  show "\<exists>h. handle_of (net_io env ty i) p w = Inr h" if "net_phase ty i p w = Deling"
    using rep_phase_sock [OF inv(1), of ty] phase_id [of ty i p w] that by (auto simp: net_io_def)
  show "\<exists>h e. handle_of (net_io env ty i) p w = Inr h \<and> 0 \<le> h \<and> get_io_evt ty (obj_of (net_io env ty i) p w) = Inr e"
    if "net_phase ty i p w = Adding"
    using rep_phase_sock [OF inv(1), of ty] phase_id [of ty i p w] that net_good_ep(2) [OF good ty, of p]
    by (auto simp: net_io_def)
  show "\<exists>w'. callback (net_io env ty i) (Deled_from_io_task ty) p w = Inr w' \<and> net_ready env ty i w' \<and>
      requested (caches_of (the_epoll (net_io env ty i) w)) ((\<lambda>q. net_phase ty i q w)(p := Out))
        (caches_of (the_epoll (net_io env ty i) w')) (\<lambda>q. net_phase ty i q w')"
    if ph: "net_phase ty i p w = Deling"
  proof -
    have id: "get_task_id ty (net_objs w p) = Inr (int i)" "state_phase ty (rep_state (net_eps w p)) = Deling"
      using phase_id [of ty i p w] ph by simp_all
    obtain t' where t': "rep_handle_deled ty (in_arg (env p w)) (net_eps w p) = Inr t'"
      "fits ((phases_of (net_eps w p))(ty := Out)) (net_eps w p) t'"
      using deled_fits [OF inv env ty id(2)] by blast
    show ?thesis
      using ep_run_good [where f = "ep_callback (env p w) (Deled_from_io_task ty)", OF good ty id(1) _ t'(2)] t'(1) ph
      ty env_ok by (simp add: net_io_def ep_callback_def net_ready_def)
  qed
  show "\<exists>w'. callback (net_io env ty i) (Added_into_io_task ty 0) p w = Inr w' \<and> net_ready env ty i w' \<and>
      requested (caches_of (the_epoll (net_io env ty i) w)) ((\<lambda>q. net_phase ty i q w)(p := Inside))
        (caches_of (the_epoll (net_io env ty i) w')) (\<lambda>q. net_phase ty i q w')"
    if ph: "net_phase ty i p w = Adding"
  proof -
    have id: "get_task_id ty (net_objs w p) = Inr (int i)" "state_phase ty (rep_state (net_eps w p)) = Adding"
      using phase_id [of ty i p w] ph by simp_all
    obtain t' where t': "rep_handle_added ty 0 (in_arg (env p w)) (net_eps w p) = Inr t'"
      "fits ((phases_of (net_eps w p))(ty := Inside)) (net_eps w p) t'"
      using added_fits [OF inv env ty id(2)] by blast
    show ?thesis
      using ep_run_good [where f = "ep_callback (env p w) (Added_into_io_task ty 0)", OF good ty id(1) _ t'(2)] t'(1) ph
      ty env_ok by (simp add: net_io_def ep_callback_def net_ready_def)
  qed
  show "net_ready env ty i w' \<and>
      requested (caches_of (the_epoll (net_io env ty i) w)) (\<lambda>q. net_phase ty i q w)
        (caches_of (the_epoll (net_io env ty i) w')) (\<lambda>q. net_phase ty i q w')"
    if ph: "net_phase ty i p w = Inside \<or> net_phase ty i p w = Deling" and c: "io_call_of e = Some c"
      and run: "callback (net_io env ty i) c p w = Inr w'" for e c w'
  proof -
    have out: "net_phase ty i p w \<noteq> Out"
      using ph by auto
    note id = phase_id [OF out]
    obtain t' where t': "ep_callback (env p w) c (net_eps w p) = Inr t'"
      using run by (auto simp: net_io_def ep_run_def elim: bindr_InrE)
    have "fits (phases_of (net_eps w p)) (net_eps w p) t'"
      using event_fits [OF inv env _ c t'] ph id by simp
    then have "fits ((phases_of (net_eps w p))(ty := net_phase ty i p w)) (net_eps w p) t'"
      using id by (simp add: fun_upd_idem)
    note step = ep_run_good [where f = "ep_callback (env p w) c", OF good ty conjunct1 [OF id] t' this out]
    have idem: "(\<lambda>q. net_phase ty i q w)(p := net_phase ty i p w) = (\<lambda>q. net_phase ty i q w)"
      by auto
    show ?thesis
      using step [unfolded idem] run ty env_ok by (auto simp: net_io_def net_ready_def)
  qed
qed

end
