(* ===== verification/EngineRuns.thy ===== *)
theory EngineRuns
  imports EngineNet
begin

text \<open>
  Runs of a started engine with its multicast endpoints: the application opens and closes
  endpoints, the threads of the tasks run their rounds (\<open>CEpoll::exec\<close>), in any order. What
  holds after every run rests on the contract of \<open>Epoll\<close>, as \<open>EngineNet\<close> interprets it.
\<close>

section \<open>Runs\<close>

text \<open>The constructor of \<open>CRmpEndpoint\<close> sets the events of both types.\<close>

definition rmp_ep_obj :: "IIoObj res" where
  "rmp_ep_obj =
     bindr (set_io_evt EIT_INPUT_TYPE EPOLLIN new_io_obj) (set_io_evt EIT_OUTPUT_TYPE EPOLLOUT)"

text \<open>A started engine and new endpoints.\<close>

definition new_net :: "start_arg \<Rightarrow> net \<Rightarrow> bool" where
  "new_net sp w \<longleftrightarrow> start_ok sp \<and> eng_start sp new_engine = Inr (0, net_eng w) \<and>
     (\<forall>p. rmp_ep_obj = Inr (net_objs w p)) \<and> (\<forall>p. \<exists>raw ty. new_rmp_endpoint raw ty = Inr (net_eps w p))"

definition arg_ok :: "rep_arg \<Rightarrow> bool" where
  "arg_ok v \<longleftrightarrow> 0 \<le> rep_ret v \<and> join_ok v"

text \<open>
  The application opens and closes endpoints, the threads run their rounds, in any order. The
  kernel adds open descriptors and reports registered objects; an endpoint is opened with
  nothing pending.
\<close>

inductive net_steps :: "(nat \<Rightarrow> net \<Rightarrow> ep_in) \<Rightarrow> net \<Rightarrow> net \<Rightarrow> bool" for env where
  net_start: "net_steps env w w"
| net_opens: "net_steps env w w1 \<Longrightarrow> rep_pending (net_eps w1 p) = EE_NONE \<Longrightarrow> arg_ok v \<Longrightarrow>
    net_open p v w1 = Inr w2 \<Longrightarrow> net_steps env w w2"
| net_closes: "net_steps env w w1 \<Longrightarrow> arg_ok v \<Longrightarrow> net_close p v w1 = Inr w2 \<Longrightarrow> net_steps env w w2"
| net_round: "net_steps env w w1 \<Longrightarrow> io_type ty \<Longrightarrow> i < eng_tasks ty (net_eng w1) \<Longrightarrow> ctl_ok ctls \<Longrightarrow> wait_ok wait \<Longrightarrow>
    net_exec env ty i ctls wait w1 = Inr (code, w2) \<Longrightarrow> net_steps env w w2"

definition net_inv :: "net \<Rightarrow> bool" where
  "net_inv w \<longleftrightarrow> net_ok w \<and> (\<forall>ty i. io_type ty \<and> i < eng_tasks ty (net_eng w) \<longrightarrow> net_linked ty i w)"

lemma net_inv_ready:
  "net_inv w \<Longrightarrow> env_ok env \<Longrightarrow> io_type ty \<Longrightarrow> i < eng_tasks ty (net_eng w) \<Longrightarrow>
    net_ready env ty i w \<and> linked (caches_of (the_epoll (net_io env ty i) w)) (\<lambda>q. net_phase ty i q w) [] []"
  by (simp add: net_inv_def net_ready_def net_good_def net_linked_def net_io_def)

lemma net_ready_inv:
  "net_ready env ty i w \<Longrightarrow> linked (caches_of (the_epoll (net_io env ty i) w)) (\<lambda>q. net_phase ty i q w) [] [] \<Longrightarrow> net_inv w"
  by (auto simp: net_inv_def net_ready_def net_good_def net_linked_def net_io_def)

lemma app_step:
  assumes "net_inv w" and "f (net_eps w p) = Inr t" and "fits (phases_of (net_eps w p)) (net_eps w p) t"
  shows "\<exists>w'. ep_run p f w = Inr w' \<and> net_inv w' \<and> net_eps w' = (net_eps w)(p := t)"
proof -
  obtain w' where w': "ep_run p f w = Inr w'" "net_ok w'" "net_eps w' = (net_eps w)(p := t)"
    "\<forall>ty. eng_tasks ty (net_eng w') = eng_tasks ty (net_eng w)"
    "\<And>ty i. io_type ty \<Longrightarrow> i < eng_tasks ty (net_eng w) \<Longrightarrow> seen (phases_of (net_eps w p)) ty i p w w'"
    using ep_run_runs [where f = f and p = p, OF _ assms(2,3)] assms(1) by (auto simp: net_inv_def)
  have "net_linked ty i w'" if "io_type ty" "i < eng_tasks ty (net_eng w')" for ty i
  proof -
    have "base_phase (phases_of (net_eps w p)) ty i p w = (\<lambda>q. net_phase ty i q w)"
      by (auto simp: base_phase_def net_phase_def)
    then have "requested (caches_of (the (eng_epoll ty i (net_eng w)))) (\<lambda>q. net_phase ty i q w)
        (caches_of (the (eng_epoll ty i (net_eng w')))) (\<lambda>q. net_phase ty i q w')"
      using w'(4) w'(5) [of ty i] that by (simp add: seen_def)
    then show ?thesis
      using assms(1) that w'(4) requested_linked by (fastforce simp: net_inv_def net_linked_def)
  qed
  then show ?thesis
    using w'(1-3) by (auto simp: net_inv_def)
qed

lemma open_fits:
  assumes "rep_inv t" and "rep_state t \<in> rep_states" and "arg_ok v" and "rep_pending t = EE_NONE"
  shows "\<exists>code t'. rep_open v t = Inr (code, t') \<and> fits (phases_of t) t t'"
proof -
  have ok: "rep_ok t EE_OPEN v"
    using assms(3,4) by (simp add: rep_ok_def arg_ok_def)
  obtain code t' where t': "rep_post EE_OPEN v t = Inr (code, t')" "rep_inv t'" "rep_state t' \<in> rep_states"
    by (rule rep_post_runs [OF assms(1,2) ok])
  have "fits (phases_of t) t t'"
  proof (cases "rep_state t = ES_CLOSED")
    case False
    then have "t' = t"
      using t'(1) by (simp add: rep_post_table reg_find_Cons reg_find_Nil rep_regs_def)
    then show ?thesis
      using assms(1,2) by (simp add: fits_same)
  next
    case True
    have "\<exists>cs. rep_calls t' = rep_calls t @ cs \<and> calls_fit (phases_of t) cs (rep_state t')"
      using t'(1) True assms(3) by (auto simp: arg_ok_def rep_post_table reg_find_Cons rep_regs_def handling_closed_to_adding_into_ot_def
          Let_def state_phase_def io_type_def elim!: bindr_InrE split: if_splits)
    then show ?thesis
      using t' by (simp add: fits_def)
  qed
  then show ?thesis
    using t'(1) by (auto simp: rep_open_def)
qed

lemma close_fits:
  assumes "rep_inv t" and "rep_state t \<in> rep_states" and "arg_ok v"
  shows "\<exists>code t'. rep_close v t = Inr (code, t') \<and> fits (phases_of t) t t'"
proof -
  have ok: "rep_ok t EE_CLOSE v"
    using assms(3) by (simp add: rep_ok_def arg_ok_def)
  obtain code t' where t': "rep_post EE_CLOSE v t = Inr (code, t')" "rep_inv t'" "rep_state t' \<in> rep_states"
    by (rule rep_post_runs [OF assms(1,2) ok])
  have k: "rep_state t = ES_OPENED \<Longrightarrow> \<exists>k. rep_sock t = Some k"
    using assms(1) by (auto simp: rep_inv_def rep_sock_ok_def split: option.splits)
  have ret: "0 \<le> rep_ret v"
    using assms(3) by (simp add: arg_ok_def)
  consider "rep_state t = ES_OPENED" | "rep_state t = ES_CLOSED" | "rep_state t = ES_ADDING_INTO_IT"
    | "rep_state t = ES_DELING_FROM_IT" | "rep_state t = ES_DELING_FROM_OT" | "rep_state t = ES_ADDING_INTO_OT"
    using assms(2) by (auto simp: rep_states_def)
  then have "\<exists>cs. rep_calls t' = rep_calls t @ cs \<and> calls_fit (phases_of t) cs (rep_state t')"
    using t'(1) ret k by cases (auto simp: rep_step_simps state_phase_def io_type_def)
  then show ?thesis
    using t' by (auto simp: fits_def rep_close_def)
qed

lemma net_inv_ep: "net_inv w \<Longrightarrow> rep_inv (net_eps w p) \<and> rep_state (net_eps w p) \<in> rep_states"
  by (simp add: net_inv_def net_ok_def joined_ok_def)

lemma net_open_runs:
  assumes "net_inv w" and "arg_ok v" and "rep_pending (net_eps w p) = EE_NONE"
  shows "\<exists>w' code t. net_open p v w = Inr w' \<and> net_inv w' \<and> rep_open v (net_eps w p) = Inr (code, t) \<and>
    net_eps w' = (net_eps w)(p := t)"
proof -
  obtain code t where "rep_open v (net_eps w p) = Inr (code, t)" "fits (phases_of (net_eps w p)) (net_eps w p) t"
    using open_fits [OF _ _ assms(2,3)] net_inv_ep [OF assms(1), of p] by blast
  then show ?thesis
    unfolding net_open_def
    using app_step [where f = "\<lambda>t. bindr (rep_open v t) (\<lambda>(code, t). Inr t)" and p = p and t = t, OF assms(1)] by auto
qed

lemma net_close_runs:
  assumes "net_inv w" and "arg_ok v"
  shows "\<exists>w'. net_close p v w = Inr w' \<and> net_inv w'"
proof -
  obtain code t where "rep_close v (net_eps w p) = Inr (code, t)" "fits (phases_of (net_eps w p)) (net_eps w p) t"
    using close_fits [OF _ _ assms(2)] net_inv_ep [OF assms(1), of p] by blast
  then show ?thesis
    unfolding net_close_def
    using app_step [where f = "\<lambda>t. bindr (rep_close v t) (\<lambda>(code, t). Inr t)" and p = p and t = t, OF assms(1)] by auto
qed

text \<open>What stops a round: an event whose handler fails.\<close>

definition events_fail :: "(nat \<Rightarrow> net \<Rightarrow> ep_in) \<Rightarrow> int \<Rightarrow> nat \<Rightarrow> ctl list \<Rightarrow> wait \<Rightarrow> net \<Rightarrow> bool" where
  "events_fail env ty i ctls wait w \<longleftrightarrow>
     (case bindr (del_phase (net_io env ty i) w) (add_phase (net_io env ty i) ctls) of
        Inl f \<Rightarrow> False
      | Inr (ctls, w) \<Rightarrow>
          (case wait (m_setIoObjs (the_epoll (net_io env ty i) w)) of
             Os_fail e \<Rightarrow> False
           | Os_ok evs \<Rightarrow> \<not> events_run (net_io env ty i) evs w))"

lemma net_round_ok:
  assumes "net_inv w" and "env_ok env" and "io_type ty" and "i < eng_tasks ty (net_eng w)" and "ctl_ok ctls" and "wait_ok wait"
    and "\<not> events_fail env ty i ctls wait w"
  shows "case net_exec env ty i ctls wait w of
      Inl f \<Rightarrow> f = Awaiting_os \<and> ctls_missing (net_io env ty i) ctls w
    | Inr (code, w') \<Rightarrow> code = CMNERR_SUC \<and> net_inv w' \<and>
        (\<forall>p. net_phase ty i p w = Adding \<longrightarrow> net_phase ty i p w' = Inside \<or> net_phase ty i p w' = Deling)"
proof -
  have ready: "net_ready env ty i w" "linked (caches_of (the_epoll (net_io env ty i) w)) (\<lambda>q. net_phase ty i q w) [] []"
    using net_inv_ready [OF assms(1-4)] by simp_all
  have run: "events_run (net_io env ty i) evs w2"
    if "del_phase (net_io env ty i) w = Inr w1" "add_phase (net_io env ty i) ctls w1 = Inr (ctls', w2)"
      "wait (m_setIoObjs (the_epoll (net_io env ty i) w2)) = Os_ok evs" for w1 ctls' w2 evs
    using assms(7) that by (simp add: events_fail_def)
  have "case epoll_exec (net_io env ty i) ctls wait w of
      Inl f \<Rightarrow> f = Awaiting_os \<and> ctls_missing (net_io env ty i) ctls w
    | Inr (code, w') \<Rightarrow> code = CMNERR_SUC \<and> net_ready env ty i w' \<and>
        linked (caches_of (the_epoll (net_io env ty i) w')) (\<lambda>q. net_phase ty i q w') [] [] \<and>
        (\<forall>q. net_phase ty i q w = Adding \<longrightarrow> net_phase ty i q w' = Inside \<or> net_phase ty i q w' = Deling)"
    by (rule nio.exec_ok [OF ready assms(5,6)]) (rule run)
  then show ?thesis
    using net_ready_inv by (auto simp: net_exec_def split: sum.splits)
qed

lemma exec_no_fail: "net_exec env ty i ctls wait w = Inr r \<Longrightarrow> \<not> events_fail env ty i ctls wait w"
proof -
  have run: "for_each (evt_round V) evs w = Inr w' \<Longrightarrow> events_run V evs w" for V :: "net io_objs" and evs w w'
    by (induction evs arbitrary: w) (auto elim: bindr_InrE)
  assume "net_exec env ty i ctls wait w = Inr r"
  then show ?thesis
    by (auto simp: net_exec_def epoll_exec_def events_fail_def elim!: bindr_InrE split: os_ret.splits dest: run)
qed

lemma net_steps_inv:
  assumes "net_steps env w0 w" and "env_ok env" and "net_inv w0"
  shows "net_inv w"
  using assms
proof (induction rule: net_steps.induct)
  case (net_opens w w1 p v w2)
  then show ?case
    using net_open_runs [of w1 v p] by auto
next
  case (net_closes w w1 v p w2)
  then show ?case
    using net_close_runs [of w1 v p] by auto
next
  case (net_round w w1 ty i ctls wait code w2)
  then show ?case
    using net_round_ok [of w1 env ty i ctls wait] exec_no_fail [of env ty i ctls wait w1] by auto
qed

lemma new_net_inv:
  assumes "new_net sp w"
  shows "net_inv w"
proof -
  have sp: "start_ok sp" and e: "net_eng w = started_engine sp"
    using assms eng_start_new [of sp] by (auto simp: new_net_def)
  have ep: "rep_inv (net_eps w p)" "rep_state (net_eps w p) = ES_CLOSED" "rep_state (net_eps w p) \<in> rep_states" for p
  proof -
    obtain raw ty where "new_rmp_endpoint raw ty = Inr (net_eps w p)"
      using assms unfolding new_net_def by blast
    from new_rmp_endpoint_good [OF this] show "rep_inv (net_eps w p)" "rep_state (net_eps w p) = ES_CLOSED"
      "rep_state (net_eps w p) \<in> rep_states"
      by (simp_all add: rep_states_def)
  qed
  have obj: "\<exists>evt. get_io_evt ty (net_objs w p) = Inr evt \<and> evt \<noteq> 0" if "io_type ty" for ty p
  proof -
    have "rmp_ep_obj = Inr (net_objs w p)"
      using assms by (simp add: new_net_def)
    then show ?thesis
      using that by (auto simp: rmp_ep_obj_def set_io_evt_def get_io_evt_def io_type_def dest: sym)
  qed
  have out: "state_phase ty ES_CLOSED = Out" for ty
    by (simp add: state_phase_def)
  have "net_linked ty i w" if "io_type ty" "i < eng_tasks ty (net_eng w)" for ty i
    using that e ep(2) out
    by (auto simp: net_linked_def linked_def net_phase_def io_type_def eng_tasks_def eng_epoll_def started_engine_def
        Let_def started_input_def started_output_def started_epoll_def new_epoll_def)
  moreover have "eng_good (net_eng w)"
    using started_engine_good [OF sp] e by simp
  ultimately show ?thesis
    using ep obj out by (simp add: net_inv_def net_ok_def joined_ok_def)
qed

section \<open>Properties\<close>




section \<open>An example\<close>

definition demo_net :: net where
  "demo_net = \<lparr>net_eng = started_engine demo_start,
     net_objs = (\<lambda>p. new_io_obj\<lparr>m_ui32InputEvt := EPOLLIN, m_ui32OutputEvt := EPOLLOUT\<rparr>),
     net_eps = (\<lambda>p. case new_rmp_endpoint 0 RMP_RECV_ENDPOINT of Inl f \<Rightarrow> undefined | Inr t \<Rightarrow> t)\<rparr>"

definition demo_env :: "nat \<Rightarrow> net \<Rightarrow> ep_in" where
  "demo_env p w = \<lparr>in_ops = std_map_ops, in_rounds = [], in_now = 0, in_buf = [], in_nak_buf = [], in_answers = [],
     in_arg = demo_arg\<rparr>"

lemma demo_env_ok: "env_ok demo_env"
  by (simp add: env_ok_def demo_env_def)

lemma demo_net_new: "new_net demo_start demo_net"
proof -
  obtain t where t: "new_rmp_endpoint 0 RMP_RECV_ENDPOINT = Inr t"
    by (simp add: new_rmp_endpoint_def)
  then show ?thesis
    using eng_start_new [OF demo_start_ok] demo_start_ok
    by (auto simp: new_net_def demo_net_def rmp_ep_obj_def set_io_evt_def)
qed

text \<open>A round of a task that only the endpoint number 3 waits for.\<close>

lemma demo_net_round:
  assumes "net_inv w" and "io_type ty" and "get_task_id ty (net_objs w 3) = Inr (int i)"
    and "state_phase ty (rep_state (net_eps w 3)) = Adding" and "\<And>q. q \<noteq> 3 \<Longrightarrow> rep_state (net_eps w q) = ES_CLOSED"
    and "rep_handle_added ty 0 demo_arg (net_eps w 3) = Inr t"
  obtains w' where "net_exec demo_env ty i [\<lambda>h e. 0] (\<lambda>s. Os_ok []) w = Inr (CMNERR_SUC, w')"
    and "net_eps w' = (net_eps w)(3 := t)"
proof -
  let ?V = "net_io demo_env ty i"
  have phase: "net_phase ty i q w = (if q = 3 then Adding else Out)" for q
    using assms(3-5) by (simp add: net_phase_def state_phase_def)
  have "\<exists>i < eng_tasks ty (net_eng w). get_task_id ty (net_objs w 3) = Inr (int i)"
    using assms(1,2,4) by (simp add: net_inv_def net_ok_def joined_ok_def)
  then have i: "i < eng_tasks ty (net_eng w)"
    using assms(3) by auto
  have good: "eng_good (net_eng w)"
    using assms(1) by (simp add: net_inv_def net_ok_def)
  obtain n where n: "eng_epoll ty i (net_eng w) = Some n" "m_i32IoType n = ty"
    by (rule eng_good_epoll [OF good assms(2) i])
  have ready: "net_ready demo_env ty i w" "linked (caches_of n) (\<lambda>q. net_phase ty i q w) [] []"
    using net_inv_ready [OF assms(1) demo_env_ok assms(2) i] n(1) by (simp_all add: net_io_def)
  then have "set (m_vecIoObjsAddCache n) = {3}" "distinct (m_vecIoObjsAddCache n)" and del: "m_vecIoObjsDelCache n = []"
    and out: "m_setIoObjs n = {}"
    by (auto simp: linked_def phase split: if_splits)
  then have add: "m_vecIoObjsAddCache n = [3]"
    by (cases "m_vecIoObjsAddCache n"; cases "tl (m_vecIoObjsAddCache n)") auto
  let ?set = "\<lambda>n. w\<lparr>net_eng := eng_set_epoll ty i n (net_eng w)\<rparr>"
  have again: "eng_set_epoll ty i n'' (eng_set_epoll ty i n' (net_eng w)) = eng_set_epoll ty i n'' (net_eng w)" for n' n''
    using i by (auto simp: eng_set_epoll_def eng_tasks_def)
  let ?n = "n\<lparr>m_vecIoObjsAddCache := [], m_setIoObjs := {3}\<rparr>"
  have set_ok: "net_ok (?set ?n)"
    using net_good_set [of ty i w ?n] ready(1) assms(2) n(2) by (simp add: net_ready_def net_good_def)
  have ep: "rep_inv (net_eps w 3)" "rep_state (net_eps w 3) \<in> rep_states"
    using net_inv_ep [OF assms(1)] by simp_all
  have fit: "fits ((phases_of (net_eps w 3))(ty := Inside)) (net_eps w 3) t"
    using added_fits [OF ep _ _ assms(2,4), of demo_arg] assms(6) by simp
  have "ep_callback (demo_env 3 (?set ?n)) (Added_into_io_task ty 0) (net_eps (?set ?n) 3) = Inr t"
    using assms(6) by (simp add: ep_callback_def demo_env_def)
  then obtain w' where w': "ep_run 3 (ep_callback (demo_env 3 (?set ?n)) (Added_into_io_task ty 0)) (?set ?n) = Inr w'"
    "net_eps w' = (net_eps w)(3 := t)"
    using ep_run_runs [OF set_ok, of "ep_callback (demo_env 3 (?set ?n)) (Added_into_io_task ty 0)" 3 t] fit assms(4)
    by (fastforce split: if_splits)
  obtain h where h: "rep_get_ioobj_handle (net_eps w 3) = Inr h"
    using rep_phase_sock [OF ep(1), of ty] assms(4) by auto
  obtain evt where evt: "get_io_evt ty (net_objs w 3) = Inr evt"
    using net_good_ep(2) [of ty i w ty 3] ready(1) assms(2) by (auto simp: net_ready_def)
  have "net_exec demo_env ty i [\<lambda>h e. 0] (\<lambda>s. Os_ok []) w = Inr (CMNERR_SUC, w')"
    using w'(1) h evt n add del out assms(2) i
    by (simp add: net_exec_def epoll_exec_def del_phase_def add_phase_def add_round_def net_io_def Let_def again)
  then show ?thesis
    using that w'(2) by blast
qed

lemma demo_net_opened:
  obtains w i where "net_open 3 demo_arg demo_net = Inr w" and "net_steps demo_env demo_net w"
    and "rep_state (net_eps w 3) = ES_ADDING_INTO_OT" and "\<And>q. q \<noteq> 3 \<Longrightarrow> rep_state (net_eps w q) = ES_CLOSED"
    and "get_task_id EIT_OUTPUT_TYPE (net_objs w 3) = Inr (int i)" and "rep_pending (net_eps w 3) = EE_NONE"
proof -
  obtain t0 where t0: "new_rmp_endpoint 0 RMP_RECV_ENDPOINT = Inr t0" "net_eps demo_net = (\<lambda>p. t0)"
    by (simp add: demo_net_def new_rmp_endpoint_def)
  have new: "rep_inv t0" "rep_state t0 = ES_CLOSED" "rep_pending t0 = EE_NONE"
    using new_rmp_endpoint_good [OF t0(1)] by simp_all
  have inv: "net_inv demo_net"
    by (rule new_net_inv [OF demo_net_new])
  have arg: "arg_ok demo_arg" and pend: "rep_pending (net_eps demo_net 3) = EE_NONE"
    using t0(2) new(3) by (simp_all add: arg_ok_def)
  obtain t1 where t1: "rep_open demo_arg t0 = Inr (0, t1)" "rep_state t1 = ES_ADDING_INTO_OT" "rep_pending t1 = EE_NONE"
    using demo_open [OF new(2,1)] new(3) by metis
  obtain w where w: "net_open 3 demo_arg demo_net = Inr w" "net_inv w" "net_eps w = (net_eps demo_net)(3 := t1)"
    using net_open_runs [OF inv arg pend] t0(2) t1(1) by auto
  have steps: "net_steps demo_env demo_net w"
    by (rule net_opens [OF net_start pend arg w(1)])
  have state: "rep_state (net_eps w 3) = ES_ADDING_INTO_OT" and others: "\<And>q. q \<noteq> 3 \<Longrightarrow> rep_state (net_eps w q) = ES_CLOSED"
    using w(3) t1(2) t0(2) new(2) by simp_all
  have "joined_ok (net_eng w) (net_objs w 3) (net_eps w 3)" "io_type EIT_OUTPUT_TYPE"
    "state_phase EIT_OUTPUT_TYPE (rep_state (net_eps w 3)) \<noteq> Out"
    using w(2) state by (simp_all add: net_inv_def net_ok_def io_type_def state_phase_def)
  then obtain i where "get_task_id EIT_OUTPUT_TYPE (net_objs w 3) = Inr (int i)"
    unfolding joined_ok_def by blast
  moreover have "rep_pending (net_eps w 3) = EE_NONE"
    using w(3) t1(3) by simp
  ultimately show ?thesis
    using that [OF w(1) steps state others] by blast
qed

text \<open>It joins its output task and then its input task.\<close>

lemma demo_net_joined:
  obtains w i w' where "net_steps demo_env demo_net w" and "rep_state (net_eps w 3) = ES_ADDING_INTO_OT"
    and "get_task_id EIT_OUTPUT_TYPE (net_objs w 3) = Inr (int i)"
    and "net_exec demo_env EIT_OUTPUT_TYPE i [\<lambda>h e. 0] (\<lambda>s. Os_ok []) w = Inr (CMNERR_SUC, w')"
    and "net_steps demo_env demo_net w'" and "rep_state (net_eps w' 3) = ES_ADDING_INTO_IT"
proof -
  obtain w i where w: "net_open 3 demo_arg demo_net = Inr w" "net_steps demo_env demo_net w"
    "rep_state (net_eps w 3) = ES_ADDING_INTO_OT" "\<And>q. q \<noteq> 3 \<Longrightarrow> rep_state (net_eps w q) = ES_CLOSED"
    and i: "get_task_id EIT_OUTPUT_TYPE (net_objs w 3) = Inr (int i)" and pend: "rep_pending (net_eps w 3) = EE_NONE"
    by (rule demo_net_opened) blast
  have inv: "net_inv w"
    by (rule net_steps_inv [OF w(2) demo_env_ok new_net_inv [OF demo_net_new]])
  have ty: "io_type EIT_OUTPUT_TYPE" and ph: "state_phase EIT_OUTPUT_TYPE (rep_state (net_eps w 3)) = Adding"
    using w(3) by (simp_all add: io_type_def state_phase_def)
  let ?t = "rep_set_cur ES_ADDING_INTO_IT (rep_call (Engine_add EIT_INPUT_TYPE) (net_eps w 3))"
  have "rep_handle_added EIT_OUTPUT_TYPE 0 demo_arg (net_eps w 3) = Inr ?t"
    using w(3) pend by (simp add: rep_step_simps)
  then obtain w' where w': "net_exec demo_env EIT_OUTPUT_TYPE i [\<lambda>h e. 0] (\<lambda>s. Os_ok []) w = Inr (CMNERR_SUC, w')"
    "net_eps w' = (net_eps w)(3 := ?t)"
    using demo_net_round [OF inv ty i ph w(4)] by blast
  have "state_phase EIT_OUTPUT_TYPE (rep_state (net_eps w 3)) \<noteq> Out"
    using ph by simp
  then have "i < eng_tasks EIT_OUTPUT_TYPE (net_eng w)"
    using inv ty i by (fastforce simp: net_inv_def net_ok_def joined_ok_def)
  then have "net_steps demo_env demo_net w'"
    by (rule net_round [OF w(2) ty _ _ _ w'(1)]) (simp_all add: ctl_ok_def wait_ok_def)
  then show ?thesis
    using that w(2,3) i w' by simp
qed



end
