(* ===== verification/Pkg.thy ===== *)
theory Pkg
  imports RmpWire
begin

text \<open>
  The packages of the application (\<open>libsmart_net/src/smart_net/pkg.h\<close>), the archive that writes
  them into a block (\<open>archive.h\<close>) and the dispatcher that takes them out again
  (\<open>dispatcher.h\<close>). A package is a header of sixteen bytes and a sequence of bodies of one
  class; a received block may hold many packages and the beginning of another. The theory
  shows that the dispatcher delivers exactly the bodies the archive was given.
\<close>

section \<open>Package headers\<close>

text \<open>
  \<open>CPkgHdr\<close> under \<open>pack (4)\<close>: length at 0, opcode at 4, tag at 8, type at 12, version at 13,
  sixteen bytes with the padding. The length and the opcode are in network byte order.
\<close>

definition sizeof_CPkgHdr :: nat where [simp]: "sizeof_CPkgHdr = 16"
definition PKG_VER :: u8 where "PKG_VER = 0"
definition NORMAL_PKG :: u8 where "NORMAL_PKG = 0"

definition set_len :: "nat \<Rightarrow> u32 \<Rightarrow> bytes \<Rightarrow> bytes res" where
  "set_len p uiLen = set_field p 4 (unat (htonl uiLen))"

definition set_type :: "nat \<Rightarrow> u8 \<Rightarrow> bytes \<Rightarrow> bytes res" where
  "set_type p bType = set_field (p + 12) 1 (unat bType)"

definition set_tag :: "nat \<Rightarrow> u32 \<Rightarrow> bytes \<Rightarrow> bytes res" where
  "set_tag p uiTag = set_field (p + 8) 4 (unat uiTag)"

definition pkg_len :: "nat \<Rightarrow> bytes \<Rightarrow> u32 res" where
  "pkg_len p bs = bindr (get_field p 4 bs) (\<lambda>n. Inr (htonl (word_of_nat n)))"

definition pkg_opcode :: "nat \<Rightarrow> bytes \<Rightarrow> u16 res" where
  "pkg_opcode p bs = bindr (get_field (p + 4) 2 bs) (\<lambda>n. Inr (htons (word_of_nat n)))"

definition pkg_tag :: "nat \<Rightarrow> bytes \<Rightarrow> u32 res" where
  "pkg_tag p bs = bindr (get_field (p + 8) 4 bs) (\<lambda>n. Inr (word_of_nat n))"

definition pkg_type :: "nat \<Rightarrow> bytes \<Rightarrow> u8 res" where
  "pkg_type p bs = bindr (get_field (p + 12) 1 bs) (\<lambda>n. Inr (word_of_nat n))"

definition pkg_ver :: "nat \<Rightarrow> bytes \<Rightarrow> u8 res" where
  "pkg_ver p bs = bindr (get_field (p + 13) 1 bs) (\<lambda>n. Inr (word_of_nat n))"

text \<open>The constructor, run on the memory at \<open>p\<close>; the padding keeps what lies there.\<close>

definition new_pkg_hdr :: "nat \<Rightarrow> u16 \<Rightarrow> u32 \<Rightarrow> u8 \<Rightarrow> u8 \<Rightarrow> u32 \<Rightarrow> bytes \<Rightarrow> bytes res" where
  "new_pkg_hdr p usOpcode uiLen bVer bType uiTag bs =
     bindr (set_len p uiLen bs) (\<lambda>bs.
     bindr (set_type p bType bs) (\<lambda>bs.
     bindr (set_field (p + 13) 1 (unat bVer) bs) (\<lambda>bs.
     bindr (set_field (p + 4) 2 (unat (htons usOpcode)) bs) (\<lambda>bs.
     set_tag p uiTag bs))))"

section \<open>Package bodies\<close>

text \<open>
  A class of bodies: its opcode, its greatest size, and the size of the body at a position,
  which may be computed from the bytes there.
\<close>

record pkg_body =
  PKG_OPCODE :: u16
  get_max_size :: u32
  get_real_size :: "bytes \<Rightarrow> u32"

definition CPkgHB :: pkg_body where
  "CPkgHB = \<lparr>PKG_OPCODE = 0, get_max_size = 0, get_real_size = (\<lambda>_. 0)\<rparr>"

definition CPkgTest :: pkg_body where
  "CPkgTest = \<lparr>PKG_OPCODE = 1, get_max_size = 4, get_real_size = (\<lambda>_. 4)\<rparr>"

section \<open>The archive\<close>

record CArchive =
  m_pHdr :: "nat option"
  m_i32Cnt :: int
  m_bPending :: bool
  ar_pMem :: "CMemBlock option"
  ar_ui32InitOffset :: u32

definition new_archive :: "u32 \<Rightarrow> int \<Rightarrow> CArchive" where
  "new_archive ui32InitOffset i32Cnt =
     \<lparr>m_pHdr = None, m_i32Cnt = (if i32Cnt = -1 then int MAX_MEM_SIZE else i32Cnt), m_bPending = False,
      ar_pMem = None, ar_ui32InitOffset = ui32InitOffset\<rparr>"

definition get_hdr :: "pkg_body \<Rightarrow> bytes \<Rightarrow> u8 \<Rightarrow> CArchive \<Rightarrow> (nat \<times> CArchive) res" where
  "get_hdr B raw bVer a =
     (case m_pHdr a of
        Some p \<Rightarrow> Inr (p, a)
      | None \<Rightarrow>
          bindr (cmn_assert (ar_pMem a = None)) (\<lambda>_.
          let b = set_init_offset (ar_ui32InitOffset a) (set_offset (ar_ui32InitOffset a) (new_mem raw 0));
              p = get_tail_free_buf b in
          bindr (new_pkg_hdr p (PKG_OPCODE B) 0 bVer NORMAL_PKG 0 (m_bytes b)) (\<lambda>bs.
          Inr (p, a\<lparr>m_pHdr := Some p,
                    ar_pMem := Some (inc_len (word_of_nat sizeof_CPkgHdr) (b\<lparr>m_bytes := bs\<rparr>))\<rparr>))))"

definition body_ready :: "pkg_body \<Rightarrow> CArchive \<Rightarrow> CArchive res" where
  "body_ready B a =
     (if \<not> m_bPending a then Inr a
      else bindr (deref (ar_pMem a)) (\<lambda>b.
           let n = get_real_size B (drop (get_tail_free_buf b) (m_bytes b)) in
           Inr (a\<lparr>ar_pMem := Some (inc_len n b), m_bPending := False\<rparr>)))"

definition get_next_body :: "pkg_body \<Rightarrow> bytes \<Rightarrow> CArchive \<Rightarrow> (nat option \<times> CArchive) res" where
  "get_next_body B raw a =
     bindr (if m_pHdr a = None then bindr (get_hdr B raw PKG_VER a) (\<lambda>(p, a). Inr a) else Inr a) (\<lambda>a.
     bindr (body_ready B a) (\<lambda>a.
     bindr (deref (ar_pMem a)) (\<lambda>b.
     if get_max_size B > get_tail_free_size b then Inr (None, a)
     else Inr (Some (get_tail_free_buf b),
               a\<lparr>m_i32Cnt := (if m_i32Cnt a - 1 = 0 then 1 else m_i32Cnt a - 1), m_bPending := True\<rparr>))))"

definition ar_get_len :: "CArchive \<Rightarrow> u32" where
  "ar_get_len a = (case ar_pMem a of None \<Rightarrow> 0 | Some b \<Rightarrow> get_len b)"

definition serialize :: "pkg_body \<Rightarrow> CArchive \<Rightarrow> (CMemBlock \<times> CArchive) res" where
  "serialize B a =
     bindr (body_ready B a) (\<lambda>a.
     bindr (case m_pHdr a of None \<Rightarrow> Inl Assert_failed | Some p \<Rightarrow> Inr p) (\<lambda>p.
     bindr (deref (ar_pMem a)) (\<lambda>b.
     bindr (set_len p (get_len b) (m_bytes b)) (\<lambda>bs.
     bindr (set_type p NORMAL_PKG bs) (\<lambda>bs.
     let b = b\<lparr>m_bytes := bs\<rparr> in Inr (b, a\<lparr>ar_pMem := Some b\<rparr>))))))"

section \<open>The dispatcher\<close>

text \<open>
  The table of the dispatcher knows the body class of each registered opcode. What the
  connection's \<open>handle_pkg\<close> gets is an entry of the log: opcode, tag and body.
\<close>

type_synonym pkg_event = "u16 \<times> u32 \<times> bytes"

type_synonym pkg_handlers = "u16 \<rightharpoonup> pkg_body"

definition reg_fun :: "pkg_body \<Rightarrow> pkg_handlers \<Rightarrow> pkg_handlers res" where
  "reg_fun B hs =
     bindr (cmn_assert (hs (PKG_OPCODE B) = None)) (\<lambda>_. Inr (hs(PKG_OPCODE B \<mapsto> B)))"

text \<open>The loop over the bodies of one package may run for ever: the value is then \<open>None\<close>.\<close>

partial_function (option) dispatch_fun ::
  "pkg_body \<Rightarrow> u32 \<Rightarrow> u32 \<Rightarrow> CMemBlock \<Rightarrow> pkg_event list \<Rightarrow> (CMemBlock \<times> pkg_event list) res option" where
  "dispatch_fun B ui32Size ui32Tag pMem log =
     (if ui32Size > 0
      then let n = get_real_size B (drop (get_data pMem) (m_bytes pMem)) in
        (case read_at (get_data pMem) (unat n) (m_bytes pMem) of
           Inl h \<Rightarrow> Some (Inl h)
         | Inr d \<Rightarrow> dispatch_fun B (ui32Size - n) ui32Tag (dec_head_data n pMem)
                    (log @ [(PKG_OPCODE B, ui32Tag, d)]))
      else Some (Inr (pMem, log)))"

text \<open>The header at the front of the data: length, version, opcode, tag.\<close>

definition read_hdr :: "CMemBlock \<Rightarrow> (u32 \<times> u8 \<times> u16 \<times> u32) res" where
  "read_hdr b =
     bindr (pkg_len (get_data b) (m_bytes b)) (\<lambda>len.
     bindr (pkg_ver (get_data b) (m_bytes b)) (\<lambda>ver.
     bindr (pkg_opcode (get_data b) (m_bytes b)) (\<lambda>opc.
     bindr (pkg_tag (get_data b) (m_bytes b)) (\<lambda>tag. Inr (len, ver, opc, tag)))))"

partial_function (option) dispatch ::
  "pkg_handlers \<Rightarrow> u8 \<Rightarrow> CMemBlock \<Rightarrow> pkg_event list \<Rightarrow> (int \<times> CMemBlock \<times> pkg_event list) res option" where
  "dispatch hs cByte pMem log =
     (if unat (get_len pMem) \<ge> sizeof_CPkgHdr
      then (case read_hdr pMem of
              Inl h \<Rightarrow> Some (Inl h)
            | Inr (len, ver, opc, tag) \<Rightarrow>
                if ver \<noteq> cByte \<or> unat len < sizeof_CPkgHdr then Some (Inl Assert_failed)
                else if unat len = sizeof_CPkgHdr
                then dispatch hs cByte (dec_head_data (word_of_nat sizeof_CPkgHdr) pMem) log
                else if len > get_len pMem
                then Some (bindr (move_data_ahead pMem) (\<lambda>b. Inr (CMNERR_INCOMPLETED_PKG, b, log)))
                else (case hs opc of
                        None \<Rightarrow> Some (Inl Assert_failed)
                      | Some B \<Rightarrow>
                          Option.bind (dispatch_fun B (len - word_of_nat sizeof_CPkgHdr) tag
                              (dec_head_data (word_of_nat sizeof_CPkgHdr) pMem) log) (\<lambda>r.
                          case r of
                            Inl h \<Rightarrow> Some (Inl h)
                          | Inr (pMem, log) \<Rightarrow> dispatch hs cByte pMem log)))
      else Some (Inr (CMNERR_SUC, pMem, log)))"

section \<open>Reading what was written\<close>

text \<open>\<open>d\<close> is a package with this opcode, tag and contents.\<close>

definition pkg_bytes :: "u16 \<Rightarrow> u32 \<Rightarrow> bytes \<Rightarrow> bytes \<Rightarrow> bool" where
  "pkg_bytes opc tag body d \<longleftrightarrow>
     16 \<le> length d \<and> length d < 2 ^ 32 \<and> pkg_len 0 d = Inr (word_of_nat (length d)) \<and>
     pkg_ver 0 d = Inr PKG_VER \<and> pkg_opcode 0 d = Inr opc \<and> pkg_tag 0 d = Inr tag \<and> drop 16 d = body"

text \<open>A body that is told from its own bytes, whatever follows it.\<close>

definition sized_body :: "pkg_body \<Rightarrow> bytes \<Rightarrow> bool" where
  "sized_body B d \<longleftrightarrow> length d \<le> unat (get_max_size B) \<and>
     (\<forall>rest. unat (get_real_size B (d @ rest)) = length d)"

definition good_body :: "pkg_body \<Rightarrow> bytes \<Rightarrow> bool" where
  "good_body B d \<longleftrightarrow> d \<noteq> [] \<and> sized_body B d"

lemma good_body_sized: "good_body B d \<Longrightarrow> sized_body B d"
  by (simp add: good_body_def)

text \<open>The events the bytes \<open>d\<close> of one package stand for.\<close>

definition is_package :: "pkg_handlers \<Rightarrow> pkg_event list \<Rightarrow> bytes \<Rightarrow> bool" where
  "is_package hs evs d \<longleftrightarrow>
     (\<exists>B tag ds. pkg_bytes (PKG_OPCODE B) tag (concat ds) d \<and> (ds \<noteq> [] \<longrightarrow> hs (PKG_OPCODE B) = Some B) \<and>
        (\<forall>x \<in> set ds. good_body B x) \<and> evs = map (\<lambda>x. (PKG_OPCODE B, tag, x)) ds)"

lemma mem_tail: "mem_wf b \<Longrightarrow> \<exists>more. drop (get_data b) (m_bytes b) = mem_data b @ more"
  by (rule exI [of _ "drop (unat (m_ui32Len b)) (drop (get_data b) (m_bytes b))"])
    (simp add: get_data_def mem_data_def del: drop_drop)

lemma get_field_mem:
  assumes "mem_wf b" and "mem_data b = d @ rest" and "k + w \<le> length d"
  shows "get_field (get_data b + k) w (m_bytes b) = get_field k w d"
proof -
  obtain more where more: "drop (get_data b) (m_bytes b) = d @ rest @ more"
    using mem_tail [OF assms(1)] assms(2) by auto
  then have "drop (get_data b + k) (m_bytes b) = drop k (d @ rest @ more)"
    by (metis add.commute drop_drop)
  moreover have "get_data b + length d \<le> length (m_bytes b)"
    using length_mem_data [OF assms(1)] assms(1,2) by (simp add: mem_wf_def get_data_def)
  ultimately show ?thesis
    using assms(3) by (simp add: get_field_def read_at_def)
qed

lemma read_hdr_pkg:
  assumes "mem_wf b" and "mem_data b = take k d @ rest" and "pkg_bytes opc tag body d" and "16 \<le> k"
  shows "read_hdr b = Inr (word_of_nat (length d), PKG_VER, opc, tag)"
proof -
  have len: "16 \<le> length d"
    using assms(3) by (simp add: pkg_bytes_def)
  have "get_field (get_data b + i) w (m_bytes b) = get_field i w d" if "i + w \<le> 16" for i w
  proof -
    have "get_field (get_data b + i) w (m_bytes b) = get_field i w (take k d)"
      using get_field_mem [OF assms(1,2), of i w] that len assms(4) by simp
    also have "\<dots> = get_field i w d"
    proof (cases "k \<le> length d")
      case True
      then show ?thesis
        using get_field_prefix [of k d "take k d" i w] that assms(4) by (simp add: read_at_def)
    qed simp
    finally show ?thesis .
  qed
  from this [of 0 4] this [of 13 1] this [of 4 2] this [of 8 4] show ?thesis
    using assms(3) by (simp add: read_hdr_def pkg_bytes_def pkg_len_def pkg_ver_def pkg_opcode_def pkg_tag_def)
qed

section \<open>Dispatching packages\<close>

lemma dispatch_fun_bodies:
  assumes "mem_wf b" and "mem_data b = concat ds @ rest" and "\<forall>x \<in> set ds. good_body B x"
    and "unat sz = length (concat ds)"
  shows "\<exists>b'. dispatch_fun B sz tag b log = Some (Inr (b', log @ map (\<lambda>x. (PKG_OPCODE B, tag, x)) ds)) \<and>
    mem_wf b' \<and> mem_data b' = rest \<and> m_ui32Sz b' = m_ui32Sz b"
  using assms
proof (induction ds arbitrary: b sz log)
  case Nil
  then have "sz = 0"
    by (simp add: unat_eq_zero)
  then have "dispatch_fun B sz tag b log = Some (Inr (b, log))"
    by (subst dispatch_fun.simps) simp
  then show ?case
    using Nil by simp
next
  case (Cons d ds)
  let ?n = "get_real_size B (drop (get_data b) (m_bytes b))"
  have good: "good_body B d"
    using Cons.prems(3) by simp
  obtain more where more: "drop (get_data b) (m_bytes b) = d @ concat ds @ rest @ more"
    using mem_tail [OF Cons.prems(1)] Cons.prems(2) by auto
  have n: "unat ?n = length d"
    unfolding more using good by (simp add: good_body_def sized_body_def)
  have len: "unat (m_ui32Len b) = length d + length (concat ds @ rest)"
    using length_mem_data [OF Cons.prems(1)] Cons.prems(2) by simp
  have rd: "read_at (get_data b) (unat ?n) (m_bytes b) = Inr d"
    unfolding n using len more Cons.prems(1) by (simp add: read_at_def mem_wf_def get_data_def)
  have b1: "mem_wf (dec_head_data ?n b)" "mem_data (dec_head_data ?n b) = concat ds @ rest"
    and sz1: "m_ui32Sz (dec_head_data ?n b) = m_ui32Sz b"
    using dec_head_data_wf [OF Cons.prems(1), of ?n] n len Cons.prems(2) by (simp_all add: dec_head_data_def)
  have "d \<noteq> []"
    using good by (simp add: good_body_def sized_body_def)
  then have pos: "sz > 0"
    using Cons.prems(4) by (simp add: word_less_nat_alt)
  have "?n \<le> sz"
    using Cons.prems(4) n by (simp add: word_le_nat_alt)
  then have sz: "unat (sz - ?n) = length (concat ds)"
    using Cons.prems(4) n by (simp add: unat_sub_fits)
  have step: "dispatch_fun B sz tag b log =
      dispatch_fun B (sz - ?n) tag (dec_head_data ?n b) (log @ [(PKG_OPCODE B, tag, d)])"
    using pos rd by (subst dispatch_fun.simps) (simp add: Let_def)
  obtain b' where "dispatch_fun B (sz - ?n) tag (dec_head_data ?n b) (log @ [(PKG_OPCODE B, tag, d)]) =
      Some (Inr (b', (log @ [(PKG_OPCODE B, tag, d)]) @ map (\<lambda>x. (PKG_OPCODE B, tag, x)) ds))"
    "mem_wf b'" "mem_data b' = rest" "m_ui32Sz b' = m_ui32Sz b"
    using Cons.IH [OF b1 _ sz, of "log @ [(PKG_OPCODE B, tag, d)]"] Cons.prems(3) sz1 by auto
  then show ?case
    using step by simp
qed

lemma dispatch_package:
  assumes wf: "mem_wf b" and data: "mem_data b = d @ rest" and pkg: "is_package hs evs d"
  shows "\<exists>b'. dispatch hs PKG_VER b log = dispatch hs PKG_VER b' (log @ evs) \<and> mem_wf b' \<and> mem_data b' = rest \<and>
    m_ui32Sz b' = m_ui32Sz b"
proof -
  obtain B tag ds where d: "pkg_bytes (PKG_OPCODE B) tag (concat ds) d" "ds \<noteq> [] \<longrightarrow> hs (PKG_OPCODE B) = Some B"
    "\<forall>x \<in> set ds. good_body B x" "evs = map (\<lambda>x. (PKG_OPCODE B, tag, x)) ds"
    using pkg by (auto simp: is_package_def)
  have ld: "16 \<le> length d" "length d < 2 ^ 32" and body: "drop 16 d = concat ds"
    using d(1) by (simp_all add: pkg_bytes_def)
  have len: "unat (get_len b) = length d + length rest"
    using length_mem_data [OF wf] data by (simp add: get_len_def)
  have hdr: "read_hdr b = Inr (word_of_nat (length d), PKG_VER, PKG_OPCODE B, tag)"
    using read_hdr_pkg [OF wf _ d(1), of "length d" rest] data ld by simp
  have ulen: "unat (word_of_nat (length d) :: u32) = length d"
    using ld(2) by (simp add: unat_word_of_nat_u32)
  let ?b1 = "dec_head_data (word_of_nat sizeof_CPkgHdr) b"
  have b1: "mem_wf ?b1" "mem_data ?b1 = concat ds @ rest" and sz1: "m_ui32Sz ?b1 = m_ui32Sz b"
    using dec_head_data_wf [OF wf, of 16] len ld data body by (simp_all add: get_len_def dec_head_data_def)
  show ?thesis
  proof (cases "ds = []")
    case True
    then have "length d = 16"
      using body ld(1) by simp
    then have "dispatch hs PKG_VER b log = dispatch hs PKG_VER ?b1 log"
      using hdr ulen len by (simp add: dispatch.simps [of hs PKG_VER b])
    then show ?thesis
      using b1 sz1 True d(4) by auto
  next
    case False
    then obtain x where "x \<in> set ds"
      by (cases ds) auto
    then have "concat ds \<noteq> []"
      using d(3) by (auto simp: good_body_def sized_body_def)
    then have gt: "length d \<noteq> 16"
      using body ld(1) by auto
    have sz: "unat (word_of_nat (length d) - 16 :: u32) = length (concat ds)"
      using ulen ld(1) arg_cong [OF body, of length] by (simp add: unat_sub_fits word_le_nat_alt)
    obtain b' where b': "dispatch_fun B (word_of_nat (length d) - 16) tag ?b1 log =
        Some (Inr (b', log @ evs))" "mem_wf b'" "mem_data b' = rest" "m_ui32Sz b' = m_ui32Sz b"
      using dispatch_fun_bodies [OF b1 d(3) sz, of tag log] d(4) sz1 by auto
    have "dispatch hs PKG_VER b log = dispatch hs PKG_VER b' (log @ evs)"
      using hdr ulen len ld gt b'(1) d(2) False
      by (simp add: dispatch.simps [of hs PKG_VER b] word_less_nat_alt)
    then show ?thesis
      using b'(2-4) by blast
  qed
qed

text \<open>The beginning of a package that has not come in completely is left in the block.\<close>

lemma dispatch_incomplete:
  assumes wf: "mem_wf b" and data: "mem_data b = take k d" and k: "k < length d" and pkg: "is_package hs evs d"
  shows "\<exists>code b'. dispatch hs PKG_VER b log = Some (Inr (code, b', log)) \<and> mem_wf b' \<and>
    mem_data b' = take k d \<and> m_ui32Sz b' = m_ui32Sz b"
proof -
  obtain B :: pkg_body and tag ds where d: "pkg_bytes (PKG_OPCODE B) tag (concat ds) d"
    using pkg unfolding is_package_def by blast
  have len: "unat (get_len b) = k"
    using length_mem_data [OF wf] data k by (simp add: get_len_def)
  show ?thesis
  proof (cases "16 \<le> k")
    case False
    then show ?thesis
      using len wf data by (simp add: dispatch.simps [of hs PKG_VER b])
  next
    case True
    have hdr: "read_hdr b = Inr (word_of_nat (length d), PKG_VER, PKG_OPCODE B, tag)"
      using read_hdr_pkg [OF wf _ d True, of "[]"] data by simp
    have ulen: "unat (word_of_nat (length d) :: u32) = length d"
      using d by (simp add: pkg_bytes_def unat_word_of_nat_u32)
    obtain b' where "move_data_ahead b = Inr b'" "mem_wf b'" "mem_data b' = mem_data b"
      "m_ui32Sz b' = m_ui32Sz b"
      using move_data_ahead_wf [OF wf] by blast
    then show ?thesis
      using hdr ulen len True k data by (simp add: dispatch.simps [of hs PKG_VER b] word_less_nat_alt)
  qed
qed

text \<open>A block that holds whole packages and the beginning of one more.\<close>

definition packages :: "pkg_handlers \<Rightarrow> pkg_event list list \<Rightarrow> bytes list \<Rightarrow> bool" where
  "packages hs = list_all2 (is_package hs)"

definition beginning :: "pkg_handlers \<Rightarrow> bytes \<Rightarrow> bool" where
  "beginning hs d \<longleftrightarrow> d = [] \<or> (\<exists>evs p k. is_package hs evs p \<and> k < length p \<and> d = take k p)"

lemma dispatch_packages:
  assumes "packages hs evss ps" and "mem_wf b" and "mem_data b = concat ps @ rest" and "beginning hs rest"
  shows "\<exists>code b'. dispatch hs PKG_VER b log = Some (Inr (code, b', log @ concat evss)) \<and>
    mem_wf b' \<and> mem_data b' = rest \<and> m_ui32Sz b' = m_ui32Sz b"
  using assms unfolding packages_def
proof (induction evss ps arbitrary: b log rule: list_all2_induct)
  case Nil
  show ?case
  proof (cases "rest = []")
    case True
    then have "unat (get_len b) = 0"
      using length_mem_data [OF Nil(1)] Nil(2) by (simp add: get_len_def)
    then have "dispatch hs PKG_VER b log = Some (Inr (CMNERR_SUC, b, log))"
      by (subst dispatch.simps) simp
    then show ?thesis
      using Nil by simp
  next
    case False
    then obtain evs p k where "is_package hs evs p" "k < length p" "rest = take k p"
      using Nil(3) by (auto simp: beginning_def)
    then show ?thesis
      using dispatch_incomplete [OF Nil(1), of k p hs evs log] Nil(2) by simp
  qed
next
  case (Cons evs evss p ps)
  obtain b1 where b1: "dispatch hs PKG_VER b log = dispatch hs PKG_VER b1 (log @ evs)"
    "mem_wf b1" "mem_data b1 = concat ps @ rest" "m_ui32Sz b1 = m_ui32Sz b"
    using dispatch_package [OF Cons.prems(1) _ Cons.hyps(1), of "concat ps @ rest" log] Cons.prems(2) by auto
  show ?case
    using Cons.IH [OF b1(2,3) Cons.prems(3), of "log @ evs"] b1(1,4) by auto
qed

section \<open>A stream in pieces\<close>

text \<open>
  What a stream socket does: every piece is put behind what is left in the block, and the
  block is dispatched. \<open>None\<close> also stands for a piece that finds no room.
\<close>

fun feed :: "pkg_handlers \<Rightarrow> bytes list \<Rightarrow> CMemBlock \<Rightarrow> pkg_event list \<Rightarrow> (CMemBlock \<times> pkg_event list) option" where
  "feed hs [] b log = Some (b, log)"
| "feed hs (c # cs) b log =
     (case append_mem c (word_of_nat (length c)) b of
        Inr (code, b) \<Rightarrow>
          if code = CMNERR_SUC
          then (case dispatch hs PKG_VER b log of
                  Some (Inr (code, b, log)) \<Rightarrow> feed hs cs b log
                | _ \<Rightarrow> None)
          else None
      | Inl h \<Rightarrow> None)"

text \<open>A prefix of a sequence of packages is some of them and the beginning of the next.\<close>

lemma split_packages:
  assumes "packages hs evss ps" and "x @ y = concat ps"
  shows "\<exists>evss1 evss2 ps1 ps2 rest. evss = evss1 @ evss2 \<and> ps = ps1 @ ps2 \<and> packages hs evss1 ps1 \<and>
    packages hs evss2 ps2 \<and> x = concat ps1 @ rest \<and> beginning hs rest \<and> rest @ y = concat ps2 \<and>
    (rest = [] \<or> (\<exists>p \<in> set ps2. length rest < length p))"
  using assms unfolding packages_def
proof (induction evss ps arbitrary: x rule: list_all2_induct)
  case Nil
  then show ?case
    by (simp add: beginning_def)
next
  case (Cons evs evss p ps)
  show ?case
  proof (cases "length x < length p")
    case True
    then have "x = take (length x) p"
      using Cons.prems by (simp add: append_eq_append_conv_if split: if_splits)
    then have "beginning hs x"
      using True Cons.hyps(1) unfolding beginning_def by blast
    then show ?thesis
      using True Cons.hyps Cons.prems by (intro exI [of _ "[]"] exI [of _ "evs # evss"] exI [of _ "p # ps"]
          exI [of _ x]) auto
  next
    case False
    then obtain z where z: "x = p @ z" "z @ y = concat ps"
      using Cons.prems by (auto simp: append_eq_append_conv2)
    obtain evss1 evss2 ps1 ps2 rest where "evss = evss1 @ evss2" "ps = ps1 @ ps2"
      "list_all2 (is_package hs) evss1 ps1" "list_all2 (is_package hs) evss2 ps2" "z = concat ps1 @ rest"
      "beginning hs rest" "rest @ y = concat ps2" "rest = [] \<or> (\<exists>p \<in> set ps2. length rest < length p)"
      using Cons.IH [OF z(2)] by blast
    then show ?thesis
      using z(1) Cons.hyps by (intro exI [of _ "evs # evss1"] exI [of _ evss2] exI [of _ "p # ps1"]
          exI [of _ ps2] exI [of _ rest]) simp
  qed
qed

lemma member_le_concat: "q \<in> set ps \<Longrightarrow> length q \<le> length (concat ps)"
  by (induction ps) auto

lemma stream_done:
  assumes "packages hs evss ps" and "rest = concat ps" and "rest = [] \<or> (\<exists>p \<in> set ps. length rest < length p)"
  shows "ps = []"
proof (cases ps)
  case (Cons p ps')
  then have "16 \<le> length p"
    using assms(1) by (auto simp: packages_def list_all2_Cons2 is_package_def pkg_bytes_def)
  have le: "length q \<le> length rest" if "q \<in> set ps" for q
    using assms(2) member_le_concat [OF that] by simp
  then have "rest = []"
    using assms(3) by (meson not_le)
  then show ?thesis
    using le [of p] Cons \<open>16 \<le> length p\<close> by simp
qed simp

lemma feed_stream:
  assumes "packages hs evss ps" and "rest @ concat cs = concat ps" and "mem_wf b" and "mem_data b = rest"
    and "rest = [] \<or> (\<exists>p \<in> set ps. length rest < length p)"
    and "\<forall>p \<in> set ps. length p < big" and "\<forall>c \<in> set cs. length c + big \<le> unat (m_ui32Sz b)"
  shows "\<exists>b'. feed hs cs b log = Some (b', log @ concat evss) \<and> mem_wf b' \<and> mem_data b' = []"
  using assms
proof (induction cs arbitrary: evss ps rest b log)
  case Nil
  have "ps = []"
    using stream_done [OF Nil(1)] Nil(2,5) by simp
  then show ?case
    using Nil by (simp add: packages_def)
next
  case (Cons c cs)
  have len: "length (mem_data b) = unat (m_ui32Len b)"
    using length_mem_data [OF Cons.prems(3)] .
  have "length rest \<le> big"
    using Cons.prems(5,6) by auto
  then have fits: "unat (m_ui32Len b) + length c \<le> unat (m_ui32Sz b)"
    using Cons.prems(4,7) len by auto
  have uc: "unat (word_of_nat (length c) :: u32) = length c"
    using fits unat_u32_lt [of "m_ui32Sz b"] by (simp add: unat_word_of_nat_u32)
  obtain b1 where b1: "append_mem c (word_of_nat (length c)) b = Inr (CMNERR_SUC, b1)" "mem_wf b1"
    "mem_data b1 = rest @ c" "m_ui32Sz b1 = m_ui32Sz b"
    using append_mem_fits [OF Cons.prems(3) uc fits] Cons.prems(4) by auto
  have "(rest @ c) @ concat cs = concat ps"
    using Cons.prems(2) by simp
  from split_packages [OF Cons.prems(1) this] obtain evss1 evss2 ps1 ps2 rest' where sp: "evss = evss1 @ evss2" "ps = ps1 @ ps2"
      "packages hs evss1 ps1" "packages hs evss2 ps2" "rest @ c = concat ps1 @ rest'" "beginning hs rest'"
      "rest' @ concat cs = concat ps2" "rest' = [] \<or> (\<exists>p \<in> set ps2. length rest' < length p)"
    by (elim exE conjE) (rule that; assumption)
  obtain code b2 where b2: "dispatch hs PKG_VER b1 log = Some (Inr (code, b2, log @ concat evss1))"
    "mem_wf b2" "mem_data b2 = rest'" "m_ui32Sz b2 = m_ui32Sz b"
    using dispatch_packages [OF sp(3) b1(2) _ sp(6), of log] b1(3,4) sp(5) by auto
  obtain b' where "feed hs cs b2 (log @ concat evss1) = Some (b', (log @ concat evss1) @ concat evss2)"
    "mem_wf b'" "mem_data b' = []"
    using Cons.IH [OF sp(4,7) b2(2,3) sp(8), of "log @ concat evss1"] Cons.prems(6,7) sp(2) b2(4) by auto
  then show ?case
    using b1(1) b2(1) sp(1) by simp
qed

section \<open>What the archive writes\<close>

text \<open>The user of the archive writes each body where \<open>get_next_body\<close> says.\<close>

definition write_body :: "nat \<Rightarrow> bytes \<Rightarrow> CArchive \<Rightarrow> CArchive res" where
  "write_body p d a =
     bindr (deref (ar_pMem a)) (\<lambda>b.
     bindr (write_at p d (m_bytes b)) (\<lambda>bs. Inr (a\<lparr>ar_pMem := Some (b\<lparr>m_bytes := bs\<rparr>)\<rparr>)))"

fun pack_bodies :: "pkg_body \<Rightarrow> bytes \<Rightarrow> bytes list \<Rightarrow> CArchive \<Rightarrow> (bool \<times> CArchive) res" where
  "pack_bodies B raw [] a = Inr (True, a)"
| "pack_bodies B raw (d # ds) a =
     bindr (get_next_body B raw a) (\<lambda>(pos, a).
     case pos of
       None \<Rightarrow> Inr (False, a)
     | Some p \<Rightarrow> bindr (write_body p d a) (pack_bodies B raw ds))"

definition hdr_ok :: "u16 \<Rightarrow> nat \<Rightarrow> bytes \<Rightarrow> bool" where
  "hdr_ok opc p bs \<longleftrightarrow> pkg_ver p bs = Inr PKG_VER \<and> pkg_opcode p bs = Inr opc \<and> pkg_tag p bs = Inr 0"

lemma unat_u16_byte [simp]: "unat (x :: u16) mod 65536 = unat x"
  using unat_u16_lt [of x] by simp

lemma new_pkg_hdr_ok:
  assumes "p + 16 \<le> length bs"
  shows "\<exists>bs'. new_pkg_hdr p opc 0 PKG_VER NORMAL_PKG 0 bs = Inr bs' \<and> hdr_ok opc p bs' \<and> length bs' = length bs"
proof -
  obtain b1 where b1: "set_len p 0 bs = Inr b1" "length b1 = length bs"
    using set_field_fits [of p 4 bs] set_field_length [of p 4 _ bs] assms by (fastforce simp: set_len_def)
  obtain b2 where b2: "set_type p NORMAL_PKG b1 = Inr b2" "length b2 = length bs"
    using set_field_fits [of "p + 12" 1 b1] set_field_length [of "p + 12" 1 _ b1] assms b1
    by (fastforce simp: set_type_def)
  obtain b3 where b3: "set_field (p + 13) 1 (unat PKG_VER) b2 = Inr b3" "length b3 = length bs"
    using set_field_fits [of "p + 13" 1 b2] set_field_length [of "p + 13" 1 _ b2] assms b2 by fastforce
  obtain b4 where b4: "set_field (p + 4) 2 (unat (htons opc)) b3 = Inr b4" "length b4 = length bs"
    using set_field_fits [of "p + 4" 2 b3] set_field_length [of "p + 4" 2 _ b3] assms b3 by fastforce
  obtain b5 where b5: "set_tag p 0 b4 = Inr b5" "length b5 = length bs"
    using set_field_fits [of "p + 8" 4 b4] set_field_length [of "p + 8" 4 _ b4] assms b4
    by (fastforce simp: set_tag_def)
  have ver: "get_field (p + 13) 1 b5 = Inr (unat PKG_VER)"
    using get_set_field [OF b3(1)] get_other_field(1) [OF b4(1), of "p + 13" 1]
      get_other_field(1) [OF b5(1) [unfolded set_tag_def], of "p + 13" 1] unat_u8_lt [of PKG_VER] by simp
  have opc: "get_field (p + 4) 2 b5 = Inr (unat (htons opc))"
    using get_set_field [OF b4(1)] get_other_field(1) [OF b5(1) [unfolded set_tag_def], of "p + 4" 2] by simp
  have tag: "get_field (p + 8) 4 b5 = Inr 0"
    using get_set_field [OF b5(1) [unfolded set_tag_def]] by simp
  have "hdr_ok opc p b5"
    using ver opc tag by (simp add: hdr_ok_def pkg_ver_def pkg_opcode_def pkg_tag_def)
  moreover have "new_pkg_hdr p opc 0 PKG_VER NORMAL_PKG 0 bs = Inr b5"
    using b1 b2 b3 b4 b5 by (simp add: new_pkg_hdr_def)
  ultimately show ?thesis
    using b5(2) by blast
qed

text \<open>A write outside the version, the opcode and the tag keeps them.\<close>

lemma hdr_ok_write:
  assumes "write_at q d bs = Inr bs'" and "hdr_ok opc p bs"
    and "p + 14 \<le> q \<or> q + length d \<le> p + 4 \<or> (q = p + 12 \<and> length d = 1)"
  shows "hdr_ok opc p bs'"
proof -
  have "read_at i n bs' = read_at i n bs" if "i + n \<le> q \<or> q + length d \<le> i" for i n
    using that read_before_write [OF assms(1)] read_behind_write [OF assms(1)] by auto
  then have "get_field i n bs' = get_field i n bs" if "i + n \<le> q \<or> q + length d \<le> i" for i n
    using that by (simp add: get_field_def)
  from this [of "p + 13" 1] this [of "p + 4" 2] this [of "p + 8" 4] show ?thesis
    using assms(2,3) by (auto simp: hdr_ok_def pkg_ver_def pkg_opcode_def pkg_tag_def)
qed

text \<open>
  The archive between two bodies: \<open>done\<close> are the bodies behind the header, \<open>lst\<close> is the one
  that has been written but not counted yet.
\<close>

definition packed :: "pkg_body \<Rightarrow> nat \<Rightarrow> bytes list \<Rightarrow> bytes list \<Rightarrow> CArchive \<Rightarrow> bool" where
  "packed B sz whole lst a \<longleftrightarrow>
     (\<exists>b more. m_pHdr a = Some (get_data b) \<and> ar_pMem a = Some b \<and> mem_wf b \<and>
        hdr_ok (PKG_OPCODE B) (get_data b) (m_bytes b) \<and> 16 \<le> unat (get_len b) \<and>
        drop 16 (mem_data b) = concat whole \<and> m_ui32Offset b = ar_ui32InitOffset a \<and> unat (m_ui32Sz b) = sz \<and>
        (if m_bPending a then length lst = 1 \<and> drop (get_tail_free_buf b) (m_bytes b) = concat lst @ more
         else lst = []))"

lemma inc_len_wf:
  assumes "mem_wf b" and "drop (get_tail_free_buf b) (m_bytes b) = d @ rst" and "unat n = length d"
  shows "mem_wf (inc_len n b)" and "mem_data (inc_len n b) = mem_data b @ d"
    and "unat (get_len (inc_len n b)) = unat (get_len b) + length d"
proof -
  let ?o = "unat (m_ui32Offset b)" and ?l = "unat (m_ui32Len b)"
  have tail: "drop (?o + ?l) (m_bytes b) = d @ rst"
    using assms(2) by (simp add: get_tail_free_buf_def)
  have "?o + ?l \<le> length (m_bytes b)"
    using assms(1) by (simp add: mem_wf_def)
  moreover have "length (m_bytes b) - (?o + ?l) = length d + length rst"
    using arg_cong [OF tail, of length] by simp
  ultimately have room: "?o + ?l + length d \<le> length (m_bytes b)"
    by linarith
  then have len: "unat (m_ui32Len b + n) = ?l + length d"
    using assms(1,3) unat_u32_lt [of "m_ui32Sz b"] by (intro unat_add_fits [THEN trans]) (auto simp: mem_wf_def)
  then show "unat (get_len (inc_len n b)) = unat (get_len b) + length d"
    by (simp add: get_len_def inc_len_def)
  show "mem_wf (inc_len n b)"
    using room len assms(1) by (simp add: mem_wf_def inc_len_def)
  have "take (?l + length d) (drop ?o (m_bytes b)) = take ?l (drop ?o (m_bytes b)) @ take (length d) (drop (?o + ?l) (m_bytes b))"
    by (subst take_add) (simp add: add.commute)
  then show "mem_data (inc_len n b) = mem_data b @ d"
    using len tail by (simp add: mem_data_def inc_len_def)
qed

lemma body_ready_packed:
  assumes "packed B sz whole lst a" and "\<forall>x \<in> set lst. sized_body B x"
  shows "\<exists>a'. body_ready B a = Inr a' \<and> packed B sz (whole @ lst) [] a' \<and> \<not> m_bPending a' \<and>
    ar_ui32InitOffset a' = ar_ui32InitOffset a"
proof (cases "m_bPending a")
  case False
  then have "lst = []"
    using assms(1) by (auto simp: packed_def)
  then show ?thesis
    using assms(1) False by (auto simp: body_ready_def packed_def)
next
  case True
  then obtain b more where b: "m_pHdr a = Some (get_data b)" "ar_pMem a = Some b" "mem_wf b"
    "hdr_ok (PKG_OPCODE B) (get_data b) (m_bytes b)" "16 \<le> unat (get_len b)"
    "drop 16 (mem_data b) = concat whole" "length lst = 1" "m_ui32Offset b = ar_ui32InitOffset a"
    "unat (m_ui32Sz b) = sz" "drop (get_tail_free_buf b) (m_bytes b) = concat lst @ more"
    using assms(1) by (auto simp: packed_def)
  let ?n = "get_real_size B (drop (get_tail_free_buf b) (m_bytes b))"
  obtain d where d: "lst = [d]"
    using b(7) by (cases lst) auto
  then have n: "unat ?n = length d"
    unfolding b(10) using assms(2) by (simp add: sized_body_def)
  note inc = inc_len_wf [OF b(3), of d more ?n]
  have l16: "16 \<le> length (mem_data b)"
    using b(3,5) length_mem_data by (simp add: get_len_def)
  have "body_ready B a = Inr (a\<lparr>ar_pMem := Some (inc_len ?n b), m_bPending := False\<rparr>)"
    using True b(2) by (simp add: body_ready_def)
  moreover have "packed B sz (whole @ lst) [] (a\<lparr>ar_pMem := Some (inc_len ?n b), m_bPending := False\<rparr>)"
    using b inc n d l16 by (simp add: packed_def) (simp add: inc_len_def get_data_def)
  ultimately show ?thesis
    by simp
qed

lemma packed_len:
  assumes "packed B sz whole lst a"
  obtains b where "ar_pMem a = Some b" and "unat (get_len b) = 16 + length (concat whole)" and "mem_wf b"
    and "m_ui32Offset b = ar_ui32InitOffset a" and "unat (m_ui32Sz b) = sz" and "m_pHdr a = Some (get_data b)"
    and "hdr_ok (PKG_OPCODE B) (get_data b) (m_bytes b)"
proof -
  obtain b where b: "ar_pMem a = Some b" "mem_wf b" "16 \<le> unat (get_len b)" "drop 16 (mem_data b) = concat whole"
    "m_ui32Offset b = ar_ui32InitOffset a" "unat (m_ui32Sz b) = sz" "m_pHdr a = Some (get_data b)"
    "hdr_ok (PKG_OPCODE B) (get_data b) (m_bytes b)"
    using assms by (auto simp: packed_def)
  have "length (mem_data b) = unat (get_len b)"
    using length_mem_data [OF b(2)] by (simp add: get_len_def)
  moreover have "length (mem_data b) - 16 = length (concat whole)"
    using b(4) by (metis length_drop)
  ultimately have "unat (get_len b) = 16 + length (concat whole)"
    using b(3) by linarith
  then show ?thesis
    using that b by blast
qed

lemma next_body_packed:
  assumes "packed B sz whole [] a" and "\<not> m_bPending a"
    and room: "unat (ar_ui32InitOffset a) + 16 + length (concat whole) + unat (get_max_size B) \<le> sz"
    and d: "sized_body B d"
  shows "\<exists>p a1 a2. get_next_body B raw a = Inr (Some p, a1) \<and> write_body p d a1 = Inr a2 \<and>
    packed B sz whole [d] a2 \<and> ar_ui32InitOffset a2 = ar_ui32InitOffset a"
proof -
  obtain b where b: "ar_pMem a = Some b" "unat (get_len b) = 16 + length (concat whole)" "mem_wf b"
    "m_ui32Offset b = ar_ui32InitOffset a" "unat (m_ui32Sz b) = sz" "m_pHdr a = Some (get_data b)"
    "hdr_ok (PKG_OPCODE B) (get_data b) (m_bytes b)"
    using packed_len [OF assms(1)] .
  have dat: "drop 16 (mem_data b) = concat whole"
    using assms(1) b(1) by (simp add: packed_def)
  have tail: "get_tail_free_buf b = unat (ar_ui32InitOffset a) + 16 + length (concat whole)"
    using b(2,4) by (simp add: get_tail_free_buf_def get_len_def)
  have free: "unat (get_tail_free_size b) = sz - (unat (ar_ui32InitOffset a) + 16 + length (concat whole))"
    using unat_tail_free [OF b(3)] b(2,4,5) by (simp add: get_len_def)
  define a1 where "a1 = a\<lparr>m_i32Cnt := (if m_i32Cnt a - 1 = 0 then 1 else m_i32Cnt a - 1), m_bPending := True\<rparr>"
  have nxt: "get_next_body B raw a = Inr (Some (get_tail_free_buf b), a1)"
    using b(1,6) assms(2) free room
    by (simp add: get_next_body_def body_ready_def a1_def word_less_nat_alt)
  have fits: "get_tail_free_buf b + length d \<le> length (m_bytes b)"
    using d room tail b(3,5) by (simp add: sized_body_def mem_wf_def)
  define bs where "bs = take (get_tail_free_buf b) (m_bytes b) @ d @ drop (get_tail_free_buf b + length d) (m_bytes b)"
  have w: "write_at (get_tail_free_buf b) d (m_bytes b) = Inr bs"
    using fits by (simp add: write_at_def bs_def)
  let ?b = "b\<lparr>m_bytes := bs\<rparr>"
  have "length bs = length (m_bytes b)"
    using write_at_length [OF w] .
  then have wf: "mem_wf ?b"
    using b(3) by (simp add: mem_wf_def)
  have same: "mem_data ?b = mem_data b"
    using fits by (simp add: mem_data_def bs_def get_tail_free_buf_def drop_take)
  have "hdr_ok (PKG_OPCODE B) (get_data b) bs"
    by (rule hdr_ok_write [OF w b(7)]) (simp add: tail get_data_def b(4))
  moreover have "drop (get_tail_free_buf b) bs = d @ drop (get_tail_free_buf b + length d) (m_bytes b)"
    using fits by (simp add: bs_def)
  ultimately have "packed B sz whole [d] (a1\<lparr>ar_pMem := Some ?b\<rparr>)"
    using b wf same dat by (simp add: packed_def a1_def get_data_def get_len_def get_tail_free_buf_def)
  moreover have "write_body (get_tail_free_buf b) d a1 = Inr (a1\<lparr>ar_pMem := Some ?b\<rparr>)"
    using b(1) w by (simp add: write_body_def a1_def)
  ultimately show ?thesis
    using nxt by (auto simp: a1_def)
qed

text \<open>The first body makes the header.\<close>

lemma get_hdr_packed:
  assumes "length raw < 2 ^ 32" and "unat off + 16 \<le> length raw"
  shows "\<exists>p a'. get_hdr B raw PKG_VER (new_archive off cnt) = Inr (p, a') \<and>
    packed B (length raw) [] [] a' \<and> \<not> m_bPending a' \<and> ar_ui32InitOffset a' = off"
proof -
  let ?b = "set_init_offset off (set_offset off (new_mem raw 0))"
  have p: "get_tail_free_buf ?b = unat off" "m_bytes ?b = raw"
    by (simp_all add: get_tail_free_buf_def set_init_offset_def set_offset_def new_mem_def)
  obtain bs where bs: "new_pkg_hdr (unat off) (PKG_OPCODE B) 0 PKG_VER NORMAL_PKG 0 raw = Inr bs"
    "hdr_ok (PKG_OPCODE B) (unat off) bs" "length bs = length raw"
    using new_pkg_hdr_ok [OF assms(2)] by blast
  let ?c = "inc_len 16 (?b\<lparr>m_bytes := bs\<rparr>)"
  have c: "m_ui32Offset ?c = off" "unat (m_ui32Len ?c) = 16" "unat (m_ui32Sz ?c) = length raw" "m_bytes ?c = bs"
    using assms(1) by (simp_all add: inc_len_def set_init_offset_def set_offset_def new_mem_def unat_word_of_nat_u32)
  then have wf: "mem_wf ?c"
    using assms(2) bs(3) by (simp add: mem_wf_def)
  have "length (mem_data ?c) = 16"
    using length_mem_data [OF wf] c(2) by simp
  then show ?thesis
    using p bs c wf
    by (simp add: get_hdr_def new_archive_def Let_def packed_def get_data_def get_len_def)
qed

lemma pack_bodies_packed:
  assumes "packed B sz whole lst a" and "\<forall>x \<in> set lst \<union> set ds. sized_body B x" and "m_pHdr a \<noteq> None"
    and "unat (ar_ui32InitOffset a) + 16 + length (concat (whole @ lst @ ds)) + unat (get_max_size B) \<le> sz"
  shows "\<exists>a' whole' lst'. pack_bodies B raw ds a = Inr (True, a') \<and> packed B sz whole' lst' a' \<and>
    whole' @ lst' = whole @ lst @ ds \<and> m_pHdr a' \<noteq> None \<and> (\<forall>x \<in> set lst'. sized_body B x)"
  using assms
proof (induction ds arbitrary: whole lst a)
  case Nil
  then show ?case by auto
next
  case (Cons d ds)
  obtain a1 where a1: "body_ready B a = Inr a1" "packed B sz (whole @ lst) [] a1" "\<not> m_bPending a1"
    "ar_ui32InitOffset a1 = ar_ui32InitOffset a"
    using body_ready_packed [OF Cons.prems(1)] Cons.prems(2) by auto
  have room: "unat (ar_ui32InitOffset a1) + 16 + length (concat (whole @ lst)) + unat (get_max_size B) \<le> sz"
    using Cons.prems(4) a1(4) by simp
  obtain p a2 a3 where a2: "get_next_body B raw a1 = Inr (Some p, a2)" "write_body p d a2 = Inr a3"
    "packed B sz (whole @ lst) [d] a3" "ar_ui32InitOffset a3 = ar_ui32InitOffset a"
    using next_body_packed [OF a1(2,3) room, of d raw] Cons.prems(2) a1(4) by auto
  obtain h h1 where h: "m_pHdr a = Some h" "m_pHdr a1 = Some h1"
    using Cons.prems(1) a1(2) by (auto simp: packed_def)
  have hdr: "m_pHdr a3 \<noteq> None"
    using a2(3) by (auto simp: packed_def)
  have again: "body_ready B a1 = Inr a1"
    using a1(3) by (simp add: body_ready_def)
  have "get_next_body B raw a = get_next_body B raw a1"
    using a1(1) h again by (simp add: get_next_body_def)
  moreover obtain a' whole' lst' where "pack_bodies B raw ds a3 = Inr (True, a')" "packed B sz whole' lst' a'"
    "whole' @ lst' = (whole @ lst) @ [d] @ ds" "m_pHdr a' \<noteq> None" "\<forall>x \<in> set lst'. sized_body B x"
    using Cons.IH [OF a2(3) _ hdr] Cons.prems(2,4) a2(4) by (auto simp: add.assoc)
  ultimately show ?case
    using a2(1,2) by auto
qed

lemma set_field_at_len:
  assumes "set_len p n bs = Inr bs1" and "set_type p ty bs1 = Inr bs2" and "hdr_ok opc p bs"
  shows "hdr_ok opc p bs2" and "pkg_len p bs2 = Inr n" and "length bs2 = length bs"
    and "drop (p + 16) bs2 = drop (p + 16) bs"
proof -
  have w1: "write_at p (le_bytes 4 (unat (htonl n))) bs = Inr bs1"
    using assms(1) by (simp add: set_len_def set_field_def)
  have w2: "write_at (p + 12) (le_bytes 1 (unat ty)) bs1 = Inr bs2"
    using assms(2) by (simp add: set_type_def set_field_def)
  have "hdr_ok opc p bs1"
    by (rule hdr_ok_write [OF w1 assms(3)]) simp
  then show "hdr_ok opc p bs2"
    by (rule hdr_ok_write [OF w2]) simp
  have "get_field p 4 bs2 = Inr (unat (htonl n) mod 256 ^ 4)"
    using get_set_field [of p 4 "unat (htonl n)" bs bs1] assms(1)
      get_other_field(1) [of "p + 12" 1 "unat ty" bs1 bs2 p 4] assms(2)
    by (simp add: set_len_def set_type_def)
  then show "pkg_len p bs2 = Inr n"
    using unat_u32_lt [of "htonl n"] by (simp add: pkg_len_def)
  show "length bs2 = length bs"
    using write_at_length [OF w1] write_at_length [OF w2] by simp
  show "drop (p + 16) bs2 = drop (p + 16) bs"
    using set_field_drop [of p 4 _ bs bs1 "p + 16"] set_field_drop [of "p + 12" 1 _ bs1 bs2 "p + 16"] assms(1,2)
    by (simp add: set_len_def set_type_def)
qed

lemma serialize_package:
  assumes "packed B sz whole lst a" and "\<forall>x \<in> set lst. sized_body B x"
  shows "\<exists>b a'. serialize B a = Inr (b, a') \<and> mem_wf b \<and>
    pkg_bytes (PKG_OPCODE B) 0 (concat (whole @ lst)) (mem_data b)"
proof -
  obtain a1 where a1: "body_ready B a = Inr a1" "packed B sz (whole @ lst) [] a1" "\<not> m_bPending a1"
    using body_ready_packed [OF assms] by blast
  obtain b where b: "ar_pMem a1 = Some b" "unat (get_len b) = 16 + length (concat (whole @ lst))" "mem_wf b"
    "m_pHdr a1 = Some (get_data b)" "hdr_ok (PKG_OPCODE B) (get_data b) (m_bytes b)"
    using packed_len [OF a1(2)] by metis
  have dat: "drop 16 (mem_data b) = concat (whole @ lst)"
    using a1(2) b(1) by (simp add: packed_def)
  have room: "get_data b + 16 \<le> length (m_bytes b)"
    using b(2,3) by (simp add: mem_wf_def get_data_def get_len_def)
  obtain bs1 where bs1: "set_len (get_data b) (get_len b) (m_bytes b) = Inr bs1" "length bs1 = length (m_bytes b)"
    using set_field_fits [of "get_data b" 4 "m_bytes b"] set_field_length [of "get_data b" 4 _ "m_bytes b"] room
    by (fastforce simp: set_len_def)
  obtain bs2 where bs2: "set_type (get_data b) NORMAL_PKG bs1 = Inr bs2"
    using set_field_fits [of "get_data b + 12" 1 bs1] room bs1(2) by (fastforce simp: set_type_def)
  note hdr = set_field_at_len [OF bs1(1) bs2 b(5)]
  let ?c = "b\<lparr>m_bytes := bs2\<rparr>"
  have wf: "mem_wf ?c"
    using b(3) hdr(3) by (simp add: mem_wf_def)
  have len: "length (mem_data ?c) = unat (get_len b)"
    using length_mem_data [OF wf] by (simp add: get_len_def)
  have get: "get_field (get_data b + k) w bs2 = get_field k w (mem_data ?c)" if "k + w \<le> 16" for k w
    using get_field_mem [OF wf, of "mem_data ?c" "[]" k w] that len b(2) by (simp add: get_data_def)
  have "drop 16 (mem_data ?c) = drop 16 (mem_data b)"
    using hdr(4) by (simp add: mem_data_def drop_take get_data_def add.commute)
  moreover have "length (mem_data ?c) < 2 ^ 32"
    using len unat_u32_lt [of "get_len b"] by simp
  moreover have num: "get_len b = word_of_nat (length (mem_data ?c))"
    using len by simp
  have "pkg_len 0 (mem_data ?c) = Inr (get_len b)"
    using hdr(2) get [of 0 4] by (simp add: pkg_len_def)
  then have "pkg_len 0 (mem_data ?c) = Inr (word_of_nat (length (mem_data ?c)))"
    by (rule trans) (rule arg_cong [OF num])
  moreover have "pkg_ver 0 (mem_data ?c) = Inr PKG_VER" "pkg_opcode 0 (mem_data ?c) = Inr (PKG_OPCODE B)"
    "pkg_tag 0 (mem_data ?c) = Inr 0"
    using hdr(1) get [of 13 1] get [of 4 2] get [of 8 4]
    by (simp_all add: hdr_ok_def pkg_ver_def pkg_opcode_def pkg_tag_def)
  moreover have "16 \<le> length (mem_data ?c)"
    using len b(2) by simp
  ultimately have "pkg_bytes (PKG_OPCODE B) 0 (concat (whole @ lst)) (mem_data ?c)"
    unfolding pkg_bytes_def dat by blast
  moreover have "serialize B a = Inr (?c, a1\<lparr>ar_pMem := Some ?c\<rparr>)"
    using a1(1) b(1,4) bs1(1) bs2 by (simp add: serialize_def Let_def)
  ultimately show ?thesis
    using wf by blast
qed

section \<open>Properties\<close>

text \<open>C10: What goes into the archive comes out of the dispatcher. An archive with any initial
  offset that is given bodies of one class, and has room for them, makes one package of a
  sixteen byte header and these bodies; a dispatcher at which the class is registered calls
  the handler with exactly these bodies, in order, with the package's opcode and tag zero, and
  consumes the package.\<close>

theorem pkg_archive_dispatch:
  assumes "ds \<noteq> []" and "\<forall>x \<in> set ds. good_body B x" and "hs (PKG_OPCODE B) = Some B"
    and "length raw < 2 ^ 32"
    and "unat off + 16 + length (concat ds) + unat (get_max_size B) \<le> length raw"
  shows "\<exists>a b a' code b'. pack_bodies B raw ds (new_archive off cnt) = Inr (True, a) \<and>
    serialize B a = Inr (b, a') \<and> unat (get_len b) = 16 + length (concat ds) \<and>
    dispatch hs PKG_VER b [] = Some (Inr (code, b', map (\<lambda>x. (PKG_OPCODE B, 0, x)) ds)) \<and> mem_data b' = []"
proof -
  have off: "unat off + 16 \<le> length raw"
    using assms(5) by simp
  obtain p a0 where a0: "get_hdr B raw PKG_VER (new_archive off cnt) = Inr (p, a0)"
    "packed B (length raw) [] [] a0" "ar_ui32InitOffset a0 = off"
    using get_hdr_packed [OF assms(4) off, of B cnt] by blast
  obtain h where h: "m_pHdr a0 = Some h"
    using a0(2) by (auto simp: packed_def)
  obtain a whole lst where a: "pack_bodies B raw ds a0 = Inr (True, a)" "packed B (length raw) whole lst a"
    "whole @ lst = ds" "\<forall>x \<in> set lst. sized_body B x"
    using pack_bodies_packed [OF a0(2), of ds raw] assms(2,5) a0(3) h by (auto simp: good_body_sized)
  obtain d ds' where "ds = d # ds'"
    using assms(1) by (cases ds) auto
  moreover have "m_pHdr (new_archive off cnt) = None"
    by (simp add: new_archive_def)
  ultimately have "pack_bodies B raw ds (new_archive off cnt) = Inr (True, a)"
    using a(1) a0(1) h by (simp add: get_next_body_def)
  moreover obtain b a' where b: "serialize B a = Inr (b, a')" "mem_wf b"
    "pkg_bytes (PKG_OPCODE B) 0 (concat ds) (mem_data b)"
    using serialize_package [OF a(2,4)] a(3) by auto
  moreover have "unat (get_len b) = 16 + length (concat ds)"
  proof -
    have "drop 16 (mem_data b) = concat ds" "16 \<le> length (mem_data b)"
      using b(3) by (simp_all add: pkg_bytes_def)
    then show ?thesis
      using length_mem_data [OF b(2)] by (metis get_len_def length_drop le_add_diff_inverse)
  qed
  moreover have "packages hs [map (\<lambda>x. (PKG_OPCODE B, 0, x)) ds] [mem_data b]"
    using b(3) assms(2,3) by (auto simp: packages_def is_package_def)
  from dispatch_packages [OF this b(2), of "[]" "[]"] obtain code b' where
    "dispatch hs PKG_VER b [] = Some (Inr (code, b', map (\<lambda>x. (PKG_OPCODE B, 0, x)) ds))" "mem_data b' = []"
    by (auto simp: beginning_def)
  ultimately show ?thesis
    by blast
qed

lemma test_body: "length d = 4 \<Longrightarrow> good_body CPkgTest d"
  by (auto simp: good_body_def sized_body_def CPkgTest_def)

definition test_handlers :: pkg_handlers where
  "test_handlers = [1 \<mapsto> CPkgTest]"

theorem pkg_archive_dispatch_witness:
  "\<exists>a b a' code b'.
     pack_bodies CPkgTest (replicate 64 0) [[1, 2, 3, 4], [5, 6, 7, 8]] (new_archive 16 (-1)) = Inr (True, a) \<and>
     serialize CPkgTest a = Inr (b, a') \<and>
     dispatch test_handlers PKG_VER b [] =
       Some (Inr (code, b', [(1, 0, [1, 2, 3, 4]), (1, 0, [5, 6, 7, 8])]))"
proof -
  have good: "\<forall>x \<in> set [[1, 2, 3, 4], [5, 6, 7, 8 :: u8]]. good_body CPkgTest x"
    using test_body by simp
  have reg: "test_handlers (PKG_OPCODE CPkgTest) = Some CPkgTest" "PKG_OPCODE CPkgTest = 1"
    by (simp_all add: test_handlers_def CPkgTest_def)
  have room: "unat (16 :: u32) + 16 + length (concat [[1, 2, 3, 4], [5, 6, 7, 8 :: u8]]) +
      unat (get_max_size CPkgTest) \<le> length (replicate 64 (0 :: u8))"
    by (simp add: CPkgTest_def)
  have "[[1, 2, 3, 4], [5, 6, 7, 8 :: u8]] \<noteq> []" "length (replicate 64 (0 :: u8)) < 2 ^ 32"
    by simp_all
  from pkg_archive_dispatch [of "[[1, 2, 3, 4], [5, 6, 7, 8]]" CPkgTest test_handlers "replicate 64 0" 16 "-1",
      OF this(1) good reg(1) this(2) room]
  show ?thesis
    unfolding reg(2) by (simp del: pack_bodies.simps) blast
qed

lemma test_package:
  obtains d where "packages test_handlers [[(1, 0, [1, 2, 3, 4])]] [d]" and "length d = 20"
proof -
  let ?raw = "replicate 64 (0 :: u8)"
  have good: "\<forall>x \<in> set [[1, 2, 3, 4 :: u8]]. good_body CPkgTest x"
    using test_body by simp
  obtain p a0 where a0: "get_hdr CPkgTest ?raw PKG_VER (new_archive 0 (-1)) = Inr (p, a0)"
    "packed CPkgTest 64 [] [] a0" "\<not> m_bPending a0" "ar_ui32InitOffset a0 = 0"
    using get_hdr_packed [of ?raw 0 CPkgTest "-1"] by auto
  obtain a whole lst where a: "packed CPkgTest 64 whole lst a" "whole @ lst = [[1, 2, 3, 4]]"
    "\<forall>x \<in> set lst. sized_body CPkgTest x"
  proof -
    have "m_pHdr a0 \<noteq> None"
      using a0(2) by (auto simp: packed_def)
    moreover have "unat (ar_ui32InitOffset a0) + 16 + length (concat ([] @ [] @ [[1, 2, 3, 4 :: u8]])) +
        unat (get_max_size CPkgTest) \<le> 64"
      using a0(4) by (simp add: CPkgTest_def)
    ultimately show thesis
      using that pack_bodies_packed [OF a0(2), of "[[1, 2, 3, 4]]" ?raw] good by (auto simp: good_body_sized)
  qed
  obtain d where d: "pkg_bytes 1 0 [1, 2, 3, 4] d"
    using serialize_package [OF a(1,3)] a(2) by (auto simp: CPkgTest_def)
  have len: "length d = 20"
  proof -
    have "drop 16 d = [1, 2, 3, 4]" "16 \<le> length d"
      using d by (simp_all add: pkg_bytes_def)
    then show ?thesis
      using length_drop [of 16 d] by simp
  qed
  have "packages test_handlers [[(1, 0, [1, 2, 3, 4])]] [d]"
    unfolding packages_def is_package_def using d good
    by (auto simp: test_handlers_def CPkgTest_def intro!: exI [of _ CPkgTest] exI [of _ 0] exI [of _ "[[1, 2, 3, 4]]"])
  then show thesis
    using that len by blast
qed

text \<open>C14: Packages survive any fragmentation. Let a stream of well-formed packages of registered
  classes arrive in pieces of any size, each put behind what is left in the block and then
  dispatched, and let the block have room for the largest package and a piece. Then nothing
  is refused, the dispatcher returns every time, the handlers get every body of the stream
  once and in order, and nothing is left in the block.\<close>

theorem pkg_stream_reassembled:
  assumes "packages hs evss ps" and "concat cs = concat ps" and "mem_wf b" and "mem_data b = []"
    and "\<forall>p \<in> set ps. length p < big" and "\<forall>c \<in> set cs. length c + big \<le> unat (m_ui32Sz b)"
  shows "\<exists>b'. feed hs cs b [] = Some (b', concat evss) \<and> mem_data b' = []"
  using feed_stream [of hs evss ps "[]" cs b big "[]"] assms by auto

theorem pkg_stream_reassembled_witness:
  "\<exists>d b'. 16 < length d \<and>
     feed test_handlers [take 5 d, drop 5 d] (new_mem (replicate 100 0) 0) [] =
       Some (b', [(1, 0, [1, 2, 3, 4])])"
proof -
  obtain d where pkg: "packages test_handlers [[(1, 0, [1, 2, 3, 4])]] [d]" and len: "length d = 20"
    by (rule test_package)
  let ?b = "new_mem (replicate 100 (0 :: u8)) 0"
  have wf: "mem_wf ?b" "mem_data ?b = []" "unat (m_ui32Sz ?b) = 100"
    by (simp_all add: new_mem_def mem_wf_def mem_data_def)
  have "concat [take 5 d, drop 5 d] = concat [d]" "\<forall>p \<in> set [d]. length p < 21"
    "\<forall>c \<in> set [take 5 d, drop 5 d]. length c + 21 \<le> unat (m_ui32Sz ?b)"
    using len wf(3) by simp_all
  from pkg_stream_reassembled [OF pkg this(1) wf(1,2) this(2,3)] show ?thesis
    using len by (intro exI [of _ d]) (simp del: feed.simps, blast)
qed

text \<open>C30: A wrong length makes the dispatcher hang or read past the package. When the space
  announced for the bodies is not used up by whole bodies, the loop over them does not return
  normally: with the heartbeat class, whose bodies have size zero, it never ends, and with
  \<open>CPkgTest\<close>, whose bodies have four bytes, the remaining size wraps around at zero and the
  loop reads on until it leaves the block, or for ever.\<close>

theorem pkg_bad_length_hangs:
  "(0 < sz \<and> mem_wf b \<longrightarrow> dispatch_fun CPkgHB sz tag b log = None) \<and>
   (unat sz mod 4 \<noteq> 0 \<longrightarrow> (\<forall>r. dispatch_fun CPkgTest sz tag b log \<noteq> Some (Inr r)))"
proof (intro conjI impI allI)
  have hb: "0 < sz \<longrightarrow> mem_wf b \<longrightarrow> B \<noteq> CPkgHB" if "dispatch_fun B sz tag b log = Some r" for B sz tag b log r
  proof (rule dispatch_fun.raw_induct [where P = "\<lambda>B sz tag b log r. 0 < sz \<longrightarrow> mem_wf b \<longrightarrow> B \<noteq> CPkgHB", OF _ that])
    fix f B and sz tag :: u32 and b log r
    assume IH: "\<And>B sz tag b log r. f B sz tag b log = Some r \<Longrightarrow> 0 < sz \<longrightarrow> mem_wf b \<longrightarrow> B \<noteq> CPkgHB"
      and body: "(if 0 < sz
        then let n = get_real_size B (drop (get_data b) (m_bytes b)) in
          (case read_at (get_data b) (unat n) (m_bytes b) of
             Inl h \<Rightarrow> Some (Inl h)
           | Inr d \<Rightarrow> f B (sz - n) tag (dec_head_data n b) (log @ [(PKG_OPCODE B, tag, d)]))
        else Some (Inr (b, log))) = Some r"
    show "0 < sz \<longrightarrow> mem_wf b \<longrightarrow> B \<noteq> CPkgHB"
    proof (intro impI notI)
      assume *: "0 < sz" "mem_wf b" "B = CPkgHB"
      then have "read_at (get_data b) 0 (m_bytes b) = Inr []" and "dec_head_data 0 b = b"
        by (simp_all add: read_at_def mem_wf_def get_data_def dec_head_data_def)
      then have "f B sz tag b (log @ [(PKG_OPCODE B, tag, [])]) = Some r"
        using body * by (simp add: CPkgHB_def)
      from IH [OF this] show False
        using * by blast
    qed
  qed
  then show "dispatch_fun CPkgHB sz tag b log = None" if "0 < sz \<and> mem_wf b"
    using that by (metis not_None_eq)
  have test: "unat sz mod 4 \<noteq> 0 \<longrightarrow> B = CPkgTest \<longrightarrow> (\<forall>x. r \<noteq> Inr x)"
    if "dispatch_fun B sz tag b log = Some r" for B sz tag b log r
  proof (rule dispatch_fun.raw_induct [where
        P = "\<lambda>B sz tag b log r. unat sz mod 4 \<noteq> 0 \<longrightarrow> B = CPkgTest \<longrightarrow> (\<forall>x. r \<noteq> Inr x)", OF _ that])
    fix f B and sz tag :: u32 and b log r
    assume IH: "\<And>B sz tag b log r. f B sz tag b log = Some r \<Longrightarrow> unat sz mod 4 \<noteq> 0 \<longrightarrow> B = CPkgTest \<longrightarrow> (\<forall>x. r \<noteq> Inr x)"
      and body: "(if 0 < sz
        then let n = get_real_size B (drop (get_data b) (m_bytes b)) in
          (case read_at (get_data b) (unat n) (m_bytes b) of
             Inl h \<Rightarrow> Some (Inl h)
           | Inr d \<Rightarrow> f B (sz - n) tag (dec_head_data n b) (log @ [(PKG_OPCODE B, tag, d)]))
        else Some (Inr (b, log))) = Some r"
    show "unat sz mod 4 \<noteq> 0 \<longrightarrow> B = CPkgTest \<longrightarrow> (\<forall>x. r \<noteq> Inr x)"
    proof (intro impI)
      assume *: "unat sz mod 4 \<noteq> 0" "B = CPkgTest"
      have "unat (sz - 4) = (if 4 \<le> unat sz then unat sz - 4 else unat sz + 4294967296 - 4)"
        by (simp add: unat_sub_if')
      then have wrap: "unat (sz - 4) mod 4 \<noteq> 0"
        using *(1) by presburger
      have pos: "sz > 0"
        using *(1) by (auto simp: word_less_nat_alt)
      have n: "get_real_size B (drop (get_data b) (m_bytes b)) = 4"
        using *(2) by (simp add: CPkgTest_def)
      show "\<forall>x. r \<noteq> Inr x"
      proof (cases "read_at (get_data b) (unat (4 :: u32)) (m_bytes b)")
        case (Inl h)
        then have "r = Inl h"
          using body pos unfolding n Let_def by simp
        then show ?thesis by simp
      next
        case (Inr d)
        then have "f B (sz - 4) tag (dec_head_data 4 b) (log @ [(PKG_OPCODE B, tag, d)]) = Some r"
          using body pos unfolding n Let_def by simp
        from IH [OF this] show ?thesis
          using wrap *(2) by blast
      qed
    qed
  qed
  then show "dispatch_fun CPkgTest sz tag b log \<noteq> Some (Inr r)" if "unat sz mod 4 \<noteq> 0" for r
    using that by blast
qed

theorem pkg_bad_length_hangs_witness:
  "dispatch_fun CPkgHB 1 0 (new_mem (replicate 32 0) 0) [] = None \<and>
   (\<forall>r. dispatch_fun CPkgTest 2 0 (new_mem (replicate 32 0) 0) [] \<noteq> Some (Inr r))"
proof -
  have "mem_wf (new_mem (replicate 32 0) 0)"
    by (simp add: new_mem_def mem_wf_def)
  then show ?thesis
    using pkg_bad_length_hangs [of 1 "new_mem (replicate 32 0) 0" 0 "[]"]
      pkg_bad_length_hangs [of 2 "new_mem (replicate 32 0) 0" 0 "[]"] by simp
qed

end
