(* ===== verification/RupEndpoint.thy ===== *)
theory RupEndpoint
  imports IdlePool Pkg
begin

text \<open>
  \<open>CRupEndpoint\<close> of \<open>libsmart_net/src/smart_net/sn_endpoint_impl.cpp\<close>: one end of a stream
  connection. It waits in the queue of its helper (an acceptor or a connector), gets a
  connected socket, joins an output task and then an input task of the engine, and leaves
  them again. The machine runs on the endpoint together with the queue of its helper. What
  an engine call answered and the socket handed over are the argument of an event.
\<close>

section \<open>State\<close>

definition ES_ADDED_INTO_HELPER :: int where [simp]: "ES_ADDED_INTO_HELPER = 0"
definition ES_OPENED :: int where [simp]: "ES_OPENED = 2"
definition ES_CLOSED :: int where [simp]: "ES_CLOSED = 5"
definition ES_ADDING_INTO_OT :: int where [simp]: "ES_ADDING_INTO_OT = 6"
definition ES_ADDING_INTO_IT :: int where [simp]: "ES_ADDING_INTO_IT = 7"
definition ES_DELING_FROM_IT :: int where [simp]: "ES_DELING_FROM_IT = 9"
definition ES_DELING_FROM_OT :: int where [simp]: "ES_DELING_FROM_OT = 10"

definition EE_NONE :: int where [simp]: "EE_NONE = 0"
definition EE_OPEN :: int where [simp]: "EE_OPEN = 1"
definition EE_CLOSE :: int where [simp]: "EE_CLOSE = 3"
definition EE_INTERNAL_ERR :: int where [simp]: "EE_INTERNAL_ERR = 6"
definition EE_CONNECTED :: int where [simp]: "EE_CONNECTED = 7"
definition EE_ADDED_INTO_OT :: int where [simp]: "EE_ADDED_INTO_OT = 8"
definition EE_ADDED_INTO_IT :: int where [simp]: "EE_ADDED_INTO_IT = 9"
definition EE_DELED_FROM_IT :: int where [simp]: "EE_DELED_FROM_IT = 10"
definition EE_DELED_FROM_OT :: int where [simp]: "EE_DELED_FROM_OT = 11"

record CRupEndpoint =
  ep_id :: nat
  ep_state :: int
  m_i32SMPendingEvt :: int
  m_pSock :: "CRupSock option"
  m_ui64SendCnt :: u64
  m_ui64RecvCnt :: u64
  m_ui64SendStore :: u64
  m_ui64RecvStore :: u64
  m_ui32CycleCnt :: u32
  m_bWillClose :: bool
  ep_calls :: "ep_call list"

record ep_arg =
  pSock :: "CRupSock option"
  engine_ret :: int

type_synonym rup_obj = "CRupEndpoint \<times> nat list"

type_synonym rup_handler = "(rup_obj, ep_arg) transform"

text \<open>
  The constructors: \<open>EE_NONE\<close> is pending for the end of an acceptor, \<open>-1\<close> for the end of a
  connector; the counters are set when the endpoint is opened.
\<close>

definition new_rup_endpoint :: "nat \<Rightarrow> bool \<Rightarrow> CRupEndpoint" where
  "new_rup_endpoint i of_acceptor =
     \<lparr>ep_id = i, ep_state = ES_CLOSED, m_i32SMPendingEvt = (if of_acceptor then EE_NONE else -1),
      m_pSock = None, m_ui64SendCnt = 0, m_ui64RecvCnt = 0, m_ui64SendStore = 0, m_ui64RecvStore = 0,
      m_ui32CycleCnt = 0, m_bWillClose = False, ep_calls = []\<rparr>"

definition rup_cur :: "rup_obj \<Rightarrow> int" where
  "rup_cur o1 = ep_state (fst o1)"

definition rup_set_cur :: "int \<Rightarrow> rup_obj \<Rightarrow> rup_obj" where
  "rup_set_cur s o1 = ((fst o1)\<lparr>ep_state := s\<rparr>, snd o1)"

definition rup_call :: "ep_call \<Rightarrow> CRupEndpoint \<Rightarrow> CRupEndpoint" where
  "rup_call c t = t\<lparr>ep_calls := ep_calls t @ [c]\<rparr>"

definition close_sock :: "CRupEndpoint \<Rightarrow> CRupEndpoint res" where
  "close_sock t = bindr (deref (m_pSock t)) (\<lambda>s. Inr (t\<lparr>m_pSock := Some (snd (rup_close s))\<rparr>))"

section \<open>The functions of the machine\<close>

definition handling_closed_to_added_into_helper :: rup_handler where
  "handling_closed_to_added_into_helper i32CurState i32Evt i32NextState pVoid o1 =
     (let t = (fst o1)\<lparr>m_i32SMPendingEvt := EE_NONE, m_ui64SendCnt := 0, m_ui64RecvCnt := 0,
                 m_ui64SendStore := 0, m_ui64RecvStore := 0, m_ui32CycleCnt := 0, m_bWillClose := False\<rparr>;
          (code, q) = pool_add (ep_id t) (snd o1) in
      Inr (code, (t, q)))"

definition handling_added_into_helper_to_closed :: rup_handler where
  "handling_added_into_helper_to_closed i32CurState i32Evt i32NextState pVoid o1 =
     (let t = fst o1 in
      bindr (cmn_assert (m_pSock t = None)) (\<lambda>_.
      bindr (pool_del (ep_id t) (snd o1)) (\<lambda>(code, q).
      bindr (cmn_assert (code = CMNERR_SUC)) (\<lambda>_.
      Inr (CMNERR_COMMON_ERR, ((rup_call On_closed (t\<lparr>ep_state := ES_CLOSED\<rparr>))\<lparr>m_pSock := None\<rparr>, q))))))"

definition handling_added_into_helper_to_adding_into_ot :: rup_handler where
  "handling_added_into_helper_to_adding_into_ot i32CurState i32Evt i32NextState pVoid o1 =
     (let t = fst o1 in
      bindr (cmn_assert (m_pSock t = None)) (\<lambda>_.
      Inr (engine_ret pVoid, (rup_call (Engine_add EIT_OUTPUT_TYPE) (t\<lparr>m_pSock := pSock pVoid\<rparr>), snd o1))))"

definition handling_close_while_adding_into_ot :: rup_handler where
  "handling_close_while_adding_into_ot i32CurState i32Evt i32NextState pVoid o1 =
     Inr (CMNERR_SUC, ((fst o1)\<lparr>m_i32SMPendingEvt := EE_CLOSE\<rparr>, snd o1))"

definition handling_internal_err_while_adding_into_ot :: rup_handler where
  "handling_internal_err_while_adding_into_ot i32CurState i32Evt i32NextState pVoid o1 =
     Inr (CMNERR_SUC, ((fst o1)\<lparr>m_i32SMPendingEvt := EE_INTERNAL_ERR\<rparr>, snd o1))"

definition handling_internal_err_while_adding_into_it :: rup_handler where
  "handling_internal_err_while_adding_into_it i32CurState i32Evt i32NextState pVoid o1 =
     Inr (CMNERR_SUC, ((fst o1)\<lparr>m_i32SMPendingEvt := EE_INTERNAL_ERR\<rparr>, snd o1))"

definition handling_close_while_adding_into_it :: rup_handler where
  "handling_close_while_adding_into_it i32CurState i32Evt i32NextState pVoid o1 =
     Inr (CMNERR_SUC, ((fst o1)\<lparr>m_i32SMPendingEvt := EE_CLOSE\<rparr>, snd o1))"

definition handling_added_into_ot_to_adding_into_it :: rup_handler where
  "handling_added_into_ot_to_adding_into_it i32CurState i32Evt i32NextState pVoid o1 =
     (let t = fst o1 in
      if m_i32SMPendingEvt t = EE_CLOSE
      then bindr (close_sock t) (\<lambda>t.
           Inr (CMNERR_COMMON_ERR,
             ((rup_call (Engine_del EIT_OUTPUT_TYPE) t)\<lparr>ep_state := ES_DELING_FROM_OT\<rparr>, snd o1)))
      else bindr (cmn_assert (m_i32SMPendingEvt t = EE_NONE)) (\<lambda>_.
           Inr (engine_ret pVoid, (rup_call (Engine_add EIT_INPUT_TYPE) t, snd o1))))"

definition handling_adding_into_it_to_opened :: rup_handler where
  "handling_adding_into_it_to_opened i32CurState i32Evt i32NextState pVoid o1 =
     (let t = fst o1 in
      if m_i32SMPendingEvt t \<noteq> EE_NONE
      then bindr (close_sock t) (\<lambda>t.
           Inr (CMNERR_COMMON_ERR,
             ((rup_call (Engine_del EIT_OUTPUT_TYPE) t)\<lparr>ep_state := ES_DELING_FROM_OT\<rparr>, snd o1)))
      else Inr (CMNERR_SUC, (rup_call On_opened t, snd o1)))"

definition handling_internal_err_while_opened :: rup_handler where
  "handling_internal_err_while_opened i32CurState i32Evt i32NextState pVoid o1 =
     bindr (close_sock (fst o1)) (\<lambda>t.
     Inr (engine_ret pVoid, (rup_call (Engine_del EIT_INPUT_TYPE) t, snd o1)))"

definition handling_close_while_opened :: rup_handler where
  "handling_close_while_opened i32CurState i32Evt i32NextState pVoid o1 =
     bindr (close_sock (fst o1)) (\<lambda>t.
     Inr (engine_ret pVoid, (rup_call (Engine_del EIT_INPUT_TYPE) t, snd o1)))"

definition handling_deling_from_it_to_deling_from_ot :: rup_handler where
  "handling_deling_from_it_to_deling_from_ot i32CurState i32Evt i32NextState pVoid o1 =
     Inr (engine_ret pVoid, (rup_call (Engine_del EIT_OUTPUT_TYPE) (fst o1), snd o1))"

definition handling_deling_from_ot_to_closed :: rup_handler where
  "handling_deling_from_ot_to_closed i32CurState i32Evt i32NextState pVoid o1 =
     Inr (CMNERR_COMMON_ERR,
       ((rup_call On_closed ((fst o1)\<lparr>ep_state := ES_CLOSED\<rparr>))\<lparr>m_pSock := None\<rparr>, snd o1))"

definition rup_regs :: "(rup_obj, ep_arg) registration list" where
  "rup_regs =
    [(ES_CLOSED, EE_OPEN, ES_ADDED_INTO_HELPER, Some handling_closed_to_added_into_helper),
     (ES_ADDED_INTO_HELPER, EE_CLOSE, ES_CLOSED, Some handling_added_into_helper_to_closed),
     (ES_ADDED_INTO_HELPER, EE_CONNECTED, ES_ADDING_INTO_OT, Some handling_added_into_helper_to_adding_into_ot),
     (ES_ADDING_INTO_OT, EE_CLOSE, ES_ADDING_INTO_OT, Some handling_close_while_adding_into_ot),
     (ES_ADDING_INTO_OT, EE_INTERNAL_ERR, ES_CLOSED, Some handling_internal_err_while_adding_into_ot),
     (ES_ADDING_INTO_OT, EE_ADDED_INTO_OT, ES_ADDING_INTO_IT, Some handling_added_into_ot_to_adding_into_it),
     (ES_ADDING_INTO_IT, EE_INTERNAL_ERR, ES_ADDING_INTO_IT, Some handling_internal_err_while_adding_into_it),
     (ES_ADDING_INTO_IT, EE_CLOSE, ES_ADDING_INTO_IT, Some handling_close_while_adding_into_it),
     (ES_ADDING_INTO_IT, EE_ADDED_INTO_IT, ES_OPENED, Some handling_adding_into_it_to_opened),
     (ES_OPENED, EE_INTERNAL_ERR, ES_DELING_FROM_IT, Some handling_internal_err_while_opened),
     (ES_OPENED, EE_CLOSE, ES_DELING_FROM_IT, Some handling_close_while_opened),
     (ES_DELING_FROM_IT, EE_DELED_FROM_IT, ES_DELING_FROM_OT, Some handling_deling_from_it_to_deling_from_ot),
     (ES_DELING_FROM_OT, EE_DELED_FROM_OT, ES_CLOSED, Some handling_deling_from_ot_to_closed)]"

lemma rup_keys: "distinct (reg_keys rup_regs)"
  by (simp add: rup_regs_def)

definition rup_post :: "int \<Rightarrow> ep_arg \<Rightarrow> rup_obj \<Rightarrow> (int \<times> rup_obj) res" where
  "rup_post = post_evt rup_cur rup_set_cur (table_of rup_regs)"

text \<open>The arguments of an event: nothing but what the engine will answer, or a socket too.\<close>

definition arg_ret :: "int \<Rightarrow> ep_arg" where
  "arg_ret r = \<lparr>pSock = None, engine_ret = r\<rparr>"

definition arg_sock :: "CRupSock \<Rightarrow> int \<Rightarrow> ep_arg" where
  "arg_sock k r = \<lparr>pSock = Some k, engine_ret = r\<rparr>"

lemma arg_simps [simp]:
  "pSock (arg_ret r) = None" "engine_ret (arg_ret r) = r"
  "pSock (arg_sock k r) = Some k" "engine_ret (arg_sock k r) = r"
  by (simp_all add: arg_ret_def arg_sock_def)

text \<open>Posting an event and dropping the code, as the callbacks do.\<close>

definition rup_post_void :: "int \<Rightarrow> int \<Rightarrow> rup_obj \<Rightarrow> rup_obj res" where
  "rup_post_void e r o1 = bindr (rup_post e (arg_ret r) o1) (\<lambda>(code, o1). Inr o1)"

section \<open>What others call\<close>

definition rup_ep_open :: "rup_obj \<Rightarrow> (int \<times> rup_obj) res" where
  "rup_ep_open o1 = rup_post EE_OPEN (arg_ret 0) o1"

definition rup_ep_close :: "int \<Rightarrow> rup_obj \<Rightarrow> (int \<times> rup_obj) res" where
  "rup_ep_close r o1 = rup_post EE_CLOSE (arg_ret r) o1"

definition rup_ep_is_opened :: "rup_obj \<Rightarrow> bool" where
  "rup_ep_is_opened o1 \<longleftrightarrow> rup_cur o1 = ES_OPENED"

definition get_ioobj_handle :: "rup_obj \<Rightarrow> int res" where
  "get_ioobj_handle o1 = bindr (deref (m_pSock (fst o1))) (\<lambda>k. Inr (m_hSock k))"

definition handle_connected :: "CRupSock \<Rightarrow> int \<Rightarrow> rup_obj \<Rightarrow> (int \<times> rup_obj) res" where
  "handle_connected pTcpSock r o1 = rup_post EE_CONNECTED (arg_sock pTcpSock r) o1"

text \<open>A failed registration posts two events, whose engine calls answer \<open>r1\<close> and \<open>r2\<close>.\<close>

definition handle_added_into_io_task :: "int \<Rightarrow> int \<Rightarrow> int \<Rightarrow> int \<Rightarrow> rup_obj \<Rightarrow> rup_obj res" where
  "handle_added_into_io_task i32IoType i32RetCode r1 r2 o1 =
     bindr (if i32RetCode < 0 then rup_post_void EE_INTERNAL_ERR r1 o1 else Inr o1) (\<lambda>o1.
     if i32IoType = EIT_OUTPUT_TYPE then rup_post_void EE_ADDED_INTO_OT r2 o1
     else if i32IoType = EIT_INPUT_TYPE then rup_post_void EE_ADDED_INTO_IT r2 o1
     else Inl Assert_failed)"

definition handle_deled_from_io_task :: "int \<Rightarrow> int \<Rightarrow> rup_obj \<Rightarrow> rup_obj res" where
  "handle_deled_from_io_task i32IoType r o1 =
     (if i32IoType = EIT_INPUT_TYPE then rup_post_void EE_DELED_FROM_IT r o1
      else if i32IoType = EIT_OUTPUT_TYPE then rup_post_void EE_DELED_FROM_OT r o1
      else Inl Assert_failed)"

definition handle_io_error :: "int \<Rightarrow> rup_obj \<Rightarrow> rup_obj res" where
  "handle_io_error r o1 = rup_post_void EE_INTERNAL_ERR r o1"

text \<open>\<open>raw\<close> is the memory of a fresh block and \<open>ans\<close> what \<open>recv\<close> answers.\<close>

definition handle_input_evt :: "bytes \<Rightarrow> bytes os_ret \<Rightarrow> int \<Rightarrow> rup_obj \<Rightarrow> rup_obj res" where
  "handle_input_evt raw ans r o1 =
     (if rup_cur o1 \<noteq> ES_OPENED then Inr o1
      else let t = (fst o1)\<lparr>m_ui64RecvCnt := m_ui64RecvCnt (fst o1) + 1\<rparr> in
        bindr (deref (m_pSock t)) (\<lambda>k.
        bindr (rup_handle_can_recv raw ans k) (\<lambda>(i32Ret, k).
        let t = t\<lparr>m_pSock := Some k\<rparr> in
        if i32Ret = CMNERR_SUC
        then bindr (deref (m_pRecvedData k)) (\<lambda>b. Inr (rup_call (On_recved_data (mem_data b)) t, snd o1))
        else if i32Ret = CMNERR_RECV_PENDING then Inl Assert_failed
        else rup_post_void EE_INTERNAL_ERR r (t, snd o1))))"

definition MAX_CYCLE_CNT :: u32 where [simp]: "MAX_CYCLE_CNT = 10000000"

text \<open>The heartbeat: a package of the class \<open>CPkgHB\<close> with one empty body.\<close>

definition hb_mem :: "bytes \<Rightarrow> CMemBlock res" where
  "hb_mem raw =
     bindr (get_next_body CPkgHB raw (new_archive 0 (-1))) (\<lambda>(p, a).
     bindr (serialize CPkgHB a) (\<lambda>(b, a). Inr b))"

definition send_hb :: "bytes \<Rightarrow> bool \<Rightarrow> nat os_ret \<Rightarrow> CRupEndpoint \<Rightarrow> CRupEndpoint res" where
  "send_hb raw locked ans t =
     (if m_ui64SendCnt t = m_ui64SendStore t
      then bindr (hb_mem raw) (\<lambda>b.
           bindr (deref (m_pSock t)) (\<lambda>k.
           bindr (rup_send_mem 1 locked ans b k) (\<lambda>(code, k). Inr (t\<lparr>m_pSock := Some k\<rparr>))))
      else Inr (t\<lparr>m_ui64SendStore := m_ui64SendCnt t\<rparr>))"

definition check_peer :: "int \<Rightarrow> rup_obj \<Rightarrow> rup_obj res" where
  "check_peer r o1 =
     (let t = fst o1 in
      if m_ui64RecvCnt t = m_ui64RecvStore t
      then if \<not> m_bWillClose t then Inr (t\<lparr>m_bWillClose := True\<rparr>, snd o1)
           else rup_post_void EE_INTERNAL_ERR r o1
      else Inr (t\<lparr>m_bWillClose := False, m_ui64RecvStore := m_ui64RecvCnt t\<rparr>, snd o1))"

definition keep_alive :: "bytes \<Rightarrow> bool \<Rightarrow> nat os_ret \<Rightarrow> int \<Rightarrow> rup_obj \<Rightarrow> rup_obj res" where
  "keep_alive raw locked ans r o1 =
     (let t = (fst o1)\<lparr>m_ui32CycleCnt := m_ui32CycleCnt (fst o1) + 1\<rparr> in
      if m_ui32CycleCnt t > MAX_CYCLE_CNT
      then bindr (send_hb raw locked ans (t\<lparr>m_ui32CycleCnt := 0\<rparr>)) (\<lambda>t. check_peer r (t, snd o1))
      else Inr (t, snd o1))"

text \<open>\<open>answers\<close> are the kernel's to \<open>handle_can_send\<close>, \<open>ans\<close> its answer to the heartbeat.\<close>

definition handle_output_evt ::
  "nat os_ret list \<Rightarrow> bytes \<Rightarrow> bool \<Rightarrow> nat os_ret \<Rightarrow> int \<Rightarrow> rup_obj \<Rightarrow> rup_obj res" where
  "handle_output_evt answers raw locked ans r o1 =
     (if rup_cur o1 = ES_OPENED
      then bindr (deref (m_pSock (fst o1))) (\<lambda>k.
           bindr (rup_handle_can_send answers k) (\<lambda>(code, k).
           let o1 = ((fst o1)\<lparr>m_pSock := Some k\<rparr>, snd o1) in
           if code = CMNERR_IO_ERR then rup_post_void EE_INTERNAL_ERR r o1
           else keep_alive raw locked ans r o1))
      else Inr o1)"

definition send_data :: "int \<Rightarrow> bool \<Rightarrow> nat os_ret \<Rightarrow> CMemBlock \<Rightarrow> rup_obj \<Rightarrow> (int \<times> rup_obj) res" where
  "send_data ref_cnt locked ans pData o1 =
     (let t = (fst o1)\<lparr>m_ui64SendCnt := m_ui64SendCnt (fst o1) + 1\<rparr> in
      if rup_cur o1 = ES_OPENED
      then bindr (deref (m_pSock t)) (\<lambda>k.
           bindr (rup_send_mem ref_cnt locked ans pData k) (\<lambda>(code, k).
           Inr (code, (t\<lparr>m_pSock := Some k\<rparr>, snd o1))))
      else Inr (CMNERR_COMMON_ERR, (t, snd o1)))"

section \<open>The invariant\<close>

text \<open>
  In which tasks an endpoint is and whether it has a socket is determined by its state; the
  ids in the queue of the helper are those of waiting endpoints.
\<close>

definition rup_states :: "int set" where
  "rup_states = {ES_ADDED_INTO_HELPER, ES_OPENED, ES_CLOSED, ES_ADDING_INTO_OT, ES_ADDING_INTO_IT,
     ES_DELING_FROM_IT, ES_DELING_FROM_OT}"

definition rup_regs_of :: "int \<Rightarrow> int \<times> int" where
  "rup_regs_of s =
     (if s = ES_CLOSED \<or> s = ES_ADDED_INTO_HELPER \<or> s = ES_DELING_FROM_OT then (0, 0)
      else if s = ES_ADDING_INTO_OT \<or> s = ES_DELING_FROM_IT then (1, 0) else (1, 1))"

definition rup_inv :: "rup_obj \<Rightarrow> bool" where
  "rup_inv o1 \<longleftrightarrow> (let t = fst o1; s = ep_state t in
     (registered EIT_OUTPUT_TYPE (ep_calls t), registered EIT_INPUT_TYPE (ep_calls t)) = rup_regs_of s \<and>
     (m_pSock t = None \<longleftrightarrow> s = ES_CLOSED \<or> s = ES_ADDED_INTO_HELPER) \<and>
     (s = ES_ADDED_INTO_HELPER \<or> s = ES_ADDING_INTO_IT \<longrightarrow> m_i32SMPendingEvt t = EE_NONE) \<and>
     (s = ES_ADDING_INTO_OT \<longrightarrow> m_i32SMPendingEvt t = EE_NONE \<or> m_i32SMPendingEvt t = EE_CLOSE) \<and>
     (ep_id t \<in> set (snd o1) \<longrightarrow> s = ES_ADDED_INTO_HELPER) \<and> distinct (snd o1))"

text \<open>
  The events the endpoint handles properly: the engine does not refuse, a connection comes
  with a socket to an endpoint that was taken off the queue, an endpoint that is closed while
  it waits is still in the queue, and nothing fails while it is being registered; being
  closed is fine during the first registration only.
\<close>

definition rup_ok :: "rup_obj \<Rightarrow> int \<Rightarrow> ep_arg \<Rightarrow> bool" where
  "rup_ok o1 e v \<longleftrightarrow> 0 \<le> engine_ret v \<and>
     (e = EE_CONNECTED \<longrightarrow> pSock v \<noteq> None \<and> ep_id (fst o1) \<notin> set (snd o1)) \<and>
     (e = EE_CLOSE \<and> rup_cur o1 = ES_ADDED_INTO_HELPER \<longrightarrow> ep_id (fst o1) \<in> set (snd o1)) \<and>
     (e = EE_INTERNAL_ERR \<longrightarrow> rup_cur o1 \<noteq> ES_ADDING_INTO_OT \<and> rup_cur o1 \<noteq> ES_ADDING_INTO_IT) \<and>
     (e = EE_CLOSE \<longrightarrow> rup_cur o1 \<noteq> ES_ADDING_INTO_IT)"

lemmas rup_handler_defs =
  handling_closed_to_added_into_helper_def handling_added_into_helper_to_closed_def
  handling_added_into_helper_to_adding_into_ot_def handling_close_while_adding_into_ot_def
  handling_internal_err_while_adding_into_ot_def handling_internal_err_while_adding_into_it_def
  handling_close_while_adding_into_it_def handling_added_into_ot_to_adding_into_it_def
  handling_adding_into_it_to_opened_def handling_internal_err_while_opened_def
  handling_close_while_opened_def handling_deling_from_it_to_deling_from_ot_def
  handling_deling_from_ot_to_closed_def

lemma rup_cur_simps [simp]:
  "rup_cur (t, q) = ep_state t"
  "rup_set_cur s (t, q) = (t\<lparr>ep_state := s\<rparr>, q)"
  "rup_cur (rup_set_cur s o1) = s"
  by (simp_all add: rup_cur_def rup_set_cur_def)

lemma rup_call_simps [simp]:
  "ep_calls (rup_call c t) = ep_calls t @ [c]"
  "ep_id (rup_call c t) = ep_id t"
  "ep_state (rup_call c t) = ep_state t"
  "m_pSock (rup_call c t) = m_pSock t"
  "m_i32SMPendingEvt (rup_call c t) = m_i32SMPendingEvt t"
  by (simp_all add: rup_call_def)

lemma close_sock_Some [simp]:
  "m_pSock t = Some k \<Longrightarrow> close_sock t = Inr (t\<lparr>m_pSock := Some (snd (rup_close k))\<rparr>)"
  by (simp add: close_sock_def)

text \<open>Every handler in its own state, on a good endpoint and a proper event.\<close>

lemma rup_handlers_run:
  assumes "(ep_state t, e, n, Some h) \<in> set rup_regs" and "rup_inv (t, q)" and "rup_ok (t, q) e v"
  shows "case h (ep_state t) e n v (t, q) of
      Inl f \<Rightarrow> False
    | Inr (code, t', q') \<Rightarrow>
        if code < 0 then ep_state t' \<in> rup_states \<and> rup_inv (t', q') else rup_inv (t'\<lparr>ep_state := n\<rparr>, q')"
  using assms unfolding rup_regs_def
  apply (simp only: list.set insert_iff empty_iff prod.inject option.inject simp_thms)
  apply (elim disjE conjE)
              apply (auto simp: rup_handler_defs rup_inv_def rup_ok_def rup_regs_of_def rup_states_def pool_add_def
      pool_del_def Let_def set_remove1_eq)
  done

text \<open>What an event leaves alone: the number, and the rest of the queue.\<close>

definition rup_frame :: "rup_obj \<Rightarrow> rup_obj \<Rightarrow> bool" where
  "rup_frame o1 o2 \<longleftrightarrow> ep_id (fst o2) = ep_id (fst o1) \<and>
     set (snd o2) - {ep_id (fst o1)} = set (snd o1) - {ep_id (fst o1)}"

text \<open>An endpoint that waits is in the queue.\<close>

definition rup_waits :: "rup_obj \<Rightarrow> bool" where
  "rup_waits o1 \<longleftrightarrow> (rup_cur o1 = ES_ADDED_INTO_HELPER \<longrightarrow> ep_id (fst o1) \<in> set (snd o1))"

lemma rup_handlers_frame:
  assumes "(ep_state t, e, n, Some h) \<in> set rup_regs" and "h (ep_state t) e n v (t, q) = Inr (code, t', q')"
    and "rup_waits (t, q)" and "distinct q" and "0 \<le> engine_ret v"
  shows "rup_frame (t, q) (t', q') \<and>
    (if code < 0 then rup_waits (t', q') else rup_waits (t'\<lparr>ep_state := n\<rparr>, q'))"
  using assms unfolding rup_regs_def
  apply (simp only: list.set insert_iff empty_iff prod.inject option.inject simp_thms)
  apply (elim disjE conjE)
              apply (auto simp: rup_handler_defs rup_frame_def rup_waits_def pool_add_def pool_del_def Let_def
      bindr_Inr_iff close_sock_def split: if_splits)
  done

interpretation rup: state_machine rup_cur rup_set_cur rup_regs rup_states rup_ok rup_inv
proof
  show "rup_cur (rup_set_cur s t) = s" for s t
    by simp
  show "distinct (reg_keys rup_regs)"
    by (rule rup_keys)
  show "n \<in> rup_states" if "(s, e, n, fn) \<in> set rup_regs" for s e n fn
    using that by (auto simp: rup_regs_def rup_states_def)
  show "case h (rup_cur t) e n v t of
      Inl f \<Rightarrow> False
    | Inr (code, t') \<Rightarrow> if code < 0 then rup_cur t' \<in> rup_states \<and> rup_inv t' else rup_inv (rup_set_cur n t')"
    if "(rup_cur t, e, n, Some h) \<in> set rup_regs" "rup_inv t" "rup_ok t e v" for t e n h v
    using rup_handlers_run [of "fst t" e n h "snd t" v] that by (cases t) (auto split: sum.splits)
  show "rup_inv (rup_set_cur n t)" if "(rup_cur t, e, n, None) \<in> set rup_regs" "rup_inv t" for t e n
    using that by (simp add: rup_regs_def)
qed

section \<open>Running the machine\<close>

lemma rup_post_table:
  "rup_post e v o1 =
     (case reg_find rup_regs (rup_cur o1) e of
        None \<Rightarrow> Inr (-1, o1)
      | Some (n, None) \<Rightarrow> Inr (0, rup_set_cur n o1)
      | Some (n, Some h) \<Rightarrow>
          bindr (h (rup_cur o1) e n v o1) (\<lambda>(code, o1).
          if code < 0 then Inr (-2, o1) else Inr (0, rup_set_cur n o1)))"
  unfolding rup_post_def by (rule post_evt_table [OF rup_keys])

text \<open>A proper event never ends the process and keeps the invariant.\<close>

lemma rup_post_runs:
  assumes "rup_inv o1" and "rup_cur o1 \<in> rup_states" and "rup_ok o1 e v"
  shows "\<exists>code o2. rup_post e v o1 = Inr (code, o2) \<and> rup_inv o2 \<and> rup_cur o2 \<in> rup_states"
  unfolding rup_post_def by (rule rup.post_evt_runs [OF assms])

lemma rup_post_frame:
  assumes "rup_post e v o1 = Inr (code, o2)" and "rup_waits o1" and "distinct (snd o1)" and "0 \<le> engine_ret v"
  shows "rup_frame o1 o2 \<and> rup_waits o2"
  using rup_keys assms(1) unfolding rup_post_def
proof (cases rule: post_evt_cases)
  case none
  then show ?thesis
    using assms by (simp add: rup_frame_def)
next
  case (silent n)
  then show ?thesis
    by (auto simp: rup_regs_def)
next
  case (refused n h c)
  then show ?thesis
    using rup_handlers_frame [of "fst o1" e n h v "snd o1" c "fst o2" "snd o2"] assms(2-4)
    by (auto simp: rup_cur_def)
next
  case (moved n h c o3)
  then show ?thesis
    using rup_handlers_frame [of "fst o1" e n h v "snd o1" c "fst o3" "snd o3"] assms(2-4)
    by (auto simp: rup_cur_def rup_set_cur_def rup_frame_def)
qed

lemmas rup_step_simps = rup_post_table rup_post_void_def reg_find_Cons reg_find_Nil rup_regs_def rup_handler_defs
  pool_add_def pool_del_def rup_ep_open_def rup_ep_close_def handle_connected_def handle_added_into_io_task_def
  handle_deled_from_io_task_def handle_io_error_def

lemma new_rup_endpoint_good:
  "i \<notin> set q \<Longrightarrow> distinct q \<Longrightarrow>
   rup_inv (new_rup_endpoint i acc, q) \<and> rup_cur (new_rup_endpoint i acc, q) \<in> rup_states"
  by (simp add: new_rup_endpoint_def rup_inv_def rup_regs_of_def rup_states_def)

lemma hb_mem_package:
  assumes "16 \<le> length raw" and "length raw < 2 ^ 32"
  shows "\<exists>b. hb_mem raw = Inr b \<and> mem_wf b \<and> pkg_bytes (PKG_OPCODE CPkgHB) 0 [] (mem_data b)"
proof -
  have good: "sized_body CPkgHB []"
    by (simp add: sized_body_def CPkgHB_def)
  obtain p0 a0 where a0: "get_hdr CPkgHB raw PKG_VER (new_archive 0 (-1)) = Inr (p0, a0)"
    "packed CPkgHB (length raw) [] [] a0" "\<not> m_bPending a0" "ar_ui32InitOffset a0 = 0"
    using get_hdr_packed [of raw 0 CPkgHB "-1"] assms by auto
  obtain p a1 a2 where a1: "get_next_body CPkgHB raw a0 = Inr (Some p, a1)" "write_body p [] a1 = Inr a2"
    "packed CPkgHB (length raw) [] [[]] a2"
    using next_body_packed [OF a0(2,3) _ good, of raw] a0(4) assms(1) by (auto simp: CPkgHB_def)
  have "a2 = a1"
    using a1(2) by (auto simp: write_body_def bindr_Inr_iff write_at_def deref_def split: option.splits if_splits)
  moreover have "get_next_body CPkgHB raw (new_archive 0 (-1)) = get_next_body CPkgHB raw a0"
    using a0(1,2) by (auto simp: get_next_body_def packed_def new_archive_def)
  moreover obtain b a3 where "serialize CPkgHB a2 = Inr (b, a3)" "mem_wf b"
    "pkg_bytes (PKG_OPCODE CPkgHB) 0 [] (mem_data b)"
    using serialize_package [OF a1(3)] good by auto
  ultimately show ?thesis
    using a1(1) by (simp add: hb_mem_def)
qed

text \<open>The socket \<open>p\<close> is what a heartbeat package given to \<open>k\<close> makes of it.\<close>

definition hb_given :: "bool \<Rightarrow> nat os_ret \<Rightarrow> CRupSock \<Rightarrow> CRupSock option \<Rightarrow> bool" where
  "hb_given locked ans k p \<longleftrightarrow>
     (\<exists>b code k'. pkg_bytes (PKG_OPCODE CPkgHB) 0 [] (mem_data b) \<and>
        rup_send_mem 1 locked ans b k = Inr (code, k') \<and> p = Some k')"

text \<open>The heartbeat can always be sent or cached.\<close>

lemma rup_send_mem_total:
  assumes "rup_wf s" and "mem_wf b" and "mem_data b \<noteq> []" and "ans \<noteq> Os_ok 0"
  shows "\<exists>code s'. rup_send_mem 1 locked ans b s = Inr (code, s')"
proof -
  have "get_len b > 0"
    using length_mem_data [OF assms(2)] assms(3)
    by (simp add: get_len_def word_less_nat_alt flip: length_greater_0_conv)
  moreover obtain q where "cache_block b (m_qSendCache s) = Inr q"
    using cache_block_data [of "m_qSendCache s" b] assms by (auto simp: rup_wf_def)
  ultimately show ?thesis
    using assms(4) by (auto simp: rup_send_mem_def rup_send_begin_def rup_send_end_def Let_def split: os_ret.splits)
qed

lemma send_hb_runs:
  assumes "m_pSock t = Some k" and "rup_wf k" and "ans \<noteq> Os_ok 0" and "16 \<le> length raw" and "length raw < 2 ^ 32"
  shows "\<exists>t'. send_hb raw locked ans t = Inr t' \<and> m_pSock t' \<noteq> None \<and>
    t' = t\<lparr>m_pSock := m_pSock t', m_ui64SendStore := m_ui64SendCnt t\<rparr> \<and>
    (if m_ui64SendCnt t = m_ui64SendStore t then hb_given locked ans k (m_pSock t')
     else m_pSock t' = Some k)"
proof (cases "m_ui64SendCnt t = m_ui64SendStore t")
  case True
  obtain b where b: "hb_mem raw = Inr b" "mem_wf b" "pkg_bytes (PKG_OPCODE CPkgHB) 0 [] (mem_data b)"
    using hb_mem_package [OF assms(4,5)] by blast
  then have "mem_data b \<noteq> []"
    by (auto simp: pkg_bytes_def)
  then obtain code k' where "rup_send_mem 1 locked ans b k = Inr (code, k')"
    using rup_send_mem_total [OF assms(2) b(2) _ assms(3)] by blast
  then show ?thesis
    using True b assms(1) by (auto simp: send_hb_def hb_given_def)
next
  case False
  then show ?thesis
    using assms(1) by (simp add: send_hb_def)
qed

section \<open>Properties\<close>



text \<open>The whole life of an endpoint. A closed endpoint that is opened, taken off the queue
  and given a socket, told that it was added to the output and to the input task, then closed
  and told that it was deleted from both, is closed again without a socket; the engine saw one
  addition and one deletion of each type, the application \<open>on_opened\<close> once and \<open>on_closed\<close>
  once, in this order, and the endpoint can be opened again.\<close>

theorem rup_endpoint_cycle:
  assumes "rup_inv (t, q)" and "ep_state t = ES_CLOSED"
  shows "\<exists>t1 t2 t3 t4 t5 t6 t7.
    rup_ep_open (t, q) = Inr (0, (t1, q @ [ep_id t])) \<and>
    handle_connected k 0 (t1, q) = Inr (0, (t2, q)) \<and>
    handle_added_into_io_task EIT_OUTPUT_TYPE 0 0 0 (t2, q) = Inr (t3, q) \<and>
    handle_added_into_io_task EIT_INPUT_TYPE 0 0 0 (t3, q) = Inr (t4, q) \<and>
    rup_ep_is_opened (t4, q) \<and> get_ioobj_handle (t4, q) = Inr (m_hSock k) \<and>
    rup_ep_close 0 (t4, q) = Inr (0, (t5, q)) \<and>
    handle_deled_from_io_task EIT_INPUT_TYPE 0 (t5, q) = Inr (t6, q) \<and>
    handle_deled_from_io_task EIT_OUTPUT_TYPE 0 (t6, q) = Inr (t7, q) \<and>
    ep_state t7 = ES_CLOSED \<and> m_pSock t7 = None \<and> rup_inv (t7, q) \<and>
    ep_calls t7 = ep_calls t @ [Engine_add EIT_OUTPUT_TYPE, Engine_add EIT_INPUT_TYPE, On_opened,
      Engine_del EIT_INPUT_TYPE, Engine_del EIT_OUTPUT_TYPE, On_closed]"
proof -
  have sock: "m_pSock t = None"
    using assms by (simp add: rup_inv_def)
  show ?thesis
    using assms sock
    by (simp add: rup_step_simps rup_ep_is_opened_def get_ioobj_handle_def)
      (simp add: rup_inv_def rup_regs_of_def registered_def)
qed

theorem rup_endpoint_cycle_witness:
  "\<exists>t1 t2. rup_ep_open (new_rup_endpoint 0 False, []) = Inr (0, (t1, [0])) \<and>
     handle_connected new_rup_sock 0 (t1, []) = Inr (0, (t2, []))"
proof -
  have "rup_inv (new_rup_endpoint 0 False, [])" "ep_state (new_rup_endpoint 0 False) = ES_CLOSED"
    "ep_id (new_rup_endpoint 0 False) = 0"
    using new_rup_endpoint_good [of 0 "[]" False] by (simp_all add: new_rup_endpoint_def)
  then show ?thesis
    using rup_endpoint_cycle [of "new_rup_endpoint 0 False" "[]" new_rup_sock] by auto
qed

text \<open>An error while the endpoint is being added to its output task is not handled. It may
  come as an I/O error or as the refusal of the registration; either way the endpoint is
  \<open>ES_CLOSED\<close> at once, but it keeps its socket, which is not closed, it was not deleted from the
  task, and \<open>on_closed\<close> is not called. It can be opened again; being given a new
  connection or being closed then ends the process by the assertion that it has no socket.\<close>

theorem rup_error_while_adding:
  assumes "rup_inv (t, q)" and "ep_state t = ES_ADDING_INTO_OT" and "i32RetCode < 0"
  shows "\<exists>t1 t2. handle_io_error r (t, q) = Inr (t1, q) \<and>
    handle_added_into_io_task EIT_OUTPUT_TYPE i32RetCode r r2 (t, q) = Inr (t1, q) \<and>
    ep_state t1 = ES_CLOSED \<and> m_pSock t1 = m_pSock t \<and> m_pSock t1 \<noteq> None \<and>
    registered EIT_OUTPUT_TYPE (ep_calls t1) = 1 \<and> ep_calls t1 = ep_calls t \<and>
    rup_ep_open (t1, q) = Inr (0, (t2, q @ [ep_id t])) \<and>
    handle_connected k r3 (t2, q) = Inl Assert_failed \<and>
    rup_ep_close r3 (t2, q @ [ep_id t]) = Inl Assert_failed"
proof -
  obtain k' where sock: "m_pSock t = Some k'"
    using assms by (auto simp: rup_inv_def)
  have "registered EIT_OUTPUT_TYPE (ep_calls t) = 1"
    using assms by (simp add: rup_inv_def rup_regs_of_def)
  then show ?thesis
    using assms sock by (simp add: rup_step_simps)
qed

definition connecting_endpoint :: CRupEndpoint where
  "connecting_endpoint = (new_rup_endpoint 0 True)
     \<lparr>ep_state := ES_ADDING_INTO_OT, m_pSock := Some new_rup_sock, ep_calls := [Engine_add EIT_OUTPUT_TYPE]\<rparr>"

lemma connecting_endpoint_good: "rup_inv (connecting_endpoint, [])"
  by (simp add: connecting_endpoint_def new_rup_endpoint_def rup_inv_def rup_regs_of_def registered_def)

theorem rup_error_while_adding_witness:
  "\<exists>t1. handle_io_error 0 (connecting_endpoint, []) = Inr (t1, []) \<and> ep_state t1 = ES_CLOSED \<and>
     m_pSock t1 \<noteq> None"
  using rup_error_while_adding [OF connecting_endpoint_good, of "-1" 0 0 new_rup_sock 0]
  by (auto simp: connecting_endpoint_def)

text \<open>Closing an endpoint, or an I/O error, while it is being added to its input task leaks
  that registration: when the addition is reported the endpoint is deleted from the output task
  only, and it ends in \<open>ES_CLOSED\<close> without a socket but still registered for input.\<close>

theorem rup_close_while_adding_leaks:
  assumes "rup_inv (t, q)" and "ep_state t = ES_ADDING_INTO_IT" and "e = EE_CLOSE \<or> e = EE_INTERNAL_ERR"
  shows "\<exists>t1 t2 t3. rup_post e (arg_ret r) (t, q) = Inr (0, (t1, q)) \<and>
    handle_added_into_io_task EIT_INPUT_TYPE 0 r2 r2 (t1, q) = Inr (t2, q) \<and>
    ep_state t2 = ES_DELING_FROM_OT \<and>
    handle_deled_from_io_task EIT_OUTPUT_TYPE r3 (t2, q) = Inr (t3, q) \<and>
    ep_state t3 = ES_CLOSED \<and> m_pSock t3 = None \<and>
    ep_calls t3 = ep_calls t @ [Engine_del EIT_OUTPUT_TYPE, On_closed] \<and>
    registered EIT_INPUT_TYPE (ep_calls t3) = 1"
proof -
  obtain k' where sock: "m_pSock t = Some k'"
    using assms by (auto simp: rup_inv_def)
  have "registered EIT_INPUT_TYPE (ep_calls t) = 1"
    using assms by (simp add: rup_inv_def rup_regs_of_def)
  then show ?thesis
    using assms sock by (auto simp: rup_step_simps registered_def)
qed

theorem rup_close_while_adding_leaks_witness:
  "\<exists>t t1 t2 t3. rup_post EE_CLOSE (arg_ret 0) (t, []) = Inr (0, (t1, [])) \<and>
     handle_added_into_io_task EIT_INPUT_TYPE 0 0 0 (t1, []) = Inr (t2, []) \<and>
     handle_deled_from_io_task EIT_OUTPUT_TYPE 0 (t2, []) = Inr (t3, []) \<and>
     ep_state t3 = ES_CLOSED \<and> registered EIT_INPUT_TYPE (ep_calls t3) = 1"
proof -
  obtain t where t: "handle_added_into_io_task EIT_OUTPUT_TYPE 0 0 0 (connecting_endpoint, []) = Inr (t, [])"
    "ep_state t = ES_ADDING_INTO_IT" "rup_inv (t, [])"
    by (simp add: rup_step_simps connecting_endpoint_def new_rup_endpoint_def rup_inv_def rup_regs_of_def
        registered_def)
  then show ?thesis
    using rup_close_while_adding_leaks [OF t(3,2), of EE_CLOSE 0 0 0] by fastforce
qed

text \<open>Keep alive. On an opened endpoint whose pending data can be sent, \<open>handle_output_evt\<close>
  only counts until ten million calls were made; then it counts from zero again. If nothing was
  given to it to send since the last time it sends a heartbeat package (or caches it behind the data that
  waits), and the endpoint stays open unless nothing was received in this and in the
  previous period: then, and only then, it closes its socket and leaves its input task.\<close>

theorem rup_keep_alive:
  assumes "rup_inv (t, q)" and "ep_state t = ES_OPENED" and "m_pSock t = Some k" and "rup_wf k"
    and "rup_handle_can_send answers k = Inr (c, k1)" and "c \<noteq> CMNERR_IO_ERR" and "0 \<le> r"
    and "ans \<noteq> Os_ok 0" and "16 \<le> length raw" and "length raw < 2 ^ 32"
  shows "\<exists>t'. handle_output_evt answers raw locked ans r (t, q) = Inr (t', q) \<and>
    (if m_ui32CycleCnt t + 1 \<le> MAX_CYCLE_CNT
     then t' = t\<lparr>m_pSock := Some k1, m_ui32CycleCnt := m_ui32CycleCnt t + 1\<rparr>
     else m_ui32CycleCnt t' = 0 \<and> m_ui64SendStore t' = m_ui64SendCnt t \<and>
       (if m_ui64RecvCnt t = m_ui64RecvStore t \<and> m_bWillClose t
        then ep_state t' = ES_DELING_FROM_IT \<and> ep_calls t' = ep_calls t @ [Engine_del EIT_INPUT_TYPE] \<and>
          (\<exists>k'. m_pSock t' = Some k' \<and> \<not> rup_is_opened k')
        else ep_state t' = ES_OPENED \<and> ep_calls t' = ep_calls t \<and>
          m_bWillClose t' = (m_ui64RecvCnt t = m_ui64RecvStore t) \<and> m_ui64RecvStore t' = m_ui64RecvCnt t \<and>
          (if m_ui64SendCnt t = m_ui64SendStore t then hb_given locked ans k1 (m_pSock t')
           else m_pSock t' = Some k1)))"
proof -
  have wf: "rup_wf k1"
    using can_send_loop_conserves [of answers CMNERR_SUC "swap_if_empty k" c k1] assms(4,5)
    by (simp add: rup_handle_can_send_def)
  let ?t = "t\<lparr>m_pSock := Some k1, m_ui32CycleCnt := 0\<rparr>"
  obtain t1 where hb: "send_hb raw locked ans ?t = Inr t1" "m_pSock t1 \<noteq> None"
    "t1 = ?t\<lparr>m_pSock := m_pSock t1, m_ui64SendStore := m_ui64SendCnt ?t\<rparr>"
    "if m_ui64SendCnt ?t = m_ui64SendStore ?t then hb_given locked ans k1 (m_pSock t1)
     else m_pSock t1 = Some k1"
    using send_hb_runs [of ?t k1 ans raw locked] wf assms(8-10) by auto
  obtain k' where k': "m_pSock t1 = Some k'"
    using hb(2) by blast
  have fields: "ep_state t1 = ES_OPENED" "ep_calls t1 = ep_calls t" "m_ui64RecvCnt t1 = m_ui64RecvCnt t"
    "m_ui64RecvStore t1 = m_ui64RecvStore t" "m_bWillClose t1 = m_bWillClose t" "m_ui32CycleCnt t1 = 0"
    "m_ui64SendStore t1 = m_ui64SendCnt t"
    by (subst hb(3), simp add: assms(2))+
  have step: "handle_output_evt answers raw locked ans r (t, q) =
    (if m_ui32CycleCnt t + 1 > MAX_CYCLE_CNT then check_peer r (t1, q)
     else Inr (t\<lparr>m_pSock := Some k1, m_ui32CycleCnt := m_ui32CycleCnt t + 1\<rparr>, q))"
    using assms(2,3,5,6) hb(1) by (simp add: handle_output_evt_def keep_alive_def)
  have closed: "check_peer r (t1, q) = Inr ((rup_call (Engine_del EIT_INPUT_TYPE)
      (t1\<lparr>m_pSock := Some (snd (rup_close k'))\<rparr>))\<lparr>ep_state := ES_DELING_FROM_IT\<rparr>, q)"
    if "m_ui64RecvCnt t = m_ui64RecvStore t" "m_bWillClose t"
    using that fields k' assms(7) by (simp add: check_peer_def rup_step_simps)
  have "\<not> rup_is_opened (snd (rup_close k'))"
    by (simp add: rup_is_opened_def rup_close_def)
  note not_opened = this
  have kept: "check_peer r (t1, q) = Inr (t1\<lparr>m_bWillClose := (m_ui64RecvCnt t = m_ui64RecvStore t),
      m_ui64RecvStore := m_ui64RecvCnt t\<rparr>, q)"
    if "\<not> (m_ui64RecvCnt t = m_ui64RecvStore t \<and> m_bWillClose t)"
    using that fields by (cases "m_ui64RecvCnt t = m_ui64RecvStore t") (simp_all add: check_peer_def)
  have given: "if m_ui64SendCnt t = m_ui64SendStore t then hb_given locked ans k1 (m_pSock t1) else m_pSock t1 = Some k1"
    using hb(4) by simp
  show ?thesis
  proof (cases "m_ui32CycleCnt t + 1 \<le> MAX_CYCLE_CNT")
    case True
    then have "\<not> m_ui32CycleCnt t + 1 > MAX_CYCLE_CNT"
      by (simp only: not_less)
    then show ?thesis
      using step True by (simp only: if_True if_False) blast
  next
    case False
    then have out: "handle_output_evt answers raw locked ans r (t, q) = check_peer r (t1, q)"
      using step by (simp only: not_le if_True)
    show ?thesis
    proof (cases "m_ui64RecvCnt t = m_ui64RecvStore t \<and> m_bWillClose t")
      case True
      then show ?thesis
        unfolding out using closed False fields not_opened by (simp add: rup_call_def)
    next
      case idle: False
      show ?thesis
        unfolding out kept [OF idle] using idle False fields given by (simp only: if_False) simp
    qed
  qed
qed

definition silent_endpoint :: CRupEndpoint where
  "silent_endpoint = (new_rup_endpoint 0 True)
     \<lparr>ep_state := ES_OPENED, m_pSock := Some new_rup_sock, m_ui32CycleCnt := MAX_CYCLE_CNT, m_bWillClose := True,
      ep_calls := [Engine_add EIT_OUTPUT_TYPE, Engine_add EIT_INPUT_TYPE, On_opened]\<rparr>"

theorem rup_keep_alive_witness:
  "\<exists>t'. handle_output_evt [] (replicate 32 0) True (Os_ok 16) 0 (silent_endpoint, []) = Inr (t', []) \<and>
     ep_state t' = ES_DELING_FROM_IT"
proof -
  have "rup_inv (silent_endpoint, [])"
    by (simp add: silent_endpoint_def new_rup_endpoint_def rup_inv_def rup_regs_of_def registered_def)
  moreover have "rup_handle_can_send [] new_rup_sock = Inr (CMNERR_SUC, new_rup_sock)" "rup_wf new_rup_sock"
    by (simp_all add: rup_handle_can_send_def swap_if_empty_def new_rup_sock_def rup_wf_def)
  ultimately show ?thesis
    using rup_keep_alive [of silent_endpoint "[]" new_rup_sock "[]" CMNERR_SUC new_rup_sock 0 "Os_ok 16"
        "replicate 32 0" True]
    by (auto simp: silent_endpoint_def new_rup_endpoint_def)
qed

end
