(* ===== verification/RupAcceptor.thy ===== *)
theory RupAcceptor
  imports RupEndpoint
begin

text \<open>
  \<open>CRupAcceptor\<close> of \<open>libsmart_net/src/smart_net/sn_endpoint_impl.cpp\<close>: it listens on a socket
  that it registers for input, and gives every accepted connection to the first endpoint of its
  queue that takes it. The theory first models the acceptor alone, then the acceptor together
  with its endpoints.
\<close>

section \<open>State\<close>

definition ES_OPENED :: int where [simp]: "ES_OPENED = 0"
definition ES_CLOSED :: int where [simp]: "ES_CLOSED = 1"
definition ES_ADDING_INTO_IT :: int where [simp]: "ES_ADDING_INTO_IT = 2"
definition ES_DELING_FROM_IT :: int where [simp]: "ES_DELING_FROM_IT = 3"

text \<open>\<open>EE_NONE\<close> and \<open>EE_OPEN\<close> are the same number.\<close>

definition EE_NONE :: int where [simp]: "EE_NONE = 0"
definition EE_OPEN :: int where [simp]: "EE_OPEN = 0"
definition EE_CLOSE :: int where [simp]: "EE_CLOSE = 1"
definition EE_ADDED_INTO_IT :: int where [simp]: "EE_ADDED_INTO_IT = 2"
definition EE_DELED_FROM_IT :: int where [simp]: "EE_DELED_FROM_IT = 3"
definition EE_INTERNAL_ERR :: int where [simp]: "EE_INTERNAL_ERR = 4"

record CRupAcceptor =
  acc_state :: int
  m_pTcpSockListener :: "CRupSock option"
  acc_pending :: int
  m_dqIdleEndpoints :: "nat list"
  acc_calls :: "ep_call list"

text \<open>What the kernel answers to \<open>socket\<close>, \<open>bind\<close> and \<open>listen\<close>, and what the engine answers.\<close>

record acc_arg =
  socket_ans :: "int os_ret"
  bind_ans :: "int os_ret"
  listen_ans :: "int os_ret"
  acc_ret :: int

type_synonym acc_handler = "(CRupAcceptor, acc_arg) transform"

text \<open>The constructor leaves the pending event uninitialised.\<close>

definition new_acceptor :: "int \<Rightarrow> CRupAcceptor" where
  "new_acceptor raw =
     \<lparr>acc_state = ES_CLOSED, m_pTcpSockListener = None, acc_pending = raw, m_dqIdleEndpoints = [], acc_calls = []\<rparr>"

definition acc_set_cur :: "int \<Rightarrow> CRupAcceptor \<Rightarrow> CRupAcceptor" where
  "acc_set_cur s a = a\<lparr>acc_state := s\<rparr>"

definition acc_call :: "ep_call \<Rightarrow> CRupAcceptor \<Rightarrow> CRupAcceptor" where
  "acc_call c a = a\<lparr>acc_calls := acc_calls a @ [c]\<rparr>"

definition close_listener :: "CRupAcceptor \<Rightarrow> CRupAcceptor res" where
  "close_listener a =
     bindr (deref (m_pTcpSockListener a)) (\<lambda>k. Inr (a\<lparr>m_pTcpSockListener := Some (snd (rup_close k))\<rparr>))"

definition assert_listening :: "CRupAcceptor \<Rightarrow> unit res" where
  "assert_listening a = bindr (deref (m_pTcpSockListener a)) (\<lambda>k. cmn_assert (rup_is_opened k))"

section \<open>The functions of the machine\<close>

definition handling_closed_to_adding_into_it :: acc_handler where
  "handling_closed_to_adding_into_it i32CurState i32Evt i32NextState pVoid a =
     (let a = a\<lparr>acc_pending := EE_NONE\<rparr> in
      bindr (cmn_assert (m_pTcpSockListener a = None)) (\<lambda>_.
      let (code, k) = rup_open INVALID_SOCKET (socket_ans pVoid) new_rup_sock;
          a = a\<lparr>m_pTcpSockListener := Some k\<rparr> in
      if code < 0 then Inr (CMNERR_COMMON_ERR, a)
      else bindr (rup_bind (bind_ans pVoid) k) (\<lambda>code.
        if code < 0 then Inr (CMNERR_COMMON_ERR, a)
        else if rup_listen (listen_ans pVoid) k < 0 then Inr (CMNERR_COMMON_ERR, a)
        else Inr (acc_ret pVoid, acc_call (Engine_add EIT_INPUT_TYPE) a))))"

definition handling_close_while_adding_into_it :: acc_handler where
  "handling_close_while_adding_into_it i32CurState i32Evt i32NextState pVoid a =
     Inr (CMNERR_SUC, a\<lparr>acc_pending := EE_CLOSE\<rparr>)"

definition handling_internal_err_while_adding_into_it :: acc_handler where
  "handling_internal_err_while_adding_into_it i32CurState i32Evt i32NextState pVoid a =
     Inr (CMNERR_SUC, a\<lparr>acc_pending := EE_INTERNAL_ERR\<rparr>)"

definition handling_close_while_opened :: acc_handler where
  "handling_close_while_opened i32CurState i32Evt i32NextState pVoid a =
     bindr (assert_listening a) (\<lambda>_.
     bindr (close_listener a) (\<lambda>a. Inr (acc_ret pVoid, acc_call (Engine_del EIT_INPUT_TYPE) a)))"

definition handling_internal_err_while_opened :: acc_handler where
  "handling_internal_err_while_opened i32CurState i32Evt i32NextState pVoid a =
     bindr (assert_listening a) (\<lambda>_.
     bindr (close_listener a) (\<lambda>a. Inr (acc_ret pVoid, acc_call (Engine_del EIT_INPUT_TYPE) a)))"

definition handling_deling_from_it_to_closed :: acc_handler where
  "handling_deling_from_it_to_closed i32CurState i32Evt i32NextState pVoid a =
     Inr (CMNERR_SUC, acc_call On_closed a)"

definition handling_adding_into_it_to_opened :: acc_handler where
  "handling_adding_into_it_to_opened i32CurState i32Evt i32NextState pVoid a =
     (if acc_pending a \<noteq> EE_NONE
      then bindr (close_listener a) (\<lambda>a.
           Inr (CMNERR_COMMON_ERR, acc_set_cur ES_DELING_FROM_IT (acc_call (Engine_del EIT_INPUT_TYPE) a)))
      else bindr (assert_listening a) (\<lambda>_. Inr (CMNERR_SUC, acc_call On_opened a)))"

definition acc_regs :: "(CRupAcceptor, acc_arg) registration list" where
  "acc_regs =
    [(ES_CLOSED, EE_OPEN, ES_ADDING_INTO_IT, Some handling_closed_to_adding_into_it),
     (ES_ADDING_INTO_IT, EE_CLOSE, ES_ADDING_INTO_IT, Some handling_close_while_adding_into_it),
     (ES_ADDING_INTO_IT, EE_INTERNAL_ERR, ES_ADDING_INTO_IT, Some handling_internal_err_while_adding_into_it),
     (ES_ADDING_INTO_IT, EE_ADDED_INTO_IT, ES_OPENED, Some handling_adding_into_it_to_opened),
     (ES_OPENED, EE_CLOSE, ES_DELING_FROM_IT, Some handling_close_while_opened),
     (ES_OPENED, EE_INTERNAL_ERR, ES_DELING_FROM_IT, Some handling_internal_err_while_opened),
     (ES_DELING_FROM_IT, EE_DELED_FROM_IT, ES_CLOSED, Some handling_deling_from_it_to_closed)]"

lemma acc_keys: "distinct (reg_keys acc_regs)"
  by (simp add: acc_regs_def)

definition acc_post :: "int \<Rightarrow> acc_arg \<Rightarrow> CRupAcceptor \<Rightarrow> (int \<times> CRupAcceptor) res" where
  "acc_post = post_evt acc_state acc_set_cur (table_of acc_regs)"

definition acc_ans :: "int \<Rightarrow> acc_arg" where
  "acc_ans r = \<lparr>socket_ans = Os_fail EOTHER, bind_ans = Os_fail EOTHER, listen_ans = Os_fail EOTHER, acc_ret = r\<rparr>"

definition acc_post_void :: "int \<Rightarrow> int \<Rightarrow> CRupAcceptor \<Rightarrow> CRupAcceptor res" where
  "acc_post_void e r a = bindr (acc_post e (acc_ans r) a) (\<lambda>(code, a). Inr a)"

section \<open>What others call\<close>

definition acc_open :: "acc_arg \<Rightarrow> CRupAcceptor \<Rightarrow> (int \<times> CRupAcceptor) res" where
  "acc_open v a = acc_post EE_OPEN v a"

definition acc_close :: "int \<Rightarrow> CRupAcceptor \<Rightarrow> (int \<times> CRupAcceptor) res" where
  "acc_close r a = acc_post EE_CLOSE (acc_ans r) a"

definition acc_is_opened :: "CRupAcceptor \<Rightarrow> bool" where
  "acc_is_opened a \<longleftrightarrow> acc_state a = ES_OPENED"

definition acc_add_endpoint :: "nat \<Rightarrow> CRupAcceptor \<Rightarrow> int \<times> CRupAcceptor" where
  "acc_add_endpoint e a = (let (code, q) = pool_add e (m_dqIdleEndpoints a) in (code, a\<lparr>m_dqIdleEndpoints := q\<rparr>))"

definition acc_del_endpoint :: "nat \<Rightarrow> CRupAcceptor \<Rightarrow> (int \<times> CRupAcceptor) res" where
  "acc_del_endpoint e a =
     bindr (pool_del e (m_dqIdleEndpoints a)) (\<lambda>(code, q). Inr (code, a\<lparr>m_dqIdleEndpoints := q\<rparr>))"

definition acc_get_ioobj_handle :: "CRupAcceptor \<Rightarrow> int res" where
  "acc_get_ioobj_handle a = bindr (deref (m_pTcpSockListener a)) (\<lambda>k. Inr (m_hSock k))"

text \<open>The trace messages read the descriptor of the listening socket.\<close>

definition acc_handle_added :: "int \<Rightarrow> int \<Rightarrow> CRupAcceptor \<Rightarrow> CRupAcceptor res" where
  "acc_handle_added i32IoType i32RetCode a =
     bindr (cmn_assert (i32IoType = EIT_INPUT_TYPE)) (\<lambda>_.
     bindr (acc_get_ioobj_handle a) (\<lambda>h.
     bindr (if i32RetCode < CMNERR_SUC then acc_post_void EE_INTERNAL_ERR 0 a else Inr a) (\<lambda>a.
     acc_post_void EE_ADDED_INTO_IT 0 a)))"

definition acc_handle_deled :: "int \<Rightarrow> CRupAcceptor \<Rightarrow> CRupAcceptor res" where
  "acc_handle_deled i32IoType a =
     bindr (acc_get_ioobj_handle a) (\<lambda>h.
     bindr (cmn_assert (i32IoType = EIT_INPUT_TYPE)) (\<lambda>_.
     bindr (acc_post EE_DELED_FROM_IT (acc_ans 0) a) (\<lambda>(code, a).
     bindr (cmn_assert (code = CMNERR_SUC)) (\<lambda>_. Inr a))))"

definition acc_handle_io_error :: "int \<Rightarrow> CRupAcceptor \<Rightarrow> CRupAcceptor res" where
  "acc_handle_io_error r a =
     bindr (acc_post EE_INTERNAL_ERR (acc_ans r) a) (\<lambda>(code, a).
     bindr (cmn_assert (code = CMNERR_SUC)) (\<lambda>_. Inr a))"

definition acc_handle_output_evt :: "CRupAcceptor \<Rightarrow> CRupAcceptor res" where
  "acc_handle_output_evt a = Inl Assert_failed"

text \<open>
  \<open>handle_connected\<close> of the endpoint with a number, in the world of all endpoints. The
  endpoint was taken off the queue before, and its answer does not depend on the queue. The
  engine answers \<open>r\<close>.
\<close>

definition connect_ep ::
  "CRupSock \<Rightarrow> int \<Rightarrow> nat \<Rightarrow> (nat \<Rightarrow> CRupEndpoint) \<Rightarrow> (int \<times> (nat \<Rightarrow> CRupEndpoint)) res" where
  "connect_ep k r e eps =
     bindr (handle_connected k r (eps e, [])) (\<lambda>(code, t, q). Inr (code, eps(e := t)))"

text \<open>
  Accepting a connection: \<open>ans\<close> is the answer to \<open>accept\<close>. The last component is the new
  socket when nobody took it; it is closed.
\<close>

definition acc_handle_input_evt ::
  "int os_ret \<Rightarrow> int \<Rightarrow> CRupAcceptor \<Rightarrow> (nat \<Rightarrow> CRupEndpoint) \<Rightarrow>
   (CRupAcceptor \<times> (nat \<Rightarrow> CRupEndpoint) \<times> CRupSock option) res" where
  "acc_handle_input_evt ans r a eps =
     bindr (deref (m_pTcpSockListener a)) (\<lambda>l.
     bindr (rup_accept ans l) (\<lambda>pNewSock.
     bindr (hand_over (connect_ep pNewSock r) (m_dqIdleEndpoints a) eps) (\<lambda>(pTcpEp, q, eps).
     Inr (a\<lparr>m_dqIdleEndpoints := q\<rparr>, eps,
          if pTcpEp = None then Some (snd (rup_close pNewSock)) else None))))"

section \<open>The invariant of the acceptor\<close>

definition acc_states :: "int set" where
  "acc_states = {ES_OPENED, ES_CLOSED, ES_ADDING_INTO_IT, ES_DELING_FROM_IT}"

text \<open>The listener is open exactly while the acceptor is in, or on its way into, the input task.\<close>

definition acc_inv :: "CRupAcceptor \<Rightarrow> bool" where
  "acc_inv a \<longleftrightarrow>
     registered EIT_INPUT_TYPE (acc_calls a) =
       (if acc_state a = ES_OPENED \<or> acc_state a = ES_ADDING_INTO_IT then 1 else 0) \<and>
     (acc_state a = ES_OPENED \<or> acc_state a = ES_ADDING_INTO_IT \<longrightarrow>
       (\<exists>k. m_pTcpSockListener a = Some k \<and> rup_is_opened k)) \<and>
     (acc_state a = ES_DELING_FROM_IT \<longrightarrow> (\<exists>k. m_pTcpSockListener a = Some k \<and> \<not> rup_is_opened k))"

text \<open>The engine does not refuse, and the acceptor is opened only once.\<close>

definition acc_ok :: "CRupAcceptor \<Rightarrow> int \<Rightarrow> acc_arg \<Rightarrow> bool" where
  "acc_ok a e v \<longleftrightarrow> 0 \<le> acc_ret v \<and>
     (e = EE_OPEN \<and> acc_state a = ES_CLOSED \<longrightarrow> m_pTcpSockListener a = None)"

lemmas acc_handler_defs =
  handling_closed_to_adding_into_it_def handling_close_while_adding_into_it_def
  handling_internal_err_while_adding_into_it_def handling_close_while_opened_def
  handling_internal_err_while_opened_def handling_deling_from_it_to_closed_def
  handling_adding_into_it_to_opened_def

lemma acc_simps [simp]:
  "acc_state (acc_set_cur s a) = s"
  "acc_calls (acc_set_cur s a) = acc_calls a"
  "m_pTcpSockListener (acc_set_cur s a) = m_pTcpSockListener a"
  "m_dqIdleEndpoints (acc_set_cur s a) = m_dqIdleEndpoints a"
  "acc_calls (acc_call c a) = acc_calls a @ [c]"
  "acc_state (acc_call c a) = acc_state a"
  "m_pTcpSockListener (acc_call c a) = m_pTcpSockListener a"
  "m_dqIdleEndpoints (acc_call c a) = m_dqIdleEndpoints a"
  "acc_pending (acc_call c a) = acc_pending a"
  "acc_pending (acc_set_cur s a) = acc_pending a"
  by (simp_all add: acc_set_cur_def acc_call_def)

lemma acc_ans_simps [simp]: "acc_ret (acc_ans r) = r"
  by (simp add: acc_ans_def)

lemma rup_close_not_opened [simp]: "\<not> rup_is_opened (snd (rup_close k))"
  by (simp add: rup_close_def rup_is_opened_def)

lemma rup_open_new:
  "rup_open (-1) ans new_rup_sock =
     (if os_int ans > -1 then CMNERR_SUC else CMNERR_CREAT_SOCK_FAILED, new_rup_sock\<lparr>m_hSock := os_int ans\<rparr>)"
  by (simp add: rup_open_def rup_is_opened_def new_rup_sock_def)

lemma rup_is_opened_new [simp]: "rup_is_opened (new_rup_sock\<lparr>m_hSock := h\<rparr>) \<longleftrightarrow> h > -1"
  by (simp add: rup_is_opened_def)

lemma acc_handlers_run:
  assumes "(acc_state a, e, n, Some h) \<in> set acc_regs" and "acc_inv a" and "acc_ok a e v"
  shows "case h (acc_state a) e n v a of
      Inl f \<Rightarrow> False
    | Inr (code, a') \<Rightarrow> m_dqIdleEndpoints a' = m_dqIdleEndpoints a \<and>
        (if code < 0 then acc_state a' \<in> acc_states \<and> acc_inv a' else acc_inv (acc_set_cur n a'))"
  using assms unfolding acc_regs_def
  apply (simp only: list.set insert_iff empty_iff prod.inject option.inject simp_thms)
  apply (elim disjE conjE)
        apply (auto simp: acc_handler_defs acc_inv_def acc_ok_def acc_states_def close_listener_def
      assert_listening_def rup_open_new rup_bind_def rup_listen_def Let_def)
  done

interpretation acc: state_machine acc_state acc_set_cur acc_regs acc_states acc_ok acc_inv
proof
  show "acc_state (acc_set_cur s t) = s" for s t
    by simp
  show "distinct (reg_keys acc_regs)"
    by (rule acc_keys)
  show "n \<in> acc_states" if "(s, e, n, fn) \<in> set acc_regs" for s e n fn
    using that by (auto simp: acc_regs_def acc_states_def)
  show "case h (acc_state t) e n v t of
      Inl f \<Rightarrow> False
    | Inr (code, t') \<Rightarrow> if code < 0 then acc_state t' \<in> acc_states \<and> acc_inv t' else acc_inv (acc_set_cur n t')"
    if "(acc_state t, e, n, Some h) \<in> set acc_regs" "acc_inv t" "acc_ok t e v" for t e n h v
    using acc_handlers_run [of t e n h v] that by (auto split: sum.splits)
  show "acc_inv (acc_set_cur n t)" if "(acc_state t, e, n, None) \<in> set acc_regs" "acc_inv t" for t e n
    using that by (simp add: acc_regs_def)
qed

lemma acc_post_table:
  "acc_post e v a =
     (case reg_find acc_regs (acc_state a) e of
        None \<Rightarrow> Inr (-1, a)
      | Some (n, None) \<Rightarrow> Inr (0, acc_set_cur n a)
      | Some (n, Some h) \<Rightarrow>
          bindr (h (acc_state a) e n v a) (\<lambda>(code, a).
          if code < 0 then Inr (-2, a) else Inr (0, acc_set_cur n a)))"
  unfolding acc_post_def by (rule post_evt_table [OF acc_keys])

lemmas acc_step_simps = acc_post_table acc_post_void_def reg_find_Cons reg_find_Nil acc_regs_def acc_handler_defs
  acc_open_def acc_close_def acc_handle_added_def acc_handle_deled_def acc_get_ioobj_handle_def
  close_listener_def assert_listening_def rup_open_new rup_bind_def rup_listen_def

lemma acc_post_runs:
  assumes "acc_inv a" and "acc_state a \<in> acc_states" and "acc_ok a e v"
  shows "\<exists>code a'. acc_post e v a = Inr (code, a') \<and> acc_inv a' \<and> acc_state a' \<in> acc_states \<and>
    m_dqIdleEndpoints a' = m_dqIdleEndpoints a"
proof -
  obtain code a' where a': "acc_post e v a = Inr (code, a')" "acc_inv a'" "acc_state a' \<in> acc_states"
    using acc.post_evt_runs [OF assms] by (auto simp: acc_post_def)
  have "m_dqIdleEndpoints a' = m_dqIdleEndpoints a"
    using acc_keys a'(1) unfolding acc_post_def
  proof (cases rule: post_evt_cases)
    case (moved n h c a1)
    then show ?thesis
      using acc_handlers_run [OF moved(1) assms(1,3)] by (simp add: acc_set_cur_def)
  next
    case (refused n h c)
    then show ?thesis
      using acc_handlers_run [OF refused(1) assms(1,3)] by simp
  qed (auto simp: acc_set_cur_def)
  then show ?thesis
    using a' by blast
qed

lemma new_acceptor_good: "acc_inv (new_acceptor raw) \<and> acc_state (new_acceptor raw) \<in> acc_states"
  by (simp add: acc_inv_def new_acceptor_def acc_states_def)

section \<open>The acceptor and its endpoints\<close>

text \<open>
  The endpoints made for an acceptor share its queue; number \<open>i\<close> is \<open>eps i\<close>. A step is an
  event of the acceptor's machine, an event of the machine of one endpoint, or a
  connection that arrives.
\<close>

type_synonym acc_group = "CRupAcceptor \<times> (nat \<Rightarrow> CRupEndpoint)"

datatype acc_evt =
    Acc_evt int acc_arg
  | Ep_evt nat int ep_arg
  | Incoming "int os_ret" int

fun acc_group_step :: "acc_evt \<Rightarrow> acc_group \<Rightarrow> acc_group res" where
  "acc_group_step (Acc_evt e v) (a, eps) = bindr (acc_post e v a) (\<lambda>(code, a). Inr (a, eps))"
| "acc_group_step (Ep_evt i e v) (a, eps) =
     bindr (rup_post e v (eps i, m_dqIdleEndpoints a)) (\<lambda>(code, t, q).
     Inr (a\<lparr>m_dqIdleEndpoints := q\<rparr>, eps(i := t)))"
| "acc_group_step (Incoming ans r) (a, eps) =
     bindr (acc_handle_input_evt ans r a eps) (\<lambda>(a, eps, refused). Inr (a, eps))"

fun acc_group_ok :: "acc_evt \<Rightarrow> acc_group \<Rightarrow> bool" where
  "acc_group_ok (Acc_evt e v) (a, eps) \<longleftrightarrow> acc_ok a e v"
| "acc_group_ok (Ep_evt i e v) (a, eps) \<longleftrightarrow> 0 \<le> engine_ret v \<and> e \<noteq> EE_CONNECTED \<and>
     (e = RupEndpoint.EE_INTERNAL_ERR \<longrightarrow>
       ep_state (eps i) \<noteq> ES_ADDING_INTO_OT \<and> ep_state (eps i) \<noteq> RupEndpoint.ES_ADDING_INTO_IT) \<and>
     (e = RupEndpoint.EE_CLOSE \<longrightarrow> ep_state (eps i) \<noteq> RupEndpoint.ES_ADDING_INTO_IT)"
| "acc_group_ok (Incoming ans r) (a, eps) \<longleftrightarrow> acc_state a = ES_OPENED \<and> os_int ans > -1 \<and> 0 \<le> r"

inductive acc_group_run :: "acc_group \<Rightarrow> acc_group \<Rightarrow> bool" where
  acc_group_refl: "acc_group_run g g"
| acc_group_trans: "acc_group_run g g1 \<Longrightarrow> acc_group_ok ev g1 \<Longrightarrow> acc_group_step ev g1 = Inr g2 \<Longrightarrow>
    acc_group_run g g2"

definition new_group :: "int \<Rightarrow> acc_group" where
  "new_group raw = (new_acceptor raw, \<lambda>i. new_rup_endpoint i True)"

text \<open>The queue holds exactly the endpoints that wait, each once.\<close>

definition ep_good :: "(nat \<Rightarrow> CRupEndpoint) \<Rightarrow> nat list \<Rightarrow> nat \<Rightarrow> bool" where
  "ep_good eps q i \<longleftrightarrow> ep_id (eps i) = i \<and> rup_inv (eps i, q) \<and> ep_state (eps i) \<in> rup_states \<and>
     rup_waits (eps i, q)"

definition acc_group_inv :: "acc_group \<Rightarrow> bool" where
  "acc_group_inv g \<longleftrightarrow> (let (a, eps) = g; q = m_dqIdleEndpoints a in
     acc_inv a \<and> acc_state a \<in> acc_states \<and> distinct q \<and> (\<forall>i. ep_good eps q i))"

lemma ep_good_waiting: "ep_good eps q i \<Longrightarrow> i \<in> set q \<longleftrightarrow> ep_state (eps i) = ES_ADDED_INTO_HELPER"
  by (auto simp: ep_good_def rup_inv_def rup_waits_def Let_def)

text \<open>A change of the queue that does not concern endpoint \<open>j\<close>.\<close>

lemma ep_good_other:
  assumes "ep_good eps q j" and "distinct q'" and "j \<in> set q' \<longleftrightarrow> j \<in> set q" and "eps' j = eps j"
  shows "ep_good eps' q' j"
  using assms by (auto simp: ep_good_def rup_inv_def rup_waits_def Let_def)

text \<open>The endpoints as things that can be connected.\<close>

definition conn_good :: "(nat \<Rightarrow> CRupEndpoint) \<Rightarrow> bool" where
  "conn_good eps \<longleftrightarrow> (\<forall>i. ep_state (eps i) = ES_ADDED_INTO_HELPER \<longrightarrow> m_pSock (eps i) = None)"

lemma connect_ep_ready:
  assumes "conn_good eps" and "ep_state (eps e) = ES_ADDED_INTO_HELPER" and "0 \<le> r"
  shows "connect_ep k r e eps = Inr (CMNERR_SUC, eps(e :=
    (rup_call (Engine_add EIT_OUTPUT_TYPE) ((eps e)\<lparr>m_pSock := Some k\<rparr>))\<lparr>ep_state := ES_ADDING_INTO_OT\<rparr>))"
  using assms by (simp add: connect_ep_def conn_good_def rup_step_simps)

lemma connect_ep_not_ready:
  assumes "ep_state (eps e) \<noteq> ES_ADDED_INTO_HELPER"
  shows "connect_ep k r e eps = Inr (-1, eps)"
  using assms by (simp add: connect_ep_def rup_step_simps)

interpretation rup_pool: connectable "connect_ep k (int n)"
    "\<lambda>e eps. ep_state (eps e) = ES_ADDED_INTO_HELPER"
    "\<lambda>e eps. ep_state (eps e) = ES_ADDING_INTO_OT \<and> m_pSock (eps e) = Some k" conn_good
  for k :: CRupSock and n :: nat
proof
  fix w :: "nat \<Rightarrow> CRupEndpoint" and e
  assume good: "conn_good w"
  show "\<exists>w'. connect_ep k (int n) e w = Inr (CMNERR_SUC, w') \<and>
      (ep_state (w' e) = ES_ADDING_INTO_OT \<and> m_pSock (w' e) = Some k) \<and> conn_good w' \<and>
      (\<forall>e'. e' \<noteq> e \<longrightarrow>
        (ep_state (w' e') = ES_ADDED_INTO_HELPER) = (ep_state (w e') = ES_ADDED_INTO_HELPER) \<and>
        (ep_state (w' e') = ES_ADDING_INTO_OT \<and> m_pSock (w' e') = Some k) =
          (ep_state (w e') = ES_ADDING_INTO_OT \<and> m_pSock (w e') = Some k))"
    if ready: "ep_state (w e) = ES_ADDED_INTO_HELPER"
    using connect_ep_ready [OF good ready, of "int n" k] good by (simp add: conn_good_def)
  show "\<exists>code. connect_ep k (int n) e w = Inr (code, w) \<and> code \<noteq> CMNERR_SUC"
    if "ep_state (w e) \<noteq> ES_ADDED_INTO_HELPER"
    using connect_ep_not_ready [of w e k "int n"] that by simp
qed

lemma acc_group_conn_good: "acc_group_inv (a, eps) \<Longrightarrow> conn_good eps"
  by (auto simp: acc_group_inv_def ep_good_def rup_inv_def conn_good_def Let_def)

lemma connected_endpoint:
  assumes "rup_post EE_CONNECTED (arg_sock k r) (t, q) = Inr (0, t', q')" and "0 \<le> r"
    and "ep_state t = ES_ADDED_INTO_HELPER" and "m_pSock t = None"
  shows "t' = (rup_call (Engine_add EIT_OUTPUT_TYPE) (t\<lparr>m_pSock := Some k\<rparr>))\<lparr>ep_state := ES_ADDING_INTO_OT\<rparr>"
  using assms by (simp add: rup_step_simps)

text \<open>An arriving connection goes to the endpoint at the front of the queue, if there is one.\<close>

lemma acc_incoming:
  assumes inv: "acc_group_inv (a, eps)" and ok: "acc_group_ok (Incoming ans r) (a, eps)"
  shows "case m_dqIdleEndpoints a of
      [] \<Rightarrow> \<exists>k. acc_handle_input_evt ans r a eps = Inr (a, eps, Some k) \<and> \<not> rup_is_opened k
    | e # q \<Rightarrow> \<exists>eps'. acc_handle_input_evt ans r a eps = Inr (a\<lparr>m_dqIdleEndpoints := q\<rparr>, eps', None) \<and>
        rup_post EE_CONNECTED (arg_sock (new_rup_sock\<lparr>m_hSock := os_int ans\<rparr>) r) (eps e, q) = Inr (0, eps' e, q) \<and>
        (\<forall>i. i \<noteq> e \<longrightarrow> eps' i = eps i)"
proof -
  obtain l where l: "m_pTcpSockListener a = Some l"
    using inv ok by (auto simp: acc_group_inv_def acc_inv_def Let_def)
  let ?k = "new_rup_sock\<lparr>m_hSock := os_int ans\<rparr>"
  have new: "rup_accept ans l = Inr ?k"
    using ok by (simp add: rup_accept_def rup_open_def rup_is_opened_def new_rup_sock_def)
  have waiting: "ep_state (eps e) = ES_ADDED_INTO_HELPER" if "e \<in> set (m_dqIdleEndpoints a)" for e
    using inv that ep_good_waiting by (auto simp: acc_group_inv_def Let_def)
  show ?thesis
  proof (cases "m_dqIdleEndpoints a")
    case Nil
    then show ?thesis
      using l new by (simp add: acc_handle_input_evt_def)
  next
    case (Cons e q)
    have "ep_state (eps e) = ES_ADDED_INTO_HELPER"
      using waiting Cons by simp
    then show ?thesis
      using l new Cons connect_ep_ready [OF acc_group_conn_good [OF inv], of e r ?k] ok
        acc_group_conn_good [OF inv]
      by (simp add: acc_handle_input_evt_def rup_step_simps conn_good_def)
  qed
qed

text \<open>Every proper step of the group is possible and keeps its invariant.\<close>

lemma acc_group_ep_step:
  assumes inv: "acc_group_inv (a, eps)" and ok: "rup_ok (eps i, m_dqIdleEndpoints a) e v"
  shows "\<exists>code t q. rup_post e v (eps i, m_dqIdleEndpoints a) = Inr (code, t, q) \<and>
    acc_group_inv (a\<lparr>m_dqIdleEndpoints := q\<rparr>, eps(i := t))"
proof -
  let ?q = "m_dqIdleEndpoints a"
  have good: "ep_good eps ?q j" for j
    using inv by (simp add: acc_group_inv_def Let_def)
  have dist: "distinct ?q" and acc: "acc_inv a" "acc_state a \<in> acc_states"
    using inv by (simp_all add: acc_group_inv_def Let_def)
  have ri: "rup_inv (eps i, ?q)" "rup_cur (eps i, ?q) \<in> rup_states" "rup_waits (eps i, ?q)" "ep_id (eps i) = i"
    using good [of i] by (simp_all add: ep_good_def)
  obtain code t q where run: "rup_post e v (eps i, ?q) = Inr (code, t, q)" "rup_inv (t, q)" "ep_state t \<in> rup_states"
    using rup_post_runs [OF ri(1,2) ok] by auto
  have ret: "0 \<le> engine_ret v"
    using ok by (simp add: rup_ok_def)
  have frame: "rup_frame (eps i, ?q) (t, q)" "rup_waits (t, q)"
    using rup_post_frame [OF run(1) ri(3)] dist ret by simp_all
  have dq: "distinct q"
    using run(2) by (simp add: rup_inv_def Let_def)
  have "ep_good (eps(i := t)) q j" for j
  proof (cases "j = i")
    case True
    then show ?thesis
      using run frame ri(4) by (simp add: ep_good_def rup_frame_def)
  next
    case False
    then have "j \<in> set q \<longleftrightarrow> j \<in> set ?q"
      using frame(1) ri(4) by (auto simp: rup_frame_def)
    then show ?thesis
      using ep_good_other [OF good [of j] dq] False by simp
  qed
  moreover have "acc_inv (a\<lparr>m_dqIdleEndpoints := q\<rparr>)"
    using acc(1) by (simp add: acc_inv_def)
  ultimately show ?thesis
    using run(1) acc dq by (auto simp: acc_group_inv_def)
qed

lemma acc_group_step_runs:
  assumes inv: "acc_group_inv g" and ok: "acc_group_ok ev g"
  shows "\<exists>g'. acc_group_step ev g = Inr g' \<and> acc_group_inv g'"
proof -
  obtain a eps where g: "g = (a, eps)" by (cases g)
  let ?q = "m_dqIdleEndpoints a"
  have good: "ep_good eps ?q j" for j
    using inv g by (simp add: acc_group_inv_def Let_def)
  show ?thesis
  proof (cases ev)
    case (Acc_evt e v)
    obtain code a' where "acc_post e v a = Inr (code, a')" "acc_inv a'" "acc_state a' \<in> acc_states"
      "m_dqIdleEndpoints a' = ?q"
      using acc_post_runs [of a e v] inv ok g Acc_evt by (auto simp: acc_group_inv_def Let_def)
    then show ?thesis
      using inv g Acc_evt by (auto simp: acc_group_inv_def Let_def)
  next
    case (Ep_evt i e v)
    have "i \<in> set ?q" if "ep_state (eps i) = ES_ADDED_INTO_HELPER"
      using ep_good_waiting [OF good [of i]] that by simp
    then have "rup_ok (eps i, ?q) e v"
      using ok g Ep_evt good [of i] by (auto simp: rup_ok_def ep_good_def)
    then show ?thesis
      using acc_group_ep_step [of a eps i e v] inv g Ep_evt by auto
  next
    case (Incoming ans r)
    note inc = acc_incoming [of a eps ans r]
    show ?thesis
    proof (cases ?q)
      case Nil
      then show ?thesis
        using inc inv ok g Incoming by auto
    next
      case (Cons e q)
      obtain eps' where eps': "acc_handle_input_evt ans r a eps = Inr (a\<lparr>m_dqIdleEndpoints := q\<rparr>, eps', None)"
        "rup_post EE_CONNECTED (arg_sock (new_rup_sock\<lparr>m_hSock := os_int ans\<rparr>) r) (eps e, q) = Inr (0, eps' e, q)"
        "\<forall>i. i \<noteq> e \<longrightarrow> eps' i = eps i"
        using inc inv ok g Incoming Cons by auto
      have dist: "distinct ?q"
        using inv g by (simp add: acc_group_inv_def Let_def)
      have dq: "distinct q" and e: "e \<notin> set q"
        using dist Cons by simp_all
      have eid: "ep_id (eps e) = e" "rup_inv (eps e, q)" "ep_state (eps e) \<in> rup_states"
        using good [of e] dq e by (auto simp: ep_good_def rup_inv_def Let_def)
      have okc: "rup_ok (eps e, q) EE_CONNECTED (arg_sock (new_rup_sock\<lparr>m_hSock := os_int ans\<rparr>) r)"
        using ok g Incoming e eid(1) by (simp add: rup_ok_def)
      then have "rup_inv (eps' e, q)" "ep_state (eps' e) \<in> rup_states"
        using rup_post_runs [of "(eps e, q)"] eid eps'(2) by fastforce+
      moreover have "ep_state (eps' e) \<noteq> ES_ADDED_INTO_HELPER" "ep_id (eps' e) = e"
      proof -
        have "ep_state (eps e) = ES_ADDED_INTO_HELPER" "m_pSock (eps e) = None"
          using ep_good_waiting [OF good [of e]] good [of e] Cons by (auto simp: ep_good_def rup_inv_def Let_def)
        then have "eps' e = (rup_call (Engine_add EIT_OUTPUT_TYPE)
            ((eps e)\<lparr>m_pSock := Some (new_rup_sock\<lparr>m_hSock := os_int ans\<rparr>)\<rparr>))\<lparr>ep_state := ES_ADDING_INTO_OT\<rparr>"
          using connected_endpoint [OF eps'(2)] ok g Incoming by simp
        then show "ep_state (eps' e) \<noteq> ES_ADDED_INTO_HELPER" "ep_id (eps' e) = e"
          using eid(1) by simp_all
      qed
      ultimately have "ep_good eps' q e"
        by (simp add: ep_good_def rup_waits_def)
      moreover have "ep_good eps' q j" if "j \<noteq> e" for j
        using ep_good_other [OF good [of j] dq, of eps'] that Cons eps'(3) by simp
      ultimately have "ep_good eps' q j" for j
        by (cases "j = e") auto
      moreover have "acc_inv (a\<lparr>m_dqIdleEndpoints := q\<rparr>)"
        using inv g by (simp add: acc_group_inv_def acc_inv_def Let_def)
      ultimately show ?thesis
        using inv g Incoming eps'(1) dq by (auto simp: acc_group_inv_def Let_def)
    qed
  qed
qed

lemma new_group_good: "acc_group_inv (new_group raw)"
  using new_acceptor_good [of raw]
  by (simp add: acc_group_inv_def new_group_def ep_good_def rup_waits_def new_rup_endpoint_def
      rup_inv_def rup_regs_of_def rup_states_def new_acceptor_def)

lemma acc_group_run_inv: "acc_group_run g g' \<Longrightarrow> acc_group_inv g \<Longrightarrow> acc_group_inv g'"
proof (induction rule: acc_group_run.induct)
  case (acc_group_refl g)
  then show ?case .
next
  case (acc_group_trans g g1 ev g2)
  then show ?case
    using acc_group_step_runs [of g1 ev] by auto
qed

section \<open>Properties\<close>

text \<open>An acceptor can be opened, closed, and never again. With a kernel and an engine that do
  not refuse it listens, is opened when the engine reports it, closes its listener and leaves
  the input task when it is closed, and \<open>on_opened\<close> and \<open>on_closed\<close> are called once each. The
  socket object stays behind, so a second \<open>open\<close> fails the assertion that there is none.
  The same holds after an \<open>open\<close> that failed because the address was in use.\<close>

theorem acc_opens_once:
  assumes "os_int (socket_ans v) > -1" and "os_int (bind_ans v) \<ge> 0" and "os_int (listen_ans v) \<ge> 0"
    and "acc_ret v \<ge> 0" and "r \<ge> 0" and "os_int (socket_ans u) > -1" and "os_int (bind_ans u) < 0"
  shows "(\<exists>a1 a2 a3 a4. acc_open v (new_acceptor raw) = Inr (0, a1) \<and>
      acc_handle_added EIT_INPUT_TYPE 0 a1 = Inr a2 \<and> acc_is_opened a2 \<and>
      acc_get_ioobj_handle a2 = Inr (os_int (socket_ans v)) \<and>
      acc_close r a2 = Inr (0, a3) \<and> acc_handle_deled EIT_INPUT_TYPE a3 = Inr a4 \<and> acc_state a4 = ES_CLOSED \<and>
      acc_calls a4 = [Engine_add EIT_INPUT_TYPE, On_opened, Engine_del EIT_INPUT_TYPE, On_closed] \<and>
      acc_open w a4 = Inl Assert_failed) \<and>
    (\<exists>a1. acc_open u (new_acceptor raw) = Inr (-2, a1) \<and> acc_state a1 = ES_CLOSED \<and> acc_calls a1 = [] \<and>
      acc_open w a1 = Inl Assert_failed)"
  using assms by (simp add: acc_step_simps new_acceptor_def acc_is_opened_def rup_close_def)

definition good_ans :: acc_arg where
  "good_ans = \<lparr>socket_ans = Os_ok 5, bind_ans = Os_ok 0, listen_ans = Os_ok 0, acc_ret = 0\<rparr>"

theorem acc_opens_once_witness:
  "\<exists>a1. acc_open (good_ans\<lparr>bind_ans := Os_fail EOTHER\<rparr>) (new_acceptor 0) = Inr (-2, a1) \<and>
     acc_open good_ans a1 = Inl Assert_failed"
proof -
  let ?u = "good_ans\<lparr>bind_ans := Os_fail EOTHER\<rparr>"
  have "os_int (socket_ans good_ans) > -1" "os_int (bind_ans good_ans) \<ge> 0" "os_int (listen_ans good_ans) \<ge> 0"
    "acc_ret good_ans \<ge> 0" "os_int (socket_ans ?u) > -1" "os_int (bind_ans ?u) < 0"
    by (simp_all add: good_ans_def)
  from acc_opens_once [OF this(1-4) order_refl this(5,6), of 0 good_ans] show ?thesis
    by blast
qed



text \<open>A connection is offered to the endpoints of any queue, in order, until one takes it.
  Endpoints that do not wait are taken off the queue on the way; the one that takes it has the
  socket and is being added to an output task; without one that waits the queue is left empty and no endpoint is
  changed.\<close>

theorem rup_connection_handed_over:
  assumes "\<forall>i. ep_state (eps i) = ES_ADDED_INTO_HELPER \<longrightarrow> m_pSock (eps i) = None"
  shows "\<exists>eps' q' res. hand_over (connect_ep k (int n)) q eps = Inr (res, q', eps') \<and>
    (case res of
       None \<Rightarrow> q' = [] \<and> eps' = eps \<and> (\<forall>e \<in> set q. ep_state (eps e) \<noteq> ES_ADDED_INTO_HELPER)
     | Some e \<Rightarrow> ep_state (eps e) = ES_ADDED_INTO_HELPER \<and> ep_state (eps' e) = ES_ADDING_INTO_OT \<and>
         m_pSock (eps' e) = Some k \<and>
         (\<exists>skipped. q = skipped @ e # q' \<and> (\<forall>x \<in> set skipped. ep_state (eps x) \<noteq> ES_ADDED_INTO_HELPER)))"
proof -
  have "conn_good eps"
    using assms by (simp add: conn_good_def)
  from rup_pool.hand_over_first_ready [OF this, of k n q] show ?thesis
    by (elim exE conjE, intro exI conjI) (assumption, auto split: option.splits)
qed

theorem rup_connection_handed_over_witness:
  "\<exists>eps' q' res. hand_over (connect_ep new_rup_sock 0) [1, 2] (\<lambda>i. new_rup_endpoint i True) = Inr (res, q', eps') \<and>
     res = None \<and> q' = [] \<and> eps' = (\<lambda>i. new_rup_endpoint i True)"
  using rup_connection_handed_over [of "\<lambda>i. new_rup_endpoint i True" new_rup_sock 0 "[1, 2]"]
  by (auto simp: new_rup_endpoint_def split: option.splits)

end
