(* ===== verification/RupConnector.thy ===== *)
theory RupConnector
  imports RupAcceptor
begin

text \<open>
  \<open>CRupConnector\<close> of \<open>libsmart_net/src/smart_net/sn_endpoint_impl.cpp\<close>: while it is open a timer of
  the engine runs; at every tick with an endpoint waiting in its queue it makes a socket,
  starts to connect it and joins an output task to learn the outcome. A connected socket is
  handed to the first endpoint that takes it. As this happens inside the machine, the machine
  runs on the connector together with its endpoints.
\<close>

section \<open>State\<close>

definition ES_OPENED :: int where [simp]: "ES_OPENED = 0"
definition ES_CLOSED :: int where [simp]: "ES_CLOSED = 1"
definition ES_CHECKING_TIMER :: int where [simp]: "ES_CHECKING_TIMER = 2"
definition ES_ADDING_INTO_OT :: int where [simp]: "ES_ADDING_INTO_OT = 3"
definition ES_DELING_FROM_OT_CLOSE :: int where [simp]: "ES_DELING_FROM_OT_CLOSE = 4"
definition ES_ADDING_INTO_TT :: int where [simp]: "ES_ADDING_INTO_TT = 5"
definition ES_DELING_FROM_TT :: int where [simp]: "ES_DELING_FROM_TT = 6"
definition ES_CONNECTING :: int where [simp]: "ES_CONNECTING = 7"
definition ES_DELING_FROM_OT_NORMAL :: int where [simp]: "ES_DELING_FROM_OT_NORMAL = 8"

definition EE_NONE :: int where [simp]: "EE_NONE = 0"
definition EE_OPEN :: int where [simp]: "EE_OPEN = 0"
definition EE_CONNECT :: int where [simp]: "EE_CONNECT = 1"
definition EE_CLOSE :: int where [simp]: "EE_CLOSE = 2"
definition EE_ADDED_INTO_OT :: int where [simp]: "EE_ADDED_INTO_OT = 3"
definition EE_DELED_FROM_OT :: int where [simp]: "EE_DELED_FROM_OT = 4"
definition EE_INTERNAL_ERR :: int where [simp]: "EE_INTERNAL_ERR = 5"
definition EE_ADDED_INTO_TT :: int where [simp]: "EE_ADDED_INTO_TT = 6"
definition EE_CONNECTED :: int where [simp]: "EE_CONNECTED = 7"
definition EE_DELED_FROM_TT :: int where [simp]: "EE_DELED_FROM_TT = 8"

record CRupConnector =
  con_state :: int
  m_pTcpSock :: "CRupSock option"
  con_pending :: int
  m_strAcceptorIp :: string
  m_ui16AcceptorPort :: u16
  m_ui64Interval :: u64
  con_idle :: "nat list"
  con_calls :: "ep_call list"

text \<open>
  The parameters of \<open>open\<close>, the kernel's answers to \<open>socket\<close> and \<open>connect\<close>, and what the engine
  answers to the connector and to the endpoint that takes the connection.
\<close>

record con_arg =
  strIP :: string
  ui16Port :: u16
  ui64Val :: u64
  con_socket :: "int os_ret"
  con_connect :: "int os_ret"
  con_ret :: int
  con_ep_ret :: int

type_synonym con_obj = "CRupConnector \<times> (nat \<Rightarrow> CRupEndpoint)"

type_synonym con_handler = "(con_obj, con_arg) transform"

definition new_connector :: CRupConnector where
  "new_connector = \<lparr>con_state = ES_CLOSED, m_pTcpSock = None, con_pending = EE_NONE, m_strAcceptorIp = '''',
     m_ui16AcceptorPort = 0, m_ui64Interval = 0, con_idle = [], con_calls = []\<rparr>"

definition con_cur :: "con_obj \<Rightarrow> int" where
  "con_cur x = con_state (fst x)"

definition con_set_cur :: "int \<Rightarrow> con_obj \<Rightarrow> con_obj" where
  "con_set_cur s x = ((fst x)\<lparr>con_state := s\<rparr>, snd x)"

definition con_call :: "ep_call \<Rightarrow> CRupConnector \<Rightarrow> CRupConnector" where
  "con_call c a = a\<lparr>con_calls := con_calls a @ [c]\<rparr>"

definition close_tcp_sock :: "CRupConnector \<Rightarrow> CRupConnector res" where
  "close_tcp_sock c = bindr (deref (m_pTcpSock c)) (\<lambda>k. Inr (c\<lparr>m_pTcpSock := Some (snd (rup_close k))\<rparr>))"

section \<open>The functions of the machine\<close>

definition handling_closed_to_adding_into_tt :: con_handler where
  "handling_closed_to_adding_into_tt i32CurState i32Evt i32NextState pVoid x =
     (let c = (fst x)\<lparr>con_pending := EE_NONE, m_strAcceptorIp := strIP pVoid,
                m_ui16AcceptorPort := ui16Port pVoid, m_ui64Interval := ui64Val pVoid\<rparr> in
      bindr (cmn_assert (m_ui64Interval c > 0)) (\<lambda>_. Inr (con_ret pVoid, (con_call Timer_add c, snd x))))"

definition handling_close_while_adding_into_tt :: con_handler where
  "handling_close_while_adding_into_tt i32CurState i32Evt i32NextState pVoid x =
     Inr (CMNERR_SUC, ((fst x)\<lparr>con_pending := EE_CLOSE\<rparr>, snd x))"

definition handling_adding_into_tt_to_checking_timer :: con_handler where
  "handling_adding_into_tt_to_checking_timer i32CurState i32Evt i32NextState pVoid x =
     (let c = fst x in
      if con_pending c \<noteq> EE_NONE
      then bindr (cmn_assert (con_pending c = EE_CLOSE)) (\<lambda>_.
           Inr (CMNERR_COMMON_ERR, ((con_call Timer_del c)\<lparr>con_state := ES_DELING_FROM_TT\<rparr>, snd x)))
      else Inr (CMNERR_SUC, (con_call On_opened c, snd x)))"

definition handling_close_while_checking_timer :: con_handler where
  "handling_close_while_checking_timer i32CurState i32Evt i32NextState pVoid x =
     bindr (cmn_assert (m_pTcpSock (fst x) = None)) (\<lambda>_.
     Inr (con_ret pVoid, (con_call Timer_del (fst x), snd x)))"

text \<open>The results of \<open>open\<close>, \<open>set_nonblock\<close> and \<open>connect\<close> are not looked at.\<close>

definition handling_checking_timer_to_adding_into_ot :: con_handler where
  "handling_checking_timer_to_adding_into_ot i32CurState i32Evt i32NextState pVoid x =
     bindr (cmn_assert (m_pTcpSock (fst x) = None)) (\<lambda>_.
     let k = snd (rup_open INVALID_SOCKET (con_socket pVoid) new_rup_sock);
         code = rup_connect (con_connect pVoid) k in
     Inr (con_ret pVoid, (con_call (Engine_add EIT_OUTPUT_TYPE) ((fst x)\<lparr>m_pTcpSock := Some k\<rparr>), snd x)))"

definition handling_close_while_adding_into_ot :: con_handler where
  "handling_close_while_adding_into_ot i32CurState i32Evt i32NextState pVoid x =
     Inr (CMNERR_SUC, ((fst x)\<lparr>con_pending := EE_CLOSE\<rparr>, snd x))"

definition handling_adding_into_ot_to_connecting :: con_handler where
  "handling_adding_into_ot_to_connecting i32CurState i32Evt i32NextState pVoid x =
     (let c = fst x in
      if con_pending c \<noteq> EE_NONE
      then bindr (close_tcp_sock c) (\<lambda>c.
           Inr (CMNERR_COMMON_ERR,
             ((con_call (Engine_del EIT_OUTPUT_TYPE) c)
               \<lparr>con_state := (if con_pending c = EE_CLOSE then ES_DELING_FROM_OT_CLOSE
                             else ES_DELING_FROM_OT_NORMAL)\<rparr>, snd x)))
      else Inr (CMNERR_SUC, x))"

definition handling_close_while_connecting :: con_handler where
  "handling_close_while_connecting i32CurState i32Evt i32NextState pVoid x =
     bindr (close_tcp_sock (fst x)) (\<lambda>c.
     Inr (con_ret pVoid, (con_call (Engine_del EIT_OUTPUT_TYPE) c, snd x)))"

definition handling_internal_err_while_connecting :: con_handler where
  "handling_internal_err_while_connecting i32CurState i32Evt i32NextState pVoid x =
     bindr (close_tcp_sock (fst x)) (\<lambda>c.
     Inr (con_ret pVoid, (con_call (Engine_del EIT_OUTPUT_TYPE) c, snd x)))"

definition handling_connected :: con_handler where
  "handling_connected i32CurState i32Evt i32NextState pVoid x =
     bindr (deref (m_pTcpSock (fst x))) (\<lambda>k.
     bindr (cmn_assert (rup_is_opened k)) (\<lambda>_.
     Inr (con_ret pVoid, (con_call (Engine_del EIT_OUTPUT_TYPE) (fst x), snd x))))"

definition handling_internal_err_while_adding_into_ot :: con_handler where
  "handling_internal_err_while_adding_into_ot i32CurState i32Evt i32NextState pVoid x =
     Inr (CMNERR_SUC, ((fst x)\<lparr>con_pending := EE_INTERNAL_ERR\<rparr>, snd x))"

definition handling_deling_from_ot_close_to_deling_from_tt :: con_handler where
  "handling_deling_from_ot_close_to_deling_from_tt i32CurState i32Evt i32NextState pVoid x =
     bindr (deref (m_pTcpSock (fst x))) (\<lambda>k.
     bindr (cmn_assert (\<not> rup_is_opened k)) (\<lambda>_.
     Inr (con_ret pVoid, (con_call Timer_del (fst x), snd x))))"

definition handling_close_while_deling_from_ot_normal :: con_handler where
  "handling_close_while_deling_from_ot_normal i32CurState i32Evt i32NextState pVoid x =
     Inr (CMNERR_SUC, ((fst x)\<lparr>con_pending := EE_CLOSE\<rparr>, snd x))"

definition handling_internal_err_while_deling_from_ot_normal :: con_handler where
  "handling_internal_err_while_deling_from_ot_normal i32CurState i32Evt i32NextState pVoid x =
     bindr (close_tcp_sock (fst x)) (\<lambda>c. Inr (CMNERR_SUC, (c, snd x)))"

text \<open>When no endpoint takes the connection the socket is closed; the connector forgets it anyway.\<close>

definition handling_deling_from_ot_normal_to_checking_timer :: con_handler where
  "handling_deling_from_ot_normal_to_checking_timer i32CurState i32Evt i32NextState pVoid x =
     (let c = fst x in
      if con_pending c \<noteq> EE_NONE
      then bindr (cmn_assert (con_pending c = EE_CLOSE)) (\<lambda>_.
           bindr (close_tcp_sock c) (\<lambda>c.
           Inr (CMNERR_COMMON_ERR,
             ((con_call Timer_del (c\<lparr>m_pTcpSock := None\<rparr>))\<lparr>con_state := ES_DELING_FROM_TT\<rparr>, snd x))))
      else bindr (deref (m_pTcpSock c)) (\<lambda>k.
        if \<not> rup_is_opened k then Inr (CMNERR_SUC, (c\<lparr>m_pTcpSock := None\<rparr>, snd x))
        else bindr (hand_over (connect_ep k (con_ep_ret pVoid)) (con_idle c) (snd x)) (\<lambda>(pTcpEp, q, eps).
          Inr (CMNERR_SUC, (c\<lparr>con_idle := q, m_pTcpSock := None\<rparr>, eps)))))"

definition handling_deling_from_tt_to_closed :: con_handler where
  "handling_deling_from_tt_to_closed i32CurState i32Evt i32NextState pVoid x =
     Inr (CMNERR_SUC, (con_call On_closed (fst x), snd x))"

definition con_regs :: "(con_obj, con_arg) registration list" where
  "con_regs =
    [(ES_CLOSED, EE_OPEN, ES_ADDING_INTO_TT, Some handling_closed_to_adding_into_tt),
     (ES_ADDING_INTO_TT, EE_CLOSE, ES_ADDING_INTO_TT, Some handling_close_while_adding_into_tt),
     (ES_ADDING_INTO_TT, EE_ADDED_INTO_TT, ES_CHECKING_TIMER, Some handling_adding_into_tt_to_checking_timer),
     (ES_CHECKING_TIMER, EE_CLOSE, ES_DELING_FROM_TT, Some handling_close_while_checking_timer),
     (ES_CHECKING_TIMER, EE_CONNECT, ES_ADDING_INTO_OT, Some handling_checking_timer_to_adding_into_ot),
     (ES_ADDING_INTO_OT, EE_CLOSE, ES_ADDING_INTO_OT, Some handling_close_while_adding_into_ot),
     (ES_ADDING_INTO_OT, EE_INTERNAL_ERR, ES_ADDING_INTO_OT, Some handling_internal_err_while_adding_into_ot),
     (ES_ADDING_INTO_OT, EE_ADDED_INTO_OT, ES_CONNECTING, Some handling_adding_into_ot_to_connecting),
     (ES_CONNECTING, EE_CLOSE, ES_DELING_FROM_OT_CLOSE, Some handling_close_while_connecting),
     (ES_CONNECTING, EE_INTERNAL_ERR, ES_DELING_FROM_OT_NORMAL, Some handling_internal_err_while_connecting),
     (ES_CONNECTING, EE_CONNECTED, ES_DELING_FROM_OT_NORMAL, Some handling_connected),
     (ES_DELING_FROM_OT_CLOSE, EE_DELED_FROM_OT, ES_DELING_FROM_TT,
        Some handling_deling_from_ot_close_to_deling_from_tt),
     (ES_DELING_FROM_OT_NORMAL, EE_CLOSE, ES_DELING_FROM_OT_NORMAL,
        Some handling_close_while_deling_from_ot_normal),
     (ES_DELING_FROM_OT_NORMAL, EE_INTERNAL_ERR, ES_DELING_FROM_OT_NORMAL,
        Some handling_internal_err_while_deling_from_ot_normal),
     (ES_DELING_FROM_OT_NORMAL, EE_DELED_FROM_OT, ES_CHECKING_TIMER,
        Some handling_deling_from_ot_normal_to_checking_timer),
     (ES_DELING_FROM_TT, EE_DELED_FROM_TT, ES_CLOSED, Some handling_deling_from_tt_to_closed)]"

lemma con_keys: "distinct (reg_keys con_regs)"
  by (simp add: con_regs_def)

definition con_post :: "int \<Rightarrow> con_arg \<Rightarrow> con_obj \<Rightarrow> (int \<times> con_obj) res" where
  "con_post = post_evt con_cur con_set_cur (table_of con_regs)"

definition con_post_void :: "int \<Rightarrow> con_arg \<Rightarrow> con_obj \<Rightarrow> con_obj res" where
  "con_post_void e v x = bindr (con_post e v x) (\<lambda>(code, x). Inr x)"

section \<open>What others call\<close>

definition con_open :: "con_arg \<Rightarrow> con_obj \<Rightarrow> (int \<times> con_obj) res" where
  "con_open v x = con_post EE_OPEN v x"

definition con_close :: "con_arg \<Rightarrow> con_obj \<Rightarrow> (int \<times> con_obj) res" where
  "con_close v x = con_post EE_CLOSE v x"

definition con_is_opened :: "con_obj \<Rightarrow> bool" where
  "con_is_opened x \<longleftrightarrow> con_cur x = ES_OPENED"

definition con_handle_input_evt :: "con_obj \<Rightarrow> con_obj res" where
  "con_handle_input_evt x = Inl Assert_failed"

definition con_handle_output_evt :: "con_arg \<Rightarrow> con_obj \<Rightarrow> con_obj res" where
  "con_handle_output_evt v x = con_post_void EE_CONNECTED v x"

definition con_handle_io_error :: "con_arg \<Rightarrow> con_obj \<Rightarrow> con_obj res" where
  "con_handle_io_error v x = con_post_void EE_INTERNAL_ERR v x"

definition con_handle_added :: "int \<Rightarrow> int \<Rightarrow> con_arg \<Rightarrow> con_obj \<Rightarrow> con_obj res" where
  "con_handle_added i32IoType i32RetCode v x =
     bindr (cmn_assert (i32IoType = EIT_OUTPUT_TYPE)) (\<lambda>_.
     if i32RetCode \<noteq> CMNERR_SUC
     then bindr (con_post EE_INTERNAL_ERR v x) (\<lambda>(code, x).
          bindr (cmn_assert (code = CMNERR_SUC)) (\<lambda>_. Inr x))
     else con_post_void EE_ADDED_INTO_OT v x)"

definition con_handle_deled :: "int \<Rightarrow> con_arg \<Rightarrow> con_obj \<Rightarrow> con_obj res" where
  "con_handle_deled i32IoType v x =
     bindr (cmn_assert (i32IoType = EIT_OUTPUT_TYPE)) (\<lambda>_. con_post_void EE_DELED_FROM_OT v x)"

definition con_get_ioobj_handle :: "con_obj \<Rightarrow> int res" where
  "con_get_ioobj_handle x =
     (case m_pTcpSock (fst x) of None \<Rightarrow> Inl Assert_failed | Some k \<Rightarrow> Inr (m_hSock k))"

definition handle_add_into_timer_task :: "con_arg \<Rightarrow> con_obj \<Rightarrow> con_obj res" where
  "handle_add_into_timer_task v x = con_post_void EE_ADDED_INTO_TT v x"

definition handle_del_from_timer_task :: "con_arg \<Rightarrow> con_obj \<Rightarrow> con_obj res" where
  "handle_del_from_timer_task v x = con_post_void EE_DELED_FROM_TT v x"

definition con_add_endpoint :: "nat \<Rightarrow> CRupConnector \<Rightarrow> int \<times> CRupConnector" where
  "con_add_endpoint e c = (let (code, q) = pool_add e (con_idle c) in (code, c\<lparr>con_idle := q\<rparr>))"

definition con_del_endpoint :: "nat \<Rightarrow> CRupConnector \<Rightarrow> (int \<times> CRupConnector) res" where
  "con_del_endpoint e c = bindr (pool_del e (con_idle c)) (\<lambda>(code, q). Inr (code, c\<lparr>con_idle := q\<rparr>))"

definition on_timer :: "con_arg \<Rightarrow> con_obj \<Rightarrow> con_obj res" where
  "on_timer v x = (if con_idle (fst x) \<noteq> [] then con_post_void EE_CONNECT v x else Inr x)"

section \<open>The invariant\<close>

definition con_states :: "int set" where
  "con_states = {ES_CLOSED, ES_CHECKING_TIMER, ES_ADDING_INTO_OT, ES_DELING_FROM_OT_CLOSE, ES_ADDING_INTO_TT,
     ES_DELING_FROM_TT, ES_CONNECTING, ES_DELING_FROM_OT_NORMAL}"

text \<open>What the socket of a connector can be in a state.\<close>

definition con_sock_ok :: "int \<Rightarrow> CRupSock option \<Rightarrow> bool" where
  "con_sock_ok s p \<longleftrightarrow>
     (if s = ES_CHECKING_TIMER \<or> s = ES_ADDING_INTO_TT then p = None
      else if s = ES_ADDING_INTO_OT \<or> s = ES_CONNECTING then \<exists>k. p = Some k \<and> rup_is_opened k
      else if s = ES_DELING_FROM_OT_CLOSE then \<exists>k. p = Some k \<and> \<not> rup_is_opened k
      else if s = ES_DELING_FROM_OT_NORMAL then p \<noteq> None
      else \<forall>k. p = Some k \<longrightarrow> \<not> rup_is_opened k)"

definition con_inv :: "con_obj \<Rightarrow> bool" where
  "con_inv x \<longleftrightarrow> (let c = fst x; s = con_state c in
     timed (con_calls c) = (if s = ES_CLOSED \<or> s = ES_DELING_FROM_TT then 0 else 1) \<and>
     registered EIT_OUTPUT_TYPE (con_calls c) = (if s = ES_ADDING_INTO_OT \<or> s = ES_CONNECTING then 1 else 0) \<and>
     con_sock_ok s (m_pTcpSock c) \<and>
     (s = ES_CHECKING_TIMER \<or> s = ES_CONNECTING \<longrightarrow> con_pending c = EE_NONE) \<and>
     (s = ES_ADDING_INTO_TT \<or> s = ES_ADDING_INTO_OT \<or> s = ES_DELING_FROM_OT_NORMAL \<longrightarrow>
       con_pending c = EE_NONE \<or> con_pending c = EE_CLOSE) \<and>
     conn_good (snd x))"

text \<open>
  The engine does not refuse, the interval is positive, the kernel gives a socket, nothing fails
  while the connector is being added to the output task, and it is opened again only when
  the last \<open>close\<close> left no socket behind.
\<close>

definition con_ok :: "con_obj \<Rightarrow> int \<Rightarrow> con_arg \<Rightarrow> bool" where
  "con_ok x e v \<longleftrightarrow> 0 \<le> con_ret v \<and> 0 \<le> con_ep_ret v \<and>
     (e = EE_OPEN \<and> con_cur x = ES_CLOSED \<longrightarrow> 0 < ui64Val v \<and> m_pTcpSock (fst x) = None) \<and>
     (e = EE_CONNECT \<longrightarrow> os_int (con_socket v) > -1) \<and>
     (e = EE_INTERNAL_ERR \<longrightarrow> con_cur x \<noteq> ES_ADDING_INTO_OT)"

lemmas con_handler_defs =
  handling_closed_to_adding_into_tt_def handling_close_while_adding_into_tt_def
  handling_adding_into_tt_to_checking_timer_def handling_close_while_checking_timer_def
  handling_checking_timer_to_adding_into_ot_def handling_close_while_adding_into_ot_def
  handling_adding_into_ot_to_connecting_def handling_close_while_connecting_def
  handling_internal_err_while_connecting_def handling_connected_def
  handling_internal_err_while_adding_into_ot_def handling_deling_from_ot_close_to_deling_from_tt_def
  handling_close_while_deling_from_ot_normal_def handling_internal_err_while_deling_from_ot_normal_def
  handling_deling_from_ot_normal_to_checking_timer_def handling_deling_from_tt_to_closed_def

lemma con_simps [simp]:
  "con_cur (c, eps) = con_state c"
  "con_set_cur s (c, eps) = (c\<lparr>con_state := s\<rparr>, eps)"
  "con_cur (con_set_cur s x) = s"
  "con_calls (con_call e c) = con_calls c @ [e]"
  "con_state (con_call e c) = con_state c"
  "m_pTcpSock (con_call e c) = m_pTcpSock c"
  "con_pending (con_call e c) = con_pending c"
  "con_idle (con_call e c) = con_idle c"
  by (simp_all add: con_cur_def con_set_cur_def con_call_def)

lemma hand_over_runs:
  assumes "conn_good eps" and "0 \<le> r"
  obtains res q' eps' where "hand_over (connect_ep k r) q eps = Inr (res, q', eps')" and "conn_good eps'"
proof -
  obtain n where "r = int n"
    using assms(2) zero_le_imp_eq_int by blast
  then show ?thesis
    using rup_pool.hand_over_first_ready [OF assms(1), of k n q] that by blast
qed

lemma con_hand_over_run:
  assumes "con_inv (c, eps)" and "con_state c = ES_DELING_FROM_OT_NORMAL" and "0 \<le> con_ep_ret v"
  shows "case handling_deling_from_ot_normal_to_checking_timer s e n v (c, eps) of
      Inl f \<Rightarrow> False
    | Inr (code, x) \<Rightarrow>
        if code < 0 then con_cur x \<in> con_states \<and> con_inv x else con_inv (con_set_cur ES_CHECKING_TIMER x)"
proof -
  obtain k where k: "m_pTcpSock c = Some k"
    using assms by (auto simp: con_inv_def con_sock_ok_def)
  have good: "conn_good eps"
    using assms by (simp add: con_inv_def Let_def)
  obtain res q' eps' where "hand_over (connect_ep k (con_ep_ret v)) (con_idle c) eps = Inr (res, q', eps')"
    "conn_good eps'"
    using hand_over_runs [OF good assms(3)] .
  then show ?thesis
    using assms k
    by (auto simp: handling_deling_from_ot_normal_to_checking_timer_def con_inv_def con_sock_ok_def con_states_def
        close_tcp_sock_def)
qed

lemma con_handlers_run:
  assumes "(con_state c, e, n, Some h) \<in> set con_regs" and "con_inv (c, eps)" and "con_ok (c, eps) e v"
  shows "case h (con_state c) e n v (c, eps) of
      Inl f \<Rightarrow> False
    | Inr (code, x) \<Rightarrow>
        if code < 0 then con_cur x \<in> con_states \<and> con_inv x else con_inv (con_set_cur n x)"
proof (cases "con_state c = ES_DELING_FROM_OT_NORMAL \<and> e = EE_DELED_FROM_OT")
  case True
  then have n: "n = ES_CHECKING_TIMER" and h: "h = handling_deling_from_ot_normal_to_checking_timer"
    using assms(1) by (auto simp: con_regs_def)
  show ?thesis
    unfolding n h by (rule con_hand_over_run) (use assms True in \<open>simp_all add: con_ok_def\<close>)
next
  case False
  then show ?thesis
    using assms unfolding con_regs_def
    apply (simp only: list.set insert_iff empty_iff prod.inject option.inject simp_thms)
    apply (elim disjE conjE)
                   apply (auto simp: con_handler_defs con_inv_def con_ok_def con_states_def close_tcp_sock_def
        con_sock_ok_def rup_open_new Let_def)
    done
qed

interpretation con: state_machine con_cur con_set_cur con_regs con_states con_ok con_inv
proof
  show "con_cur (con_set_cur s t) = s" for s t
    by simp
  show "distinct (reg_keys con_regs)"
    by (rule con_keys)
  show "n \<in> con_states" if "(s, e, n, fn) \<in> set con_regs" for s e n fn
    using that by (auto simp: con_regs_def con_states_def)
  show "case h (con_cur t) e n v t of
      Inl f \<Rightarrow> False
    | Inr (code, t') \<Rightarrow> if code < 0 then con_cur t' \<in> con_states \<and> con_inv t' else con_inv (con_set_cur n t')"
    if "(con_cur t, e, n, Some h) \<in> set con_regs" "con_inv t" "con_ok t e v" for t e n h v
    using con_handlers_run [of "fst t" e n h "snd t" v] that by (cases t) (simp split: sum.splits)
  show "con_inv (con_set_cur n t)" if "(con_cur t, e, n, None) \<in> set con_regs" "con_inv t" for t e n
    using that by (simp add: con_regs_def)
qed

lemma con_post_table:
  "con_post e v x =
     (case reg_find con_regs (con_cur x) e of
        None \<Rightarrow> Inr (-1, x)
      | Some (n, None) \<Rightarrow> Inr (0, con_set_cur n x)
      | Some (n, Some h) \<Rightarrow>
          bindr (h (con_cur x) e n v x) (\<lambda>(code, x).
          if code < 0 then Inr (-2, x) else Inr (0, con_set_cur n x)))"
  unfolding con_post_def by (rule post_evt_table [OF con_keys])

lemmas con_step_simps = con_post_table con_post_void_def reg_find_Cons reg_find_Nil con_regs_def con_handler_defs
  con_open_def con_close_def con_handle_added_def con_handle_deled_def con_handle_output_evt_def
  con_handle_io_error_def handle_add_into_timer_task_def handle_del_from_timer_task_def on_timer_def
  close_tcp_sock_def rup_open_new

lemma new_connector_good: "conn_good eps \<Longrightarrow> con_inv (new_connector, eps) \<and> con_cur (new_connector, eps) \<in> con_states"
  by (simp add: con_inv_def new_connector_def con_states_def con_sock_ok_def)

section \<open>Properties\<close>


definition con_good :: con_arg where
  "con_good = \<lparr>strIP = ''127.0.0.1'', ui16Port = 80, ui64Val = 1000, con_socket = Os_ok 5,
     con_connect = Os_fail EINPROGRESS, con_ret = 0, con_ep_ret = 0\<rparr>"

lemma con_good_simps [simp]:
  "ui64Val con_good = 1000" "con_socket con_good = Os_ok 5" "con_ret con_good = 0" "con_ep_ret con_good = 0"
  by (simp_all add: con_good_def)


text \<open>Making a connection. At a tick of the timer with endpoint \<open>i\<close> waiting at the front of
  the queue, an open connector makes a socket and joins an output task; when the task reports
  it may be written it leaves the task, and when it has left the endpoint gets the
  connected socket and starts to join its own output task; the connector is without a socket
  again and waits for the next tick.\<close>

theorem con_connects:
  assumes "con_inv (c, eps)" and "con_state c = ES_CHECKING_TIMER" and "con_idle c = i # q"
    and "ep_state (eps i) = ES_ADDED_INTO_HELPER" and "con_ret v \<ge> 0" and "con_ep_ret v \<ge> 0"
    and "os_int (con_socket v) > -1"
  shows "\<exists>c1 c2 c3 c4 eps'. on_timer v (c, eps) = Inr (c1, eps) \<and>
    con_handle_added EIT_OUTPUT_TYPE 0 v (c1, eps) = Inr (c2, eps) \<and> con_state c2 = ES_CONNECTING \<and>
    con_handle_output_evt v (c2, eps) = Inr (c3, eps) \<and>
    con_handle_deled EIT_OUTPUT_TYPE v (c3, eps) = Inr (c4, eps') \<and>
    con_state c4 = ES_CHECKING_TIMER \<and> m_pTcpSock c4 = None \<and> con_idle c4 = q \<and>
    con_calls c4 = con_calls c @ [Engine_add EIT_OUTPUT_TYPE, Engine_del EIT_OUTPUT_TYPE] \<and>
    ep_state (eps' i) = RupEndpoint.ES_ADDING_INTO_OT \<and>
    m_pSock (eps' i) = Some (new_rup_sock\<lparr>m_hSock := os_int (con_socket v)\<rparr>) \<and>
    (\<forall>j. j \<noteq> i \<longrightarrow> eps' j = eps j)"
proof -
  have "m_pTcpSock c = None" "con_pending c = EE_NONE" "conn_good eps"
    using assms by (simp_all add: con_inv_def con_sock_ok_def Let_def)
  then show ?thesis
    using assms connect_ep_ready [of eps i "con_ep_ret v" "new_rup_sock\<lparr>m_hSock := os_int (con_socket v)\<rparr>"]
    by (simp add: con_step_simps)
qed

definition waiting_world :: con_obj where
  "waiting_world =
     (new_connector\<lparr>con_state := ES_CHECKING_TIMER, con_idle := [4], con_calls := [Timer_add, On_opened]\<rparr>,
      \<lambda>i. if i = 4 then (new_rup_endpoint 4 False)\<lparr>ep_state := ES_ADDED_INTO_HELPER\<rparr> else new_rup_endpoint i False)"

theorem con_connects_witness:
  "\<exists>c1 c2 c3 c4 eps eps'. on_timer con_good waiting_world = Inr (c1, eps) \<and>
     con_handle_added EIT_OUTPUT_TYPE 0 con_good (c1, eps) = Inr (c2, eps) \<and>
     con_handle_output_evt con_good (c2, eps) = Inr (c3, eps) \<and>
     con_handle_deled EIT_OUTPUT_TYPE con_good (c3, eps) = Inr (c4, eps') \<and>
     ep_state (eps' 4) = RupEndpoint.ES_ADDING_INTO_OT"
proof -
  obtain c eps where w: "waiting_world = (c, eps)" "con_state c = ES_CHECKING_TIMER" "con_idle c = [4]"
    "ep_state (eps 4) = ES_ADDED_INTO_HELPER" "con_inv (c, eps)"
    by (simp add: waiting_world_def con_inv_def con_sock_ok_def new_connector_def conn_good_def
        new_rup_endpoint_def timed_def registered_def)
  show ?thesis
    unfolding w(1) using con_connects [OF w(5,2,3,4), of con_good] by (simp, blast)
qed

text \<open>What goes wrong while a connection is being made. Closing a connector that is joining the
  output task, or is connecting, leads to \<open>ES_CLOSED\<close> with its socket object left behind:
  opened again, the first tick ends the process by the assertion that it has none, and so does
  closing it. An error while it joins the output task ends the process when it has left the
  task again; and a refused registration leaves it waiting for ever: closing it changes nothing
  but a flag.\<close>

theorem con_close_or_error_while_connecting:
  assumes "con_inv (c, eps)" and "con_ret v \<ge> 0" and "0 < ui64Val v" and "con_idle c \<noteq> []"
  shows "(con_state c = ES_CONNECTING \<longrightarrow> (\<exists>c1 c2 c3 c4 c5. con_close v (c, eps) = Inr (0, (c1, eps)) \<and>
      con_handle_deled EIT_OUTPUT_TYPE v (c1, eps) = Inr (c2, eps) \<and>
      handle_del_from_timer_task v (c2, eps) = Inr (c3, eps) \<and> con_state c3 = ES_CLOSED \<and>
      m_pTcpSock c3 \<noteq> None \<and> con_open v (c3, eps) = Inr (0, (c4, eps)) \<and>
      handle_add_into_timer_task v (c4, eps) = Inr (c5, eps) \<and> con_state c5 = ES_CHECKING_TIMER \<and>
      on_timer v (c5, eps) = Inl Assert_failed \<and> con_close v (c5, eps) = Inl Assert_failed)) \<and>
    (con_state c = ES_ADDING_INTO_OT \<longrightarrow> (\<exists>c1 c2 c3. con_handle_io_error v (c, eps) = Inr (c1, eps) \<and>
      con_handle_added EIT_OUTPUT_TYPE 0 v (c1, eps) = Inr (c2, eps) \<and>
      con_handle_deled EIT_OUTPUT_TYPE v (c2, eps) = Inl Assert_failed \<and>
      con_handle_added EIT_OUTPUT_TYPE (-1) v (c, eps) = Inr (c1, eps) \<and> con_state c1 = ES_ADDING_INTO_OT \<and>
      con_close v (c1, eps) = Inr (0, (c3, eps)) \<and> c3 = c1\<lparr>con_pending := EE_CLOSE\<rparr>))"
proof (intro conjI impI)
  assume "con_state c = ES_CONNECTING"
  moreover from this obtain k where "m_pTcpSock c = Some k"
    using assms(1) by (auto simp: con_inv_def con_sock_ok_def)
  ultimately show "\<exists>c1 c2 c3 c4 c5. con_close v (c, eps) = Inr (0, (c1, eps)) \<and>
      con_handle_deled EIT_OUTPUT_TYPE v (c1, eps) = Inr (c2, eps) \<and>
      handle_del_from_timer_task v (c2, eps) = Inr (c3, eps) \<and> con_state c3 = ES_CLOSED \<and>
      m_pTcpSock c3 \<noteq> None \<and> con_open v (c3, eps) = Inr (0, (c4, eps)) \<and>
      handle_add_into_timer_task v (c4, eps) = Inr (c5, eps) \<and> con_state c5 = ES_CHECKING_TIMER \<and>
      on_timer v (c5, eps) = Inl Assert_failed \<and> con_close v (c5, eps) = Inl Assert_failed"
    using assms by (simp add: con_step_simps)
next
  assume "con_state c = ES_ADDING_INTO_OT"
  moreover from this obtain k where "m_pTcpSock c = Some k"
    using assms(1) by (auto simp: con_inv_def con_sock_ok_def)
  ultimately show "\<exists>c1 c2 c3. con_handle_io_error v (c, eps) = Inr (c1, eps) \<and>
      con_handle_added EIT_OUTPUT_TYPE 0 v (c1, eps) = Inr (c2, eps) \<and>
      con_handle_deled EIT_OUTPUT_TYPE v (c2, eps) = Inl Assert_failed \<and>
      con_handle_added EIT_OUTPUT_TYPE (-1) v (c, eps) = Inr (c1, eps) \<and> con_state c1 = ES_ADDING_INTO_OT \<and>
      con_close v (c1, eps) = Inr (0, (c3, eps)) \<and> c3 = c1\<lparr>con_pending := EE_CLOSE\<rparr>"
    using assms by (simp add: con_step_simps)
qed

theorem con_close_or_error_while_connecting_witness:
  "\<exists>c eps c1 c2. con_handle_io_error con_good (c, eps) = Inr (c1, eps) \<and>
     con_handle_added EIT_OUTPUT_TYPE 0 con_good (c1, eps) = Inr (c2, eps) \<and>
     con_handle_deled EIT_OUTPUT_TYPE con_good (c2, eps) = Inl Assert_failed"
proof -
  obtain c eps where w: "con_state c = ES_ADDING_INTO_OT" "con_idle c \<noteq> []" "con_inv (c, eps)"
  proof -
    let ?c = "(fst waiting_world)\<lparr>con_state := ES_ADDING_INTO_OT, m_pTcpSock := Some (new_rup_sock\<lparr>m_hSock := 5\<rparr>),
      con_calls := [Timer_add, On_opened, Engine_add EIT_OUTPUT_TYPE]\<rparr>"
    show thesis
      by (rule that [of ?c "snd waiting_world"])
        (simp_all add: waiting_world_def con_inv_def con_sock_ok_def new_connector_def conn_good_def
          new_rup_endpoint_def timed_def registered_def)
  qed
  then show ?thesis
    using con_close_or_error_while_connecting [OF w(3), of con_good] by auto
qed

end
