(* ===== verification/EngineTimers.thy ===== *)
theory EngineTimers
  imports Engine RupConnector
begin

text \<open>
  The engine's timers (\<open>framework/sn_engine.cpp\<close>, \<open>sn_misc_task.cpp\<close>, \<open>sn_time_notifier.cpp\<close>)
  and the connectors that use them (\<open>smart_net/sn_endpoint_impl.cpp\<close>) together: what a
  connector's handlers ask of the engine is performed on it, and the thread of the timers calls
  the connectors' handlers. The contract \<open>timer_client\<close> of \<open>Timer\<close> is interpreted on them.
\<close>

section \<open>The world\<close>

record tnet =
  tn_eng :: CSNEngine
  tn_timers :: "nat \<Rightarrow> ITimerObj"
  tn_cons :: "nat \<Rightarrow> CRupConnector"
  tn_eps :: "nat \<Rightarrow> CRupEndpoint"

text \<open>A connector sets its interval right before it is added.\<close>

definition timer_request :: "nat \<Rightarrow> ep_call \<Rightarrow> tnet \<Rightarrow> tnet res" where
  "timer_request p c w =
     (case c of
        Timer_add \<Rightarrow>
          bindr (eng_add_timer (Some p) (tn_eng w)) (\<lambda>(code, t).
          Inr (w\<lparr>tn_eng := t,
                 tn_timers := (tn_timers w)(p := set_interval (m_ui64Interval (tn_cons w p)) (tn_timers w p))\<rparr>))
      | Timer_del \<Rightarrow> bindr (eng_del_timer (Some p) (tn_eng w)) (\<lambda>(code, t). Inr (w\<lparr>tn_eng := t\<rparr>))
      | _ \<Rightarrow> Inr w)"

definition con_run :: "nat \<Rightarrow> (con_obj \<Rightarrow> con_obj res) \<Rightarrow> tnet \<Rightarrow> tnet res" where
  "con_run p f w =
     bindr (f (tn_cons w p, tn_eps w)) (\<lambda>(c, eps).
     for_each (timer_request p) (drop (length (con_calls (tn_cons w p))) (con_calls c))
       (w\<lparr>tn_cons := (tn_cons w)(p := c), tn_eps := eps\<rparr>))"

text \<open>The virtual functions of \<open>ITimerObj\<close>, as \<open>CRupConnector\<close> has them.\<close>

definition con_timer_callback :: "timer_call \<Rightarrow> con_arg \<Rightarrow> con_obj \<Rightarrow> con_obj res" where
  "con_timer_callback c v =
     (case c of
        Add_into_timer_task \<Rightarrow> handle_add_into_timer_task v
      | Del_from_timer_task \<Rightarrow> handle_del_from_timer_task v
      | On_timer \<Rightarrow> on_timer v)"

definition notifier_of :: "CSNEngine \<Rightarrow> CTimeNotifier" where
  "notifier_of t = the (m_pTimeNotifier (the (m_pMiscTask t)))"

definition with_notifier :: "CTimeNotifier \<Rightarrow> CSNEngine \<Rightarrow> CSNEngine" where
  "with_notifier n t = t\<lparr>m_pMiscTask := Some ((the (m_pMiscTask t))\<lparr>m_pTimeNotifier := Some n\<rparr>)\<rparr>"

definition con_timers :: "(nat \<Rightarrow> tnet \<Rightarrow> con_arg) \<Rightarrow> tnet timer_objs" where
  "con_timers env =
     \<lparr>the_notifier = (\<lambda>w. notifier_of (tn_eng w)),
      set_notifier = (\<lambda>n w. w\<lparr>tn_eng := with_notifier n (tn_eng w)\<rparr>),
      timer_of = (\<lambda>p w. tn_timers w p),
      set_timer = (\<lambda>p x w. w\<lparr>tn_timers := (tn_timers w)(p := x)\<rparr>),
      timer_callback = (\<lambda>c p w. con_run p (con_timer_callback c (env p w)) w)\<rparr>"

definition timers_exec :: "(nat \<Rightarrow> tnet \<Rightarrow> con_arg) \<Rightarrow> u64 \<Rightarrow> tnet \<Rightarrow> tnet res" where
  "timers_exec env now w = time_notifier_exec (con_timers env) now w"

text \<open>What else reaches a connector: the application, and its output task.\<close>

datatype con_event = Con_open | Con_close | Con_added | Con_output | Con_error | Con_deled

fun con_entry :: "con_event \<Rightarrow> con_arg \<Rightarrow> con_obj \<Rightarrow> con_obj res" where
  "con_entry Con_open v x = bindr (con_open v x) (\<lambda>(code, x). Inr x)"
| "con_entry Con_close v x = bindr (con_close v x) (\<lambda>(code, x). Inr x)"
| "con_entry Con_added v x = con_handle_added EIT_OUTPUT_TYPE CMNERR_SUC v x"
| "con_entry Con_output v x = con_handle_output_evt v x"
| "con_entry Con_error v x = con_handle_io_error v x"
| "con_entry Con_deled v x = con_handle_deled EIT_OUTPUT_TYPE v x"

section \<open>Phases\<close>

definition con_phase :: "int \<Rightarrow> io_phase" where
  "con_phase s =
     (if s = ES_ADDING_INTO_TT then Adding else if s = ES_DELING_FROM_TT then Deling
      else if s = ES_CLOSED then Out else Inside)"

definition timer_phase :: "nat \<Rightarrow> tnet \<Rightarrow> io_phase" where
  "timer_phase p w = con_phase (con_state (tn_cons w p))"

definition timer_running :: "CSNEngine \<Rightarrow> bool" where
  "timer_running t \<longleftrightarrow> (\<exists>m n. m_pMiscTask t = Some m \<and> m_pTimeNotifier m = Some n)"

definition con_arg_ok :: "con_arg \<Rightarrow> bool" where
  "con_arg_ok v \<longleftrightarrow> 0 \<le> con_ret v \<and> 0 \<le> con_ep_ret v \<and> 0 < ui64Val v \<and> os_int (con_socket v) > -1"

definition con_env_ok :: "(nat \<Rightarrow> tnet \<Rightarrow> con_arg) \<Rightarrow> bool" where
  "con_env_ok env \<longleftrightarrow> (\<forall>p w. con_arg_ok (env p w))"

definition tnet_ok :: "tnet \<Rightarrow> bool" where
  "tnet_ok w \<longleftrightarrow> timer_running (tn_eng w) \<and> finite {p. timer_phase p w \<noteq> Out} \<and>
     (\<forall>p. con_inv (tn_cons w p, tn_eps w) \<and> con_state (tn_cons w p) \<in> con_states)"

definition timers_ready :: "(nat \<Rightarrow> tnet \<Rightarrow> con_arg) \<Rightarrow> tnet \<Rightarrow> bool" where
  "timers_ready env w \<longleftrightarrow> con_env_ok env \<and> tnet_ok w"

section \<open>What the calls do\<close>

lemma notifier_simps [simp]:
  "notifier_of (with_notifier n t) = n"
  "timer_running (with_notifier n t)"
  "with_notifier n (with_notifier n' t) = with_notifier n t"
  by (simp_all add: notifier_of_def with_notifier_def timer_running_def)

fun timer_calls_fit :: "io_phase \<Rightarrow> ep_call list \<Rightarrow> io_phase \<Rightarrow> bool" where
  "timer_calls_fit b [Timer_add] b' \<longleftrightarrow> b = Out \<and> b' = Adding"
| "timer_calls_fit b [Timer_del] b' \<longleftrightarrow> b = Inside \<and> b' = Deling"
| "timer_calls_fit b [] b' \<longleftrightarrow> b' = b"
| "timer_calls_fit b [_] b' \<longleftrightarrow> b' = b"
| "timer_calls_fit b _ b' \<longleftrightarrow> False"

definition timer_done :: "io_phase \<Rightarrow> nat \<Rightarrow> tnet \<Rightarrow> tnet \<Rightarrow> bool" where
  "timer_done b p w w' \<longleftrightarrow> tn_cons w' = tn_cons w \<and> tn_eps w' = tn_eps w \<and> timer_running (tn_eng w') \<and>
     requested (timer_caches (notifier_of (tn_eng w))) ((\<lambda>q. timer_phase q w)(p := b))
       (timer_caches (notifier_of (tn_eng w'))) (\<lambda>q. timer_phase q w')"

lemma timer_requests_run:
  assumes "timer_running (tn_eng w)" and "timer_calls_fit b cs (timer_phase p w)"
  shows "\<exists>w'. for_each (timer_request p) cs w = Inr w' \<and> timer_done b p w w'"
proof -
  obtain m n where m: "m_pMiscTask (tn_eng w) = Some m" "m_pTimeNotifier m = Some n"
    using assms(1) by (auto simp: timer_running_def)
  have n: "notifier_of (tn_eng w) = n"
    using m by (simp add: notifier_of_def)
  from assms(2) consider "cs = [Timer_add]" "b = Out" "timer_phase p w = Adding"
    | "cs = [Timer_del]" "b = Inside" "timer_phase p w = Deling"
    | "timer_phase p w = b" "cs = [] \<or> (\<exists>c. cs = [c] \<and> c \<noteq> Timer_add \<and> c \<noteq> Timer_del)"
    by (cases "(b, cs, timer_phase p w)" rule: timer_calls_fit.cases) auto
  then show ?thesis
  proof cases
    case 1
    let ?n = "n\<lparr>m_vecTimerAddCache := m_vecTimerAddCache n @ [p]\<rparr>"
    let ?w = "w\<lparr>tn_eng := with_notifier ?n (tn_eng w),
        tn_timers := (tn_timers w)(p := set_interval (m_ui64Interval (tn_cons w p)) (tn_timers w p))\<rparr>"
    have run: "for_each (timer_request p) cs w = Inr ?w"
      using 1(1) m by (simp add: timer_request_def eng_add_timer_def misc_add_timer_def time_notifier_add_def with_notifier_def)
    have "(\<lambda>q. timer_phase q ?w) = ((\<lambda>q. timer_phase q w)(p := b))(p := Adding)"
      using 1(3) by (auto simp: timer_phase_def)
    then have "timer_done b p w ?w"
      using requested_add [of "(\<lambda>q. timer_phase q w)(p := b)" p "timer_caches n"] 1(2) n by (simp add: timer_done_def)
    then show ?thesis
      using run by blast
  next
    case 2
    let ?n = "n\<lparr>m_vecTimerDelCache := m_vecTimerDelCache n @ [p]\<rparr>"
    let ?w = "w\<lparr>tn_eng := with_notifier ?n (tn_eng w)\<rparr>"
    have run: "for_each (timer_request p) cs w = Inr ?w"
      using 2(1) m by (simp add: timer_request_def eng_del_timer_def misc_del_timer_def time_notifier_del_def with_notifier_def)
    have "(\<lambda>q. timer_phase q ?w) = ((\<lambda>q. timer_phase q w)(p := b))(p := Deling)"
      using 2(3) by (auto simp: timer_phase_def)
    then have "timer_done b p w ?w"
      using requested_del [of "(\<lambda>q. timer_phase q w)(p := b)" p "timer_caches n"] 2(2) n by (simp add: timer_done_def)
    then show ?thesis
      using run by blast
  next
    case 3
    have "for_each (timer_request p) cs w = Inr w"
      using 3(2) by (auto simp: timer_request_def split: ep_call.splits)
    moreover have "(\<lambda>q. timer_phase q w)(p := b) = (\<lambda>q. timer_phase q w)"
      using 3(1) by auto
    ultimately show ?thesis
      using assms(1) by (simp add: timer_done_def requested_none)
  qed
qed

section \<open>What the handlers ask for\<close>

text \<open>Where the connector stands when its handler has been told that it was added or deleted.\<close>

definition told :: "int \<Rightarrow> int \<Rightarrow> io_phase" where
  "told e s =
     (if e = EE_ADDED_INTO_TT \<and> s = ES_ADDING_INTO_TT then Inside
      else if e = EE_DELED_FROM_TT \<and> s = ES_DELING_FROM_TT then Out else con_phase s)"

lemma con_states_cases:
  assumes "s \<in> con_states"
  obtains "s = ES_CLOSED" | "s = ES_CHECKING_TIMER" | "s = ES_ADDING_INTO_OT" | "s = ES_DELING_FROM_OT_CLOSE"
    | "s = ES_ADDING_INTO_TT" | "s = ES_DELING_FROM_TT" | "s = ES_CONNECTING" | "s = ES_DELING_FROM_OT_NORMAL"
  using assms by (auto simp: con_states_def)

lemma con_post_calls:
  assumes "con_inv (c, eps)" and "con_state c \<in> con_states" and "con_ok (c, eps) e v"
    and "con_post e v (c, eps) = Inr (code, (c', eps'))"
  shows "\<exists>cs. con_calls c' = con_calls c @ cs \<and> timer_calls_fit (told e (con_state c)) cs (con_phase (con_state c'))"
  using assms(2)
  by (cases rule: con_states_cases)
    (use assms(1,3,4) in \<open>auto simp: con_step_simps told_def con_phase_def con_ok_def con_inv_def con_sock_ok_def
      Let_def elim!: bindr_InrE split: if_splits\<close>)

section \<open>A step of one connector\<close>

lemma con_ok_arg:
  assumes "con_arg_ok v" and "e = EE_OPEN \<longrightarrow> con_cur x = ES_CLOSED \<longrightarrow> m_pTcpSock (fst x) = None"
    and "e = EE_INTERNAL_ERR \<longrightarrow> con_cur x \<noteq> ES_ADDING_INTO_OT"
  shows "con_ok x e v"
  using assms by (simp add: con_ok_def con_arg_ok_def)

lemma con_run_ok:
  assumes "tnet_ok w" and "con_ok (tn_cons w p, tn_eps w) e v"
    and "f (tn_cons w p, tn_eps w) = con_post_void e v (tn_cons w p, tn_eps w)"
  shows "\<exists>w'. con_run p f w = Inr w' \<and> tnet_ok w' \<and>
    requested (timer_caches (notifier_of (tn_eng w))) ((\<lambda>q. timer_phase q w)(p := told e (con_state (tn_cons w p))))
      (timer_caches (notifier_of (tn_eng w'))) (\<lambda>q. timer_phase q w') \<and>
    (\<exists>code c eps. con_post e v (tn_cons w p, tn_eps w) = Inr (code, (c, eps)) \<and> tn_cons w' = (tn_cons w)(p := c))"
proof -
  let ?c = "tn_cons w p" and ?eps = "tn_eps w"
  have inv: "con_inv (?c, ?eps)" "con_state ?c \<in> con_states" and run0: "timer_running (tn_eng w)"
    and fin: "finite {p. timer_phase p w \<noteq> Out}"
    using assms(1) by (simp_all add: tnet_ok_def)
  have cur: "con_cur (?c, ?eps) \<in> con_states"
    using inv(2) by simp
  obtain code x where "con_post e v (?c, ?eps) = Inr (code, x)" "con_inv x" "con_cur x \<in> con_states"
    using con.post_evt_runs [OF inv(1) cur assms(2)] by (auto simp: con_post_def)
  moreover obtain c eps where "x = (c, eps)"
    by (cases x)
  ultimately have x: "con_post e v (?c, ?eps) = Inr (code, (c, eps))" "con_inv (c, eps)" "con_state c \<in> con_states"
    by simp_all
  obtain cs where cs: "con_calls c = con_calls ?c @ cs"
    "timer_calls_fit (told e (con_state ?c)) cs (con_phase (con_state c))"
    using con_post_calls [OF inv assms(2) x(1)] by blast
  let ?w = "w\<lparr>tn_cons := (tn_cons w)(p := c), tn_eps := eps\<rparr>"
  have "timer_running (tn_eng ?w)" "timer_calls_fit (told e (con_state ?c)) cs (timer_phase p ?w)"
    using run0 cs(2) by (simp_all add: timer_phase_def)
  then obtain w' where w': "for_each (timer_request p) cs ?w = Inr w'" "timer_done (told e (con_state ?c)) p ?w w'"
    using timer_requests_run by blast
  have run: "con_run p f w = Inr w'"
    using w'(1) x(1) cs(1) assms(3) by (simp add: con_run_def con_post_void_def)
  have base: "(\<lambda>q. timer_phase q ?w)(p := b) = (\<lambda>q. timer_phase q w)(p := b)" for b
    by (auto simp: timer_phase_def)
  have cons: "tn_cons w' = (tn_cons w)(p := c)" "tn_eps w' = eps"
    using w'(2) by (simp_all add: timer_done_def)
  have "{q. timer_phase q w' \<noteq> Out} \<subseteq> insert p {q. timer_phase q w \<noteq> Out}"
    using cons(1) by (auto simp: timer_phase_def)
  then have "finite {q. timer_phase q w' \<noteq> Out}"
    using fin by (meson finite_insert finite_subset)
  moreover have "con_inv (tn_cons w q, eps)" for q
    using assms(1) x(2) by (simp add: tnet_ok_def con_inv_def Let_def)
  ultimately have ok: "tnet_ok w'"
    using assms(1) x(2,3) cons w'(2) by (simp add: tnet_ok_def timer_done_def)
  show ?thesis
    using run ok w'(2) cons(1) x(1) by (simp add: timer_done_def base)
qed

section \<open>The notifier and the connectors\<close>

lemma timer_callback_post:
  "con_timer_callback Add_into_timer_task v x = con_post_void EE_ADDED_INTO_TT v x"
  "con_timer_callback Del_from_timer_task v x = con_post_void EE_DELED_FROM_TT v x"
  "con_timer_callback On_timer v x = (if con_idle (fst x) \<noteq> [] then con_post_void EE_CONNECT v x else Inr x)"
  by (simp_all add: con_timer_callback_def handle_add_into_timer_task_def handle_del_from_timer_task_def on_timer_def)

interpretation tio: timer_client "con_timers env" timer_phase "timers_ready env" for env
proof
  fix w t p q x
  show "timer_phase p (set_notifier (con_timers env) t w) = timer_phase p w"
    "timer_phase q (set_timer (con_timers env) p x w) = timer_phase q w"
    "the_notifier (con_timers env) (set_timer (con_timers env) p x w) = the_notifier (con_timers env) w"
    by (simp_all add: con_timers_def timer_phase_def)
  assume ready: "timers_ready env w"
  then have ok: "tnet_ok w" and arg: "con_arg_ok (env p1 w1)" for p1 w1
    by (simp_all add: timers_ready_def con_env_ok_def)
  have keep: "timers_ready env w'" if "tnet_ok w'" for w'
    using ready that by (simp add: timers_ready_def)
  show "the_notifier (con_timers env) (set_notifier (con_timers env) t w) = t"
    by (simp add: con_timers_def)
  show "timers_ready env (set_notifier (con_timers env) t w)"
    using ok by (intro keep) (simp add: con_timers_def tnet_ok_def timer_phase_def)
  show "timers_ready env (set_timer (con_timers env) p x w)"
    using ok by (intro keep) (simp add: con_timers_def tnet_ok_def timer_phase_def)
  show "finite {p. timer_phase p w \<noteq> Out}"
    using ok by (simp add: tnet_ok_def)
  have step: "\<exists>w'. timer_callback (con_timers env) c p w = Inr w' \<and> timers_ready env w' \<and>
      requested (timer_caches (the_notifier (con_timers env) w)) ((\<lambda>q. timer_phase q w)(p := b))
        (timer_caches (the_notifier (con_timers env) w')) (\<lambda>q. timer_phase q w')"
    if "\<And>x. con_timer_callback c (env p w) x = con_post_void e (env p w) x" "e \<noteq> EE_OPEN" "e \<noteq> EE_INTERNAL_ERR"
      "told e (con_state (tn_cons w p)) = b" for c e b
  proof -
    have "con_ok (tn_cons w p, tn_eps w) e (env p w)"
      using that(2,3) by (intro con_ok_arg arg) simp_all
    from con_run_ok [where f = "con_timer_callback c (env p w)", OF ok this that(1)] show ?thesis
      using keep that(4) by (auto simp: con_timers_def)
  qed
  show "\<exists>w'. timer_callback (con_timers env) Del_from_timer_task p w = Inr w' \<and> timers_ready env w' \<and>
      requested (timer_caches (the_notifier (con_timers env) w)) ((\<lambda>q. timer_phase q w)(p := Out))
        (timer_caches (the_notifier (con_timers env) w')) (\<lambda>q. timer_phase q w')"
    if "timer_phase p w = Deling"
    using that by (intro step [OF timer_callback_post(2)]) (auto simp: told_def timer_phase_def con_phase_def split: if_splits)
  show "\<exists>w'. timer_callback (con_timers env) Add_into_timer_task p w = Inr w' \<and> timers_ready env w' \<and>
      requested (timer_caches (the_notifier (con_timers env) w)) ((\<lambda>q. timer_phase q w)(p := Inside))
        (timer_caches (the_notifier (con_timers env) w')) (\<lambda>q. timer_phase q w')"
    if "timer_phase p w = Adding"
    using that by (intro step [OF timer_callback_post(1)]) (auto simp: told_def timer_phase_def con_phase_def split: if_splits)
  show "\<exists>w'. timer_callback (con_timers env) On_timer p w = Inr w' \<and> timers_ready env w' \<and>
      requested (timer_caches (the_notifier (con_timers env) w)) (\<lambda>q. timer_phase q w)
        (timer_caches (the_notifier (con_timers env) w')) (\<lambda>q. timer_phase q w')"
  proof (cases "con_idle (tn_cons w p) = []")
    case True
    have "w\<lparr>tn_cons := (tn_cons w)(p := tn_cons w p), tn_eps := tn_eps w\<rparr> = w"
      by simp
    then show ?thesis
      using True ready by (simp add: con_timers_def con_run_def timer_callback_post requested_none)
  next
    case False
    have told: "told EE_CONNECT (con_state (tn_cons w p)) = timer_phase p w"
      by (simp add: told_def timer_phase_def)
    have "con_ok (tn_cons w p, tn_eps w) EE_CONNECT (env p w)"
      by (intro con_ok_arg arg) simp_all
    moreover have "con_timer_callback On_timer (env p w) (tn_cons w p, tn_eps w) =
        con_post_void EE_CONNECT (env p w) (tn_cons w p, tn_eps w)"
      using False by (simp add: timer_callback_post)
    ultimately obtain w' where w': "con_run p (con_timer_callback On_timer (env p w)) w = Inr w'" "tnet_ok w'"
      "requested (timer_caches (notifier_of (tn_eng w))) ((\<lambda>q. timer_phase q w)(p := told EE_CONNECT (con_state (tn_cons w p))))
        (timer_caches (notifier_of (tn_eng w'))) (\<lambda>q. timer_phase q w')"
      using con_run_ok [where f = "con_timer_callback On_timer (env p w)" and e = EE_CONNECT and v = "env p w", OF ok] by blast
    have idem: "(\<lambda>q. timer_phase q w)(p := timer_phase p w) = (\<lambda>q. timer_phase q w)"
      by auto
    show ?thesis
      using w'(1,2) w'(3) [unfolded told idem] keep by (simp add: con_timers_def)
  qed
qed


section \<open>Runs\<close>

text \<open>A started engine and new connectors, each with its endpoints.\<close>

definition new_tnet :: "start_arg \<Rightarrow> tnet \<Rightarrow> bool" where
  "new_tnet sp w \<longleftrightarrow> start_ok sp \<and> eng_start sp new_engine = Inr (0, tn_eng w) \<and>
     (\<forall>p. tn_cons w p = new_connector) \<and> (\<forall>p. tn_timers w p = new_timer_obj) \<and> conn_good (tn_eps w)"

text \<open>
  What is proper for a connector: it is opened again only when no socket was left behind, and
  there is no error while it joins its output task.
\<close>

definition entry_ok :: "con_event \<Rightarrow> CRupConnector \<Rightarrow> bool" where
  "entry_ok ev c \<longleftrightarrow>
     (ev = Con_open \<longrightarrow> con_state c = ES_CLOSED \<longrightarrow> m_pTcpSock c = None) \<and>
     (ev = Con_error \<longrightarrow> con_state c \<noteq> ES_ADDING_INTO_OT)"

inductive tnet_steps :: "(nat \<Rightarrow> tnet \<Rightarrow> con_arg) \<Rightarrow> tnet \<Rightarrow> tnet \<Rightarrow> bool" for env where
  tnet_start: "tnet_steps env w w"
| tnet_event: "tnet_steps env w w1 \<Longrightarrow> con_arg_ok v \<Longrightarrow> entry_ok ev (tn_cons w1 p) \<Longrightarrow>
    con_run p (con_entry ev v) w1 = Inr w2 \<Longrightarrow> tnet_steps env w w2"
| tnet_idle: "tnet_steps env w w1 \<Longrightarrow>
    tnet_steps env w (w1\<lparr>tn_cons := (tn_cons w1)(p := snd (con_add_endpoint e (tn_cons w1 p)))\<rparr>)"
| tnet_round: "tnet_steps env w w1 \<Longrightarrow> timers_exec env now w1 = Inr w2 \<Longrightarrow> tnet_steps env w w2"

definition timers_linked :: "tnet \<Rightarrow> bool" where
  "timers_linked w \<longleftrightarrow> linked (timer_caches (notifier_of (tn_eng w))) (\<lambda>q. timer_phase q w) [] []"

definition tnet_inv :: "tnet \<Rightarrow> bool" where
  "tnet_inv w \<longleftrightarrow> tnet_ok w \<and> timers_linked w"

fun entry_evt :: "con_event \<Rightarrow> int" where
  "entry_evt Con_open = EE_OPEN"
| "entry_evt Con_close = EE_CLOSE"
| "entry_evt Con_added = EE_ADDED_INTO_OT"
| "entry_evt Con_output = EE_CONNECTED"
| "entry_evt Con_error = EE_INTERNAL_ERR"
| "entry_evt Con_deled = EE_DELED_FROM_OT"

lemma con_entry_post: "con_entry ev v x = con_post_void (entry_evt ev) v x"
  by (cases ev) (simp_all add: con_open_def con_close_def con_handle_added_def con_handle_output_evt_def
      con_handle_io_error_def con_handle_deled_def con_post_void_def)

lemma entry_runs:
  assumes "tnet_inv w" and "con_arg_ok v" and "entry_ok ev (tn_cons w p)"
  shows "\<exists>w'. con_run p (con_entry ev v) w = Inr w' \<and> tnet_inv w'"
proof -
  have ok: "tnet_ok w" "timers_linked w"
    using assms(1) by (simp_all add: tnet_inv_def)
  have "con_ok (tn_cons w p, tn_eps w) (entry_evt ev) v"
    using assms(2,3) by (cases ev) (auto simp: entry_ok_def intro!: con_ok_arg)
  from con_run_ok [where f = "con_entry ev v", OF ok(1) this con_entry_post] obtain w' where
    w': "con_run p (con_entry ev v) w = Inr w'" "tnet_ok w'"
    "requested (timer_caches (notifier_of (tn_eng w)))
       ((\<lambda>q. timer_phase q w)(p := told (entry_evt ev) (con_state (tn_cons w p))))
       (timer_caches (notifier_of (tn_eng w'))) (\<lambda>q. timer_phase q w')"
    by blast
  have "told (entry_evt ev) (con_state (tn_cons w p)) = timer_phase p w"
    by (cases ev) (simp_all add: told_def timer_phase_def)
  then have "(\<lambda>q. timer_phase q w)(p := told (entry_evt ev) (con_state (tn_cons w p))) = (\<lambda>q. timer_phase q w)"
    by auto
  then have "timers_linked w'"
    using requested_linked [OF w'(3)] ok(2) by (simp add: timers_linked_def)
  then show ?thesis
    using w'(1,2) by (simp add: tnet_inv_def)
qed

lemma round_runs:
  assumes "tnet_inv w" and "con_env_ok env"
  shows "\<exists>w'. timers_exec env now w = Inr w' \<and> tnet_inv w' \<and>
    (\<forall>q. timer_phase q w = Adding \<longrightarrow> timer_phase q w' = Inside \<or> timer_phase q w' = Deling)"
proof -
  have ready: "timers_ready env w" "linked (timer_caches (the_notifier (con_timers env) w)) (\<lambda>q. timer_phase q w) [] []"
    using assms by (simp_all add: timers_ready_def tnet_inv_def timers_linked_def con_timers_def)
  show ?thesis
    using tio.exec_ok [OF ready, of now]
    by (auto simp: timers_exec_def timers_ready_def tnet_inv_def timers_linked_def con_timers_def)
qed

lemma idle_inv:
  assumes "tnet_inv w"
  shows "tnet_inv (w\<lparr>tn_cons := (tn_cons w)(p := snd (con_add_endpoint e (tn_cons w p)))\<rparr>)"
proof -
  have same: "con_state (snd (con_add_endpoint e c)) = con_state c" "con_inv (snd (con_add_endpoint e c), eps) = con_inv (c, eps)"
    for c eps
    by (simp_all add: con_add_endpoint_def pool_add_def con_inv_def Let_def)
  have "timer_phase q (w\<lparr>tn_cons := (tn_cons w)(p := snd (con_add_endpoint e (tn_cons w p)))\<rparr>) = timer_phase q w" for q
    by (simp add: timer_phase_def same)
  then show ?thesis
    using assms by (simp add: tnet_inv_def tnet_ok_def timers_linked_def same)
qed

lemma tnet_steps_inv:
  assumes "tnet_steps env w0 w" and "con_env_ok env" and "tnet_inv w0"
  shows "tnet_inv w"
  using assms
proof (induction rule: tnet_steps.induct)
  case (tnet_event w w1 v ev p w2)
  then show ?case
    using entry_runs [of w1 v ev p] by auto
next
  case (tnet_idle w w1 p e)
  then show ?case
    using idle_inv by blast
next
  case (tnet_round w w1 now w2)
  then show ?case
    using round_runs [of w1 env now] by auto
qed

lemma new_tnet_inv:
  assumes "new_tnet sp w"
  shows "tnet_inv w"
proof -
  have e: "tn_eng w = started_engine sp" and sp: "start_ok sp"
    using assms eng_start_new [of sp] by (auto simp: new_tnet_def)
  have out: "timer_phase p w = Out" for p
    using assms by (simp add: new_tnet_def timer_phase_def con_phase_def new_connector_def)
  have "con_inv (tn_cons w p, tn_eps w) \<and> con_state (tn_cons w p) \<in> con_states" for p
    using new_connector_good [of "tn_eps w"] assms by (simp add: new_tnet_def)
  then show ?thesis
    using out e by (simp add: tnet_inv_def tnet_ok_def timers_linked_def linked_def timer_running_def notifier_of_def
        started_engine_def Let_def new_time_notifier_def new_misc_task_def)
qed

section \<open>Properties\<close>


section \<open>A tick\<close>

text \<open>A connector is touched only by its own handlers.\<close>

definition same_at :: "nat \<Rightarrow> tnet \<Rightarrow> tnet \<Rightarrow> bool" where
  "same_at p w w' \<longleftrightarrow> tn_cons w' p = tn_cons w p \<and> tn_timers w' p = tn_timers w p"

lemma same_at_refl [simp]: "same_at p w w"
  by (simp add: same_at_def)

lemma same_at_trans: "same_at p w w1 \<Longrightarrow> same_at p w1 w2 \<Longrightarrow> same_at p w w2"
  by (simp add: same_at_def)

lemma timer_request_same: "timer_request q c w = Inr w' \<Longrightarrow> tn_cons w' = tn_cons w \<and> (q \<noteq> p \<longrightarrow> same_at p w w')"
  by (auto simp: timer_request_def same_at_def elim!: bindr_InrE split: ep_call.splits)

lemma for_each_same:
  assumes "\<And>x w w'. x \<in> set xs \<Longrightarrow> body x w = Inr w' \<Longrightarrow> same_at p w w'" and "for_each body xs w = Inr w'"
  shows "same_at p w w'"
proof -
  have "case for_each body xs w of Inl f \<Rightarrow> True | Inr w' \<Rightarrow> set [] \<subseteq> set xs \<and> same_at p w w'"
  proof (rule for_each_inv [where P = "\<lambda>rest w'. set rest \<subseteq> set xs \<and> same_at p w w'" and may_halt = "\<lambda>f. True"])
    show "case body x w1 of Inl f \<Rightarrow> True | Inr w2 \<Rightarrow> set rest \<subseteq> set xs \<and> same_at p w w2"
      if "set (x # rest) \<subseteq> set xs \<and> same_at p w w1" for x rest w1
      using that assms(1) [of x w1] same_at_trans by (auto split: sum.splits)
  qed simp
  then show ?thesis
    using assms(2) by simp
qed

lemma con_run_same:
  assumes "con_run q f w = Inr w'" and "q \<noteq> p"
  shows "same_at p w w'"
proof -
  obtain c eps cs where run: "for_each (timer_request q) cs (w\<lparr>tn_cons := (tn_cons w)(q := c), tn_eps := eps\<rparr>) = Inr w'"
    using assms(1) by (auto simp: con_run_def elim!: bindr_InrE)
  have "same_at p (w\<lparr>tn_cons := (tn_cons w)(q := c), tn_eps := eps\<rparr>) w'"
    using timer_request_same assms(2) by (intro for_each_same [OF _ run]) blast
  then show ?thesis
    using assms(2) by (simp add: same_at_def)
qed

lemma rounds_same:
  assumes "q \<noteq> p"
  shows "timer_del_round (con_timers env) q w = Inr w' \<Longrightarrow> same_at p w w'"
    and "timer_add_round (con_timers env) q w = Inr w' \<Longrightarrow> same_at p w w'"
    and "timer_check_round (con_timers env) now q w = Inr w' \<Longrightarrow> same_at p w w'"
proof -
  have told: "same_at p w w'" if "con_run q f (w\<lparr>tn_eng := t\<rparr>) = Inr w'" for f t
    using con_run_same [OF that assms] by (simp add: same_at_def)
  show "timer_del_round (con_timers env) q w = Inr w' \<Longrightarrow> same_at p w w'"
    "timer_add_round (con_timers env) q w = Inr w' \<Longrightarrow> same_at p w w'"
    using told by (auto simp: timer_del_round_def timer_add_round_def con_timers_def Let_def elim!: bindr_InrE)
  have ticked: "same_at p w w'" if "con_run q f (w\<lparr>tn_timers := (tn_timers w)(q := x)\<rparr>) = Inr w'" for f x
    using con_run_same [OF that assms] assms by (simp add: same_at_def)
  show "timer_check_round (con_timers env) now q w = Inr w' \<Longrightarrow> same_at p w w'"
    using ticked by (auto simp: timer_check_round_def con_timers_def split: prod.splits if_splits)
qed


lemma loops_same:
  assumes "p \<notin> set xs"
  shows "for_each (timer_del_round (con_timers env)) xs w = Inr w' \<Longrightarrow> same_at p w w'"
    and "for_each (timer_add_round (con_timers env)) xs w = Inr w' \<Longrightarrow> same_at p w w'"
    and "for_each (timer_check_round (con_timers env) now) xs w = Inr w' \<Longrightarrow> same_at p w w'"
proof -
  have other: "q \<noteq> p" if "q \<in> set xs" for q
    using assms that by auto
  show "for_each (timer_del_round (con_timers env)) xs w = Inr w' \<Longrightarrow> same_at p w w'"
    by (rule for_each_same) (rule rounds_same(1) [OF other])
  show "for_each (timer_add_round (con_timers env)) xs w = Inr w' \<Longrightarrow> same_at p w w'"
    by (rule for_each_same) (rule rounds_same(2) [OF other])
  show "for_each (timer_check_round (con_timers env) now) xs w = Inr w' \<Longrightarrow> same_at p w w'"
    by (rule for_each_same) (rule rounds_same(3) [OF other])
qed

lemma phases_same:
  "timer_del_phase (con_timers env) w = Inr w' \<Longrightarrow> p \<notin> set (m_vecTimerDelCache (notifier_of (tn_eng w))) \<Longrightarrow> same_at p w w'"
  "timer_add_phase (con_timers env) w = Inr w' \<Longrightarrow> p \<notin> set (m_vecTimerAddCache (notifier_of (tn_eng w))) \<Longrightarrow> same_at p w w'"
proof -
  let ?set = "\<lambda>n. w\<lparr>tn_eng := with_notifier n (tn_eng w)\<rparr>"
  have eng: "same_at p (?set n) w' \<Longrightarrow> same_at p w w'" for n
    by (simp add: same_at_def)
  have names: "the_notifier (con_timers env) w = notifier_of (tn_eng w)" "set_notifier (con_timers env) n w = ?set n" for n
    by (simp_all add: con_timers_def)
  show "timer_del_phase (con_timers env) w = Inr w' \<Longrightarrow> p \<notin> set (m_vecTimerDelCache (notifier_of (tn_eng w))) \<Longrightarrow> same_at p w w'"
    unfolding timer_del_phase_def Let_def names by (auto split: if_splits dest!: loops_same(1) intro: eng)
  show "timer_add_phase (con_timers env) w = Inr w' \<Longrightarrow> p \<notin> set (m_vecTimerAddCache (notifier_of (tn_eng w))) \<Longrightarrow> same_at p w w'"
    unfolding timer_add_phase_def Let_def names by (auto split: if_splits dest!: loops_same(2) intro: eng)
qed

lemma tick_run:
  assumes "con_inv (tn_cons w p, tn_eps w)" and "con_state (tn_cons w p) = ES_CHECKING_TIMER" and "con_idle (tn_cons w p) \<noteq> []"
    and "timer_check now (tn_timers w p) = (True, x)" and "con_env_ok env"
    and "timer_check_round (con_timers env) now p w = Inr w'"
  shows "con_state (tn_cons w' p) = ES_ADDING_INTO_OT \<and>
    (\<exists>k. m_pTcpSock (tn_cons w' p) = Some k \<and> rup_is_opened k) \<and>
    con_calls (tn_cons w' p) = con_calls (tn_cons w p) @ [Engine_add EIT_OUTPUT_TYPE] \<and> tn_timers w' p = x"
proof -
  let ?w = "w\<lparr>tn_timers := (tn_timers w)(p := x)\<rparr>" and ?v = "\<lambda>w. env p w"
  have arg: "0 \<le> con_ret (?v ?w)" "os_int (con_socket (?v ?w)) > -1"
    using assms(5) by (simp_all add: con_env_ok_def con_arg_ok_def)
  have sock: "m_pTcpSock (tn_cons w p) = None"
    using assms(1,2) by (simp add: con_inv_def con_sock_ok_def Let_def)
  have "con_run p (con_timer_callback On_timer (?v ?w)) ?w = Inr w'"
    using assms(4,6) by (simp add: timer_check_round_def con_timers_def)
  then have run: "con_run p (con_post_void EE_CONNECT (?v ?w)) ?w = Inr w'"
    using assms(3) by (simp add: con_run_def timer_callback_post)
  then show ?thesis
    using assms(2) sock arg by (auto simp: con_run_def con_step_simps Let_def timer_request_def)
qed

lemma ready_inv:
  assumes "timers_ready env w"
  shows "con_inv (tn_cons w p, tn_eps w)" and "con_env_ok env"
  using assms by (simp_all add: timers_ready_def tnet_ok_def)

text \<open>A tick connects. Whatever has happened before, when a round of the timers finds a connector
  that is open, whose timer is due and which has an endpoint waiting, then after the round the
  connector has an open socket, is joining an output task to learn the outcome, and its timer
  counts from this round; no other connector's handlers in the round have disturbed that.\<close>

theorem con_tick_connects:
  assumes "new_tnet sp w0" and "con_env_ok env" and "tnet_steps env w0 w"
    and "con_state (tn_cons w p) = ES_CHECKING_TIMER" and "con_idle (tn_cons w p) \<noteq> []"
    and "timer_check now (tn_timers w p) = (True, x)" and "timers_exec env now w = Inr w'"
  shows "con_state (tn_cons w' p) = ES_ADDING_INTO_OT \<and>
    (\<exists>k. m_pTcpSock (tn_cons w' p) = Some k \<and> rup_is_opened k) \<and>
    con_calls (tn_cons w' p) = con_calls (tn_cons w p) @ [Engine_add EIT_OUTPUT_TYPE] \<and> tn_timers w' p = x"
proof -
  let ?V = "con_timers env"
  have inv: "tnet_inv w"
    by (rule tnet_steps_inv [OF assms(3,2) new_tnet_inv [OF assms(1)]])
  have ready: "timers_ready env w" "linked (timer_caches (the_notifier ?V w)) (\<lambda>q. timer_phase q w) [] []"
    using inv assms(2) by (simp_all add: timers_ready_def tnet_inv_def timers_linked_def con_timers_def)
  have inside: "timer_phase p u = Inside" if "same_at p w u" for u
    using that assms(4) by (simp add: same_at_def timer_phase_def con_phase_def)
  have name: "the_notifier ?V u = notifier_of (tn_eng u)" for u
    by (simp add: con_timers_def)
  obtain w1 where w1: "timer_del_phase ?V w = Inr w1" "timers_ready env w1"
    "linked (timer_caches (the_notifier ?V w1)) (\<lambda>q. timer_phase q w1) [] []"
    using tio.del_phase_ok [OF ready] by blast
  obtain w2 where w2: "timer_add_phase ?V w1 = Inr w2" "timers_ready env w2"
    "linked (timer_caches (the_notifier ?V w2)) (\<lambda>q. timer_phase q w2) [] []"
    using tio.add_phase_ok [OF w1(2,3)] by blast
  have "p \<notin> set (m_vecTimerDelCache (notifier_of (tn_eng w)))"
    using ready(2) inside [of w] by (auto simp: linked_def name)
  then have same1: "same_at p w w1"
    by (rule phases_same(1) [OF w1(1)])
  have "p \<notin> set (m_vecTimerAddCache (notifier_of (tn_eng w1)))"
    using w1(3) inside [OF same1] by (auto simp: linked_def name)
  then have "same_at p w1 w2"
    by (rule phases_same(2) [OF w2(1)])
  then have same2: "same_at p w w2"
    by (rule same_at_trans [OF same1])
  let ?S = "m_setTimers (the_notifier ?V w2)"
  have S: "?S = {q. timer_phase q w2 = Inside \<or> timer_phase q w2 = Deling}"
    using w2(3) by (simp add: linked_def)
  have fin: "finite ?S"
    unfolding S by (rule finite_subset [OF _ tio.some_in [OF w2(2)]]) auto
  have "p \<in> set (sorted_list_of_set ?S)"
    using fin S inside [OF same2] by simp
  then obtain as bs where ps: "sorted_list_of_set ?S = as @ p # bs" "p \<notin> set as"
    by (meson split_list_first)
  moreover have "distinct (sorted_list_of_set ?S)"
    by simp
  ultimately have not_after: "p \<notin> set bs"
    by simp
  have "for_each (timer_check_round ?V now) (as @ p # bs) w2 = Inr w'"
    using assms(7) w1(1) w2(1) ps(1) by (simp add: timers_exec_def time_notifier_exec_def)
  then obtain w3 w4 where w3: "for_each (timer_check_round ?V now) as w2 = Inr w3"
    and w4: "timer_check_round ?V now p w3 = Inr w4" and last: "for_each (timer_check_round ?V now) bs w4 = Inr w'"
    by (auto simp: for_each_append elim!: bindr_InrE)
  have "same_at p w2 w3"
    by (rule loops_same(3) [OF ps(2) w3])
  then have at3: "tn_cons w3 p = tn_cons w p" "tn_timers w3 p = tn_timers w p"
    using same2 by (simp_all add: same_at_def)
  have "\<forall>q \<in> set as. timer_phase q w2 = Inside \<or> timer_phase q w2 = Deling"
  proof -
    have "set as \<subseteq> ?S"
      using arg_cong [OF ps(1), of set] fin by auto
    then show ?thesis
      using S by blast
  qed
  then have "timers_ready env w3"
    using tio.checks_ok [OF w2(2,3), of as now] w3 by auto
  then have "con_inv (tn_cons w3 p, tn_eps w3)"
    by (rule ready_inv)
  from tick_run [OF this _ _ _ assms(2) w4, of x]
  have done4: "con_state (tn_cons w4 p) = ES_ADDING_INTO_OT \<and>
    (\<exists>k. m_pTcpSock (tn_cons w4 p) = Some k \<and> rup_is_opened k) \<and>
    con_calls (tn_cons w4 p) = con_calls (tn_cons w p) @ [Engine_add EIT_OUTPUT_TYPE] \<and> tn_timers w4 p = x"
    using assms(4-6) at3 by simp
  have "same_at p w4 w'"
    by (rule loops_same(3) [OF not_after last])
  then show ?thesis
    using done4 by (simp add: same_at_def)
qed

section \<open>An example\<close>

definition demo_tnet :: tnet where
  "demo_tnet = \<lparr>tn_eng = started_engine demo_start, tn_timers = (\<lambda>p. new_timer_obj), tn_cons = (\<lambda>p. new_connector),
     tn_eps = (\<lambda>p. new_rup_endpoint p False)\<rparr>"

lemma demo_tnet_new: "new_tnet demo_start demo_tnet"
  using eng_start_new [OF demo_start_ok] demo_start_ok
  by (simp add: new_tnet_def demo_tnet_def conn_good_def new_rup_endpoint_def)

lemma demo_timer_env_ok: "con_env_ok (\<lambda>p w. con_good)"
  by (simp add: con_env_ok_def con_arg_ok_def)

text \<open>Connector 3 is opened and joins the timers at time 40; then endpoint 7 waits for a connection.\<close>

definition demo_timed :: tnet where
  "demo_timed =
     (let c = new_connector\<lparr>con_state := ES_CHECKING_TIMER, m_strAcceptorIp := ''127.0.0.1'', m_ui16AcceptorPort := 80,
        m_ui64Interval := 1000, con_calls := [Timer_add, On_opened]\<rparr> in
      demo_tnet\<lparr>tn_eng := with_notifier (new_time_notifier\<lparr>m_setTimers := {3}\<rparr>) (tn_eng demo_tnet),
        tn_timers := (tn_timers demo_tnet)(3 := \<lparr>m_ui64LastTime = 40, m_ui64Interval = 1000\<rparr>),
        tn_cons := (tn_cons demo_tnet)(3 := c)\<rparr>)"

lemma demo_notifier: "m_pMiscTask (tn_eng demo_tnet) = Some (new_misc_task\<lparr>m_pTimeNotifier := Some new_time_notifier\<rparr>)"
  by (simp add: demo_tnet_def started_engine_def Let_def)

lemma demo_timer_joined:
  obtains w1 where "con_run 3 (con_entry Con_open con_good) demo_tnet = Inr w1"
    and "timers_exec (\<lambda>p w. con_good) 40 w1 = Inr demo_timed"
proof -
  let ?c = "new_connector\<lparr>con_state := ES_ADDING_INTO_TT, m_strAcceptorIp := ''127.0.0.1'', m_ui16AcceptorPort := 80,
        m_ui64Interval := 1000, con_calls := [Timer_add]\<rparr>"
  let ?w1 = "demo_tnet\<lparr>tn_eng := with_notifier (new_time_notifier\<lparr>m_vecTimerAddCache := [3]\<rparr>) (tn_eng demo_tnet),
        tn_timers := (tn_timers demo_tnet)(3 := set_interval 1000 new_timer_obj),
        tn_cons := (tn_cons demo_tnet)(3 := ?c)\<rparr>"
  have "con_run 3 (con_entry Con_open con_good) demo_tnet = Inr ?w1"
    using demo_notifier
    by (simp add: con_run_def con_step_simps demo_tnet_def new_connector_def con_good_def con_set_cur_def con_call_def
      timer_request_def eng_add_timer_def misc_add_timer_def time_notifier_add_def with_notifier_def new_time_notifier_def
      set_interval_def new_timer_obj_def)
  moreover have "timers_exec (\<lambda>p w. con_good) 40 ?w1 = Inr demo_timed"
    by (simp add: timers_exec_def time_notifier_exec_def timer_del_phase_def timer_add_phase_def con_timers_def
      timer_add_round_def timer_check_round_def timer_check_def con_run_def con_timer_callback_def con_step_simps
      new_time_notifier_def new_connector_def con_set_cur_def con_call_def timer_request_def set_interval_def
      new_timer_obj_def demo_timed_def Let_def)
  ultimately show ?thesis
    using that by blast
qed


lemma demo_timed_steps: "tnet_steps (\<lambda>p w. con_good) demo_tnet demo_timed"
proof -
  obtain w1 where w1: "con_run 3 (con_entry Con_open con_good) demo_tnet = Inr w1"
    "timers_exec (\<lambda>p w. con_good) 40 w1 = Inr demo_timed"
    by (rule demo_timer_joined)
  have "con_arg_ok con_good" "entry_ok Con_open (tn_cons demo_tnet 3)"
    by (simp_all add: con_arg_ok_def entry_ok_def demo_tnet_def new_connector_def)
  from tnet_event [OF tnet_start this w1(1)] w1(2) show ?thesis
    by (rule tnet_round)
qed


theorem con_tick_connects_witness:
  "\<exists>w w'. con_state (tn_cons w 3) = ES_CHECKING_TIMER \<and> timers_exec (\<lambda>p w. con_good) 2000 w = Inr w' \<and>
     con_state (tn_cons w' 3) = ES_ADDING_INTO_OT \<and> tn_timers w' 3 = \<lparr>m_ui64LastTime = 2000, m_ui64Interval = 1000\<rparr>"
proof -
  let ?w = "demo_timed\<lparr>tn_cons := (tn_cons demo_timed)(3 := snd (con_add_endpoint 7 (tn_cons demo_timed 3)))\<rparr>"
  have steps: "tnet_steps (\<lambda>p w. con_good) demo_tnet ?w"
    by (rule tnet_idle [OF demo_timed_steps])
  have at: "con_state (tn_cons ?w 3) = ES_CHECKING_TIMER" "con_idle (tn_cons ?w 3) \<noteq> []"
    by (simp_all add: demo_timed_def con_add_endpoint_def pool_add_def Let_def)
  have due: "timer_check 2000 (tn_timers ?w 3) = (True, \<lparr>m_ui64LastTime = 2000, m_ui64Interval = 1000\<rparr>)"
    by (simp add: demo_timed_def timer_check_def)
  have "tnet_inv ?w"
    by (rule tnet_steps_inv [OF steps demo_timer_env_ok new_tnet_inv [OF demo_tnet_new]])
  then obtain w' where "timers_exec (\<lambda>p w. con_good) 2000 ?w = Inr w'"
    using round_runs [OF _ demo_timer_env_ok] by blast
  from con_tick_connects [OF demo_tnet_new demo_timer_env_ok steps at due this] this at(1) show ?thesis
    by blast
qed

end
