(* ===== verification/SmartPtr.thy ===== *)
theory SmartPtr
  imports ErrInfo
begin

text \<open>
  \<open>CSmartPtr\<close> of \<open>libcomm_utils/src/utils/smart_ptr.h\<close> with the reference counts of
  \<open>ICommonBase\<close> (\<open>common/base.h\<close>, \<open>utils/atomic.h\<close>): every endpoint, task and block of the
  program is held by such pointers. An object is known by its address; a pointer is a variable
  or a member of an object. The object's destructor destroys its members, which may end the
  lives of further objects; this is a list of what is still to be done.
\<close>

section \<open>Objects and pointers\<close>

text \<open>\<open>obj_ptrs\<close> are the smart pointers among the members, \<open>None\<close> is a null pointer.\<close>

record ref_obj =
  m_iCnt :: u32
  obj_ptrs :: "nat option list"

record pheap =
  objects :: "ref_obj option list"
  ptr_vars :: "nat option list"

definition atomic_exchange_and_add :: "u32 \<Rightarrow> u32 \<Rightarrow> u32 \<times> u32" where
  "atomic_exchange_and_add pw dv = (pw, pw + dv)"

definition atomic_increment :: "u32 \<Rightarrow> u32" where
  "atomic_increment pw = pw + 1"

text \<open>Memory that was given back is outside every object.\<close>

definition obj_at :: "nat \<Rightarrow> pheap \<Rightarrow> ref_obj option" where
  "obj_at a h = (if a < length (objects h) then objects h ! a else None)"

definition get_obj :: "nat \<Rightarrow> pheap \<Rightarrow> ref_obj res" where
  "get_obj a h = (case obj_at a h of None \<Rightarrow> Inl Out_of_bounds | Some x \<Rightarrow> Inr x)"

definition set_obj :: "nat \<Rightarrow> ref_obj option \<Rightarrow> pheap \<Rightarrow> pheap" where
  "set_obj a x h = h\<lparr>objects := (objects h)[a := x]\<rparr>"

definition inc_ref :: "nat \<Rightarrow> pheap \<Rightarrow> pheap res" where
  "inc_ref a h = bindr (get_obj a h) (\<lambda>x. Inr (set_obj a (Some (x\<lparr>m_iCnt := atomic_increment (m_iCnt x)\<rparr>)) h))"

text \<open>
  \<open>Dec\<close> is a call of \<open>dec_ref\<close>. When the count was one the object is deleted: the destructor
  destroys the members, the last one first, then its base class asserts that the count is zero
  and the memory is given back, \<open>Free\<close>.
\<close>

datatype ptr_work = Dec nat | Free nat

definition members_work :: "nat option list \<Rightarrow> ptr_work list" where
  "members_work ps = concat (map (\<lambda>p. case p of None \<Rightarrow> [] | Some b \<Rightarrow> [Dec b]) (rev ps))"

definition counted :: "pheap \<Rightarrow> nat" where
  "counted h = length (filter (\<lambda>x. case x of None \<Rightarrow> False | Some y \<Rightarrow> m_iCnt y \<noteq> 0) (objects h))"

definition dec_step :: "nat \<Rightarrow> pheap \<Rightarrow> (ptr_work list \<times> pheap) res" where
  "dec_step a h =
     bindr (get_obj a h) (\<lambda>x.
     bindr (cmn_assert (0 < sint (m_iCnt x))) (\<lambda>_.
     let (old, cnt) = atomic_exchange_and_add (m_iCnt x) (-1) in
     if old = 1
     then Inr (members_work (obj_ptrs x) @ [Free a], set_obj a (Some (x\<lparr>m_iCnt := cnt, obj_ptrs := []\<rparr>)) h)
     else Inr ([], set_obj a (Some (x\<lparr>m_iCnt := cnt\<rparr>)) h)))"

definition free_step :: "nat \<Rightarrow> pheap \<Rightarrow> pheap res" where
  "free_step a h = bindr (get_obj a h) (\<lambda>x. bindr (cmn_assert (m_iCnt x = 0)) (\<lambda>_. Inr (set_obj a None h)))"

lemma length_filter_update:
  "a < length xs \<Longrightarrow> P (xs ! a) \<Longrightarrow> length (filter P (xs[a := y])) + (if P y then 0 else 1) = length (filter P xs)"
  "\<not> P y \<Longrightarrow> length (filter P (xs[a := y])) \<le> length (filter P xs)"
proof -
  show "a < length xs \<Longrightarrow> P (xs ! a) \<Longrightarrow> length (filter P (xs[a := y])) + (if P y then 0 else 1) = length (filter P xs)"
  proof (induction xs arbitrary: a)
    case (Cons x xs)
    then show ?case
      by (cases a) (auto split: if_splits)
  qed simp
  show "\<not> P y \<Longrightarrow> length (filter P (xs[a := y])) \<le> length (filter P xs)"
    by (induction xs arbitrary: a) (auto split: nat.splits simp: le_SucI)
qed

lemma get_obj_Inr: "get_obj a h = Inr x \<longleftrightarrow> a < length (objects h) \<and> objects h ! a = Some x"
  by (auto simp: get_obj_def obj_at_def split: option.splits)

lemma dec_step_measure:
  assumes "dec_step a h = Inr (w, h')"
  shows "counted h' < counted h \<or> counted h' = counted h \<and> w = []"
proof -
  obtain x where x: "get_obj a h = Inr x" "0 < sint (m_iCnt x)"
    and h': "(if m_iCnt x = 1
      then (members_work (obj_ptrs x) @ [Free a], set_obj a (Some (x\<lparr>m_iCnt := m_iCnt x - 1, obj_ptrs := []\<rparr>)) h)
      else ([], set_obj a (Some (x\<lparr>m_iCnt := m_iCnt x - 1\<rparr>)) h)) = (w, h')"
    using assms by (auto simp: dec_step_def atomic_exchange_and_add_def elim!: bindr_InrE split: if_splits)
  let ?P = "\<lambda>x. case x of None \<Rightarrow> False | Some y \<Rightarrow> m_iCnt y \<noteq> 0"
  have a: "a < length (objects h)" "?P (objects h ! a)"
    using x by (auto simp: get_obj_Inr)
  show ?thesis
  proof (cases "m_iCnt x = 1")
    case True
    then show ?thesis
      using h' length_filter_update(1) [where P = ?P and y = "Some (x\<lparr>m_iCnt := m_iCnt x - 1, obj_ptrs := []\<rparr>)", OF a] by (auto simp: counted_def set_obj_def)
  next
    case False
    then have "m_iCnt x - 1 \<noteq> 0"
      by simp
    then show ?thesis
      using False h' length_filter_update(1) [where P = ?P and y = "Some (x\<lparr>m_iCnt := m_iCnt x - 1\<rparr>)", OF a]
      by (auto simp: counted_def set_obj_def)
  qed
qed

lemma free_step_measure:
  assumes "free_step a h = Inr h'"
  shows "counted h' \<le> counted h"
proof -
  have "h' = set_obj a None h" "a < length (objects h)"
    using assms by (auto simp: free_step_def get_obj_Inr elim!: bindr_InrE)
  then show ?thesis
    by (simp add: counted_def set_obj_def length_filter_update(2))
qed

function run_work :: "ptr_work list \<Rightarrow> pheap \<Rightarrow> pheap res" where
  "run_work [] h = Inr h"
| "run_work (Dec a # w) h = bindr (dec_step a h) (\<lambda>(w', h). run_work (w' @ w) h)"
| "run_work (Free a # w) h = bindr (free_step a h) (run_work w)"
  by pat_completeness auto
termination
proof (relation "measures [\<lambda>(w, h). counted h, \<lambda>(w, h). length w]")
  show "wf (measures [\<lambda>(w :: ptr_work list, h). counted h, \<lambda>(w, h). length w])"
    by simp
  show "((w' @ w, h'), Dec a # w, h) \<in> measures [\<lambda>(w, h). counted h, \<lambda>(w, h). length w]"
    if "dec_step a h = Inr x" "(w', h') = x" for a w h x w' h'
    using dec_step_measure [of a h w' h'] that by auto
  show "((w, h'), Free a # w, h) \<in> measures [\<lambda>(w, h). counted h, \<lambda>(w, h). length w]"
    if "free_step a h = Inr h'" for a w h h'
    using free_step_measure [OF that] by auto
qed

declare run_work.simps [simp del]

definition dec_ref :: "nat \<Rightarrow> pheap \<Rightarrow> pheap res" where
  "dec_ref a h = run_work [Dec a] h"


section \<open>The class\<close>

text \<open>Where a smart pointer is: a variable, or a member of an object.\<close>

datatype ptr_slot = Var nat | Member nat nat

definition get_slot :: "ptr_slot \<Rightarrow> pheap \<Rightarrow> nat option res" where
  "get_slot s h =
     (case s of
        Var i \<Rightarrow> vec_get (ptr_vars h) i
      | Member a j \<Rightarrow> bindr (get_obj a h) (\<lambda>x. vec_get (obj_ptrs x) j))"

definition put_slot :: "ptr_slot \<Rightarrow> nat option \<Rightarrow> pheap \<Rightarrow> pheap res" where
  "put_slot s p h =
     (case s of
        Var i \<Rightarrow> bindr (vec_set (ptr_vars h) i p) (\<lambda>v. Inr (h\<lparr>ptr_vars := v\<rparr>))
      | Member a j \<Rightarrow>
          bindr (get_obj a h) (\<lambda>x. bindr (vec_set (obj_ptrs x) j p) (\<lambda>v.
          Inr (set_obj a (Some (x\<lparr>obj_ptrs := v\<rparr>)) h))))"

definition ptr_inc_ref :: "nat option \<Rightarrow> pheap \<Rightarrow> pheap res" where
  "ptr_inc_ref p h = (case p of None \<Rightarrow> Inr h | Some a \<Rightarrow> inc_ref a h)"

definition ptr_dec_ref :: "ptr_slot \<Rightarrow> pheap \<Rightarrow> pheap res" where
  "ptr_dec_ref s h =
     bindr (get_slot s h) (\<lambda>p.
     case p of None \<Rightarrow> Inr h | Some a \<Rightarrow> bindr (dec_ref a h) (put_slot s None))"

text \<open>
  A pointer made from a new object with \<open>n\<close> null members, from the address of an object, as in
  \<open>rup_endpoint_ptr_t(this)\<close> and \<open>dynamic_cast_smartptr\<close>, and from another pointer.
\<close>

definition ptr_new :: "nat \<Rightarrow> pheap \<Rightarrow> pheap res" where
  "ptr_new n h =
     ptr_inc_ref (Some (length (objects h)))
       (h\<lparr>objects := objects h @ [Some \<lparr>m_iCnt = 0, obj_ptrs = replicate n None\<rparr>],
          ptr_vars := ptr_vars h @ [Some (length (objects h))]\<rparr>)"

definition ptr_wrap :: "nat option \<Rightarrow> pheap \<Rightarrow> pheap res" where
  "ptr_wrap p h = ptr_inc_ref p (h\<lparr>ptr_vars := ptr_vars h @ [p]\<rparr>)"

definition ptr_copy :: "ptr_slot \<Rightarrow> pheap \<Rightarrow> pheap res" where
  "ptr_copy s h = bindr (get_slot s h) (\<lambda>p. ptr_wrap p h)"

definition ptr_destroy :: "nat \<Rightarrow> pheap \<Rightarrow> pheap res" where
  "ptr_destroy i h = ptr_dec_ref (Var i) h"

text \<open>The assignment has a reference to the other pointer, which it reads again when it has let go.\<close>

definition ptr_assign :: "ptr_slot \<Rightarrow> ptr_slot \<Rightarrow> pheap \<Rightarrow> pheap res" where
  "ptr_assign dst src h =
     bindr (get_slot dst h) (\<lambda>d.
     bindr (get_slot src h) (\<lambda>s.
     if d = s then Inr h
     else bindr (ptr_dec_ref dst h) (\<lambda>h.
          bindr (get_slot src h) (\<lambda>s.
          bindr (put_slot dst s h) (ptr_inc_ref s)))))"

text \<open>The assignment of an address, or of null.\<close>

definition ptr_assign_raw :: "ptr_slot \<Rightarrow> nat option \<Rightarrow> pheap \<Rightarrow> pheap res" where
  "ptr_assign_raw dst p h =
     bindr (get_slot dst h) (\<lambda>d.
     if d = p then Inr h
     else bindr (ptr_dec_ref dst h) (\<lambda>h. bindr (put_slot dst p h) (ptr_inc_ref p)))"

section \<open>The counts\<close>

definition members_to :: "nat \<Rightarrow> ref_obj option \<Rightarrow> nat" where
  "members_to a x = (case x of None \<Rightarrow> 0 | Some y \<Rightarrow> count_list (obj_ptrs y) (Some a))"

definition refs_in :: "ref_obj option list \<Rightarrow> nat \<Rightarrow> nat" where
  "refs_in xs a = sum_list (map (members_to a) xs)"

definition cnt_at :: "nat \<Rightarrow> pheap \<Rightarrow> nat" where
  "cnt_at a h = (case obj_at a h of None \<Rightarrow> 0 | Some x \<Rightarrow> unat (m_iCnt x))"

text \<open>
  Every count is the number of pointers to the object, those included that are just being
  dropped; an object without pointers is waiting to be given back, once.
\<close>

definition pheap_inv :: "ptr_work list \<Rightarrow> pheap \<Rightarrow> bool" where
  "pheap_inv w h \<longleftrightarrow>
     (\<forall>a. count_list (ptr_vars h) (Some a) + refs_in (objects h) a + count_list w (Dec a) = cnt_at a h) \<and>
     (\<forall>a. cnt_at a h < 2 ^ 31) \<and>
     (\<forall>a x. obj_at a h = Some x \<and> m_iCnt x = 0 \<longrightarrow> obj_ptrs x = []) \<and>
     (\<forall>a. count_list w (Free a) = (if \<exists>x. obj_at a h = Some x \<and> m_iCnt x = 0 then 1 else 0))"

lemma pheap_invI:
  assumes "\<And>a. count_list (ptr_vars h) (Some a) + refs_in (objects h) a + count_list w (Dec a) = cnt_at a h"
    and "\<And>a. cnt_at a h < 2 ^ 31"
    and "\<And>a x. obj_at a h = Some x \<Longrightarrow> m_iCnt x = 0 \<Longrightarrow> obj_ptrs x = []"
    and "\<And>a. count_list w (Free a) = (if \<exists>x. obj_at a h = Some x \<and> m_iCnt x = 0 then 1 else 0)"
  shows "pheap_inv w h"
  unfolding pheap_inv_def using assms by blast

lemma pheap_invD:
  assumes "pheap_inv w h"
  shows "count_list (ptr_vars h) (Some a) + refs_in (objects h) a + count_list w (Dec a) = cnt_at a h"
    and "cnt_at a h < 2 ^ 31"
    and "obj_at a h = Some x \<Longrightarrow> m_iCnt x = 0 \<Longrightarrow> obj_ptrs x = []"
    and "count_list w (Free a) = (if \<exists>x. obj_at a h = Some x \<and> m_iCnt x = 0 then 1 else 0)"
  using assms unfolding pheap_inv_def by blast+

lemma refs_in_update:
  "a < length xs \<Longrightarrow> refs_in (xs[a := y]) b + members_to b (xs ! a) = refs_in xs b + members_to b y"
proof (induction xs arbitrary: a)
  case (Cons x xs)
  then show ?case
    by (cases a) (simp_all add: refs_in_def)
qed simp

lemma obj_at_set [simp]:
  "a < length (objects h) \<Longrightarrow> obj_at b (set_obj a x h) = (if b = a then x else obj_at b h)"
  by (simp add: obj_at_def set_obj_def)

lemma set_obj_simps [simp]:
  "ptr_vars (set_obj a x h) = ptr_vars h" "length (objects (set_obj a x h)) = length (objects h)"
  by (simp_all add: set_obj_def)

lemma obj_at_less: "obj_at a h = Some x \<Longrightarrow> a < length (objects h) \<and> objects h ! a = Some x"
  by (simp add: obj_at_def split: if_splits)

lemma get_obj_at [simp]: "obj_at a h = Some x \<Longrightarrow> get_obj a h = Inr x"
  by (simp add: get_obj_def)

lemma count_list_rev [simp]: "count_list (rev xs) x = count_list xs x"
  by (induction xs) auto

lemma members_work_count [simp]:
  "count_list (members_work ps) (Dec b) = count_list ps (Some b)"
  "count_list (members_work ps) (Free b) = 0"
proof -
  have "count_list (concat (map (\<lambda>p. case p of None \<Rightarrow> [] | Some b \<Rightarrow> [Dec b]) qs)) (Dec b) = count_list qs (Some b)" for qs
    by (induction qs) (auto split: option.splits)
  then show "count_list (members_work ps) (Dec b) = count_list ps (Some b)"
    by (simp add: members_work_def)
  have "count_list (concat (map (\<lambda>p. case p of None \<Rightarrow> [] | Some b \<Rightarrow> [Dec b]) qs)) (Free b) = 0" for qs
    by (induction qs) (auto split: option.splits)
  then show "count_list (members_work ps) (Free b) = 0"
    by (simp add: members_work_def)
qed

lemma sint_pos:
  fixes x :: u32
  assumes "unat x < 2 ^ 31" and "0 < unat x"
  shows "0 < sint x"
proof -
  have u: "uint x = int (unat x)"
    by (rule uint_nat)
  have "signed_take_bit 31 (uint x) = uint x"
  proof (rule signed_take_bit_int_eq_self)
    have "int (unat x) < int (2 ^ 31)"
      using assms(1) by (simp only: of_nat_less_iff)
    then have "uint x < int (2 ^ 31)"
      by (simp only: u)
    then show "uint x < 2 ^ 31"
      by simp
    show "- (2 ^ 31) \<le> uint x"
      by (rule order_trans [OF _ uint_ge_0]) simp
  qed
  then have "sint x = uint x"
    by (simp add: sint_uint)
  moreover have "0 < uint x"
    using assms(2) unfolding u of_nat_0_less_iff .
  ultimately show ?thesis
    by simp
qed

lemma pheap_inv_Dec:
  assumes inv: "pheap_inv (Dec a # w) h"
  obtains w' h' where "dec_step a h = Inr (w', h')" and "pheap_inv (w' @ w) h'" and "ptr_vars h' = ptr_vars h"
    and "length (objects h') = length (objects h)"
proof -
  note cnt = pheap_invD(1) [OF inv] and bound = pheap_invD(2) [OF inv] and zero = pheap_invD(3) [OF inv]
    and free = pheap_invD(4) [OF inv]
  have "0 < cnt_at a h"
    using cnt [of a] by simp
  then obtain x where x: "obj_at a h = Some x" "0 < unat (m_iCnt x)"
    by (auto simp: cnt_at_def split: option.splits)
  note a = obj_at_less [OF x(1)]
  have "unat (m_iCnt x) < 2 ^ 31"
    using bound [of a] x(1) by (simp add: cnt_at_def)
  then have pos: "0 < sint (m_iCnt x)"
    using x(2) by (rule sint_pos)
  show ?thesis
  proof (cases "m_iCnt x = 1")
    case True
    let ?h = "set_obj a (Some (x\<lparr>m_iCnt := 0, obj_ptrs := []\<rparr>)) h"
    have refs: "refs_in (objects ?h) b + count_list (obj_ptrs x) (Some b) = refs_in (objects h) b" for b
      using refs_in_update [of a "objects h" "Some (x\<lparr>m_iCnt := 0, obj_ptrs := []\<rparr>)" b] a
      by (simp add: set_obj_def members_to_def)
    have cnt': "cnt_at b ?h = (if b = a then 0 else cnt_at b h)" for b
      using a by (simp add: cnt_at_def)
    have one: "cnt_at a h = 1"
      using x(1) True by (simp add: cnt_at_def)
    have nz: "m_iCnt x \<noteq> 0"
      using True by simp
    have "pheap_inv ((members_work (obj_ptrs x) @ [Free a]) @ w) ?h"
    proof (rule pheap_invI)
      show "count_list (ptr_vars ?h) (Some b) + refs_in (objects ?h) b +
          count_list ((members_work (obj_ptrs x) @ [Free a]) @ w) (Dec b) = cnt_at b ?h" for b
        using cnt [of b] refs [of b] one by (simp add: cnt' split: if_splits)
      show "cnt_at b ?h < 2 ^ 31" for b
        using bound [of b] by (simp add: cnt')
      show "obj_ptrs y = []" if "obj_at b ?h = Some y" "m_iCnt y = 0" for b y
        using that zero [of b y] a by (auto split: if_splits)
      show "count_list ((members_work (obj_ptrs x) @ [Free a]) @ w) (Free b) =
          (if \<exists>y. obj_at b ?h = Some y \<and> m_iCnt y = 0 then 1 else 0)" for b
        using free [of b] a x nz by (cases "b = a") simp_all
    qed
    then show ?thesis
      using that [of "members_work (obj_ptrs x) @ [Free a]" ?h] x(1) pos True
      by (simp add: dec_step_def atomic_exchange_and_add_def)
  next
    case False
    let ?h = "set_obj a (Some (x\<lparr>m_iCnt := m_iCnt x - 1\<rparr>)) h"
    have refs: "refs_in (objects ?h) b = refs_in (objects h) b" for b
      using refs_in_update [of a "objects h" "Some (x\<lparr>m_iCnt := m_iCnt x - 1\<rparr>)" b] a
      by (simp add: set_obj_def members_to_def)
    have less: "unat (m_iCnt x - 1) = unat (m_iCnt x) - 1"
      using x(2) by (intro unat_minus_one) auto
    have cnt': "cnt_at b ?h = (if b = a then cnt_at a h - 1 else cnt_at b h)" for b
      using a x(1) less by (simp add: cnt_at_def)
    have nz: "m_iCnt x - 1 \<noteq> 0" "m_iCnt x \<noteq> 0"
      using False x(2) by auto
    have "pheap_inv ([] @ w) ?h"
    proof (rule pheap_invI)
      show "count_list (ptr_vars ?h) (Some b) + refs_in (objects ?h) b + count_list ([] @ w) (Dec b) = cnt_at b ?h" for b
        using cnt [of b] refs [of b] by (simp add: cnt' split: if_splits)
      show "cnt_at b ?h < 2 ^ 31" for b
        using bound [of b] by (auto simp: cnt')
      show "obj_ptrs y = []" if "obj_at b ?h = Some y" "m_iCnt y = 0" for b y
        using that zero [of b y] a nz by (auto split: if_splits)
      show "count_list ([] @ w) (Free b) = (if \<exists>y. obj_at b ?h = Some y \<and> m_iCnt y = 0 then 1 else 0)" for b
        using free [of b] a x nz by (cases "b = a") simp_all
    qed
    then show ?thesis
      using that [of "[]" ?h] x(1) pos False by (simp add: dec_step_def atomic_exchange_and_add_def)
  qed
qed

lemma pheap_inv_Free:
  assumes inv: "pheap_inv (Free a # w) h"
  obtains h' where "free_step a h = Inr h'" and "pheap_inv w h'" and "ptr_vars h' = ptr_vars h"
    and "length (objects h') = length (objects h)"
proof -
  note cnt = pheap_invD(1) [OF inv] and bound = pheap_invD(2) [OF inv] and zero = pheap_invD(3) [OF inv]
    and free = pheap_invD(4) [OF inv]
  obtain x where x: "obj_at a h = Some x" "m_iCnt x = 0"
    using free [of a] by (auto split: if_splits)
  note a = obj_at_less [OF x(1)]
  let ?h = "set_obj a None h"
  have refs: "refs_in (objects ?h) b = refs_in (objects h) b" for b
    using refs_in_update [of a "objects h" None b] a zero [OF x] by (simp add: set_obj_def members_to_def)
  have cnt': "cnt_at b ?h = cnt_at b h" for b
    using a x by (simp add: cnt_at_def)
  have "pheap_inv w ?h"
  proof (rule pheap_invI)
    show "count_list (ptr_vars ?h) (Some b) + refs_in (objects ?h) b + count_list w (Dec b) = cnt_at b ?h" for b
      using cnt [of b] refs [of b] by (simp add: cnt')
    show "cnt_at b ?h < 2 ^ 31" for b
      using bound [of b] by (simp add: cnt')
    show "obj_ptrs y = []" if "obj_at b ?h = Some y" "m_iCnt y = 0" for b y
      using that zero [of b y] a by (auto split: if_splits)
    show "count_list w (Free b) = (if \<exists>y. obj_at b ?h = Some y \<and> m_iCnt y = 0 then 1 else 0)" for b
      using free [of b] a x by (cases "b = a") simp_all
  qed
  then show ?thesis
    using that [of ?h] x by (simp add: free_step_def)
qed

lemma run_work_ok:
  assumes "pheap_inv w h"
  shows "\<exists>h'. run_work w h = Inr h' \<and> pheap_inv [] h' \<and> ptr_vars h' = ptr_vars h \<and> length (objects h') = length (objects h)"
  using assms
proof (induction w h rule: run_work.induct)
  case (1 h)
  then show ?case
    by (simp add: run_work.simps)
next
  case (2 a w h)
  obtain w' h' where s: "dec_step a h = Inr (w', h')" "pheap_inv (w' @ w) h'" "ptr_vars h' = ptr_vars h"
    "length (objects h') = length (objects h)"
    by (rule pheap_inv_Dec [OF 2(2)])
  show ?case
    using 2(1) [OF s(1) refl s(2)] s by (simp add: run_work.simps)
next
  case (3 a w h)
  obtain h' where s: "free_step a h = Inr h'" "pheap_inv w h'" "ptr_vars h' = ptr_vars h"
    "length (objects h') = length (objects h)"
    by (rule pheap_inv_Free [OF 3(2)])
  show ?case
    using 3(1) [OF s(1) s(2)] s by (simp add: run_work.simps)
qed

section \<open>What dropping a pointer leaves alone\<close>

lemma set_obj_vars [simp]: "set_obj a x (h\<lparr>ptr_vars := v\<rparr>) = (set_obj a x h)\<lparr>ptr_vars := v\<rparr>"
  by (cases h) (simp add: set_obj_def)

lemma obj_at_vars [simp]: "obj_at a (h\<lparr>ptr_vars := v\<rparr>) = obj_at a h"
  by (simp add: obj_at_def)

lemma ref_obj_swap: "x\<lparr>obj_ptrs := ps, m_iCnt := n\<rparr> = x\<lparr>m_iCnt := n, obj_ptrs := ps\<rparr>" for x :: ref_obj
  by (cases x) simp

lemma run_work_vars: "run_work w (h\<lparr>ptr_vars := v\<rparr>) = bindr (run_work w h) (\<lambda>h. Inr (h\<lparr>ptr_vars := v\<rparr>))"
proof (induction w h rule: run_work.induct)
  case (2 a w h)
  have "dec_step a (h\<lparr>ptr_vars := v\<rparr>) = bindr (dec_step a h) (\<lambda>(w, h). Inr (w, h\<lparr>ptr_vars := v\<rparr>))"
    by (simp add: dec_step_def get_obj_def cmn_assert_def atomic_exchange_and_add_def split: option.splits)
  then show ?case
    using 2 by (cases "dec_step a h") (auto simp: run_work.simps)
next
  case (3 a w h)
  have "free_step a (h\<lparr>ptr_vars := v\<rparr>) = bindr (free_step a h) (\<lambda>h. Inr (h\<lparr>ptr_vars := v\<rparr>))"
    by (simp add: free_step_def get_obj_def cmn_assert_def split: option.splits)
  then show ?case
    using 3 by (cases "free_step a h") (auto simp: run_work.simps)
qed (simp add: run_work.simps)

definition map_ptrs :: "nat \<Rightarrow> (nat option list \<Rightarrow> nat option list) \<Rightarrow> pheap \<Rightarrow> pheap" where
  "map_ptrs c f h =
     (case obj_at c h of None \<Rightarrow> h | Some x \<Rightarrow> set_obj c (Some (x\<lparr>obj_ptrs := f (obj_ptrs x)\<rparr>)) h)"

lemma set_obj_set [simp]: "set_obj a x (set_obj a y h) = set_obj a x h"
  by (simp add: set_obj_def)

lemma set_obj_beyond: "\<not> a < length (objects h) \<Longrightarrow> set_obj a x h = h"
  by (cases h) (simp add: set_obj_def list_update_beyond)

lemma set_obj_swap: "a \<noteq> c \<Longrightarrow> set_obj a x (set_obj c y h) = set_obj c y (set_obj a x h)"
  by (simp add: set_obj_def list_update_swap)

lemma map_ptrs_vars [simp]: "ptr_vars (map_ptrs c f h) = ptr_vars h"
  by (simp add: map_ptrs_def split: option.splits)

lemma map_ptrs_at:
  "obj_at c h = Some x \<Longrightarrow> obj_at a (map_ptrs c f h) =
     (if a = c then Some (x\<lparr>obj_ptrs := f (obj_ptrs x)\<rparr>) else obj_at a h)"
  using obj_at_less [of c h x] by (simp add: map_ptrs_def)

text \<open>An object that a variable points to survives with its members, whatever they are.\<close>

lemma held_dec_step:
  assumes inv: "pheap_inv (Dec a # w) (map_ptrs c f h)" and c: "obj_at c h = Some x" and held: "Some c \<in> set (ptr_vars h)"
  shows "\<exists>w' h' x'. dec_step a h = Inr (w', h') \<and> pheap_inv (w' @ w) (map_ptrs c f h') \<and> obj_at c h' = Some x' \<and>
    obj_ptrs x' = obj_ptrs x \<and> ptr_vars h' = ptr_vars h \<and> dec_step a (map_ptrs c f h) = Inr (w', map_ptrs c f h')"
proof -
  obtain w' k where k: "dec_step a (map_ptrs c f h) = Inr (w', k)" "pheap_inv (w' @ w) k"
    by (rule pheap_inv_Dec [OF inv])
  note c' = obj_at_less [OF c]
  show ?thesis
  proof (cases "a = c")
    case True
    have "0 < count_list (ptr_vars h) (Some c)"
      using held by (metis count_list_0_iff gr0I)
    then have "1 < cnt_at c (map_ptrs c f h)"
      using pheap_invD(1) [OF inv, of c] True by simp
    then have "m_iCnt x \<noteq> 1"
      using c by (auto simp: cnt_at_def map_ptrs_at)
    then have "k = map_ptrs c f (set_obj c (Some (x\<lparr>m_iCnt := m_iCnt x - 1\<rparr>)) h) \<and> w' = [] \<and>
        dec_step a h = Inr ([], set_obj c (Some (x\<lparr>m_iCnt := m_iCnt x - 1\<rparr>)) h)"
      using k(1) c c' True by (auto simp: dec_step_def map_ptrs_at atomic_exchange_and_add_def elim!: bindr_InrE)
        (simp add: map_ptrs_def ref_obj_swap)
    then show ?thesis
      using k c' by auto
  next
    case False
    then have "get_obj a (map_ptrs c f h) = get_obj a h"
      using c by (simp add: get_obj_def map_ptrs_at)
    moreover have "set_obj a y (map_ptrs c f h) = map_ptrs c f (set_obj a y h)" for y
      using False c by (cases "a < length (objects h)") (simp_all add: map_ptrs_def set_obj_swap set_obj_beyond)
    ultimately have "dec_step a (map_ptrs c f h) = bindr (dec_step a h) (\<lambda>(w, h). Inr (w, map_ptrs c f h))"
      by (cases "get_obj a h") (simp_all add: dec_step_def cmn_assert_def atomic_exchange_and_add_def)
    then obtain h' where h': "dec_step a h = Inr (w', h')" "k = map_ptrs c f h'"
      using k(1) by (cases "dec_step a h") auto
    then have "obj_at c h' = Some x \<and> ptr_vars h' = ptr_vars h"
      using False c by (auto simp: dec_step_def Let_def atomic_exchange_and_add_def get_obj_Inr elim!: bindr_InrE split: if_splits)
    then show ?thesis
      using h' k by auto
  qed
qed

lemma held_free_step:
  assumes inv: "pheap_inv (Free a # w) (map_ptrs c f h)" and c: "obj_at c h = Some x" and held: "Some c \<in> set (ptr_vars h)"
  shows "\<exists>h'. free_step a h = Inr h' \<and> pheap_inv w (map_ptrs c f h') \<and> obj_at c h' = Some x \<and>
    ptr_vars h' = ptr_vars h \<and> free_step a (map_ptrs c f h) = Inr (map_ptrs c f h')"
proof -
  obtain k where k: "free_step a (map_ptrs c f h) = Inr k" "pheap_inv w k"
    by (rule pheap_inv_Free [OF inv])
  note c' = obj_at_less [OF c]
  have "0 < count_list (ptr_vars h) (Some c)"
    using held by (metis count_list_0_iff gr0I)
  then have "0 < cnt_at c (map_ptrs c f h)"
    using pheap_invD(1) [OF inv, of c] by simp
  then have nz: "m_iCnt x \<noteq> 0"
    using c by (auto simp: cnt_at_def map_ptrs_at)
  moreover obtain y where "obj_at a (map_ptrs c f h) = Some y" "m_iCnt y = 0" "k = set_obj a None (map_ptrs c f h)"
    using k(1) by (auto simp: free_step_def get_obj_def elim!: bindr_InrE split: option.splits)
  ultimately have a: "a \<noteq> c" "obj_at a h = Some y" "m_iCnt y = 0" "k = set_obj a None (map_ptrs c f h)"
    using c by (auto simp: map_ptrs_at split: if_splits)
  have "k = map_ptrs c f (set_obj a None h)"
    using a c obj_at_less [OF a(2)] by (simp add: map_ptrs_def set_obj_swap)
  moreover have "free_step a h = Inr (set_obj a None h)"
    using a by (simp add: free_step_def)
  ultimately show ?thesis
    using k a c obj_at_less [OF a(2)] by auto
qed

lemma held_run_work:
  "pheap_inv w (map_ptrs c f h) \<Longrightarrow> obj_at c h = Some x \<Longrightarrow> Some c \<in> set (ptr_vars h) \<Longrightarrow>
    \<exists>h' x'. run_work w h = Inr h' \<and> pheap_inv [] (map_ptrs c f h') \<and> obj_at c h' = Some x' \<and> obj_ptrs x' = obj_ptrs x \<and>
      ptr_vars h' = ptr_vars h \<and> run_work w (map_ptrs c f h) = Inr (map_ptrs c f h')"
proof (induction w h arbitrary: x rule: run_work.induct)
  case (1 h)
  then show ?case
    by (simp add: run_work.simps)
next
  case (2 a w h)
  obtain w' h' x' where s: "dec_step a h = Inr (w', h')" "pheap_inv (w' @ w) (map_ptrs c f h')" "obj_at c h' = Some x'"
    "obj_ptrs x' = obj_ptrs x" "ptr_vars h' = ptr_vars h" "dec_step a (map_ptrs c f h) = Inr (w', map_ptrs c f h')"
    using held_dec_step [OF 2(2-4)] by blast
  have "Some c \<in> set (ptr_vars h')"
    using s(5) 2(4) by simp
  then show ?case
    using 2(1) [OF s(1) refl s(2,3)] s by (simp add: run_work.simps)
next
  case (3 a w h)
  obtain h' where s: "free_step a h = Inr h'" "pheap_inv w (map_ptrs c f h')" "obj_at c h' = Some x"
    "ptr_vars h' = ptr_vars h" "free_step a (map_ptrs c f h) = Inr (map_ptrs c f h')"
    using held_free_step [OF 3(2-4)] by blast
  have "Some c \<in> set (ptr_vars h')"
    using s(4) 3(4) by simp
  then show ?case
    using 3(1) [OF s(1,2,3)] s by (simp add: run_work.simps)
qed

lemma set_obj_same: "obj_at c h = Some x \<Longrightarrow> set_obj c (Some x) h = h"
  using obj_at_less [of c h x] by (cases h) (simp add: set_obj_def list_update_same_conv)

lemma map_ptrs_id [simp]: "map_ptrs c (\<lambda>ps. ps) h = h"
  by (simp add: map_ptrs_def set_obj_same split: option.splits)

section \<open>The operations keep the counts\<close>

text \<open>A pointer that is used is a variable, or a member of an object that a variable points to.\<close>

definition slot_ok :: "ptr_slot \<Rightarrow> pheap \<Rightarrow> bool" where
  "slot_ok s h =
     (case s of
        Var i \<Rightarrow> i < length (ptr_vars h)
      | Member c j \<Rightarrow> Some c \<in> set (ptr_vars h) \<and> (case obj_at c h of None \<Rightarrow> False | Some x \<Rightarrow> j < length (obj_ptrs x)))"

definition write_slot :: "ptr_slot \<Rightarrow> nat option \<Rightarrow> pheap \<Rightarrow> pheap" where
  "write_slot s p h =
     (case s of
        Var i \<Rightarrow> h\<lparr>ptr_vars := (ptr_vars h)[i := p]\<rparr>
      | Member c j \<Rightarrow> map_ptrs c (\<lambda>ps. ps[j := p]) h)"

lemma slot_ok_get: "slot_ok s h \<Longrightarrow> \<exists>p. get_slot s h = Inr p"
  by (auto simp: slot_ok_def get_slot_def vec_get_def split: ptr_slot.splits option.splits)

lemma slot_ok_put: "slot_ok s h \<Longrightarrow> put_slot s p h = Inr (write_slot s p h)"
  by (auto simp: slot_ok_def put_slot_def write_slot_def map_ptrs_def vec_set_def split: ptr_slot.splits option.splits)

lemma count_list_update:
  "i < length xs \<Longrightarrow> count_list (xs[i := y]) z + (if xs ! i = z then 1 else 0) = count_list xs z + (if y = z then 1 else 0)"
proof (induction xs arbitrary: i)
  case (Cons x xs)
  show ?case
  proof (cases i)
    case (Suc k)
    then show ?thesis
      using Cons.IH [of k] Cons.prems by auto
  qed auto
qed simp

definition ptrs_to :: "pheap \<Rightarrow> nat \<Rightarrow> nat" where
  "ptrs_to h a = count_list (ptr_vars h) (Some a) + refs_in (objects h) a"

lemma write_slot_refs:
  assumes "slot_ok s h" and "get_slot s h = Inr q"
  shows "ptrs_to (write_slot s p h) a + (if q = Some a then 1 else 0) = ptrs_to h a + (if p = Some a then 1 else 0)"
proof (cases s)
  case (Var i)
  then show ?thesis
    using assms count_list_update [of i "ptr_vars h" p "Some a"]
    by (auto simp: slot_ok_def write_slot_def get_slot_def vec_get_def ptrs_to_def split: if_splits)
next
  case (Member c j)
  then obtain x where x: "obj_at c h = Some x" "j < length (obj_ptrs x)" "q = obj_ptrs x ! j"
    using assms by (auto simp: slot_ok_def get_slot_def vec_get_def split: option.splits)
  show ?thesis
    using x Member obj_at_less [OF x(1)] count_list_update [OF x(2), of p "Some a"]
      refs_in_update [of c "objects h" "Some (x\<lparr>obj_ptrs := (obj_ptrs x)[j := p]\<rparr>)" a]
    by (simp add: write_slot_def map_ptrs_def ptrs_to_def set_obj_def members_to_def split: if_splits)
qed

lemma write_slot_at:
  "cnt_at a (write_slot s p h) = cnt_at a h"
  "obj_at a (write_slot s p h) = None \<longleftrightarrow> obj_at a h = None"
  "obj_at a h = Some x \<Longrightarrow> \<exists>y. obj_at a (write_slot s p h) = Some y \<and> m_iCnt y = m_iCnt x \<and> (obj_ptrs x = [] \<longrightarrow> obj_ptrs y = [])"
  "obj_at a (write_slot s p h) = Some y \<Longrightarrow> \<exists>x. obj_at a h = Some x \<and> m_iCnt y = m_iCnt x \<and> (obj_ptrs x = [] \<longrightarrow> obj_ptrs y = [])"
proof -
  have at: "obj_at a (write_slot s p h) = (case obj_at a h of None \<Rightarrow> None
      | Some x \<Rightarrow> Some (case s of Var i \<Rightarrow> x | Member c j \<Rightarrow> if a = c then x\<lparr>obj_ptrs := (obj_ptrs x)[j := p]\<rparr> else x))"
  proof (cases s)
    case (Member c j)
    then show ?thesis
    proof (cases "obj_at c h")
      case None
      then show ?thesis
        using Member by (auto simp: write_slot_def map_ptrs_def split: option.splits)
    next
      case (Some x)
      then show ?thesis
        using Member by (auto simp: write_slot_def map_ptrs_at split: option.splits)
    qed
  qed (simp add: write_slot_def split: option.splits)
  show "cnt_at a (write_slot s p h) = cnt_at a h" "obj_at a (write_slot s p h) = None \<longleftrightarrow> obj_at a h = None"
    by (simp_all add: cnt_at_def at split: option.splits ptr_slot.splits)
  show "obj_at a h = Some x \<Longrightarrow> \<exists>y. obj_at a (write_slot s p h) = Some y \<and> m_iCnt y = m_iCnt x \<and> (obj_ptrs x = [] \<longrightarrow> obj_ptrs y = [])"
    by (simp add: at split: ptr_slot.splits)
  show "obj_at a (write_slot s p h) = Some y \<Longrightarrow> \<exists>x. obj_at a h = Some x \<and> m_iCnt y = m_iCnt x \<and> (obj_ptrs x = [] \<longrightarrow> obj_ptrs y = [])"
    by (auto simp: at split: option.splits ptr_slot.splits)
qed

lemma run_work_refs: "run_work w h = Inr h' \<Longrightarrow> refs_in (objects h') a \<le> refs_in (objects h) a"
proof (induction w h arbitrary: h' rule: run_work.induct)
  case (1 h)
  then show ?case
    by (simp add: run_work.simps)
next
  case (2 b w h)
  obtain w1 h1 where s: "dec_step b h = Inr (w1, h1)" "run_work (w1 @ w) h1 = Inr h'"
    using 2(2) by (auto simp: run_work.simps elim!: bindr_InrE)
  then obtain x where x: "obj_at b h = Some x"
    and h1: "h1 = set_obj b (Some (x\<lparr>m_iCnt := m_iCnt x - 1, obj_ptrs := []\<rparr>)) h \<or>
      h1 = set_obj b (Some (x\<lparr>m_iCnt := m_iCnt x - 1\<rparr>)) h"
    by (auto simp: dec_step_def get_obj_def atomic_exchange_and_add_def elim!: bindr_InrE split: option.splits if_splits)
  note le = refs_in_update [of b "objects h" _ a] obj_at_less [OF x]
  have "refs_in (objects h1) a \<le> refs_in (objects h) a"
    using h1 le(1) [of "Some (x\<lparr>m_iCnt := m_iCnt x - 1, obj_ptrs := []\<rparr>)"]
      le(1) [of "Some (x\<lparr>m_iCnt := m_iCnt x - 1\<rparr>)"] le(2) by (auto simp: set_obj_def members_to_def)
  then show ?case
    using 2(1) [OF s(1) refl s(2)] by simp
next
  case (3 b w h)
  obtain h1 where s: "free_step b h = Inr h1" "run_work w h1 = Inr h'"
    using 3(2) by (auto simp: run_work.simps elim!: bindr_InrE)
  then obtain x where "obj_at b h = Some x" "h1 = set_obj b None h"
    by (auto simp: free_step_def get_obj_def elim!: bindr_InrE split: option.splits)
  then have "refs_in (objects h1) a \<le> refs_in (objects h) a"
    using refs_in_update [of b "objects h" None a] obj_at_less [of b h x] by (auto simp: set_obj_def members_to_def)
  then show ?case
    using 3(1) [OF s(1,2)] by simp
qed

lemma write_slot_same: "slot_ok s h \<Longrightarrow> get_slot s h = Inr p \<Longrightarrow> write_slot s p h = h"
proof (cases s)
  case (Var i)
  then show "slot_ok s h \<Longrightarrow> get_slot s h = Inr p \<Longrightarrow> write_slot s p h = h"
    by (cases h) (auto simp: slot_ok_def write_slot_def get_slot_def vec_get_def)
next
  case (Member c j)
  assume "slot_ok s h" "get_slot s h = Inr p"
  then obtain x where x: "obj_at c h = Some x" "p = obj_ptrs x ! j"
    using Member by (auto simp: slot_ok_def get_slot_def vec_get_def split: option.splits)
  have "map_ptrs c (\<lambda>ps. ps[j := p]) h = h"
    using x by (simp add: map_ptrs_def set_obj_same)
  then show "write_slot s p h = h"
    using Member by (simp add: write_slot_def)
qed

definition same_ptrs :: "pheap \<Rightarrow> pheap \<Rightarrow> bool" where
  "same_ptrs h h' \<longleftrightarrow> ptr_vars h' = ptr_vars h \<and>
     (\<forall>c x. Some c \<in> set (ptr_vars h) \<and> obj_at c h = Some x \<longrightarrow> (\<exists>y. obj_at c h' = Some y \<and> obj_ptrs y = obj_ptrs x))"

lemma run_work_same:
  assumes "pheap_inv w h"
  shows "\<exists>h'. run_work w h = Inr h' \<and> pheap_inv [] h' \<and> same_ptrs h h'"
proof -
  obtain h' where h': "run_work w h = Inr h'" "pheap_inv [] h'" "ptr_vars h' = ptr_vars h"
    using run_work_ok [OF assms] by blast
  have "\<exists>y. obj_at c h' = Some y \<and> obj_ptrs y = obj_ptrs x" if "Some c \<in> set (ptr_vars h)" "obj_at c h = Some x" for c x
    using held_run_work [of w c "\<lambda>ps. ps" h x] assms that h'(1) by auto
  then show ?thesis
    using h' by (auto simp: same_ptrs_def)
qed

lemma write_slot_inv:
  assumes inv: "pheap_inv [] h" and ok: "slot_ok s h" and slot: "get_slot s h = Inr (Some a)"
  shows "pheap_inv [Dec a] (write_slot s None h)"
proof (rule pheap_invI)
  show "count_list (ptr_vars (write_slot s None h)) (Some b) + refs_in (objects (write_slot s None h)) b +
      count_list [Dec a] (Dec b) = cnt_at b (write_slot s None h)" for b
    using write_slot_refs [OF ok slot, of None b] pheap_invD(1) [OF inv, of b]
    by (simp add: write_slot_at(1) ptrs_to_def split: if_splits)
  show "cnt_at b (write_slot s None h) < 2 ^ 31" for b
    using pheap_invD(2) [OF inv, of b] by (simp add: write_slot_at(1))
  show "obj_ptrs y = []" if "obj_at b (write_slot s None h) = Some y" "m_iCnt y = 0" for b y
    using write_slot_at(4) [OF that(1)] pheap_invD(3) [OF inv, of b] that(2) by auto
  have "\<not> (\<exists>x. obj_at b h = Some x \<and> m_iCnt x = 0)" for b
    using pheap_invD(4) [OF inv, of b] by (auto split: if_splits)
  then show "count_list [Dec a] (Free b) = (if \<exists>y. obj_at b (write_slot s None h) = Some y \<and> m_iCnt y = 0 then 1 else 0)" for b
    using write_slot_at(4) [of b s None h] by fastforce
qed

lemma ptr_dec_ref_ok:
  assumes inv: "pheap_inv [] h" and ok: "slot_ok s h"
  shows "\<exists>h'. ptr_dec_ref s h = Inr h' \<and> pheap_inv [] h' \<and> same_ptrs (write_slot s None h) h' \<and> (\<forall>a. ptrs_to h' a \<le> ptrs_to h a)"
proof -
  obtain p where p: "get_slot s h = Inr p"
    using slot_ok_get [OF ok] by blast
  show ?thesis
  proof (cases p)
    case None
    then show ?thesis
      using p inv write_slot_same [OF ok] by (simp add: ptr_dec_ref_def same_ptrs_def)
  next
    case (Some a)
    note drop = write_slot_inv [OF inv ok p [unfolded Some]]
    obtain k where k: "run_work [Dec a] (write_slot s None h) = Inr k" "pheap_inv [] k" "same_ptrs (write_slot s None h) k"
      using run_work_same [OF drop] by blast
    have "bindr (dec_ref a h) (put_slot s None) = Inr k"
    proof (cases s)
      case (Var i)
      then obtain h' where h': "run_work [Dec a] h = Inr h'" "k = h'\<lparr>ptr_vars := (ptr_vars h)[i := None]\<rparr>"
        using k(1) by (auto simp: write_slot_def run_work_vars elim!: bindr_InrE)
      have "run_work [Dec a] h = bindr (run_work [Dec a] h) (\<lambda>h'. Inr (h'\<lparr>ptr_vars := ptr_vars h\<rparr>))"
        using run_work_vars [where w = "[Dec a]" and h = h and v = "ptr_vars h"] by (cases h) simp
      then have "h' = h'\<lparr>ptr_vars := ptr_vars h\<rparr>"
        using h'(1) by simp
      then have "ptr_vars h' = ptr_vars h"
        by (metis pheap.select_convs(2) pheap.surjective pheap.update_convs(2))
      then show ?thesis
        using h' ok Var by (simp add: dec_ref_def put_slot_def vec_set_def slot_ok_def)
    next
      case (Member c j)
      then obtain x where x: "obj_at c h = Some x" "j < length (obj_ptrs x)" "Some c \<in> set (ptr_vars h)"
        using ok by (auto simp: slot_ok_def split: option.splits)
      obtain h' x' where h': "run_work [Dec a] h = Inr h'" "obj_at c h' = Some x'" "obj_ptrs x' = obj_ptrs x" "ptr_vars h' = ptr_vars h"
        "run_work [Dec a] (write_slot s None h) = Inr (write_slot s None h')"
        using held_run_work [OF drop [unfolded Member write_slot_def ptr_slot.case] x(1,3)] Member by (auto simp: write_slot_def)
      then have "slot_ok s h'"
        using Member x by (simp add: slot_ok_def)
      then show ?thesis
        using h' k(1) by (simp add: dec_ref_def slot_ok_put)
    qed
    moreover have "ptrs_to k b \<le> ptrs_to h b" for b
      using run_work_refs [OF k(1), of b] k(3) write_slot_refs [OF ok p, of None b]
      by (simp add: ptrs_to_def same_ptrs_def split: if_splits)
    ultimately show ?thesis
      using k p Some by (simp add: ptr_dec_ref_def)
  qed
qed

lemma pheap_inv_alive:
  assumes "pheap_inv [] h"
  shows "0 < cnt_at a h \<longleftrightarrow> obj_at a h \<noteq> None"
  using pheap_invD(4) [OF assms, of a] by (auto simp: cnt_at_def unat_gt_0 split: option.splits if_splits)

lemma inc_ref_ok:
  assumes alive: "obj_at a h = Some x" and room: "unat (m_iCnt x) < 2 ^ 31 - 1"
    and refs: "\<And>b. ptrs_to h b = cnt_at b h + (if b = a then 1 else 0)"
    and bound: "\<And>b. cnt_at b h < 2 ^ 31"
    and zero: "\<And>b y. obj_at b h = Some y \<Longrightarrow> m_iCnt y = 0 \<Longrightarrow> b = a"
  shows "\<exists>h'. inc_ref a h = Inr h' \<and> pheap_inv [] h' \<and> same_ptrs h h'"
proof -
  note a = obj_at_less [OF alive]
  let ?h = "set_obj a (Some (x\<lparr>m_iCnt := m_iCnt x + 1\<rparr>)) h"
  have more: "unat (m_iCnt x + 1) = unat (m_iCnt x) + 1"
    using room by (simp add: unat_word_ariths)
  then have nz: "m_iCnt x + 1 \<noteq> 0"
    by (metis add_is_0 one_neq_zero unat_0)
  have cnt': "cnt_at b ?h = cnt_at b h + (if b = a then 1 else 0)" for b
    using a alive more by (simp add: cnt_at_def)
  have "refs_in (objects ?h) b = refs_in (objects h) b" for b
    using refs_in_update [of a "objects h" "Some (x\<lparr>m_iCnt := m_iCnt x + 1\<rparr>)" b] a
    by (simp add: set_obj_def members_to_def)
  then have refs': "ptrs_to ?h b = ptrs_to h b" for b
    by (simp add: ptrs_to_def)
  have "pheap_inv [] ?h"
  proof (rule pheap_invI)
    show "count_list (ptr_vars ?h) (Some b) + refs_in (objects ?h) b + count_list [] (Dec b) = cnt_at b ?h" for b
      using refs [of b] refs' [of b] cnt' [of b] by (simp add: ptrs_to_def)
    show "cnt_at b ?h < 2 ^ 31" for b
      using bound [of b] room alive by (cases "b = a") (simp only: cnt', simp add: cnt_at_def, simp add: cnt')
    show "obj_ptrs y = []" if "obj_at b ?h = Some y" "m_iCnt y = 0" for b y
      using that zero [of b y] a nz by (auto split: if_splits)
    show "count_list [] (Free b) = (if \<exists>y. obj_at b ?h = Some y \<and> m_iCnt y = 0 then 1 else 0)" for b
      using zero [of b] a nz by auto
  qed
  moreover have "same_ptrs h ?h"
    using a alive by (auto simp: same_ptrs_def)
  ultimately show ?thesis
    using alive by (simp add: inc_ref_def atomic_increment_def)
qed

lemma pheap_inv_counts:
  assumes "pheap_inv [] h"
  shows "ptrs_to h a = cnt_at a h" and "obj_at a h = Some x \<Longrightarrow> m_iCnt x \<noteq> 0"
  using pheap_invD(1,4) [OF assms, of a] by (auto simp: ptrs_to_def split: if_splits)

lemma ptr_put_ok:
  assumes inv: "pheap_inv [] h" and ok: "slot_ok s h" and slot: "get_slot s h = Inr None"
    and target: "\<And>a. p = Some a \<Longrightarrow> obj_at a h \<noteq> None \<and> cnt_at a h < 2 ^ 31 - 1"
  shows "\<exists>h'. ptr_inc_ref p (write_slot s p h) = Inr h' \<and> pheap_inv [] h' \<and> same_ptrs (write_slot s p h) h'"
proof (cases p)
  case None
  then show ?thesis
    using inv write_slot_same [OF ok slot] by (simp add: ptr_inc_ref_def same_ptrs_def)
next
  case (Some a)
  obtain x where x: "obj_at a h = Some x" "unat (m_iCnt x) < 2 ^ 31 - 1"
    using target [OF Some] by (auto simp: cnt_at_def)
  obtain y where y: "obj_at a (write_slot s p h) = Some y" "m_iCnt y = m_iCnt x"
    using write_slot_at(3) [OF x(1)] by blast
  have "\<exists>h'. inc_ref a (write_slot s p h) = Inr h' \<and> pheap_inv [] h' \<and> same_ptrs (write_slot s p h) h'"
  proof (rule inc_ref_ok [OF y(1)])
    show "unat (m_iCnt y) < 2 ^ 31 - 1"
      using x(2) y(2) by simp
    show "ptrs_to (write_slot s p h) b = cnt_at b (write_slot s p h) + (if b = a then 1 else 0)" for b
      using write_slot_refs [OF ok slot, of p b] Some by (simp add: write_slot_at(1) pheap_inv_counts(1) [OF inv] split: if_splits)
    show "cnt_at b (write_slot s p h) < 2 ^ 31" for b
      using pheap_invD(2) [OF inv, of b] by (simp add: write_slot_at(1))
    show "b = a" if "obj_at b (write_slot s p h) = Some z" "m_iCnt z = 0" for b z
      using write_slot_at(4) [OF that(1)] pheap_inv_counts(2) [OF inv] that(2) by auto
  qed
  then show ?thesis
    using Some by (simp add: ptr_inc_ref_def)
qed

lemma new_var_inv:
  assumes "pheap_inv [] h"
  shows "pheap_inv [] (h\<lparr>ptr_vars := ptr_vars h @ [None]\<rparr>)"
proof (rule pheap_invI)
  have cnt: "cnt_at a (h\<lparr>ptr_vars := ptr_vars h @ [None]\<rparr>) = cnt_at a h" for a
    by (simp add: cnt_at_def)
  show "count_list (ptr_vars (h\<lparr>ptr_vars := ptr_vars h @ [None]\<rparr>)) (Some a) + refs_in (objects (h\<lparr>ptr_vars := ptr_vars h @ [None]\<rparr>)) a +
      count_list [] (Dec a) = cnt_at a (h\<lparr>ptr_vars := ptr_vars h @ [None]\<rparr>)" for a
    using pheap_invD(1) [OF assms, of a] by (simp add: cnt)
  show "cnt_at a (h\<lparr>ptr_vars := ptr_vars h @ [None]\<rparr>) < 2 ^ 31" for a
    using pheap_invD(2) [OF assms, of a] by (simp add: cnt)
  show "obj_ptrs x = []" if "obj_at a (h\<lparr>ptr_vars := ptr_vars h @ [None]\<rparr>) = Some x" "m_iCnt x = 0" for a x
    using that pheap_invD(3) [OF assms, of a x] by simp
  show "count_list [] (Free a) = (if \<exists>x. obj_at a (h\<lparr>ptr_vars := ptr_vars h @ [None]\<rparr>) = Some x \<and> m_iCnt x = 0 then 1 else 0)" for a
    using pheap_invD(4) [OF assms, of a] by simp
qed

lemma ptr_wrap_ok:
  assumes inv: "pheap_inv [] h" and target: "\<And>a. p = Some a \<Longrightarrow> obj_at a h \<noteq> None \<and> cnt_at a h < 2 ^ 31 - 1"
  shows "\<exists>h'. ptr_wrap p h = Inr h' \<and> pheap_inv [] h'"
proof -
  let ?h = "h\<lparr>ptr_vars := ptr_vars h @ [None]\<rparr>"
  let ?s = "Var (length (ptr_vars h))"
  have "\<exists>h'. ptr_inc_ref p (write_slot ?s p ?h) = Inr h' \<and> pheap_inv [] h' \<and> same_ptrs (write_slot ?s p ?h) h'"
  proof (rule ptr_put_ok [OF new_var_inv [OF inv]])
    show "slot_ok ?s ?h"
      by (simp add: slot_ok_def)
    show "get_slot ?s ?h = Inr None"
      by (simp add: get_slot_def vec_get_def)
    show "obj_at a ?h \<noteq> None \<and> cnt_at a ?h < 2 ^ 31 - 1" if "p = Some a" for a
      using target [OF that] by (simp add: cnt_at_def)
  qed
  moreover have "write_slot ?s p ?h = h\<lparr>ptr_vars := ptr_vars h @ [p]\<rparr>"
    by (simp add: write_slot_def list_update_append)
  ultimately show ?thesis
    by (auto simp: ptr_wrap_def)
qed

lemma refs_in_append [simp]: "refs_in (xs @ ys) a = refs_in xs a + refs_in ys a"
  by (simp add: refs_in_def)

lemma ptr_new_ok:
  assumes inv: "pheap_inv [] h"
  shows "\<exists>h'. ptr_new n h = Inr h' \<and> pheap_inv [] h'"
proof -
  let ?a = "length (objects h)"
  let ?x = "\<lparr>m_iCnt = 0, obj_ptrs = replicate n None\<rparr>"
  let ?h = "h\<lparr>objects := objects h @ [Some ?x], ptr_vars := ptr_vars h @ [Some ?a]\<rparr>"
  have at: "obj_at b ?h = (if b = ?a then Some ?x else obj_at b h)" for b
    by (auto simp: obj_at_def nth_append)
  have cnt: "cnt_at b ?h = cnt_at b h" for b
    unfolding cnt_at_def at by (cases "b = ?a") (simp_all add: obj_at_def)
  have none: "count_list (replicate n None) (Some b) = 0" for b :: nat
    by (induction n) auto
  have "\<exists>h'. inc_ref ?a ?h = Inr h' \<and> pheap_inv [] h' \<and> same_ptrs ?h h'"
  proof (rule inc_ref_ok)
    show "obj_at ?a ?h = Some ?x"
      unfolding at by simp
    show "unat (m_iCnt ?x) < 2 ^ 31 - 1"
      by simp
    show "ptrs_to ?h b = cnt_at b ?h + (if b = ?a then 1 else 0)" for b
      using pheap_inv_counts(1) [OF inv, of b] by (cases "b = ?a") (simp_all add: cnt ptrs_to_def refs_in_def members_to_def none)
    show "cnt_at b ?h < 2 ^ 31" for b
      using pheap_invD(2) [OF inv, of b] by (simp add: cnt)
    show "b = ?a" if "obj_at b ?h = Some y" "m_iCnt y = 0" for b y
      using that(1) [unfolded at] that(2) pheap_inv_counts(2) [OF inv, of b y] by (simp split: if_splits)
  qed
  then show ?thesis
    by (auto simp: ptr_new_def ptr_inc_ref_def)
qed

lemma same_ptrs_slot:
  assumes "same_ptrs h h'" and "slot_ok s h"
  shows "slot_ok s h' \<and> get_slot s h' = get_slot s h"
proof (cases s)
  case (Member c j)
  then obtain x where x: "obj_at c h = Some x" "j < length (obj_ptrs x)" "Some c \<in> set (ptr_vars h)"
    using assms(2) by (auto simp: slot_ok_def split: option.splits)
  then obtain y where "obj_at c h' = Some y" "obj_ptrs y = obj_ptrs x" "ptr_vars h' = ptr_vars h"
    using assms(1) by (auto simp: same_ptrs_def)
  then show ?thesis
    using x Member by (simp add: slot_ok_def get_slot_def)
qed (use assms in \<open>simp add: slot_ok_def get_slot_def same_ptrs_def\<close>)

text \<open>The object that holds the right-hand side of an assignment has another pointer than the left-hand side.\<close>

definition assign_ok :: "ptr_slot \<Rightarrow> ptr_slot \<Rightarrow> pheap \<Rightarrow> bool" where
  "assign_ok dst src h \<longleftrightarrow> slot_ok dst h \<and> slot_ok src h \<and> slot_ok src (write_slot dst None h)"

lemma write_slot_ok:
  assumes "slot_ok d h"
  shows "slot_ok d (write_slot d p h)" and "get_slot d (write_slot d p h) = Inr p"
proof -
  have "slot_ok d (write_slot d p h) \<and> get_slot d (write_slot d p h) = Inr p"
  proof (cases d)
    case (Member c j)
    then obtain x where "obj_at c h = Some x" "j < length (obj_ptrs x)" "Some c \<in> set (ptr_vars h)"
      using assms by (auto simp: slot_ok_def split: option.splits)
    then show ?thesis
      using Member by (simp add: slot_ok_def get_slot_def write_slot_def vec_get_def map_ptrs_at)
  qed (use assms in \<open>simp add: slot_ok_def get_slot_def write_slot_def vec_get_def\<close>)
  then show "slot_ok d (write_slot d p h)" and "get_slot d (write_slot d p h) = Inr p"
    by simp_all
qed

lemma write_slot_other:
  assumes "slot_ok s h" and "s \<noteq> d"
  shows "get_slot s (write_slot d p h) = get_slot s h"
proof (cases s)
  case (Member c j)
  then obtain x where x: "obj_at c h = Some x" "j < length (obj_ptrs x)"
    using assms(1) by (auto simp: slot_ok_def split: option.splits)
  have "get_obj c (write_slot d p h) = Inr x" if "d = Var i" for i
    using that x by (simp add: write_slot_def)
  moreover have "bindr (get_obj c (write_slot d p h)) (\<lambda>x. vec_get (obj_ptrs x) j) = vec_get (obj_ptrs x) j" if "d = Member e k" for e k
  proof (cases "obj_at e h")
    case None
    then show ?thesis
      using that x by (simp add: write_slot_def map_ptrs_def)
  next
    case (Some y)
    then show ?thesis
      using that x assms(2) Member by (cases "e = c") (auto simp: write_slot_def map_ptrs_at get_obj_def vec_get_def)
  qed
  ultimately show ?thesis
    using x Member by (cases d) (simp_all add: get_slot_def)
next
  case (Var i)
  then show ?thesis
    using assms by (cases d) (auto simp: slot_ok_def get_slot_def write_slot_def vec_get_def nth_list_update)
qed

lemma slot_alive:
  assumes inv: "pheap_inv [] h" and "slot_ok s h" and "get_slot s h = Inr (Some a)"
  shows "obj_at a h \<noteq> None"
  using write_slot_refs [OF assms(2,3), of None a] pheap_inv_counts(1) [OF inv, of a] pheap_inv_alive [OF inv, of a]
  by simp

lemma ptr_copy_ok:
  assumes inv: "pheap_inv [] h" and ok: "slot_ok s h" and room: "\<And>a. cnt_at a h < 2 ^ 31 - 1"
  shows "\<exists>h'. ptr_copy s h = Inr h' \<and> pheap_inv [] h'"
proof -
  obtain p where p: "get_slot s h = Inr p"
    using slot_ok_get [OF ok] by blast
  then show ?thesis
    using ptr_wrap_ok [OF inv, of p] slot_alive [OF inv ok] room by (simp add: ptr_copy_def)
qed

text \<open>What both assignments do when they have let go.\<close>

lemma ptr_reset_ok:
  assumes inv: "pheap_inv [] h" and ok: "slot_ok dst h" and room: "\<And>a. cnt_at a h < 2 ^ 31 - 1"
    and dec: "ptr_dec_ref dst h = Inr h1" and target: "\<And>a. p = Some a \<Longrightarrow> obj_at a h1 \<noteq> None"
  shows "\<exists>h'. bindr (put_slot dst p h1) (ptr_inc_ref p) = Inr h' \<and> pheap_inv [] h' \<and> get_slot dst h' = Inr p"
proof -
  have h1: "pheap_inv [] h1" "same_ptrs (write_slot dst None h) h1" "\<And>a. ptrs_to h1 a \<le> ptrs_to h a"
    using ptr_dec_ref_ok [OF inv ok] dec by auto
  have dst1: "slot_ok dst h1" "get_slot dst h1 = Inr None"
    using same_ptrs_slot [OF h1(2) write_slot_ok(1)] write_slot_ok(2) ok by auto
  have "obj_at a h1 \<noteq> None \<and> cnt_at a h1 < 2 ^ 31 - 1" if "p = Some a" for a
    using target [OF that] h1(3) [of a] room [of a] pheap_inv_counts(1) [OF inv, of a]
      pheap_inv_counts(1) [OF h1(1), of a] by simp
  then obtain h2 where h2: "ptr_inc_ref p (write_slot dst p h1) = Inr h2" "pheap_inv [] h2" "same_ptrs (write_slot dst p h1) h2"
    using ptr_put_ok [OF h1(1) dst1] by blast
  then have "get_slot dst h2 = Inr p"
    using same_ptrs_slot [OF h2(3) write_slot_ok(1) [OF dst1(1)]] write_slot_ok(2) [OF dst1(1)] by simp
  then show ?thesis
    using h2 by (simp add: slot_ok_put [OF dst1(1)])
qed

lemma ptr_assign_ok:
  assumes inv: "pheap_inv [] h" and ok: "assign_ok dst src h" and room: "\<And>a. cnt_at a h < 2 ^ 31 - 1"
    and src: "get_slot src h = Inr s"
  shows "\<exists>h'. ptr_assign dst src h = Inr h' \<and> pheap_inv [] h' \<and> get_slot dst h' = Inr s"
proof -
  note ok' = ok [unfolded assign_ok_def]
  obtain d where d: "get_slot dst h = Inr d"
    using slot_ok_get ok' by blast
  show ?thesis
  proof (cases "d = s")
    case True
    then show ?thesis
      using d src inv by (simp add: ptr_assign_def)
  next
    case False
    then have ne: "src \<noteq> dst"
      using d src by auto
    obtain h1 where h1: "ptr_dec_ref dst h = Inr h1" "pheap_inv [] h1" "same_ptrs (write_slot dst None h) h1"
      using ptr_dec_ref_ok [OF inv] ok' by blast
    have src1: "slot_ok src h1" "get_slot src h1 = Inr s"
      using same_ptrs_slot [OF h1(3), of src] write_slot_other [OF _ ne, of h None] ok' src by auto
    have "obj_at a h1 \<noteq> None" if "s = Some a" for a
      using slot_alive [OF h1(2) src1(1)] src1(2) that by simp
    then show ?thesis
      using ptr_reset_ok [OF inv _ room h1(1), of s] ok' d src False h1(1) src1 by (simp add: ptr_assign_def)
  qed
qed

text \<open>An address may be assigned when another variable keeps its object.\<close>

definition raw_ok :: "ptr_slot \<Rightarrow> nat option \<Rightarrow> pheap \<Rightarrow> bool" where
  "raw_ok dst p h \<longleftrightarrow> slot_ok dst h \<and> (p = None \<or> p \<in> set (ptr_vars (write_slot dst None h)))"

lemma ptr_assign_raw_ok:
  assumes inv: "pheap_inv [] h" and ok: "raw_ok dst p h" and room: "\<And>a. cnt_at a h < 2 ^ 31 - 1"
  shows "\<exists>h'. ptr_assign_raw dst p h = Inr h' \<and> pheap_inv [] h'"
proof -
  have dst: "slot_ok dst h"
    using ok by (simp add: raw_ok_def)
  then obtain d where d: "get_slot dst h = Inr d"
    using slot_ok_get by blast
  obtain h1 where h1: "ptr_dec_ref dst h = Inr h1" "pheap_inv [] h1" "same_ptrs (write_slot dst None h) h1"
    using ptr_dec_ref_ok [OF inv dst] by blast
  have "obj_at a h1 \<noteq> None" if "p = Some a" for a
  proof -
    have "Some a \<in> set (ptr_vars h1)"
      using ok that h1(3) by (simp add: raw_ok_def same_ptrs_def)
    then have "0 < ptrs_to h1 a"
      by (metis add_gr_0 count_list_0_iff gr0I ptrs_to_def)
    then show ?thesis
      using pheap_inv_counts(1) [OF h1(2), of a] pheap_inv_alive [OF h1(2), of a] by simp
  qed
  then show ?thesis
    using ptr_reset_ok [OF inv dst room h1(1), of p] inv d h1(1) by (auto simp: ptr_assign_raw_def)
qed

section \<open>Programs with smart pointers\<close>

datatype ptr_op = New nat | Wrap nat | Copy ptr_slot | Destroy nat | Assign ptr_slot ptr_slot | Assign_raw ptr_slot "nat option"

fun run_ptr_op :: "ptr_op \<Rightarrow> pheap \<Rightarrow> pheap res" where
  "run_ptr_op (New n) h = ptr_new n h"
| "run_ptr_op (Wrap a) h = ptr_wrap (Some a) h"
| "run_ptr_op (Copy s) h = ptr_copy s h"
| "run_ptr_op (Destroy i) h = ptr_destroy i h"
| "run_ptr_op (Assign d s) h = ptr_assign d s h"
| "run_ptr_op (Assign_raw d p) h = ptr_assign_raw d p h"

definition few_ptrs :: "pheap \<Rightarrow> bool" where
  "few_ptrs h \<longleftrightarrow> (\<forall>a. ptrs_to h a < 2 ^ 31 - 1)"

fun ptr_op_ok :: "ptr_op \<Rightarrow> pheap \<Rightarrow> bool" where
  "ptr_op_ok (New n) h = True"
| "ptr_op_ok (Wrap a) h = (obj_at a h \<noteq> None \<and> few_ptrs h)"
| "ptr_op_ok (Copy s) h = (slot_ok s h \<and> few_ptrs h)"
| "ptr_op_ok (Destroy i) h = slot_ok (Var i) h"
| "ptr_op_ok (Assign d s) h = (assign_ok d s h \<and> few_ptrs h)"
| "ptr_op_ok (Assign_raw d p) h = (raw_ok d p h \<and> few_ptrs h)"

inductive ptr_runs :: "pheap \<Rightarrow> bool" where
  no_objects: "ptr_runs \<lparr>objects = [], ptr_vars = []\<rparr>"
| ptr_step: "ptr_runs h \<Longrightarrow> ptr_op_ok c h \<Longrightarrow> run_ptr_op c h = Inr h' \<Longrightarrow> ptr_runs h'"

lemma ptr_op_runs:
  assumes "pheap_inv [] h" and "ptr_op_ok c h"
  shows "\<exists>h'. run_ptr_op c h = Inr h' \<and> pheap_inv [] h'"
proof (cases c)
  case (New n)
  then show ?thesis
    using ptr_new_ok [OF assms(1)] by simp
next
  case (Wrap a)
  then show ?thesis
    using ptr_wrap_ok [OF assms(1), of "Some a"] assms pheap_inv_counts(1) [OF assms(1)] by (simp add: few_ptrs_def)
next
  case (Assign_raw d p)
  then show ?thesis
    using ptr_assign_raw_ok [OF assms(1), of d p] assms pheap_inv_counts(1) [OF assms(1)] by (simp add: few_ptrs_def)
next
  case (Copy s)
  then show ?thesis
    using ptr_copy_ok [OF assms(1), of s] assms pheap_inv_counts(1) [OF assms(1)] by (simp add: few_ptrs_def)
next
  case (Destroy i)
  then show ?thesis
    using ptr_dec_ref_ok [OF assms(1), of "Var i"] assms(2) by (auto simp: ptr_destroy_def)
next
  case (Assign d s)
  then show ?thesis
    using ptr_assign_ok [OF assms(1), of d s] assms pheap_inv_counts(1) [OF assms(1)] slot_ok_get [of s h]
    by (auto simp: few_ptrs_def assign_ok_def)
qed

lemma ptr_runs_inv: "ptr_runs h \<Longrightarrow> pheap_inv [] h"
proof (induction rule: ptr_runs.induct)
  case no_objects
  show ?case
    by (simp add: pheap_inv_def cnt_at_def obj_at_def refs_in_def)
next
  case (ptr_step h c h')
  then show ?case
    using ptr_op_runs [of h c] by auto
qed


text \<open>An assignment through the object it lets go of uses freed memory. When \<open>p\<close> is the only
  pointer to an object, \<open>p = p->next\<close> on a member that points elsewhere deletes the object, and the
  member in it, before the assignment reads the member.\<close>

theorem smart_ptr_advance_dangling:
  assumes "ptr_runs h" and "get_slot (Var i) h = Inr (Some a)" and "get_slot (Member a j) h = Inr s" and "s \<noteq> Some a"
    and "ptrs_to h a = 1"
  shows "ptr_assign (Var i) (Member a j) h = Inl Out_of_bounds"
proof -
  note inv = ptr_runs_inv [OF assms(1)]
  have ok: "slot_ok (Var i) h"
    using assms(2) by (simp add: get_slot_def slot_ok_def vec_get_def split: if_splits)
  note drop = write_slot_inv [OF inv ok assms(2)]
  have none: "ptrs_to (write_slot (Var i) None h) a = 0"
    using write_slot_refs [OF ok assms(2), of None a] assms(5) by simp
  obtain h1 where h1: "ptr_dec_ref (Var i) h = Inr h1" "pheap_inv [] h1" "same_ptrs (write_slot (Var i) None h) h1"
    using ptr_dec_ref_ok [OF inv ok] by blast
  obtain k where k: "run_work [Dec a] h = Inr k" "h1 = k\<lparr>ptr_vars := ptr_vars h1\<rparr>"
    using h1(1) assms(2) by (auto simp: ptr_dec_ref_def dec_ref_def put_slot_def elim!: bindr_InrE)
  then have "refs_in (objects h1) a \<le> refs_in (objects h) a"
    using run_work_refs [OF k(1), of a] by (metis pheap.select_convs(1) pheap.surjective pheap.update_convs(2))
  then have "ptrs_to h1 a = 0"
    using none h1(3) by (simp add: ptrs_to_def same_ptrs_def write_slot_def)
  then have "obj_at a h1 = None"
    using pheap_inv_counts(1) [OF h1(2), of a] pheap_inv_alive [OF h1(2), of a] by auto
  then have "get_slot (Member a j) h1 = Inl Out_of_bounds"
    by (simp add: get_slot_def get_obj_def)
  then show ?thesis
    using assms(2,3,4) h1(1) by (simp add: ptr_assign_def)
qed

section \<open>A list of two objects\<close>

definition demo_list :: pheap where
  "demo_list = \<lparr>objects = [Some \<lparr>m_iCnt = 1, obj_ptrs = [Some 1]\<rparr>, Some \<lparr>m_iCnt = 1, obj_ptrs = [None]\<rparr>],
     ptr_vars = [Some 0, None]\<rparr>"

lemma small_ptrs: "length (ptr_vars h) + sum_list (map (\<lambda>x. case x of None \<Rightarrow> 0 | Some y \<Rightarrow> length (obj_ptrs y)) (objects h)) < 2 ^ 31 - 1 \<Longrightarrow> few_ptrs h"
proof -
  have "refs_in xs a \<le> sum_list (map (\<lambda>x. case x of None \<Rightarrow> 0 | Some y \<Rightarrow> length (obj_ptrs y)) xs)" for xs a
    by (induction xs) (auto simp: refs_in_def members_to_def count_le_length add_mono split: option.splits)
  moreover have "count_list (ptr_vars h) (Some a) \<le> length (ptr_vars h)" for a
    by (rule count_le_length)
  ultimately show "length (ptr_vars h) + sum_list (map (\<lambda>x. case x of None \<Rightarrow> 0 | Some y \<Rightarrow> length (obj_ptrs y)) (objects h)) < 2 ^ 31 - 1 \<Longrightarrow> few_ptrs h"
    unfolding few_ptrs_def ptrs_to_def by (meson add_mono le_less_trans)
qed

lemmas ptr_evals = ptr_new_def ptr_copy_def ptr_wrap_def ptr_destroy_def ptr_assign_def ptr_dec_ref_def ptr_inc_ref_def dec_ref_def
  inc_ref_def get_slot_def put_slot_def vec_get_def vec_set_def get_obj_def obj_at_def set_obj_def atomic_increment_def

lemma demo_list_runs: "ptr_runs demo_list"
proof -
  let ?h1 = "\<lparr>objects = [Some \<lparr>m_iCnt = 1, obj_ptrs = [None]\<rparr>], ptr_vars = [Some 0]\<rparr>"
  let ?h2 = "\<lparr>objects = [Some \<lparr>m_iCnt = 1, obj_ptrs = [None]\<rparr>, Some \<lparr>m_iCnt = 1, obj_ptrs = [None]\<rparr>], ptr_vars = [Some 0, Some 1]\<rparr>"
  let ?h3 = "\<lparr>objects = [Some \<lparr>m_iCnt = 1, obj_ptrs = [Some 1]\<rparr>, Some \<lparr>m_iCnt = 2, obj_ptrs = [None]\<rparr>], ptr_vars = [Some 0, Some 1]\<rparr>"
  have "ptr_runs ?h1"
    by (rule ptr_step [OF no_objects, of "New 1"]) (simp_all add: ptr_evals)
  then have "ptr_runs ?h2"
    by (rule ptr_step [of _ "New 1"]) (simp_all add: ptr_evals)
  then have "ptr_runs ?h3"
  proof (rule ptr_step [of _ "Assign (Member 0 0) (Var 1)"])
    show "ptr_op_ok (Assign (Member 0 0) (Var 1)) ?h2"
      using small_ptrs [of ?h2] by (simp add: assign_ok_def slot_ok_def obj_at_def write_slot_def map_ptrs_def set_obj_def)
  qed (simp add: ptr_evals)
  then show ?thesis
    unfolding demo_list_def
    by (rule ptr_step [of _ "Destroy 1"]) (simp_all add: ptr_evals slot_ok_def run_work.simps dec_step_def atomic_exchange_and_add_def)
qed


theorem smart_ptr_advance_dangling_witness: "ptr_assign (Var 0) (Member 0 0) demo_list = Inl Out_of_bounds"
  by (rule smart_ptr_advance_dangling [OF demo_list_runs, where s = "Some 1"])
    (simp_all add: demo_list_def ptr_evals ptrs_to_def refs_in_def members_to_def)

end
