(* ===== verification/RingBuf.thy ===== *)
theory RingBuf
  imports Prelude
begin

text \<open>
  The ring buffer \<open>CSmartRB\<close> of \<open>libcomm_utils/src/memory/smart_rb.h\<close>: blocks of one size in one
  piece of memory, read and written at indices that only grow. It is compared with a plain
  queue that is bounded by the number of blocks.
\<close>

section \<open>The class\<close>

record CSmartRB =
  m_bytes :: bytes
  m_ui64DataHeadIdx :: u64
  m_ui64FreeHeadIdx :: u64
  m_ui32BlockCnt :: u32
  m_ui32BlockSz :: u32

definition rb_reset :: "CSmartRB \<Rightarrow> CSmartRB res" where
  "rb_reset r =
     bindr (write_at 0 (replicate (unat (m_ui32BlockCnt r * m_ui32BlockSz r)) 0) (m_bytes r)) (\<lambda>bs.
     Inr (r\<lparr>m_bytes := bs, m_ui64DataHeadIdx := 1, m_ui64FreeHeadIdx := 1\<rparr>))"

text \<open>\<open>mem\<close> is what \<open>malloc\<close> gives for the product of the two numbers, 32 bits wide.\<close>

definition new_rb :: "bytes option \<Rightarrow> u32 \<Rightarrow> u32 \<Rightarrow> CSmartRB res" where
  "new_rb mem cnt sz =
     bindr (cmn_assert (mem \<noteq> None)) (\<lambda>_.
     rb_reset \<lparr>m_bytes = the mem, m_ui64DataHeadIdx = 0, m_ui64FreeHeadIdx = 0,
       m_ui32BlockCnt = cnt, m_ui32BlockSz = sz\<rparr>)"

definition rb_empty :: "CSmartRB \<Rightarrow> bool" where
  "rb_empty r \<longleftrightarrow> m_ui64DataHeadIdx r = m_ui64FreeHeadIdx r"

definition rb_full :: "CSmartRB \<Rightarrow> bool" where
  "rb_full r \<longleftrightarrow> m_ui64FreeHeadIdx r - m_ui64DataHeadIdx r = ucast (m_ui32BlockCnt r)"

definition set_data_head_idx :: "u64 \<Rightarrow> CSmartRB \<Rightarrow> CSmartRB res" where
  "set_data_head_idx idx r =
     bindr (cmn_assert (idx > m_ui64DataHeadIdx r \<and> idx < m_ui64FreeHeadIdx r)) (\<lambda>_.
     Inr (r\<lparr>m_ui64DataHeadIdx := idx\<rparr>))"

definition set_free_head_idx :: "u64 \<Rightarrow> CSmartRB \<Rightarrow> CSmartRB res" where
  "set_free_head_idx idx r =
     bindr (cmn_assert (idx > m_ui64FreeHeadIdx r \<and> idx - m_ui64DataHeadIdx r \<le> ucast (m_ui32BlockCnt r))) (\<lambda>_.
     Inr (r\<lparr>m_ui64FreeHeadIdx := idx\<rparr>))"

text \<open>Pointers into the memory are offsets.\<close>

definition block_offset :: "u64 \<Rightarrow> CSmartRB \<Rightarrow> nat" where
  "block_offset idx r = unat ((idx mod ucast (m_ui32BlockCnt r)) * ucast (m_ui32BlockSz r))"

definition get_free_head :: "CSmartRB \<Rightarrow> nat option" where
  "get_free_head r = (if rb_full r then None else Some (block_offset (m_ui64FreeHeadIdx r) r))"

definition rb_set_data :: "bytes \<Rightarrow> CSmartRB \<Rightarrow> (u64 \<times> CSmartRB) res" where
  "rb_set_data d r =
     bindr (cmn_assert (unat (m_ui32BlockSz r) \<ge> length d)) (\<lambda>_.
     if rb_full r then Inr (0, r)
     else bindr (write_at (block_offset (m_ui64FreeHeadIdx r) r) d (m_bytes r)) (\<lambda>bs.
          Inr (m_ui64FreeHeadIdx r, r\<lparr>m_bytes := bs, m_ui64FreeHeadIdx := m_ui64FreeHeadIdx r + 1\<rparr>)))"

definition rb_get_data :: "u64 \<Rightarrow> CSmartRB \<Rightarrow> nat res" where
  "rb_get_data idx r =
     (if rb_empty r \<or> idx \<ge> m_ui64FreeHeadIdx r \<or> idx < m_ui64DataHeadIdx r then Inl Assert_failed
      else Inr (block_offset idx r))"

section \<open>The reference\<close>

text \<open>
  A program puts packages, reads the block of an index, gives the blocks below an index back, or
  publishes the blocks below an index that it has filled itself.
\<close>

datatype rb_op = Put bytes | Read u64 | Release u64 | Publish u64

datatype rb_out = Idx u64 | Block bytes | Nothing

fun rb_step :: "rb_op \<Rightarrow> CSmartRB \<Rightarrow> (rb_out \<times> CSmartRB) res" where
  "rb_step (Put d) r = bindr (rb_set_data d r) (\<lambda>(i, r). Inr (Idx i, r))"
| "rb_step (Read i) r =
     bindr (rb_get_data i r) (\<lambda>at. bindr (read_at at (unat (m_ui32BlockSz r)) (m_bytes r)) (\<lambda>b. Inr (Block b, r)))"
| "rb_step (Release i) r = bindr (set_data_head_idx i r) (\<lambda>r. Inr (Nothing, r))"
| "rb_step (Publish i) r = bindr (set_free_head_idx i r) (\<lambda>r. Inr (Nothing, r))"

text \<open>The reference: a queue of at most \<open>cnt\<close> packages, the first one with the number \<open>h\<close>.\<close>

fun bq_step :: "nat \<Rightarrow> nat \<Rightarrow> rb_op \<Rightarrow> nat \<times> bytes list \<Rightarrow> (rb_out \<times> nat \<times> bytes list) res" where
  "bq_step cnt sz (Put d) (h, q) =
     (if sz < length d then Inl Assert_failed
      else if length q = cnt then Inr (Idx 0, h, q)
      else Inr (Idx (word_of_nat (h + length q)), h, q @ [d]))"
| "bq_step cnt sz (Read i) (h, q) =
     (if h \<le> unat i \<and> unat i < h + length q then Inr (Block (q ! (unat i - h)), h, q) else Inl Assert_failed)"
| "bq_step cnt sz (Release i) (h, q) =
     (if h < unat i \<and> unat i < h + length q then Inr (Nothing, unat i, drop (unat i - h) q) else Inl Assert_failed)"
| "bq_step cnt sz (Publish i) (h, q) =
     (if h + length q < unat i \<and> unat i \<le> h + cnt
      then Inr (Nothing, h, q @ replicate (unat i - (h + length q)) []) else Inl Assert_failed)"

fun steps_run :: "('c \<Rightarrow> 's \<Rightarrow> ('o \<times> 's) res) \<Rightarrow> 'c list \<Rightarrow> 's \<Rightarrow> ('o list \<times> 's) res" where
  "steps_run f [] s = Inr ([], s)"
| "steps_run f (c # cs) s =
     bindr (f c s) (\<lambda>(out, s). bindr (steps_run f cs s) (\<lambda>(outs, s). Inr (out # outs, s)))"

section \<open>The buffer is the queue\<close>

definition rb_wf :: "CSmartRB \<Rightarrow> bool" where
  "rb_wf r \<longleftrightarrow> m_ui32BlockCnt r \<noteq> 0 \<and> m_ui32BlockSz r \<noteq> 0 \<and>
     length (m_bytes r) = unat (m_ui32BlockCnt r) * unat (m_ui32BlockSz r) \<and>
     m_ui64DataHeadIdx r \<le> m_ui64FreeHeadIdx r \<and>
     unat (m_ui64FreeHeadIdx r) - unat (m_ui64DataHeadIdx r) \<le> unat (m_ui32BlockCnt r)"

definition rb_block :: "nat \<Rightarrow> CSmartRB \<Rightarrow> bytes" where
  "rb_block i r = take (unat (m_ui32BlockSz r)) (drop (i mod unat (m_ui32BlockCnt r) * unat (m_ui32BlockSz r)) (m_bytes r))"

text \<open>A package is the front of its block; what is behind it is left over from earlier.\<close>

definition starts_with :: "bytes \<Rightarrow> bytes \<Rightarrow> bool" where
  "starts_with b d \<longleftrightarrow> take (length d) b = d"

definition rb_abs :: "CSmartRB \<Rightarrow> nat \<times> bytes list \<Rightarrow> bool" where
  "rb_abs r hq \<longleftrightarrow> rb_wf r \<and> fst hq = unat (m_ui64DataHeadIdx r) \<and>
     fst hq + length (snd hq) = unat (m_ui64FreeHeadIdx r) \<and>
     (\<forall>k < length (snd hq). starts_with (rb_block (fst hq + k) r) (snd hq ! k))"

fun out_ok :: "rb_out \<Rightarrow> rb_out \<Rightarrow> bool" where
  "out_ok (Block b) (Block d) = starts_with b d"
| "out_ok x y = (x = y)"

lemma block_offset_nat:
  assumes "rb_wf r"
  shows "block_offset idx r = unat idx mod unat (m_ui32BlockCnt r) * unat (m_ui32BlockSz r)"
    and "block_offset idx r + unat (m_ui32BlockSz r) \<le> length (m_bytes r)"
proof -
  have cnt: "0 < unat (m_ui32BlockCnt r)"
    using assms by (simp add: rb_wf_def unat_gt_0)
  then have less: "unat idx mod unat (m_ui32BlockCnt r) < unat (m_ui32BlockCnt r)"
    by simp
  have "unat (idx mod ucast (m_ui32BlockCnt r)) = unat idx mod unat (m_ui32BlockCnt r)"
    by (simp add: unat_mod unat_u32_u64)
  moreover have "unat idx mod unat (m_ui32BlockCnt r) * unat (m_ui32BlockSz r) < 4294967296 * 4294967296"
    using less unat_u32_lt [of "m_ui32BlockCnt r"] unat_u32_lt [of "m_ui32BlockSz r"]
    by (intro mult_strict_mono) simp_all
  ultimately show eq: "block_offset idx r = unat idx mod unat (m_ui32BlockCnt r) * unat (m_ui32BlockSz r)"
    by (simp add: block_offset_def unat_word_ariths unat_u32_u64)
  have "(unat idx mod unat (m_ui32BlockCnt r) + 1) * unat (m_ui32BlockSz r) \<le> unat (m_ui32BlockCnt r) * unat (m_ui32BlockSz r)"
    using less by (intro mult_le_mono1) simp
  then show "block_offset idx r + unat (m_ui32BlockSz r) \<le> length (m_bytes r)"
    using assms unfolding eq by (simp add: rb_wf_def algebra_simps)
qed

lemma rb_full_nat: "rb_wf r \<Longrightarrow> rb_full r \<longleftrightarrow> unat (m_ui64FreeHeadIdx r) - unat (m_ui64DataHeadIdx r) = unat (m_ui32BlockCnt r)"
  by (metis rb_full_def rb_wf_def unat_sub_fits unat_u32_u64 word_unat_eq_iff)

lemma block_after_write:
  assumes "write_at (p * sz) d bs = Inr bs'" and "length d \<le> sz" and "p \<noteq> q"
  shows "take sz (drop (q * sz) bs') = take sz (drop (q * sz) bs)"
proof -
  have bs': "bs' = take (p * sz) bs @ d @ drop (p * sz + length d) bs" and fits: "p * sz + length d \<le> length bs"
    using assms(1) by (auto simp: write_at_def split: if_splits)
  consider "q + 1 \<le> p" | "p + 1 \<le> q"
    using assms(3) by linarith
  then show ?thesis
  proof cases
    case 1
    then have "(q + 1) * sz \<le> p * sz"
      by (rule mult_le_mono1)
    then have le: "q * sz + sz \<le> p * sz"
      by simp
    have "read_at (q * sz) sz bs' = read_at (q * sz) sz bs"
      by (rule read_before_write [OF assms(1) le])
    then show ?thesis
      using le fits write_at_length [OF assms(1)] by (simp add: read_at_def)
  next
    case 2
    then have "(p + 1) * sz \<le> q * sz"
      by (rule mult_le_mono1)
    then have "p * sz + length d \<le> q * sz"
      using assms(2) by simp
    then have "drop (q * sz) bs' = drop (q * sz) bs"
      using fits 2 by (simp add: bs' drop_append)
    then show ?thesis
      by simp
  qed
qed

lemma mod_window_neq:
  fixes i f n :: nat
  assumes "i < f" and "f < i + n"
  shows "f mod n \<noteq> i mod n"
proof
  assume "f mod n = i mod n"
  then have "n dvd f - i"
    by (metis assms(1) less_imp_le_nat mod_eq_dvd_iff_nat)
  moreover have "0 < f - i" "f - i < n"
    using assms by auto
  ultimately show False
    using nat_dvd_not_less by blast
qed

lemma rb_put_abs:
  assumes abs: "rb_abs r (h, q)" and room: "h + length q + 1 < 2 ^ 64" and len: "length d \<le> unat (m_ui32BlockSz r)"
    and full: "\<not> rb_full r"
  shows "\<exists>r'. rb_set_data d r = Inr (m_ui64FreeHeadIdx r, r') \<and> rb_abs r' (h, q @ [d]) \<and>
    m_ui32BlockCnt r' = m_ui32BlockCnt r \<and> m_ui32BlockSz r' = m_ui32BlockSz r"
proof -
  let ?n = "unat (m_ui32BlockCnt r)" and ?sz = "unat (m_ui32BlockSz r)" and ?f = "m_ui64FreeHeadIdx r"
  have wf: "rb_wf r" and h: "h = unat (m_ui64DataHeadIdx r)" and f: "h + length q = unat ?f"
    and blocks: "\<forall>k < length q. starts_with (rb_block (h + k) r) (q ! k)"
    using abs by (auto simp: rb_abs_def)
  note off = block_offset_nat [OF wf, of ?f]
  obtain bs where bs: "write_at (unat ?f mod ?n * ?sz) d (m_bytes r) = Inr bs"
    using off len by (simp add: write_at_Inr)
  let ?r = "r\<lparr>m_bytes := bs, m_ui64FreeHeadIdx := ?f + 1\<rparr>"
  have more: "unat (?f + 1) = unat ?f + 1"
    using room f by (subst unat_add_fits) simp_all
  have less: "length q < ?n"
    using rb_full_nat [OF wf] full f h wf by (auto simp: rb_wf_def)
  have "rb_wf ?r"
    using wf more less f h write_at_length [OF bs] by (simp add: rb_wf_def word_le_nat_alt)
  moreover have "starts_with (rb_block (h + k) ?r) ((q @ [d]) ! k)" if "k < length (q @ [d])" for k
  proof (cases "k = length q")
    case True
    have "read_at (unat ?f mod ?n * ?sz) (length d) bs = Inr d"
      by (rule read_after_write [OF bs])
    then have "take (length d) (drop (unat ?f mod ?n * ?sz) bs) = d"
      by (simp add: read_at_def split: if_splits)
    then show ?thesis
      using True len f by (simp add: starts_with_def rb_block_def min_def)
  next
    case False
    then have k: "k < length q"
      using that by simp
    have "unat ?f mod ?n \<noteq> (h + k) mod ?n"
      using k less f by (intro mod_window_neq) simp_all
    then have "rb_block (h + k) ?r = rb_block (h + k) r"
      using block_after_write [OF bs len] by (simp add: rb_block_def)
    then show ?thesis
      using blocks k by (simp add: nth_append)
  qed
  ultimately have "rb_abs ?r (h, q @ [d])"
    using h f more by (simp add: rb_abs_def)
  moreover have "rb_set_data d r = Inr (?f, ?r)"
    using len full bs off by (simp add: rb_set_data_def)
  ultimately show ?thesis
    by auto
qed

lemma rb_step_abs:
  assumes abs: "rb_abs r (h, q)" and room: "h + length q + 1 < 2 ^ 64"
  shows "case rb_step c r of
      Inl e \<Rightarrow> bq_step (unat (m_ui32BlockCnt r)) (unat (m_ui32BlockSz r)) c (h, q) = Inl e
    | Inr (out, r') \<Rightarrow> \<exists>out' h' q'. bq_step (unat (m_ui32BlockCnt r)) (unat (m_ui32BlockSz r)) c (h, q) = Inr (out', h', q') \<and>
        out_ok out out' \<and> rb_abs r' (h', q') \<and> h' + length q' \<le> h + length q + unat (m_ui32BlockCnt r) \<and>
        m_ui32BlockCnt r' = m_ui32BlockCnt r \<and> m_ui32BlockSz r' = m_ui32BlockSz r"
proof -
  let ?n = "unat (m_ui32BlockCnt r)" and ?sz = "unat (m_ui32BlockSz r)"
  have wf: "rb_wf r" and h: "h = unat (m_ui64DataHeadIdx r)" and f: "h + length q = unat (m_ui64FreeHeadIdx r)"
    and blocks: "\<forall>k < length q. starts_with (rb_block (h + k) r) (q ! k)"
    using abs by (auto simp: rb_abs_def)
  have n: "0 < ?n" and le: "length q \<le> ?n"
    using wf h f by (auto simp: rb_wf_def unat_gt_0)
  have full: "rb_full r \<longleftrightarrow> length q = ?n"
    using rb_full_nat [OF wf] h f by auto
  show ?thesis
  proof (cases c)
    case (Put d)
    show ?thesis
    proof (cases "?sz < length d")
      case True
      then show ?thesis
        using Put by (simp add: rb_set_data_def)
    next
      case small: False
      show ?thesis
      proof (cases "rb_full r")
        case True
        then show ?thesis
          using Put small full abs by (simp add: rb_set_data_def)
      next
        case False
        obtain r' where "rb_set_data d r = Inr (m_ui64FreeHeadIdx r, r')" "rb_abs r' (h, q @ [d])"
          "m_ui32BlockCnt r' = m_ui32BlockCnt r" "m_ui32BlockSz r' = m_ui32BlockSz r"
          using rb_put_abs [OF abs room _ False, of d] small by auto
        then show ?thesis
          using Put small False full f n by simp
      qed
    qed
  next
    case (Read i)
    show ?thesis
    proof (cases "h \<le> unat i \<and> unat i < h + length q")
      case True
      then have "rb_get_data i r = Inr (block_offset i r)"
        using h f by (auto simp: rb_get_data_def rb_empty_def word_le_nat_alt word_less_nat_alt)
      moreover have "read_at (block_offset i r) ?sz (m_bytes r) = Inr (rb_block (unat i) r)"
        using block_offset_nat [OF wf, of i] by (simp add: read_at_Inr rb_block_def)
      moreover have "starts_with (rb_block (unat i) r) (q ! (unat i - h))"
        using blocks True by (metis add_diff_inverse_nat less_diff_conv2 linorder_not_le add.commute)
      ultimately show ?thesis
        using Read True abs by simp
    next
      case False
      then show ?thesis
        using Read h f by (auto simp: rb_get_data_def word_le_nat_alt word_less_nat_alt)
    qed
  next
    case (Release i)
    show ?thesis
    proof (cases "h < unat i \<and> unat i < h + length q")
      case True
      let ?r = "r\<lparr>m_ui64DataHeadIdx := i\<rparr>"
      have "rb_wf ?r"
        using wf True h f by (auto simp: rb_wf_def word_le_nat_alt)
      moreover have "starts_with (rb_block (unat i + k) ?r) (q ! (unat i - h + k))" if "k < length q - (unat i - h)" for k
      proof -
        have "unat i - h + k < length q" "h + (unat i - h + k) = unat i + k"
          using that True by linarith+
        then have "starts_with (rb_block (unat i + k) r) (q ! (unat i - h + k))"
          using blocks by metis
        then show ?thesis
          by (simp add: rb_block_def)
      qed
      ultimately have "rb_abs ?r (unat i, drop (unat i - h) q)"
        using True f by (auto simp: rb_abs_def)
      then show ?thesis
        using Release True h f by (simp add: set_data_head_idx_def word_less_nat_alt)
    next
      case False
      then show ?thesis
        using Release h f by (auto simp: set_data_head_idx_def word_less_nat_alt cmn_assert_def)
    qed
  next
    case (Publish i)
    have diff: "i - m_ui64DataHeadIdx r \<le> ucast (m_ui32BlockCnt r) \<longleftrightarrow> unat i \<le> h + ?n" if "m_ui64FreeHeadIdx r < i"
      using that wf h by (subst word_le_nat_alt) (auto simp: unat_sub_fits rb_wf_def unat_u32_u64 word_less_nat_alt word_le_nat_alt)
    show ?thesis
    proof (cases "h + length q < unat i \<and> unat i \<le> h + ?n")
      case True
      let ?r = "r\<lparr>m_ui64FreeHeadIdx := i\<rparr>"
      have "rb_wf ?r"
        using wf True h f by (auto simp: rb_wf_def word_le_nat_alt)
      moreover have "starts_with (rb_block (h + k) ?r) ((q @ replicate (unat i - (h + length q)) []) ! k)"
        if "k < length q + (unat i - (h + length q))" for k
        using blocks [rule_format, of k] that by (auto simp: rb_block_def nth_append starts_with_def)
      ultimately have "rb_abs ?r (h, q @ replicate (unat i - (h + length q)) [])"
        using True h by (auto simp: rb_abs_def)
      moreover have "h + (length q + (unat i - (h + length q))) \<le> h + length q + ?n"
        using True by simp
      moreover have "set_free_head_idx i r = Inr ?r"
        using True f diff by (simp add: set_free_head_idx_def word_less_nat_alt)
      ultimately show ?thesis
        using Publish True by simp
    next
      case False
      then show ?thesis
        using Publish f diff by (auto simp: set_free_head_idx_def word_less_nat_alt cmn_assert_def)
    qed
  qed
qed

lemma rb_run_abs:
  "rb_abs r (h, q) \<Longrightarrow> h + length q + length cs * unat (m_ui32BlockCnt r) < 2 ^ 64 \<Longrightarrow>
    case steps_run rb_step cs r of
      Inl e \<Rightarrow> steps_run (bq_step (unat (m_ui32BlockCnt r)) (unat (m_ui32BlockSz r))) cs (h, q) = Inl e
    | Inr (outs, r') \<Rightarrow> \<exists>outs' hq'. steps_run (bq_step (unat (m_ui32BlockCnt r)) (unat (m_ui32BlockSz r))) cs (h, q) = Inr (outs', hq') \<and>
        list_all2 out_ok outs outs' \<and> rb_abs r' hq'"
proof (induction cs arbitrary: r h q)
  case (Cons c cs)
  have "1 \<le> unat (m_ui32BlockCnt r)"
    using Cons.prems(1) by (simp add: rb_abs_def rb_wf_def Suc_leI unat_gt_0)
  then have room: "h + length q + 1 < 2 ^ 64"
    using Cons.prems(2) by simp
  note step = rb_step_abs [OF Cons.prems(1) room, of c]
  show ?case
  proof (cases "rb_step c r")
    case (Inl e)
    then show ?thesis
      using step by simp
  next
    case (Inr p)
    obtain out r1 where p: "p = (out, r1)"
      by (cases p)
    obtain out' h' q' where s: "bq_step (unat (m_ui32BlockCnt r)) (unat (m_ui32BlockSz r)) c (h, q) = Inr (out', h', q')"
      "out_ok out out'" "rb_abs r1 (h', q')" "h' + length q' \<le> h + length q + unat (m_ui32BlockCnt r)"
      "m_ui32BlockCnt r1 = m_ui32BlockCnt r" "m_ui32BlockSz r1 = m_ui32BlockSz r"
      using step Inr p by auto
    have "h' + length q' + length cs * unat (m_ui32BlockCnt r1) < 2 ^ 64"
      using s(4,5) Cons.prems(2) by simp
    note IH = Cons.IH [OF s(3) this, unfolded s(5,6)]
    show ?thesis
    proof (cases "steps_run rb_step cs r1")
      case (Inl e)
      then show ?thesis
        using IH Inr p s(1) by simp
    next
      case (Inr p2)
      then show ?thesis
        using IH \<open>rb_step c r = Inr p\<close> p s(1,2) by (cases p2) auto
    qed
  qed
qed simp

lemma new_rb_abs:
  assumes "new_rb (Some mem) cnt sz = Inr r" and "length mem = unat (cnt * sz)" and "cnt \<noteq> 0" and "sz \<noteq> 0"
    and "unat cnt * unat sz < 2 ^ 32"
  shows "rb_abs r (1, []) \<and> m_ui32BlockCnt r = cnt \<and> m_ui32BlockSz r = sz"
proof -
  have "unat (cnt * sz) = unat cnt * unat sz"
    using assms(5) by (simp add: unat_word_ariths)
  then show ?thesis
    using assms by (auto simp: new_rb_def rb_reset_def rb_abs_def rb_wf_def write_at_def)
qed

text \<open>C17: The ring buffer is a bounded queue. A new buffer, whose size fits 32 bits, and a plain
  queue of at most that many packages, the first with number one, answer every sequence of
  putting, reading, releasing and publishing in the same way: the same numbers, each package at
  the front of the block that is read, and a failed assertion at the same call, as long as the
  numbers fit 64 bits. No call leaves the memory of the buffer.\<close>

theorem ring_buffer_is_queue:
  assumes "length mem = unat (cnt * sz)" and "cnt \<noteq> 0" and "sz \<noteq> 0" and "unat cnt * unat sz < 2 ^ 32"
    and "1 + length cs * unat cnt < 2 ^ 64"
  shows "\<exists>r. new_rb (Some mem) cnt sz = Inr r \<and>
    (case steps_run rb_step cs r of
       Inl e \<Rightarrow> steps_run (bq_step (unat cnt) (unat sz)) cs (1, []) = Inl e
     | Inr (outs, r') \<Rightarrow> \<exists>outs' hq'. steps_run (bq_step (unat cnt) (unat sz)) cs (1, []) = Inr (outs', hq') \<and>
         list_all2 out_ok outs outs')"
proof -
  obtain r where r: "new_rb (Some mem) cnt sz = Inr r"
    using assms(1) by (simp add: new_rb_def rb_reset_def write_at_def)
  note abs = new_rb_abs [OF r assms(1-4)]
  have "1 + length [] + length cs * unat (m_ui32BlockCnt r) < 2 ^ 64"
    using assms(5) abs by simp
  note run = rb_run_abs [OF abs [THEN conjunct1] this]
  show ?thesis
  proof (cases "steps_run rb_step cs r")
    case (Inl e)
    then show ?thesis
      using run r abs by simp
  next
    case (Inr p)
    then show ?thesis
      using run r abs by (cases p) auto
  qed
qed

theorem ring_buffer_is_queue_witness:
  "\<exists>r. new_rb (Some (replicate 6 7)) 2 3 = Inr r \<and>
    (case steps_run rb_step [Put [1, 2], Put [5], Put [6], Read 2] r of
       Inl e \<Rightarrow> False | Inr (outs, r') \<Rightarrow> list_all2 out_ok outs [Idx 1, Idx 2, Idx 0, Block [5]])"
  using ring_buffer_is_queue [of "replicate 6 7" 2 3 "[Put [1, 2], Put [5], Put [6], Read 2]"]
  by (auto split: sum.splits)

text \<open>A ring buffer is never emptied. The index that gives blocks back has to be below the first
  free index, so the newest block cannot be given back: once a package is in the buffer no
  sequence of calls makes it empty, and one block is lost to the writer.\<close>

theorem ring_buffer_never_empties:
  assumes "length mem = unat (cnt * sz)" and "cnt \<noteq> 0" and "sz \<noteq> 0" and "unat cnt * unat sz < 2 ^ 32"
    and "1 + length (Put d # cs) * unat cnt < 2 ^ 64" and "new_rb (Some mem) cnt sz = Inr r"
    and "steps_run rb_step (Put d # cs) r = Inr (outs, r')"
  shows "\<not> rb_empty r'"
proof -
  have "snd hq' \<noteq> []" if "steps_run (bq_step n z) cs (h, q) = Inr (outs, hq')" "q \<noteq> []" for n z cs h q outs hq'
    using that
  proof (induction cs arbitrary: h q outs)
    case (Cons c cs)
    obtain out h1 q1 outs1 where s: "bq_step n z c (h, q) = Inr (out, h1, q1)"
      "steps_run (bq_step n z) cs (h1, q1) = Inr (outs1, hq')"
      using Cons.prems(1) by (auto elim!: bindr_InrE)
    have "q1 \<noteq> []"
      using s(1) Cons.prems(2) by (cases c) (auto split: if_splits)
    then show ?case
      using Cons.IH [OF s(2)] by simp
  qed auto
  note stays = this
  note abs = new_rb_abs [OF assms(6,1-4)]
  have n: "unat cnt \<noteq> 0"
    using assms(2) by (simp add: unat_eq_0)
  have "1 + length [] + length (Put d # cs) * unat (m_ui32BlockCnt r) < 2 ^ 64"
    using assms(5) abs by simp
  from rb_run_abs [OF abs [THEN conjunct1] this] obtain outs' hq' where
    q: "steps_run (bq_step (unat cnt) (unat sz)) (Put d # cs) (1, []) = Inr (outs', hq')" "rb_abs r' hq'"
    using abs assms(7) by auto
  then have "snd hq' \<noteq> []"
    using stays [of "unat cnt" "unat sz" cs 1 "[d]"] n by (auto elim!: bindr_InrE split: if_splits)
  then show ?thesis
    using q(2) by (cases hq') (auto simp: rb_abs_def rb_empty_def)
qed

lemma demo_rb_new:
  "new_rb (Some [7, 7]) 2 1 =
     Inr \<lparr>m_bytes = [0, 0], m_ui64DataHeadIdx = 1, m_ui64FreeHeadIdx = 1, m_ui32BlockCnt = 2, m_ui32BlockSz = 1\<rparr>"
  by (simp add: new_rb_def rb_reset_def write_at_def, simp add: numeral_2_eq_2)

lemma demo_rb_run:
  "steps_run rb_step [Put [5], Put [6], Release 2]
     \<lparr>m_bytes = [0, 0], m_ui64DataHeadIdx = 1, m_ui64FreeHeadIdx = 1, m_ui32BlockCnt = 2, m_ui32BlockSz = 1\<rparr> =
   Inr ([Idx 1, Idx 2, Nothing],
     \<lparr>m_bytes = [6, 5], m_ui64DataHeadIdx = 2, m_ui64FreeHeadIdx = 3, m_ui32BlockCnt = 2, m_ui32BlockSz = 1\<rparr>)"
  by (simp add: rb_set_data_def rb_full_def block_offset_def set_data_head_idx_def write_at_def)

theorem ring_buffer_never_empties_witness:
  "\<not> rb_empty \<lparr>m_bytes = [6, 5], m_ui64DataHeadIdx = 2, m_ui64FreeHeadIdx = 3, m_ui32BlockCnt = 2, m_ui32BlockSz = 1\<rparr>"
  by (rule ring_buffer_never_empties [OF _ _ _ _ _ demo_rb_new demo_rb_run]) simp_all

end
