(* ===== verification/Files.thy ===== *)
theory Files
  imports Prelude
begin

text \<open>
  Files and directories: \<open>CLiteFile\<close> of \<open>libcomm_utils/src/utils/file.cpp\<close> and the functions of
  \<open>utils/utils.cpp\<close> that split a file name and make a directory with all those above it. The
  calls of the operating system are a parameter over the world they change; what is used of
  their documented behaviour is \<open>posix_descriptors\<close> and \<open>posix_names\<close>.
\<close>

unbundle bit_operations_syntax

section \<open>The operating system's calls\<close>

record 'w file_os =
  os_access :: "string \<Rightarrow> 'w \<Rightarrow> int"
  os_mkdir :: "string \<Rightarrow> u32 \<Rightarrow> 'w \<Rightarrow> int \<times> 'w"
  os_getcwd :: "nat \<Rightarrow> 'w \<Rightarrow> string option"
  os_chdir :: "string \<Rightarrow> 'w \<Rightarrow> int \<times> 'w"
  os_open :: "string \<Rightarrow> u32 \<Rightarrow> 'w \<Rightarrow> int \<times> 'w"
  os_close :: "int \<Rightarrow> 'w \<Rightarrow> int \<times> 'w"
  os_write :: "int \<Rightarrow> string \<Rightarrow> 'w \<Rightarrow> int \<times> 'w"
  os_read :: "int \<Rightarrow> u32 \<Rightarrow> 'w \<Rightarrow> int \<times> string \<times> 'w"
  os_fsync :: "int \<Rightarrow> 'w \<Rightarrow> int \<times> 'w"
  os_console :: "string \<Rightarrow> 'w \<Rightarrow> 'w"

definition O_RDWR :: u32 where "O_RDWR = 0x2"
definition O_CREAT :: u32 where "O_CREAT = 0x40"
definition O_EXCL :: u32 where "O_EXCL = 0x80"
definition O_TRUNC :: u32 where "O_TRUNC = 0x200"

text \<open>\<open>fds\<close> are the open descriptors: \<open>open\<close> gives one that was not open, \<open>close\<close> takes it away.\<close>

definition posix_descriptors :: "'w file_os \<Rightarrow> ('w \<Rightarrow> int set) \<Rightarrow> bool" where
  "posix_descriptors F fds \<longleftrightarrow>
     (\<forall>p md w. fds (snd (os_mkdir F p md w)) = fds w) \<and>
     (\<forall>d s w. fds (snd (os_write F d s w)) = fds w) \<and>
     (\<forall>s w. fds (os_console F s w) = fds w) \<and>
     (\<forall>d w. fds (snd (os_close F d w)) = fds w - {d}) \<and>
     (\<forall>p fl w d w'. os_open F p fl w = (d, w') \<longrightarrow>
        (if d < 0 then fds w' = fds w else d \<notin> fds w \<and> fds w' = insert d (fds w)))"

text \<open>
  \<open>names\<close> are the names of files and directories: \<open>access\<close> finds them, \<open>mkdir\<close> and \<open>open\<close> with
  \<open>O_CREAT\<close> make them, \<open>O_EXCL\<close> refuses them, and no call made here takes one away.
\<close>

definition posix_names :: "'w file_os \<Rightarrow> ('w \<Rightarrow> string set) \<Rightarrow> bool" where
  "posix_names F names \<longleftrightarrow>
     (\<forall>p w. 0 \<le> os_access F p w \<longleftrightarrow> p \<in> names w) \<and>
     (\<forall>p md w. names w \<subseteq> names (snd (os_mkdir F p md w))) \<and>
     (\<forall>p md w. 0 \<le> fst (os_mkdir F p md w) \<longrightarrow> p \<in> names (snd (os_mkdir F p md w))) \<and>
     (\<forall>d s w. names (snd (os_write F d s w)) = names w) \<and>
     (\<forall>s w. names (os_console F s w) = names w) \<and>
     (\<forall>d w. names (snd (os_close F d w)) = names w) \<and>
     (\<forall>p fl w. names w \<subseteq> names (snd (os_open F p fl w))) \<and>
     (\<forall>p fl w. fl AND O_CREAT \<noteq> 0 \<and> 0 \<le> fst (os_open F p fl w) \<longrightarrow> p \<in> names (snd (os_open F p fl w))) \<and>
     (\<forall>p fl w. fl AND O_CREAT \<noteq> 0 \<and> fl AND O_EXCL \<noteq> 0 \<and> p \<in> names w \<longrightarrow> fst (os_open F p fl w) < 0)"

lemma posix_namesD:
  assumes "posix_names F names"
  shows "0 \<le> os_access F p w \<longleftrightarrow> p \<in> names w"
    and "names w \<subseteq> names (snd (os_mkdir F p md w))"
    and "0 \<le> fst (os_mkdir F p md w) \<Longrightarrow> p \<in> names (snd (os_mkdir F p md w))"
    and "names (snd (os_write F d s w)) = names w"
    and "names (os_console F s w) = names w"
    and "names (snd (os_close F d w)) = names w"
    and "names w \<subseteq> names (snd (os_open F p fl w))"
    and "fl AND O_CREAT \<noteq> 0 \<Longrightarrow> 0 \<le> fst (os_open F p fl w) \<Longrightarrow> p \<in> names (snd (os_open F p fl w))"
    and "fl AND O_CREAT \<noteq> 0 \<Longrightarrow> fl AND O_EXCL \<noteq> 0 \<Longrightarrow> p \<in> names w \<Longrightarrow> fst (os_open F p fl w) < 0"
proof -
  note all = assms [unfolded posix_names_def]
  show "0 \<le> os_access F p w \<longleftrightarrow> p \<in> names w" using all by simp
  show "names w \<subseteq> names (snd (os_mkdir F p md w))" using all by simp
  show "0 \<le> fst (os_mkdir F p md w) \<Longrightarrow> p \<in> names (snd (os_mkdir F p md w))" using all by simp
  show "names (snd (os_write F d s w)) = names w" using all by simp
  show "names (os_console F s w) = names w" using all by simp
  show "names (snd (os_close F d w)) = names w" using all by simp
  show "names w \<subseteq> names (snd (os_open F p fl w))" using all by simp
  show "fl AND O_CREAT \<noteq> 0 \<Longrightarrow> 0 \<le> fst (os_open F p fl w) \<Longrightarrow> p \<in> names (snd (os_open F p fl w))" using all by simp
  show "fl AND O_CREAT \<noteq> 0 \<Longrightarrow> fl AND O_EXCL \<noteq> 0 \<Longrightarrow> p \<in> names w \<Longrightarrow> fst (os_open F p fl w) < 0" using all by simp
qed

section \<open>Names\<close>

text \<open>\<open>find_last_of\<close> looks for a slash or a backslash.\<close>

definition is_sep :: "char \<Rightarrow> bool" where
  "is_sep c \<longleftrightarrow> c = CHR ''/'' \<or> c = CHR 0x5C"

definition split_file_name :: "string \<Rightarrow> (string \<times> string) option" where
  "split_file_name strFullName =
     (case dropWhile (\<lambda>c. \<not> is_sep c) (rev strFullName) of
        [] \<Rightarrow> None
      | _ # r \<Rightarrow> Some (rev r, rev (takeWhile (\<lambda>c. \<not> is_sep c) (rev strFullName))))"

text \<open>The tokens \<open>strtok\<close> finds between slashes; \<open>cur\<close> is the token begun, backwards.\<close>

fun dir_tokens :: "string \<Rightarrow> string \<Rightarrow> string list" where
  "dir_tokens cur [] = (if cur = [] then [] else [rev cur])"
| "dir_tokens cur (c # cs) =
     (if c = CHR ''/'' then (if cur = [] then [] else [rev cur]) @ dir_tokens [] cs
      else dir_tokens (c # cur) cs)"

section \<open>Making a directory and those above it\<close>

definition dir_step :: "'w file_os \<Rightarrow> u32 \<Rightarrow> int \<Rightarrow> string \<Rightarrow> 'w \<Rightarrow> int \<times> 'w" where
  "dir_step F md err p w =
     (if os_access F p w < 0
      then (let (r, w) = os_mkdir F p md w in if r < 0 then (err, w) else (0, w))
      else (0, w))"

text \<open>The path grows in an array of 4096 bytes, which the code does not check.\<close>

fun dir_loop :: "'w file_os \<Rightarrow> u32 \<Rightarrow> string \<Rightarrow> string list \<Rightarrow> 'w \<Rightarrow> (int \<times> 'w) res" where
  "dir_loop F md szTemp [] w = Inr (0, w)"
| "dir_loop F md szTemp (pszToken # ts) w =
     (let p = szTemp @ ''/'' @ pszToken in
      if 4096 \<le> length p then Inl Out_of_bounds
      else let (r, w) = dir_step F md (-3) p w in
           if r < 0 then Inr (r, w) else dir_loop F md p ts w)"

definition create_recursive_dir_ex :: "'w file_os \<Rightarrow> string \<Rightarrow> u32 \<Rightarrow> 'w \<Rightarrow> (int \<times> 'w) res" where
  "create_recursive_dir_ex F pcszDir md w =
     (case dir_tokens [] pcszDir of
        [] \<Rightarrow> Inr (-1, w)
      | pszToken # ts \<Rightarrow>
          let szTemp = (if hd pcszDir = CHR ''/'' then ''/'' else []) @ pszToken in
          if 4096 \<le> length szTemp then Inl Out_of_bounds
          else let (r, w) = dir_step F md (-2) szTemp w in
               if r < 0 then Inr (r, w) else dir_loop F md szTemp ts w)"

text \<open>The older function walks down with \<open>chdir\<close>, and back at the end or on an error.\<close>

definition back_to :: "'w file_os \<Rightarrow> string \<Rightarrow> int \<Rightarrow> 'w \<Rightarrow> (int \<times> 'w) res" where
  "back_to F szCwd ret w =
     (let (r, w) = os_chdir F szCwd w in bindr (cmn_assert (r = 0)) (\<lambda>_. Inr (ret, w)))"

fun walk_loop :: "'w file_os \<Rightarrow> u32 \<Rightarrow> string \<Rightarrow> int \<times> int \<Rightarrow> string list \<Rightarrow> 'w \<Rightarrow> (int \<times> 'w) res" where
  "walk_loop F md szCwd errs [] w = back_to F szCwd 0 w"
| "walk_loop F md szCwd errs (p # ts) w =
     (let (r, w) = dir_step F md (fst errs) p w in
      if r < 0 then back_to F szCwd r w
      else let (r, w) = os_chdir F p w in
           if r < 0 then back_to F szCwd (snd errs) w else walk_loop F md szCwd (-6, -7) ts w)"

definition create_recursive_dir :: "'w file_os \<Rightarrow> string \<Rightarrow> u32 \<Rightarrow> 'w \<Rightarrow> (int \<times> 'w) res" where
  "create_recursive_dir F pszName md w =
     (case os_getcwd F 1024 w of
        None \<Rightarrow> Inr (-10, w)
      | Some szCwd \<Rightarrow>
          (case dir_tokens [] pszName of
             [] \<Rightarrow> Inr (-1, w)
           | pszToken # ts \<Rightarrow>
               if hd pszName = CHR ''/''
               then if 1024 \<le> length (''/'' @ pszToken) then Inl Out_of_bounds
                    else walk_loop F md szCwd (-2, -3) ((''/'' @ pszToken) # ts) w
               else walk_loop F md szCwd (-4, -5) (pszToken # ts) w))"

section \<open>Files\<close>

record CLiteFile =
  m_i32FileDesc :: int

definition new_lite_file :: CLiteFile where
  "new_lite_file = \<lparr>m_i32FileDesc = -1\<rparr>"

definition lite_is_open :: "CLiteFile \<Rightarrow> bool" where
  "lite_is_open f \<longleftrightarrow> 0 \<le> m_i32FileDesc f"

text \<open>Whether the directory can be made is not looked at; \<open>open\<close> will tell.\<close>

definition lite_create :: "'w file_os \<Rightarrow> string \<Rightarrow> CLiteFile \<Rightarrow> 'w \<Rightarrow> (int \<times> CLiteFile \<times> 'w) res" where
  "lite_create F strFullName f w =
     (if strFullName = [] then Inr (-1, f, w)
      else bindr (case split_file_name strFullName of
                    None \<Rightarrow> Inr w
                  | Some (strDir, strFile) \<Rightarrow>
                      bindr (create_recursive_dir_ex F strDir 0x1FF w) (\<lambda>(code, w). Inr w)) (\<lambda>w.
           let (d, w) = os_open F strFullName (O_CREAT OR O_RDWR OR O_TRUNC OR O_EXCL) w in
           Inr (if d < 0 then -1 else 0, f\<lparr>m_i32FileDesc := d\<rparr>, w)))"

definition lite_open :: "'w file_os \<Rightarrow> string \<Rightarrow> u32 \<Rightarrow> CLiteFile \<Rightarrow> 'w \<Rightarrow> (int \<times> CLiteFile \<times> 'w) res" where
  "lite_open F strFullName i32Mode f w =
     bindr (cmn_assert (0 > m_i32FileDesc f)) (\<lambda>_.
     if strFullName = [] then Inr (-1, f, w)
     else let (d, w) = os_open F strFullName (O_RDWR OR i32Mode) w in
          Inr (if d < 0 then -1 else 0, f\<lparr>m_i32FileDesc := d\<rparr>, w))"

definition lite_close :: "'w file_os \<Rightarrow> CLiteFile \<Rightarrow> 'w \<Rightarrow> int \<times> CLiteFile \<times> 'w" where
  "lite_close F f w =
     (if 0 \<le> m_i32FileDesc f
      then let (r, w) = os_close F (m_i32FileDesc f) w in (r, f\<lparr>m_i32FileDesc := -1\<rparr>, w)
      else (0, f, w))"

definition lite_set :: "'w file_os \<Rightarrow> string \<Rightarrow> CLiteFile \<Rightarrow> 'w \<Rightarrow> (int \<times> 'w) res" where
  "lite_set F pBytes f w =
     bindr (cmn_assert (0 \<le> m_i32FileDesc f)) (\<lambda>_. Inr (os_write F (m_i32FileDesc f) pBytes w))"

definition lite_flush :: "'w file_os \<Rightarrow> CLiteFile \<Rightarrow> 'w \<Rightarrow> (int \<times> 'w) res" where
  "lite_flush F f w =
     bindr (cmn_assert (0 \<le> m_i32FileDesc f)) (\<lambda>_. Inr (os_fsync F (m_i32FileDesc f) w))"

definition lite_get :: "'w file_os \<Rightarrow> u32 \<Rightarrow> CLiteFile \<Rightarrow> 'w \<Rightarrow> (int \<times> string \<times> 'w) res" where
  "lite_get F ui32Size f w =
     bindr (cmn_assert (0 \<le> m_i32FileDesc f)) (\<lambda>_. Inr (os_read F (m_i32FileDesc f) ui32Size w))"

section \<open>What they do\<close>

lemma split_file_name_Some:
  "split_file_name s = Some (d, f) \<longleftrightarrow> (\<exists>c. is_sep c \<and> s = d @ [c] @ f \<and> (\<forall>x \<in> set f. \<not> is_sep x))"
proof
  assume "split_file_name s = Some (d, f)"
  then obtain c r where r: "dropWhile (\<lambda>c. \<not> is_sep c) (rev s) = c # r" "d = rev r"
    "f = rev (takeWhile (\<lambda>c. \<not> is_sep c) (rev s))"
    by (auto simp: split_file_name_def split: list.splits)
  have "rev s = takeWhile (\<lambda>c. \<not> is_sep c) (rev s) @ c # r"
    using r(1) takeWhile_dropWhile_id [of "\<lambda>c. \<not> is_sep c" "rev s"] by simp
  then have "s = rev (takeWhile (\<lambda>c. \<not> is_sep c) (rev s) @ c # r)"
    by (metis rev_rev_ident)
  then have "s = d @ [c] @ f"
    using r(2,3) by simp
  moreover have "is_sep c"
    using r(1) hd_dropWhile [of "\<lambda>c. \<not> is_sep c" "rev s"] by simp
  moreover have "\<not> is_sep x" if "x \<in> set f" for x
    using that r(3) set_takeWhileD [of x "\<lambda>c. \<not> is_sep c" "rev s"] by simp
  ultimately show "\<exists>c. is_sep c \<and> s = d @ [c] @ f \<and> (\<forall>x \<in> set f. \<not> is_sep x)"
    by blast
next
  assume "\<exists>c. is_sep c \<and> s = d @ [c] @ f \<and> (\<forall>x \<in> set f. \<not> is_sep x)"
  then obtain c where c: "is_sep c" "s = d @ [c] @ f" "\<forall>x \<in> set f. \<not> is_sep x"
    by blast
  have "dropWhile (\<lambda>c. \<not> is_sep c) (rev s) = c # rev d" "takeWhile (\<lambda>c. \<not> is_sep c) (rev s) = rev f"
    using c dropWhile_append2 [of "rev f" "\<lambda>c. \<not> is_sep c" "c # rev d"] takeWhile_append2 [of "rev f" "\<lambda>c. \<not> is_sep c" "c # rev d"]
    by simp_all
  then show "split_file_name s = Some (d, f)"
    by (simp add: split_file_name_def)
qed

lemma dir_tokens_sep: "p \<in> set (dir_tokens cur s) \<Longrightarrow> CHR ''/'' \<notin> set cur \<Longrightarrow> CHR ''/'' \<notin> set p \<and> p \<noteq> []"
  by (induction cur s rule: dir_tokens.induct) (auto split: if_splits)

text \<open>The paths a call makes, from the top.\<close>

fun paths_from :: "string \<Rightarrow> string list \<Rightarrow> string list" where
  "paths_from p [] = []"
| "paths_from p (t # ts) = (p @ ''/'' @ t) # paths_from (p @ ''/'' @ t) ts"

definition dir_paths :: "string \<Rightarrow> string list" where
  "dir_paths s =
     (case dir_tokens [] s of
        [] \<Rightarrow> []
      | t # ts \<Rightarrow> let p = (if hd s = CHR ''/'' then ''/'' else []) @ t in p # paths_from p ts)"

lemma dir_step_names:
  assumes "posix_names F names" and "dir_step F md err p w = (r, w')" and "err < 0"
  shows "names w \<subseteq> names w'" and "0 \<le> r \<Longrightarrow> p \<in> names w'" and "r = 0 \<or> r = err"
proof -
  show "names w \<subseteq> names w'" "0 \<le> r \<Longrightarrow> p \<in> names w'" "r = 0 \<or> r = err"
    using assms(2,3) posix_namesD(1) [OF assms(1), of p w] posix_namesD(2,3) [OF assms(1), where p = p and md = md and w = w]
    by (auto simp: dir_step_def split: if_splits prod.splits)
qed

lemma dir_loop_names:
  assumes names: "posix_names F names"
  shows "dir_loop F md p ts w = Inr (r, w') \<Longrightarrow>
    names w \<subseteq> names w' \<and> (0 \<le> r \<longrightarrow> set (paths_from p ts) \<subseteq> names w') \<and> r \<in> {0, -3}"
proof (induction ts arbitrary: p w)
  case (Cons t ts)
  obtain r1 w1 where s: "dir_step F md (-3) (p @ ''/'' @ t) w = (r1, w1)"
    by (cases "dir_step F md (-3) (p @ ''/'' @ t) w")
  have rest: "\<not> 4096 \<le> length (p @ ''/'' @ t)"
    "if r1 < 0 then r = r1 \<and> w' = w1 else dir_loop F md (p @ ''/'' @ t) ts w1 = Inr (r, w')"
    using Cons.prems s by (simp_all add: Let_def split: if_splits)
  have step: "names w \<subseteq> names w1" "0 \<le> r1 \<Longrightarrow> p @ ''/'' @ t \<in> names w1" "r1 = 0 \<or> r1 = -3"
    using dir_step_names [OF names s] by simp_all
  show ?case
  proof (cases "r1 < 0")
    case True
    then show ?thesis
      using rest step by auto
  next
    case False
    have later: "names w1 \<subseteq> names w'" "0 \<le> r \<Longrightarrow> set (paths_from (p @ ''/'' @ t) ts) \<subseteq> names w'" "r \<in> {0, -3}"
      using Cons.IH [of "p @ ''/'' @ t" w1] rest(2) False by simp_all
    then show ?thesis
      using step False by auto
  qed
qed simp

lemma dirs_made:
  assumes names: "posix_names F names" and run: "create_recursive_dir_ex F s md w = Inr (r, w')"
  shows "names w \<subseteq> names w'" and "0 \<le> r \<Longrightarrow> set (dir_paths s) \<subseteq> names w' \<and> dir_paths s \<noteq> []" and "r \<in> {0, -1, -2, -3}"
proof -
  have "names w \<subseteq> names w' \<and> (0 \<le> r \<longrightarrow> set (dir_paths s) \<subseteq> names w' \<and> dir_paths s \<noteq> []) \<and> r \<in> {0, -1, -2, -3}"
  proof (cases "dir_tokens [] s")
    case Nil
    then show ?thesis
      using run by (simp add: create_recursive_dir_ex_def)
  next
    case (Cons t ts)
    let ?p = "(if hd s = CHR ''/'' then ''/'' else []) @ t"
    obtain r1 w1 where s: "dir_step F md (-2) ?p w = (r1, w1)"
      by (cases "dir_step F md (-2) ?p w")
    have rest: "if r1 < 0 then r = r1 \<and> w' = w1 else dir_loop F md ?p ts w1 = Inr (r, w')"
      using run Cons s by (auto simp: create_recursive_dir_ex_def Let_def split: if_splits)
    have step: "names w \<subseteq> names w1" "0 \<le> r1 \<Longrightarrow> ?p \<in> names w1" "r1 = 0 \<or> r1 = -2"
      using dir_step_names [OF names s] by simp_all
    show ?thesis
    proof (cases "r1 < 0")
      case True
      then show ?thesis
        using rest step by auto
    next
      case False
      then have "dir_loop F md ?p ts w1 = Inr (r, w')"
        using rest by simp
      from dir_loop_names [OF names this] show ?thesis
        using step False Cons by (auto simp: dir_paths_def Let_def)
    qed
  qed
  then show "names w \<subseteq> names w'" "0 \<le> r \<Longrightarrow> set (dir_paths s) \<subseteq> names w' \<and> dir_paths s \<noteq> []" "r \<in> {0, -1, -2, -3}"
    by blast+
qed

text \<open>The array is long enough for a name that is shorter than it.\<close>

lemma dir_tokens_length:
  "sum_list (map (\<lambda>t. Suc (length t)) (dir_tokens cur s)) \<le> Suc (length cur + length s)"
  by (induction cur s rule: dir_tokens.induct) (auto split: if_splits)

lemma dir_loop_fits:
  "length p + sum_list (map (\<lambda>t. Suc (length t)) ts) < 4096 \<Longrightarrow> \<exists>r w'. dir_loop F md p ts w = Inr (r, w')"
proof (induction ts arbitrary: p w)
  case (Cons t ts)
  obtain r1 w1 where s: "dir_step F md (-3) (p @ ''/'' @ t) w = (r1, w1)"
    by (cases "dir_step F md (-3) (p @ ''/'' @ t) w")
  show ?case
    using Cons.IH [of "p @ ''/'' @ t" w1] Cons.prems s by (cases "r1 < 0") (simp_all add: Let_def)
qed simp

lemma create_dir_fits:
  assumes "length s < 4096"
  shows "\<exists>r w'. create_recursive_dir_ex F s md w = Inr (r, w')"
proof (cases "dir_tokens [] s")
  case Nil
  then show ?thesis
    by (simp add: create_recursive_dir_ex_def)
next
  case (Cons t ts)
  let ?p = "(if hd s = CHR ''/'' then ''/'' else []) @ t"
  have fits: "length ?p + sum_list (map (\<lambda>t. Suc (length t)) ts) < 4096"
  proof (cases "hd s = CHR ''/''")
    case True
    obtain s' where s': "s = CHR ''/'' # s'"
      using True Cons by (cases s) auto
    then have "dir_tokens [] s' = t # ts"
      using Cons by simp
    then show ?thesis
      using dir_tokens_length [of "[]" s'] s' assms by simp
  next
    case False
    then show ?thesis
      using dir_tokens_length [of "[]" s] Cons assms by simp
  qed
  obtain r1 w1 where s: "dir_step F md (-2) ?p w = (r1, w1)"
    by (cases "dir_step F md (-2) ?p w")
  show ?thesis
    using dir_loop_fits [OF fits, of F md w1] Cons s fits
    by (cases "r1 < 0"; cases "hd s = CHR ''/''") (simp_all add: create_recursive_dir_ex_def)
qed

lemma dir_step_fds: "posix_descriptors F fds \<Longrightarrow> dir_step F md err p w = (r, w') \<Longrightarrow> fds w' = fds w"
  by (auto simp: dir_step_def posix_descriptors_def split: if_splits prod.splits) (metis snd_conv)+

lemma dir_loop_fds: "posix_descriptors F fds \<Longrightarrow> dir_loop F md p ts w = Inr (r, w') \<Longrightarrow> fds w' = fds w"
  by (induction ts arbitrary: p w) (auto simp: Let_def dest: dir_step_fds split: if_splits prod.splits)

lemma create_dir_fds: "posix_descriptors F fds \<Longrightarrow> create_recursive_dir_ex F s md w = Inr (r, w') \<Longrightarrow> fds w' = fds w"
  by (auto simp: create_recursive_dir_ex_def Let_def dest: dir_step_fds dir_loop_fds split: list.splits if_splits prod.splits)

end
