(* ===== verification/SmartLog.thy ===== *)
theory SmartLog
  imports Files
begin

text \<open>
  \<open>CSmartLog\<close> of \<open>libcomm_utils/src/log/smart_log.cpp\<close>: lines of text into a file that is replaced
  after an interval. Every endpoint, socket and notifier has one. The clock, the date, the
  thread and the place of the program are arguments; a line is built character by character.
\<close>

section \<open>Printed numbers\<close>

fun digits :: "nat \<Rightarrow> string" where
  "digits n = (if n < 10 then [''0123456789'' ! n] else digits (n div 10) @ [''0123456789'' ! (n mod 10)])"

declare digits.simps [simp del]

text \<open>\<open>%i\<close>, \<open>%2.2i\<close>, \<open>%4.4i\<close> and \<open>%6.6u\<close>: at least \<open>p\<close> digits.\<close>

definition fmt_int :: "nat \<Rightarrow> int \<Rightarrow> string" where
  "fmt_int p i =
     (let d = digits (nat (abs i)) in (if i < 0 then ''-'' else []) @ replicate (p - length d) (CHR ''0'') @ d)"

section \<open>The class\<close>

definition ELL_DEF :: int where [simp]: "ELL_DEF = 0"
definition ELL_DEBUG :: int where [simp]: "ELL_DEBUG = 1"
definition ELL_ERR :: int where [simp]: "ELL_ERR = 4"
definition ELL_ALL :: int where [simp]: "ELL_ALL = 5"
definition ET_FILE :: u32 where [simp]: "ET_FILE = 1"
definition ET_CONSOLE :: u32 where [simp]: "ET_CONSOLE = 2"

definition g_arrLevInfo :: "string list" where
  "g_arrLevInfo = [''DEFAULT'', ''DEBUG  '', ''INFOR  '', ''WARNING'', ''ERROR  '']"

definition LOG_TEMP_BUF_LEN :: nat where [simp]: "LOG_TEMP_BUF_LEN = 8192"

record CSmartLog =
  m_LogFile :: CLiteFile
  m_LastLogFile :: CLiteFile
  m_i32TraceLevel :: int
  m_strLogDir :: string
  m_strLogFilePrefix :: string
  m_tmLogFileStart :: int
  m_i32IntervalInSeconds :: u32

definition new_log :: CSmartLog where
  "new_log = \<lparr>m_LogFile = new_lite_file, m_LastLogFile = new_lite_file, m_i32TraceLevel = ELL_ERR,
     m_strLogDir = [], m_strLogFilePrefix = [], m_tmLogFileStart = 0, m_i32IntervalInSeconds = 60\<rparr>"

definition log_init :: "string \<Rightarrow> string \<Rightarrow> int \<Rightarrow> u32 \<Rightarrow> CSmartLog \<Rightarrow> (int \<times> CSmartLog) res" where
  "log_init pcszLogDir pcszLogFilePrefix i32LogLevel i32IntervalInSeconds t =
     bindr (cmn_assert (\<not> lite_is_open (m_LogFile t) \<and> 0 = m_tmLogFileStart t)) (\<lambda>_.
     Inr (0, t\<lparr>m_strLogDir := pcszLogDir, m_strLogFilePrefix := pcszLogFilePrefix,
               m_i32TraceLevel := i32LogLevel, m_i32IntervalInSeconds := i32IntervalInSeconds\<rparr>))"

text \<open>The copy of a file object has the same descriptor.\<close>

definition log_close :: "'w file_os \<Rightarrow> bool \<Rightarrow> CSmartLog \<Rightarrow> 'w \<Rightarrow> int \<times> CSmartLog \<times> 'w" where
  "log_close F bClose t w =
     (let (r, f, w) = lite_close F (m_LastLogFile t) w; t = t\<lparr>m_LastLogFile := f\<rparr> in
      if bClose
      then let (r, f, w) = lite_close F (m_LogFile t) w in (0, t\<lparr>m_LogFile := f\<rparr>, w)
      else (0, t\<lparr>m_LastLogFile := m_LogFile t\<rparr>, w))"

text \<open>
  What a call learns from outside: the three readings of the clock \<open>check_log_file\<close> may make, the
  local date of the last one, the path of the program, and the thread and the time of day that
  are printed.
\<close>

record tm =
  tm_year :: int
  tm_mon :: int
  tm_mday :: int
  tm_hour :: int
  tm_min :: int
  tm_sec :: int

record log_env =
  le_time1 :: int
  le_time2 :: int
  le_time3 :: int
  le_tm :: tm
  le_exe :: string
  le_thread :: int
  le_day_time :: string

definition log_fresh :: "int \<Rightarrow> CSmartLog \<Rightarrow> bool" where
  "log_fresh now t \<longleftrightarrow> lite_is_open (m_LogFile t) \<and>
     (0 \<ge> m_i32IntervalInSeconds t \<or> now < m_tmLogFileStart t + uint (m_i32IntervalInSeconds t))"

definition log_dir :: "log_env \<Rightarrow> CSmartLog \<Rightarrow> string" where
  "log_dir e t =
     (if m_strLogDir t = []
      then (case split_file_name (le_exe e) of None \<Rightarrow> le_exe e | Some (d, f) \<Rightarrow> d)
      else m_strLogDir t) @ ''/'' @
     fmt_int 1 (tm_year (le_tm e) + 1900) @ ''/'' @ fmt_int 2 (tm_mon (le_tm e) + 1) @ ''/'' @ fmt_int 2 (tm_mday (le_tm e))"

definition log_file_name :: "log_env \<Rightarrow> CSmartLog \<Rightarrow> string" where
  "log_file_name e t =
     log_dir e t @ ''/'' @ m_strLogFilePrefix t @
     fmt_int 2 (tm_hour (le_tm e)) @ ''-'' @ fmt_int 2 (tm_min (le_tm e)) @ ''-'' @ fmt_int 2 (tm_sec (le_tm e)) @ ''.log''"

text \<open>The name is printed into an array of 4096 bytes.\<close>

definition check_log_file :: "'w file_os \<Rightarrow> log_env \<Rightarrow> CSmartLog \<Rightarrow> 'w \<Rightarrow> (int \<times> CSmartLog \<times> 'w) res" where
  "check_log_file F e t w =
     (if log_fresh (le_time1 e) t then Inr (0, t, w)
      else if log_fresh (le_time2 e) t then Inr (0, t, w)
      else let (r, t, w) = log_close F False t w; t = t\<lparr>m_tmLogFileStart := le_time3 e\<rparr> in
           bindr (create_recursive_dir_ex F (log_dir e t) 0x1FF w) (\<lambda>(i32Ret, w).
           bindr (cmn_assert (0 \<le> i32Ret)) (\<lambda>_.
           if 4096 \<le> length (log_file_name e t) then Inl Out_of_bounds
           else bindr (lite_create F (log_file_name e t) (m_LogFile t) w) (\<lambda>(i32Ret, f, w).
                bindr (cmn_assert (0 \<le> i32Ret)) (\<lambda>_.
                Inr (0, t\<lparr>m_LogFile := f\<rparr>, w))))))"

definition log_text :: "log_env \<Rightarrow> int \<Rightarrow> string \<Rightarrow> string \<Rightarrow> int \<Rightarrow> string \<Rightarrow> string" where
  "log_text e i32LogLevel pcszFileName pcszFunc i32LineNo pcszLog =
     g_arrLevInfo ! nat i32LogLevel @ '': '' @ fmt_int 6 (le_thread e) @ ''@'' @ le_day_time e @ ''|'' @
     pcszFileName @ '':'' @ fmt_int 4 i32LineNo @ '':'' @ pcszFunc @ ''() => '' @ pcszLog"

text \<open>
  \<open>snprintf\<close> puts at most 8191 characters of the text into the array and returns the length of
  all of it; that many bytes of the array are written.
\<close>

definition log_bytes :: "string \<Rightarrow> string res" where
  "log_bytes s =
     (let buf = take (LOG_TEMP_BUF_LEN - 1) s @ replicate (LOG_TEMP_BUF_LEN - length (take (LOG_TEMP_BUF_LEN - 1) s)) (CHR 0x00) in
      if LOG_TEMP_BUF_LEN < length s then Inl Out_of_bounds else Inr (take (length s) buf))"

record log_call =
  lc_level :: int
  lc_file :: string
  lc_func :: string
  lc_line :: int
  lc_log :: string
  lc_target :: u32

definition trace_log :: "'w file_os \<Rightarrow> log_env \<Rightarrow> log_call \<Rightarrow> CSmartLog \<Rightarrow> 'w \<Rightarrow> (CSmartLog \<times> 'w) res" where
  "trace_log F e c t w =
     bindr (cmn_assert (lc_level c \<ge> ELL_DEF \<and> lc_level c < ELL_ALL \<and> 0 \<noteq> lc_target c)) (\<lambda>_.
     if lc_level c < m_i32TraceLevel t \<or> 0 = lc_target c then Inr (t, w)
     else let s = log_text e (lc_level c) (lc_file c) (lc_func c) (lc_line c) (lc_log c) in
       bindr (if ET_FILE AND lc_target c \<noteq> 0
              then bindr (check_log_file F e t w) (\<lambda>(r, t, w).
                   if r = 0
                   then bindr (log_bytes s) (\<lambda>bs. bindr (lite_set F bs (m_LogFile t) w) (\<lambda>(n, w). Inr (t, w)))
                   else Inr (t, w))
              else Inr (t, w)) (\<lambda>(t, w).
       if ET_CONSOLE AND lc_target c \<noteq> 0
       then bindr (log_bytes s) (\<lambda>bs. Inr (t, os_console F bs w))
       else Inr (t, w)))"

text \<open>The macro \<open>TRACE_LOG\<close>: its own array has 8192 bytes, and it writes to the file and the console.\<close>

definition trace_macro :: "'w file_os \<Rightarrow> log_env \<Rightarrow> int \<Rightarrow> string \<Rightarrow> string \<Rightarrow> int \<Rightarrow> string \<Rightarrow> CSmartLog \<Rightarrow> 'w \<Rightarrow> (CSmartLog \<times> 'w) res" where
  "trace_macro F e level file func line s t w =
     (if level \<ge> m_i32TraceLevel t
      then trace_log F e \<lparr>lc_level = level, lc_file = file, lc_func = func, lc_line = line,
             lc_log = take 8191 s, lc_target = ET_FILE OR ET_CONSOLE\<rparr> t w
      else Inr (t, w))"

section \<open>Descriptors\<close>

lemma posix_descriptorsD:
  assumes "posix_descriptors F fds"
  shows "fds (snd (os_write F d s w)) = fds w"
    and "fds (os_console F s w) = fds w"
    and "fds (snd (os_close F d w)) = fds w - {d}"
    and "os_open F p fl w = (d, w') \<Longrightarrow> if d < 0 then fds w' = fds w else d \<notin> fds w \<and> fds w' = insert d (fds w)"
proof -
  note all = assms [unfolded posix_descriptors_def]
  show "fds (snd (os_write F d s w)) = fds w" using all by simp
  show "fds (os_console F s w) = fds w" using all by simp
  show "fds (snd (os_close F d w)) = fds w - {d}" using all by simp
  show "os_open F p fl w = (d, w') \<Longrightarrow> if d < 0 then fds w' = fds w else d \<notin> fds w \<and> fds w' = insert d (fds w)"
    using all by blast
qed

definition fd_set :: "CLiteFile \<Rightarrow> int set" where
  "fd_set f = (if 0 \<le> m_i32FileDesc f then {m_i32FileDesc f} else {})"

definition held :: "CSmartLog \<Rightarrow> int set" where
  "held t = fd_set (m_LogFile t) \<union> fd_set (m_LastLogFile t)"

definition log_ok :: "('w \<Rightarrow> int set) \<Rightarrow> CSmartLog \<Rightarrow> 'w \<Rightarrow> bool" where
  "log_ok fds t w \<longleftrightarrow> held t \<subseteq> fds w \<and> fd_set (m_LogFile t) \<inter> fd_set (m_LastLogFile t) = {}"

lemma lite_close_fds:
  assumes "posix_descriptors F fds" and "lite_close F f w = (r, f', w')"
  shows "fds w' = fds w - fd_set f" and "fd_set f' = {}"
proof -
  obtain r1 w1 where c: "os_close F (m_i32FileDesc f) w = (r1, w1)"
    by (cases "os_close F (m_i32FileDesc f) w")
  have closed: "fds w1 = fds w - {m_i32FileDesc f}"
    using posix_descriptorsD(3) [OF assms(1), of "m_i32FileDesc f" w] c by simp
  have "fds w' = fds w - fd_set f \<and> fd_set f' = {}"
  proof (cases "0 \<le> m_i32FileDesc f")
    case True
    then have "w' = w1" "f' = f\<lparr>m_i32FileDesc := -1\<rparr>"
      using assms(2) c by (simp_all add: lite_close_def)
    then show ?thesis
      using True closed by (simp add: fd_set_def)
  next
    case False
    then show ?thesis
      using assms(2) by (auto simp: lite_close_def fd_set_def)
  qed
  then show "fds w' = fds w - fd_set f" and "fd_set f' = {}"
    by simp_all
qed

lemma lite_create_fds:
  assumes F: "posix_descriptors F fds" and run: "lite_create F n f w = Inr (r, f', w')" and r: "0 \<le> r"
  shows "0 \<le> m_i32FileDesc f'" and "m_i32FileDesc f' \<notin> fds w" and "fds w' = insert (m_i32FileDesc f') (fds w)"
proof -
  let ?flags = "O_CREAT OR O_RDWR OR O_TRUNC OR O_EXCL"
  have n: "n \<noteq> []"
    using run r by (auto simp: lite_create_def)
  obtain w1 where dirs: "(case split_file_name n of None \<Rightarrow> Inr w
      | Some (strDir, strFile) \<Rightarrow> bindr (create_recursive_dir_ex F strDir 0x1FF w) (\<lambda>(code, w). Inr w)) = Inr w1"
    and opened: "(let (d, w) = os_open F n ?flags w1 in Inr (if d < 0 then -1 else 0, f\<lparr>m_i32FileDesc := d\<rparr>, w)) = (Inr (r, f', w') :: _ res)"
    using run n unfolding lite_create_def by (auto elim!: bindr_InrE)
  have "fds w1 = fds w"
    using dirs by (auto elim!: bindr_InrE split: option.splits dest: create_dir_fds [OF F])
  moreover obtain d w2 where d: "os_open F n ?flags w1 = (d, w2)"
    by (cases "os_open F n ?flags w1")
  moreover have "w' = w2" "0 \<le> d" "m_i32FileDesc f' = d"
    using opened r d by (auto split: if_splits)
  ultimately have w1: "fds w1 = fds w" "os_open F n ?flags w1 = (d, w')" "0 \<le> d" "m_i32FileDesc f' = d"
    by simp_all
  then show "0 \<le> m_i32FileDesc f'" "m_i32FileDesc f' \<notin> fds w" "fds w' = insert (m_i32FileDesc f') (fds w)"
    using posix_descriptorsD(4) [OF F w1(2)] by (simp_all split: if_splits)
qed

lemma log_close_fds:
  assumes F: "posix_descriptors F fds" and run: "log_close F b t w = (r, t', w')"
  shows "b \<Longrightarrow> fds w' = fds w - held t \<and> held t' = {}"
    and "\<not> b \<Longrightarrow> fds w' = fds w - fd_set (m_LastLogFile t) \<and> m_LastLogFile t' = m_LogFile t \<and> m_LogFile t' = m_LogFile t"
proof -
  obtain r1 f1 w1 where c1: "lite_close F (m_LastLogFile t) w = (r1, f1, w1)"
    by (cases "lite_close F (m_LastLogFile t) w")
  note d1 = lite_close_fds [OF F c1]
  show "fds w' = fds w - held t \<and> held t' = {}" if b
  proof -
    obtain r2 f2 w2 where c2: "lite_close F (m_LogFile t) w1 = (r2, f2, w2)"
      by (cases "lite_close F (m_LogFile t) w1")
    have "t' = t\<lparr>m_LastLogFile := f1, m_LogFile := f2\<rparr>" "w' = w2"
      using run that c1 c2 by (simp_all add: log_close_def)
    then show ?thesis
      using d1 lite_close_fds [OF F c2] by (auto simp: held_def)
  qed
  show "fds w' = fds w - fd_set (m_LastLogFile t) \<and> m_LastLogFile t' = m_LogFile t \<and> m_LogFile t' = m_LogFile t" if "\<not> b"
    using run that c1 d1 by (auto simp: log_close_def)
qed

lemma check_log_file_fds:
  assumes F: "posix_descriptors F fds" and ok: "log_ok fds t w" and run: "check_log_file F e t w = Inr (r, t', w')"
  shows "r = 0 \<and> log_ok fds t' w' \<and> fds w' - held t' = fds w - held t \<and> lite_is_open (m_LogFile t')"
proof (cases "log_fresh (le_time1 e) t \<or> log_fresh (le_time2 e) t")
  case True
  then show ?thesis
    using run ok by (auto simp: check_log_file_def log_fresh_def split: if_splits)
next
  case False
  obtain r1 t1 w1 where c: "log_close F False t w = (r1, t1, w1)"
    by (cases "log_close F False t w")
  note closed = log_close_fds(2) [OF F c, simplified]
  let ?t = "t1\<lparr>m_tmLogFileStart := le_time3 e\<rparr>"
  obtain r2 w2 r3 f w3 where d: "create_recursive_dir_ex F (log_dir e ?t) 0x1FF w1 = Inr (r2, w2)"
    and f: "lite_create F (log_file_name e ?t) (m_LogFile ?t) w2 = Inr (r3, f, w3)" "0 \<le> r3"
    and res: "r = 0" "t' = ?t\<lparr>m_LogFile := f\<rparr>" "w' = w3"
    using run False c by (auto simp: check_log_file_def Let_def elim!: bindr_InrE split: if_splits)
  note new = lite_create_fds [OF F f]
  have "fds w2 = fds w1"
    using create_dir_fds [OF F d] .
  then show ?thesis
    using new closed ok res by (auto simp: log_ok_def held_def fd_set_def lite_is_open_def)
qed

lemma trace_log_fds:
  assumes F: "posix_descriptors F fds" and ok: "log_ok fds t w" and run: "trace_log F e c t w = Inr (t', w')"
  shows "log_ok fds t' w' \<and> fds w' - held t' = fds w - held t"
proof -
  note keep = posix_descriptorsD(1,2) [OF F]
  show ?thesis
  proof (cases "lc_level c < m_i32TraceLevel t")
    case True
    then show ?thesis
      using run ok by (auto simp: trace_log_def elim!: bindr_InrE)
  next
    case False
    let ?s = "log_text e (lc_level c) (lc_file c) (lc_func c) (lc_line c) (lc_log c)"
    obtain t1 w1 where filed: "(if ET_FILE AND lc_target c \<noteq> 0
        then bindr (check_log_file F e t w) (\<lambda>(r, t, w).
             if r = 0
             then bindr (log_bytes ?s) (\<lambda>bs. bindr (lite_set F bs (m_LogFile t) w) (\<lambda>(n, w). Inr (t, w)))
             else Inr (t, w))
        else Inr (t, w)) = Inr (t1, w1)"
      and console: "(if ET_CONSOLE AND lc_target c \<noteq> 0 then bindr (log_bytes ?s) (\<lambda>bs. Inr (t1, os_console F bs w1)) else Inr (t1, w1)) = Inr (t', w')"
      using run False by (auto simp: trace_log_def Let_def elim!: bindr_InrE split: if_splits)
    have "log_ok fds t1 w1 \<and> fds w1 - held t1 = fds w - held t"
    proof (cases "ET_FILE AND lc_target c \<noteq> 0")
      case True
      then obtain r t2 w2 where chk: "check_log_file F e t w = Inr (r, t2, w2)"
        using filed by (auto elim!: bindr_InrE)
      note c = check_log_file_fds [OF F ok chk]
      obtain bs where "t1 = t2" "w1 = snd (os_write F (m_i32FileDesc (m_LogFile t2)) bs w2)"
        using filed True chk c by (auto simp: lite_set_def elim!: bindr_InrE) (metis snd_conv)
      then show ?thesis
        using c keep(1) by (simp add: log_ok_def)
    next
      case False
      then show ?thesis
        using filed ok by (simp split: if_splits)
    qed
    moreover have "t' = t1 \<and> fds w' = fds w1"
      using console keep(2) by (auto elim!: bindr_InrE split: if_splits)
    ultimately show ?thesis
      by (simp add: log_ok_def)
  qed
qed

text \<open>
  A log in use: it was initialised, it traces, and in between the rest of the program opens and
  closes descriptors of its own.
\<close>

inductive log_runs :: "'w file_os \<Rightarrow> ('w \<Rightarrow> int set) \<Rightarrow> CSmartLog \<Rightarrow> 'w \<Rightarrow> bool" for F fds where
  log_starts: "log_init dir pre lev iv new_log = Inr (r, t) \<Longrightarrow> log_runs F fds t w"
| log_traces: "log_runs F fds t w \<Longrightarrow> trace_log F e c t w = Inr (t', w') \<Longrightarrow> log_runs F fds t' w'"
| log_others: "log_runs F fds t w \<Longrightarrow> held t \<subseteq> fds w' \<Longrightarrow> log_runs F fds t w'"

lemma log_runs_ok: "log_runs F fds t w \<Longrightarrow> posix_descriptors F fds \<Longrightarrow> log_ok fds t w"
proof (induction rule: log_runs.induct)
  case (log_starts dir pre lev iv r t w)
  then show ?case
    by (auto simp: log_init_def new_log_def new_lite_file_def log_ok_def held_def fd_set_def elim!: bindr_InrE)
next
  case (log_traces t w e c t' w')
  then show ?case
    using trace_log_fds [of F fds t w e c t' w'] by simp
next
  case (log_others t w w')
  then show ?case
    by (simp add: log_ok_def)
qed

text \<open>C19: A log keeps its descriptors. However it traces, with files replaced after their interval,
  and whatever the rest of the program opens and closes, the file it writes to and the one before
  are two different open descriptors of its own; a call that returns takes no other descriptor
  and leaves none behind; and destroying the log, \<open>close (true)\<close>, closes exactly its own.\<close>

theorem log_keeps_descriptors:
  assumes "posix_descriptors F fds" and "log_runs F fds t w"
  shows "held t \<subseteq> fds w \<and> fd_set (m_LogFile t) \<inter> fd_set (m_LastLogFile t) = {} \<and>
    (\<forall>e c t' w'. trace_log F e c t w = Inr (t', w') \<longrightarrow> fds w' - held t' = fds w - held t) \<and>
    (\<exists>r t' w'. log_close F True t w = (r, t', w') \<and> fds w' = fds w - held t \<and> held t' = {})"
proof -
  note ok = log_runs_ok [OF assms(2,1)]
  obtain r t' w' where c: "log_close F True t w = (r, t', w')"
    by (cases "log_close F True t w")
  then have "fds w' = fds w - held t \<and> held t' = {}"
    using log_close_fds(1) [OF assms(1) c] by simp
  then show ?thesis
    using ok c trace_log_fds [OF assms(1) ok] by (simp add: log_ok_def)
qed

section \<open>Where logs fail\<close>

lemma lite_create_names:
  assumes F: "posix_names F names" and run: "lite_create F n f w = Inr (r, f', w')" and r: "0 \<le> r"
  shows "n \<in> names w'"
proof -
  let ?flags = "O_CREAT OR O_RDWR OR O_TRUNC OR O_EXCL"
  have n: "n \<noteq> []"
    using run r by (auto simp: lite_create_def)
  obtain w1 where opened: "(let (d, w) = os_open F n ?flags w1 in Inr (if d < 0 then -1 else 0, f\<lparr>m_i32FileDesc := d\<rparr>, w)) = (Inr (r, f', w') :: _ res)"
    using run n unfolding lite_create_def by (auto elim!: bindr_InrE)
  obtain d w2 where d: "os_open F n ?flags w1 = (d, w2)"
    by (cases "os_open F n ?flags w1")
  have "w' = w2" "0 \<le> d"
    using opened r d by (auto split: if_splits)
  moreover have "?flags AND O_CREAT \<noteq> 0"
    by (simp add: O_CREAT_def O_RDWR_def O_TRUNC_def O_EXCL_def)
  ultimately show ?thesis
    using posix_namesD(8) [OF F, of ?flags n w1] d by simp
qed

lemma lite_create_exists:
  assumes F: "posix_names F names" and "n \<in> names w" and "length n < 4096"
  shows "\<exists>f' w'. lite_create F n f w = Inr (-1, f', w')"
proof -
  let ?flags = "O_CREAT OR O_RDWR OR O_TRUNC OR O_EXCL"
  have flags: "?flags AND O_CREAT \<noteq> 0" "?flags AND O_EXCL \<noteq> 0"
    by (simp_all add: O_CREAT_def O_RDWR_def O_TRUNC_def O_EXCL_def)
  have "\<exists>w1. (case split_file_name n of None \<Rightarrow> Inr w
      | Some (strDir, strFile) \<Rightarrow> bindr (create_recursive_dir_ex F strDir 0x1FF w) (\<lambda>(code, w). Inr w)) = Inr w1 \<and> n \<in> names w1"
  proof (cases "split_file_name n")
    case None
    then show ?thesis
      using assms(2) by simp
  next
    case (Some p)
    obtain d x where p: "p = (d, x)"
      by (cases p)
    have "length d < 4096"
      using Some p assms(3) by (auto simp: split_file_name_Some)
    then obtain r w1 where "create_recursive_dir_ex F d 0x1FF w = Inr (r, w1)"
      using create_dir_fits [of d F "0x1FF" w] by blast
    then show ?thesis
      using Some p assms(2) dirs_made(1) [OF F, of d "0x1FF" w r w1] by auto
  qed
  then obtain w1 where w1: "(case split_file_name n of None \<Rightarrow> Inr w
      | Some (strDir, strFile) \<Rightarrow> bindr (create_recursive_dir_ex F strDir 0x1FF w) (\<lambda>(code, w). Inr w)) = Inr w1" "n \<in> names w1"
    by blast
  obtain d w2 where d: "os_open F n ?flags w1 = (d, w2)"
    by (cases "os_open F n ?flags w1")
  have "d < 0"
    using posix_namesD(9) [OF F flags w1(2)] d by simp
  then show ?thesis
    using w1(1) d by (simp add: lite_create_def Let_def)
qed

lemma log_close_names: "posix_names F names \<Longrightarrow> log_close F False t w = (r, t', w') \<Longrightarrow> names w' = names w"
  using posix_namesD(6) [of F names "m_i32FileDesc (m_LastLogFile t)" w]
  by (cases "os_close F (m_i32FileDesc (m_LastLogFile t)) w") (auto simp: log_close_def lite_close_def split: if_splits)

lemma log_close_simps:
  "log_close F False t w = (r, t', w') \<Longrightarrow> m_strLogDir t' = m_strLogDir t \<and> m_strLogFilePrefix t' = m_strLogFilePrefix t"
  by (auto simp: log_close_def split: prod.splits)

lemma log_name_cong:
  "m_strLogDir t' = m_strLogDir t \<Longrightarrow> m_strLogFilePrefix t' = m_strLogFilePrefix t \<Longrightarrow> m_strLogDir t \<noteq> [] \<Longrightarrow> le_tm e' = le_tm e \<Longrightarrow>
    log_dir e' t' = log_dir e t \<and> log_file_name e' t' = log_file_name e t"
  by (simp add: log_dir_def log_file_name_def)

lemma check_log_file_creates:
  assumes F: "posix_names F names" and run: "check_log_file F e t w = Inr (r, t', w')" and closed: "\<not> lite_is_open (m_LogFile t)"
    and dir: "m_strLogDir t \<noteq> []"
  shows "log_file_name e t \<in> names w' \<and> length (log_file_name e t) < 4096"
proof -
  obtain r1 t1 w1 where c: "log_close F False t w = (r1, t1, w1)"
    by (cases "log_close F False t w")
  let ?t = "t1\<lparr>m_tmLogFileStart := le_time3 e\<rparr>"
  have name: "log_dir e ?t = log_dir e t \<and> log_file_name e ?t = log_file_name e t"
    using log_close_simps [OF c] dir by (intro log_name_cong) simp_all
  obtain w2 r3 f where "lite_create F (log_file_name e ?t) (m_LogFile ?t) w2 = Inr (r3, f, w')" "0 \<le> r3"
    "length (log_file_name e ?t) < 4096"
    using run closed c by (auto simp: check_log_file_def log_fresh_def Let_def elim!: bindr_InrE split: if_splits)
  then show ?thesis
    using lite_create_names [OF F] name by simp
qed

lemma check_log_file_exists:
  assumes F: "posix_names F names" and closed: "\<not> lite_is_open (m_LogFile t)" and dir: "m_strLogDir t \<noteq> []"
    and there: "log_file_name e t \<in> names w" and len: "length (log_file_name e t) < 4096"
  shows "check_log_file F e t w = Inl Assert_failed"
proof -
  obtain r1 t1 w1 where c: "log_close F False t w = (r1, t1, w1)"
    by (cases "log_close F False t w")
  let ?t = "t1\<lparr>m_tmLogFileStart := le_time3 e\<rparr>"
  have name: "log_dir e ?t = log_dir e t \<and> log_file_name e ?t = log_file_name e t"
    using log_close_simps [OF c] dir by (intro log_name_cong) simp_all
  have "length (log_dir e t) < 4096"
    using len by (simp add: log_file_name_def)
  then obtain r2 w2 where d: "create_recursive_dir_ex F (log_dir e t) 0x1FF w1 = Inr (r2, w2)"
    using create_dir_fits [of "log_dir e t" F "0x1FF" w1] by blast
  have "log_file_name e t \<in> names w2"
    using there log_close_names [OF F c] dirs_made(1) [OF F d] by auto
  then obtain f w3 where "lite_create F (log_file_name e t) (m_LogFile ?t) w2 = Inr (-1, f, w3)"
    using lite_create_exists [OF F _ len] by blast
  then show ?thesis
    using closed c d name len by (cases "0 \<le> r2") (simp_all add: check_log_file_def log_fresh_def Let_def)
qed

text \<open>A call that a log takes and that goes to the file.\<close>

definition to_file :: "log_call \<Rightarrow> CSmartLog \<Rightarrow> bool" where
  "to_file c t \<longleftrightarrow> ELL_DEF \<le> lc_level c \<and> m_i32TraceLevel t \<le> lc_level c \<and> lc_level c < ELL_ALL \<and> ET_FILE AND lc_target c \<noteq> 0"

text \<open>C39: Two logs of one directory and prefix that begin a file in the same second end the process.
  The name of a file tells the second only, and the file must not exist: when the first log has
  made its file, the first line of the second, whatever was done in between, fails its assertion.
  The endpoints of one kind, and the notifiers of one type, share directory and prefix.\<close>

theorem log_same_second_aborts:
  assumes "posix_names F names" and "m_strLogDir t1 \<noteq> []" and "m_strLogDir t2 = m_strLogDir t1"
    and "m_strLogFilePrefix t2 = m_strLogFilePrefix t1" and "le_tm e2 = le_tm e1"
    and "\<not> lite_is_open (m_LogFile t1)" and "\<not> lite_is_open (m_LogFile t2)" and "to_file c1 t1" and "to_file c2 t2"
    and "trace_log F e1 c1 t1 w1 = Inr (t1', w1')" and "names w1' \<subseteq> names w2"
  shows "trace_log F e2 c2 t2 w2 = Inl Assert_failed"
proof -
  note F = assms(1)
  have same: "log_dir e2 t2 = log_dir e1 t1 \<and> log_file_name e2 t2 = log_file_name e1 t1"
    using assms(2-5) by (intro log_name_cong) simp_all
  let ?s = "log_text e1 (lc_level c1) (lc_file c1) (lc_func c1) (lc_line c1) (lc_log c1)"
  obtain r t w bs bs' n where chk: "check_log_file F e1 t1 w1 = Inr (r, t, w)"
    and w1': "w1' = snd (os_write F n bs w) \<or> w1' = os_console F bs' (snd (os_write F n bs w)) \<or> w1' = w \<or> w1' = os_console F bs' w"
    using assms(8,10) by (auto simp: trace_log_def to_file_def lite_set_def Let_def elim!: bindr_InrE split: if_splits) (metis snd_conv)+
  have "names w1' = names w"
    using w1' posix_namesD(4,5) [OF F] by auto
  then have "log_file_name e2 t2 \<in> names w2" "length (log_file_name e2 t2) < 4096"
    using check_log_file_creates [OF F chk assms(6,2)] same assms(11) by auto
  then have "check_log_file F e2 t2 w2 = Inl Assert_failed"
    using check_log_file_exists [OF F assms(7)] assms(2,3) by simp
  moreover have "lc_target c2 \<noteq> 0"
    using assms(9) by (auto simp: to_file_def)
  ultimately show ?thesis
    using assms(9) by (simp add: trace_log_def to_file_def)
qed

lemma fmt_int_length: "p \<le> length (fmt_int p i)"
  by (simp add: fmt_int_def Let_def)

lemma level_text: "ELL_DEF \<le> l \<Longrightarrow> l < ELL_ALL \<Longrightarrow> length (g_arrLevInfo ! nat l) = 7"
proof -
  assume "ELL_DEF \<le> l" "l < ELL_ALL"
  then have "nat l < 5"
    by simp
  then consider "nat l = 0" | "nat l = 1" | "nat l = 2" | "nat l = 3" | "nat l = 4"
    by linarith
  then show ?thesis
    by cases (simp_all add: g_arrLevInfo_def)
qed

lemma log_bytes_short: "length s < 8192 \<Longrightarrow> log_bytes s = Inr s"
  by (simp add: log_bytes_def)

text \<open>C40: A long line reads behind the array. \<open>snprintf\<close> returns the length of the whole text, not
  of what it stored, and that many bytes are written: the macro lets 8191 characters through and
  the heading takes 29 more, so a text of 8164 characters never comes back from \<open>TRACE_LOG\<close>; with
  the log's file open it reads outside its array.\<close>

theorem log_long_line_overreads:
  assumes "0 \<le> level" and "level < 5" and "m_i32TraceLevel t \<le> level" and "8164 \<le> length s"
  shows "(\<exists>h. trace_macro F e level file func line s t w = Inl h) \<and>
    (log_fresh (le_time1 e) t \<longrightarrow> trace_macro F e level file func line s t w = Inl Out_of_bounds)"
proof -
  let ?s = "log_text e level file func line (take 8191 s)"
  have "7 + 6 + 4 + 8164 + 12 \<le> length ?s"
    using level_text [of level] fmt_int_length [of 6 "le_thread e"] fmt_int_length [of 4 line] assms by (simp add: log_text_def)
  then have "8192 < length ?s"
    by simp
  then have bytes: "log_bytes ?s = Inl Out_of_bounds"
    by (simp add: log_bytes_def Let_def)
  have open': "check_log_file F e t w = Inr (0, t, w)" if "log_fresh (le_time1 e) t"
    using that by (simp add: check_log_file_def)
  show ?thesis
    using bytes assms(1-3) open'
    by (cases "check_log_file F e t w") (auto simp: trace_macro_def trace_log_def Let_def check_log_file_def split: if_splits)
qed

text \<open>Closing a log as its header asks, \<open>close ()\<close>, twice: the log takes its closed descriptor for
  open and writes to whatever has that number by then.\<close>

theorem log_close_twice:
  assumes "posix_descriptors F fds" and "lite_is_open (m_LogFile t)"
    and "log_close F False t w = (r1, t1, w1)" and "log_close F False t1 w1 = (r2, t2, w2)"
  shows "m_i32FileDesc (m_LogFile t) \<notin> fds w2 \<and> lite_is_open (m_LogFile t2) \<and>
    (\<forall>e c w3. log_fresh (le_time1 e) t \<and> to_file c t \<and> ET_CONSOLE AND lc_target c = 0 \<and>
       length (log_text e (lc_level c) (lc_file c) (lc_func c) (lc_line c) (lc_log c)) < 8192 \<longrightarrow>
       trace_log F e c t2 w3 = Inr (t2, snd (os_write F (m_i32FileDesc (m_LogFile t))
         (log_text e (lc_level c) (lc_file c) (lc_func c) (lc_line c) (lc_log c)) w3)))"
proof -
  note c1 = log_close_fds(2) [OF assms(1,3), simplified] and c2 = log_close_fds(2) [OF assms(1,4), simplified]
  have keep: "m_LogFile t2 = m_LogFile t \<and> m_i32TraceLevel t2 = m_i32TraceLevel t \<and> log_fresh n t2 = log_fresh n t" for n
    using assms(3,4) by (auto simp: log_close_def log_fresh_def split: prod.splits)
  have closed: "m_i32FileDesc (m_LogFile t) \<notin> fds w2"
    using c1 c2 assms(2) by (auto simp: fd_set_def lite_is_open_def)
  have traced: "trace_log F e c t2 w3 = Inr (t2, snd (os_write F (m_i32FileDesc (m_LogFile t)) s w3))"
    if "log_fresh (le_time1 e) t" "to_file c t" "ET_CONSOLE AND lc_target c = 0"
      "s = log_text e (lc_level c) (lc_file c) (lc_func c) (lc_line c) (lc_log c)" "length s < 8192" for e c w3 s
  proof -
    have "check_log_file F e t2 w3 = Inr (0, t2, w3)"
      using that(1) keep by (simp add: check_log_file_def)
    moreover have "log_bytes s = Inr s"
      using that(5) by (rule log_bytes_short)
    moreover have "lite_set F s (m_LogFile t2) w3 = Inr (os_write F (m_i32FileDesc (m_LogFile t)) s w3)"
      using keep assms(2) by (simp add: lite_set_def lite_is_open_def)
    moreover have "lc_target c \<noteq> 0"
      using that(2) by (auto simp: to_file_def)
    ultimately show ?thesis
      using that(2,3,4) keep
      by (cases "os_write F (m_i32FileDesc (m_LogFile t)) s w3") (simp add: trace_log_def to_file_def)
  qed
  show ?thesis
    using closed keep assms(2) traced by simp
qed

section \<open>A file system\<close>

record demo_fs =
  df_names :: "string list"
  df_fds :: "int list"
  df_next :: int
  df_out :: "(int \<times> string) list"

definition demo_os :: "demo_fs file_os" where
  "demo_os =
     \<lparr>os_access = (\<lambda>p w. if p \<in> set (df_names w) then 0 else -1),
      os_mkdir = (\<lambda>p md w. if p \<in> set (df_names w) then (-1, w) else (0, w\<lparr>df_names := p # df_names w\<rparr>)),
      os_getcwd = (\<lambda>n w. Some ''/''), os_chdir = (\<lambda>p w. (0, w)),
      os_open = (\<lambda>p fl w.
        if df_next w < 0 \<or> fl AND O_CREAT = 0 \<or> fl AND O_EXCL \<noteq> 0 \<and> p \<in> set (df_names w) then (-1, w)
        else (df_next w, w\<lparr>df_names := p # df_names w, df_fds := df_next w # df_fds w, df_next := df_next w + 1\<rparr>)),
      os_close = (\<lambda>d w. (0, w\<lparr>df_fds := filter (\<lambda>x. x \<noteq> d) (df_fds w)\<rparr>)),
      os_write = (\<lambda>d s w. (int (length s), w\<lparr>df_out := df_out w @ [(d, s)]\<rparr>)),
      os_read = (\<lambda>d n w. (0, [], w)), os_fsync = (\<lambda>d w. (0, w)),
      os_console = (\<lambda>s w. w\<lparr>df_out := df_out w @ [(1, s)]\<rparr>)\<rparr>"

definition demo_fds :: "demo_fs \<Rightarrow> int set" where
  "demo_fds w = {d \<in> set (df_fds w). d < df_next w}"

lemma demo_os_descriptors: "posix_descriptors demo_os demo_fds"
  by (auto simp: posix_descriptors_def demo_os_def demo_fds_def split: if_splits)

lemma demo_os_names: "posix_names demo_os (\<lambda>w. set (df_names w))"
  by (auto simp: posix_names_def demo_os_def)

definition demo_log :: CSmartLog where
  "demo_log = new_log\<lparr>m_strLogDir := ''/l'', m_strLogFilePrefix := ''c_'', m_i32TraceLevel := 1, m_i32IntervalInSeconds := 60\<rparr>"

definition demo_env :: log_env where
  "demo_env = \<lparr>le_time1 = 100, le_time2 = 100, le_time3 = 100,
     le_tm = \<lparr>tm_year = 111, tm_mon = 1, tm_mday = 11, tm_hour = 9, tm_min = 5, tm_sec = 7\<rparr>,
     le_exe = ''/bin/p'', le_thread = 42, le_day_time = ''d''\<rparr>"

definition demo_call :: log_call where
  "demo_call = \<lparr>lc_level = 1, lc_file = ''f'', lc_func = ''g'', lc_line = 12, lc_log = ''hello'', lc_target = 1\<rparr>"

definition demo_world :: demo_fs where
  "demo_world = \<lparr>df_names = [], df_fds = [], df_next = 3, df_out = []\<rparr>"

definition demo_world' :: demo_fs where
  "demo_world' = \<lparr>df_names = [''/l/2011/02/11/c_09-05-07.log'', ''/l/2011/02/11'', ''/l/2011/02'', ''/l/2011'', ''/l''], df_fds = [3], df_next = 4,
     df_out = [(3, ''DEBUG  : 000042@d|f:0012:g() => hello'')]\<rparr>"

lemma demo_dir: "log_dir demo_env (demo_log\<lparr>m_tmLogFileStart := n\<rparr>) = ''/l/2011/02/11''"
  by (simp add: log_dir_def demo_env_def demo_log_def fmt_int_def digits.simps)

lemma demo_name: "log_file_name demo_env (demo_log\<lparr>m_tmLogFileStart := n\<rparr>) = ''/l/2011/02/11/c_09-05-07.log''"
  by (simp add: log_file_name_def demo_dir) (simp add: demo_env_def demo_log_def fmt_int_def digits.simps)

lemma demo_text: "log_text demo_env 1 ''f'' ''g'' 12 ''hello'' = ''DEBUG  : 000042@d|f:0012:g() => hello''"
  by (simp add: log_text_def demo_env_def g_arrLevInfo_def fmt_int_def digits.simps) (simp add: numeral_eq_Suc)

lemma demo_check:
  "check_log_file demo_os demo_env demo_log demo_world =
     Inr (0, demo_log\<lparr>m_LogFile := \<lparr>m_i32FileDesc = 3\<rparr>, m_tmLogFileStart := 100\<rparr>, demo_world'\<lparr>df_out := []\<rparr>)"
proof -
  have t: "log_close demo_os False demo_log demo_world = (0, demo_log, demo_world)" "\<not> lite_is_open \<lparr>m_i32FileDesc = -1\<rparr>"
    "m_LogFile demo_log = \<lparr>m_i32FileDesc = -1\<rparr>" "le_time3 demo_env = 100"
    by (simp_all add: log_close_def lite_close_def lite_is_open_def demo_log_def new_log_def new_lite_file_def demo_env_def)
  have split: "split_file_name ''/l/2011/02/11/c_09-05-07.log'' = Some (''/l/2011/02/11'', ''c_09-05-07.log'')"
    by (simp add: split_file_name_def is_sep_def)
  show ?thesis
    by (simp add: check_log_file_def log_fresh_def t demo_dir demo_name lite_create_def split)
      (simp add: create_recursive_dir_ex_def dir_step_def demo_os_def demo_world_def demo_world'_def
        O_CREAT_def O_RDWR_def O_TRUNC_def O_EXCL_def)
qed

lemma demo_trace:
  "trace_log demo_os demo_env demo_call demo_log demo_world =
     Inr (demo_log\<lparr>m_LogFile := \<lparr>m_i32FileDesc = 3\<rparr>, m_tmLogFileStart := 100\<rparr>, demo_world')"
proof -
  have "m_i32TraceLevel demo_log = 1"
    by (simp add: demo_log_def)
  moreover have "os_write demo_os 3 ''DEBUG  : 000042@d|f:0012:g() => hello'' (demo_world'\<lparr>df_out := []\<rparr>) = (37, demo_world')"
    by (simp add: demo_os_def demo_world'_def)
  ultimately show ?thesis
    by (simp add: trace_log_def demo_call_def demo_check demo_text log_bytes_short lite_set_def)
qed

lemma demo_runs: "log_runs demo_os demo_fds (demo_log\<lparr>m_LogFile := \<lparr>m_i32FileDesc = 3\<rparr>, m_tmLogFileStart := 100\<rparr>) demo_world'"
proof (rule log_traces [OF _ demo_trace])
  have "log_init ''/l'' ''c_'' 1 60 new_log = Inr (0, demo_log)"
    by (simp add: log_init_def new_log_def new_lite_file_def lite_is_open_def demo_log_def)
  then show "log_runs demo_os demo_fds demo_log demo_world"
    by (rule log_starts)
qed

theorem log_keeps_descriptors_witness:
  "\<exists>r t' w'. log_close demo_os True (demo_log\<lparr>m_LogFile := \<lparr>m_i32FileDesc = 3\<rparr>, m_tmLogFileStart := 100\<rparr>) demo_world' = (r, t', w') \<and>
    demo_fds w' = {} \<and> held t' = {}"
proof -
  let ?t = "demo_log\<lparr>m_LogFile := \<lparr>m_i32FileDesc = 3\<rparr>, m_tmLogFileStart := 100\<rparr>"
  have none: "demo_fds demo_world' - held ?t = {}"
    by (auto simp: demo_fds_def demo_world'_def held_def fd_set_def)
  from log_keeps_descriptors [OF demo_os_descriptors demo_runs]
  have "\<exists>r t' w'. log_close demo_os True ?t demo_world' = (r, t', w') \<and> demo_fds w' = demo_fds demo_world' - held ?t \<and> held t' = {}"
    by (elim conjE)
  then show ?thesis
    unfolding none .
qed

theorem log_same_second_aborts_witness:
  "trace_log demo_os demo_env demo_call demo_log demo_world' = Inl Assert_failed"
  by (rule log_same_second_aborts [OF demo_os_names, where ?t1.0 = demo_log and ?c1.0 = demo_call and ?e1.0 = demo_env, OF _ _ _ _ _ _ _ _ demo_trace])
    (simp_all add: demo_log_def new_log_def new_lite_file_def lite_is_open_def to_file_def demo_call_def)

theorem log_long_line_overreads_witness:
  "\<exists>h. trace_macro demo_os demo_env 1 ''f'' ''g'' 12 (replicate 8164 (CHR ''x'')) demo_log demo_world = Inl h"
  using log_long_line_overreads [of 1 demo_log "replicate 8164 (CHR ''x'')" demo_os demo_env "''f''" "''g''" 12 demo_world]
  by (simp add: demo_log_def)

end
