(* ===== verification/HostInfo.thy ===== *)
theory HostInfo
  imports SmartLog
begin

text \<open>
  What the program asks of its host: the limits, priorities and processors of a thread, the byte
  order, the path of the program, the text of an error number and the time, from
  \<open>libcomm_utils/src/utils/utils.cpp\<close> and \<open>utils/time_info.cpp\<close>. The calls of the system are a
  parameter over the world they change.
\<close>

section \<open>Threads\<close>

text \<open>
  Limits and nice values come with the error number the call leaves; the others return their error
  number. A set of processors is the list of the bits of a \<open>cpu_set_t\<close>.
\<close>

record 'w host_os =
  os_setrlimit :: "int \<Rightarrow> u64 \<times> u64 \<Rightarrow> 'w \<Rightarrow> int \<times> 'w"
  os_getrlimit :: "int \<Rightarrow> 'w \<Rightarrow> int + u64 \<times> u64"
  os_setpriority :: "int \<Rightarrow> int \<Rightarrow> 'w \<Rightarrow> int \<times> 'w"
  os_getpriority :: "int \<Rightarrow> 'w \<Rightarrow> int \<times> int"
  os_setschedparam :: "nat \<Rightarrow> int \<Rightarrow> int \<Rightarrow> 'w \<Rightarrow> int \<times> 'w"
  os_getschedparam :: "nat \<Rightarrow> 'w \<Rightarrow> int + int \<times> int"
  os_setaffinity :: "nat \<Rightarrow> bool list \<Rightarrow> 'w \<Rightarrow> int \<times> 'w"
  os_getaffinity :: "nat \<Rightarrow> 'w \<Rightarrow> int + bool list"

definition set_max_res_lim_size :: "'w host_os \<Rightarrow> int \<Rightarrow> u64 \<Rightarrow> u64 \<Rightarrow> 'w \<Rightarrow> int \<times> 'w" where
  "set_max_res_lim_size H iRes ulSoft ulHard w = os_setrlimit H iRes (ulSoft, ulHard) w"

definition get_max_res_lim_size :: "'w host_os \<Rightarrow> int \<Rightarrow> u64 \<times> u64 \<Rightarrow> 'w \<Rightarrow> int \<times> u64 \<times> u64" where
  "get_max_res_lim_size H iRes refs w =
     (case os_getrlimit H iRes w of Inl e \<Rightarrow> (e, refs) | Inr (rlim_cur, rlim_max) \<Rightarrow> (0, rlim_cur, rlim_max))"

definition get_thread_sched_attr :: "'w host_os \<Rightarrow> nat \<Rightarrow> int \<times> int \<Rightarrow> 'w \<Rightarrow> int \<times> int \<times> int" where
  "get_thread_sched_attr H th_id refs w =
     (case os_getschedparam H th_id w of Inl e \<Rightarrow> (e, refs) | Inr (policy, priority) \<Rightarrow> (0, policy, priority))"

definition set_thread_sched_attr :: "'w host_os \<Rightarrow> nat \<Rightarrow> int \<Rightarrow> int \<Rightarrow> 'w \<Rightarrow> int \<times> 'w" where
  "set_thread_sched_attr H th_id iPolicy iPriority w = os_setschedparam H th_id iPolicy iPriority w"

definition get_thread_nice_val :: "'w host_os \<Rightarrow> int \<Rightarrow> 'w \<Rightarrow> int \<times> int" where
  "get_thread_nice_val H iThId w = (let (v, e) = os_getpriority H iThId w in (e, v))"

definition set_thread_nice_val :: "'w host_os \<Rightarrow> int \<Rightarrow> int \<Rightarrow> 'w \<Rightarrow> int \<times> 'w" where
  "set_thread_nice_val H iThId iNiceVal w = os_setpriority H iThId iNiceVal w"

definition CPU_SETSIZE :: nat where "CPU_SETSIZE = 1024"

text \<open>\<open>CPU_SET\<close> ignores a number outside the set.\<close>

definition CPU_ZERO :: "bool list" where
  "CPU_ZERO = replicate CPU_SETSIZE False"

definition CPU_SET :: "int \<Rightarrow> bool list \<Rightarrow> bool list" where
  "CPU_SET cpu cpuset = (if 0 \<le> cpu \<and> cpu < int CPU_SETSIZE then cpuset[nat cpu := True] else cpuset)"

definition set_thread_affinity :: "'w host_os \<Rightarrow> nat \<Rightarrow> int \<Rightarrow> 'w \<Rightarrow> int \<times> 'w" where
  "set_thread_affinity H th_id iCPUNum w = os_setaffinity H th_id (CPU_SET iCPUNum CPU_ZERO) w"

definition get_thread_affinity :: "'w host_os \<Rightarrow> nat \<Rightarrow> int list \<Rightarrow> 'w \<Rightarrow> int \<times> int list" where
  "get_thread_affinity H th_id vecCPUs w =
     (case os_getaffinity H th_id w of
        Inl iRet \<Rightarrow> (iRet, vecCPUs)
      | Inr cpuset \<Rightarrow> (0, vecCPUs @ map int (filter (\<lambda>i. cpuset ! i) [0 ..< CPU_SETSIZE])))"

text \<open>
  The kernel takes a set only when it leaves the thread a processor, and answers with the
  processors of the set that there are.
\<close>

definition posix_affinity :: "'w host_os \<Rightarrow> bool" where
  "posix_affinity H \<longleftrightarrow>
     (\<forall>th_id cpuset w w'. os_setaffinity H th_id cpuset w = (0, w') \<longrightarrow>
        (\<exists>m. os_getaffinity H th_id w' = Inr m \<and> length m = CPU_SETSIZE \<and>
           (\<forall>i < CPU_SETSIZE. m ! i \<longrightarrow> cpuset ! i) \<and> (\<exists>i < CPU_SETSIZE. m ! i)))"

lemma CPU_SET_nth: "i < CPU_SETSIZE \<Longrightarrow> CPU_SET cpu CPU_ZERO ! i \<longleftrightarrow> cpu = int i"
  by (auto simp: CPU_SET_def CPU_ZERO_def nth_list_update split: if_splits)

lemma filter_one_upt: "i < n \<Longrightarrow> filter (\<lambda>j. j = i) [0 ..< n] = [i]"
proof (induction n)
  case (Suc n)
  then show ?case
    by (cases "i = n") (auto simp: filter_empty_conv)
qed simp

text \<open>A thread that was bound to one processor runs on this one, and a number that is none is refused.\<close>

lemma affinity_roundtrip:
  assumes "posix_affinity H" and "set_thread_affinity H th_id cpu w = (0, w')"
  shows "0 \<le> cpu \<and> cpu < int CPU_SETSIZE" and "get_thread_affinity H th_id [] w' = (0, [cpu])"
proof -
  have "os_setaffinity H th_id (CPU_SET cpu CPU_ZERO) w = (0, w')"
    using assms(2) by (simp add: set_thread_affinity_def)
  with assms(1) obtain m where m: "os_getaffinity H th_id w' = Inr m"
    and bits: "\<forall>i < CPU_SETSIZE. m ! i \<longrightarrow> CPU_SET cpu CPU_ZERO ! i" and ex: "\<exists>i < CPU_SETSIZE. m ! i"
    unfolding posix_affinity_def by blast
  have sub: "cpu = int i" if "i < CPU_SETSIZE" "m ! i" for i
    using bits that CPU_SET_nth [OF that(1)] by blast
  from ex obtain i where "i < CPU_SETSIZE" "m ! i"
    by blast
  with sub have i: "i < CPU_SETSIZE" "m ! i" "cpu = int i"
    by blast+
  then show "0 \<le> cpu \<and> cpu < int CPU_SETSIZE"
    by simp
  have "filter (\<lambda>j. m ! j) [0 ..< CPU_SETSIZE] = filter (\<lambda>j. j = i) [0 ..< CPU_SETSIZE]"
  proof (rule filter_cong [OF refl])
    show "m ! j \<longleftrightarrow> j = i" if "j \<in> set [0 ..< CPU_SETSIZE]" for j
      using that sub [of j] i by auto
  qed
  also have "\<dots> = [i]"
    by (rule filter_one_upt [OF i(1)])
  finally show "get_thread_affinity H th_id [] w' = (0, [cpu])"
    using m i(3) by (simp add: get_thread_affinity_def)
qed

text \<open>\<open>old\<close> is the answer of \<open>sigaction\<close>; the handlers are numbers, zero the null pointer.\<close>

definition set_signal_handler :: "(int \<Rightarrow> u64 \<Rightarrow> 'w \<Rightarrow> u64 option \<times> 'w) \<Rightarrow> int \<Rightarrow> u64 \<Rightarrow> 'w \<Rightarrow> u64 \<times> 'w" where
  "set_signal_handler sigaction signo func w =
     (let (old, w) = sigaction signo func w in (case old of None \<Rightarrow> 0 | Some h \<Rightarrow> h, w))"

section \<open>The byte order\<close>

definition is_little_endian :: bool where
  "is_little_endian \<longleftrightarrow> (let b = le_bytes 2 0x1234 in 0x34 = b ! 0 \<and> 0x12 = b ! 1)"

lemma little_endian: is_little_endian
  by (simp add: is_little_endian_def numeral_2_eq_2)

section \<open>Texts in buffers of the caller\<close>

text \<open>
  \<open>path\<close> is what the link \<open>/proc/<pid>/exe\<close> has; \<open>readlink\<close> writes as much of it as the size it is
  given allows, and no zero. The result is whether the buffer is returned, and its bytes.
\<close>

definition get_cur_exe_path :: "bytes option \<Rightarrow> bytes \<Rightarrow> u32 \<Rightarrow> (bool \<times> bytes) res" where
  "get_cur_exe_path path pBytesBuf uiBufSize =
     (case path of
        None \<Rightarrow> Inr (False, pBytesBuf)
      | Some p \<Rightarrow>
          let ret = min (length p) (unat uiBufSize) in
          bindr (write_at 0 (take ret p) pBytesBuf) (\<lambda>buf.
          if ret \<ge> unat uiBufSize then Inr (False, buf)
          else bindr (write_at ret [0] buf) (\<lambda>buf. Inr (True, buf))))"

lemma exe_path_correct:
  assumes "unat n = length buf"
  shows "\<exists>ok buf'. get_cur_exe_path (Some p) buf n = Inr (ok, buf') \<and> length buf' = length buf \<and>
    (ok \<longleftrightarrow> length p < unat n) \<and> (ok \<longrightarrow> take (Suc (length p)) buf' = p @ [0])"
  using assms by (auto simp: get_cur_exe_path_def write_at_def Let_def min_def)

text \<open>
  The answer of \<open>strerror_r\<close> of the C library: the text is in the buffer, cut to its size, or it is
  a text of the library's own, which the code copies into the buffer.
\<close>

datatype err_text = In_buffer bytes | Static bytes

definition get_sys_err_msg :: "(int \<Rightarrow> err_text) \<Rightarrow> int \<Rightarrow> bytes \<Rightarrow> bytes res" where
  "get_sys_err_msg strerror_r iErrNo pszErrBuf =
     (case strerror_r iErrNo of
        In_buffer b \<Rightarrow> write_at 0 b pszErrBuf
      | Static msg \<Rightarrow> write_at 0 (msg @ [0]) pszErrBuf)"

text \<open>The copy does not look at the size of the buffer.\<close>

lemma sys_err_msg_overflows:
  assumes "strerror_r e = Static msg"
  shows "get_sys_err_msg strerror_r e buf = Inl Out_of_bounds \<longleftrightarrow> length buf \<le> length msg"
  using assms by (auto simp: get_sys_err_msg_def write_at_def)

section \<open>Time\<close>

text \<open>The seconds and microseconds of \<open>gettimeofday\<close>, and its local date.\<close>

definition get_current_time_us :: "int \<Rightarrow> int \<Rightarrow> u64" where
  "get_current_time_us tv_sec tv_usec = word_of_int (tv_sec * (1000 * 1000) + tv_usec)"

text \<open>The microseconds are in the order of the readings for as long as 64 bits count them.\<close>

lemma time_us_order:
  assumes "0 \<le> s" "0 \<le> u" "u < 1000000" "0 \<le> s'" "0 \<le> u'" "u' < 1000000"
    and "s < 9000000000000" "s' < 9000000000000"
  shows "get_current_time_us s u < get_current_time_us s' u' \<longleftrightarrow> s < s' \<or> s = s' \<and> u < u'"
proof -
  have "uint (get_current_time_us a b) = a * 1000000 + b"
    if "0 \<le> a" "0 \<le> b" "b < 1000000" "a < 9000000000000" for a b
    unfolding get_current_time_us_def uint_word_of_int using that by (subst mod_pos_pos_trivial) auto
  then have "get_current_time_us s u < get_current_time_us s' u' \<longleftrightarrow> s * 1000000 + u < s' * 1000000 + u'"
    using assms by (simp add: word_less_def)
  also have "\<dots> \<longleftrightarrow> s < s' \<or> s = s' \<and> u < u'"
    using assms by auto
  finally show ?thesis .
qed

text \<open>\<open>snprintf\<close> into 36 bytes, one of which is the zero.\<close>

definition day_time_text :: "tm \<Rightarrow> int \<Rightarrow> string" where
  "day_time_text t tv_usec =
     fmt_int 1 (tm_year t + 1900) @ ''-'' @ fmt_int 2 (tm_mon t + 1) @ ''-'' @ fmt_int 2 (tm_mday t) @ ''_'' @
     fmt_int 2 (tm_hour t) @ '':'' @ fmt_int 2 (tm_min t) @ '':'' @ fmt_int 2 (tm_sec t) @ ''.'' @ fmt_int 6 tv_usec"

definition get_day_time :: "tm \<Rightarrow> int \<Rightarrow> string" where
  "get_day_time t tv_usec = take 35 (day_time_text t tv_usec)"

lemma digits_length: "n < 10 ^ k \<Longrightarrow> 0 < k \<Longrightarrow> length (digits n) \<le> k"
proof (induction k arbitrary: n)
  case (Suc k)
  show ?case
  proof (cases "n < 10")
    case True
    then show ?thesis
      by (simp add: digits.simps [of n])
  next
    case False
    then have "0 < k" "n div 10 < 10 ^ k"
      using Suc.prems(1) by (cases k; simp)+
    then show ?thesis
      using Suc.IH [of "n div 10"] False by (simp add: digits.simps [of n])
  qed
qed simp

lemma printed_length: "0 \<le> i \<Longrightarrow> i < 10 ^ k \<Longrightarrow> 0 < k \<Longrightarrow> p \<le> k \<Longrightarrow> length (fmt_int p i) \<le> k"
  using digits_length [of "nat i" k] by (auto simp: fmt_int_def Let_def nat_less_iff)

text \<open>A date of the calendar is never cut.\<close>

lemma day_time_fits:
  assumes "0 \<le> tm_year t + 1900" "tm_year t + 1900 < 10000" "0 \<le> tm_mon t" "tm_mon t < 12" "0 \<le> tm_mday t" "tm_mday t \<le> 31"
    and "0 \<le> tm_hour t" "tm_hour t < 24" "0 \<le> tm_min t" "tm_min t < 60" "0 \<le> tm_sec t" "tm_sec t \<le> 61"
    and "0 \<le> u" "u < 1000000"
  shows "get_day_time t u = day_time_text t u" and "length (get_day_time t u) \<le> 26"
proof -
  have "length (day_time_text t u) \<le> 26"
    using assms printed_length [of "tm_year t + 1900" 4 1] printed_length [of "tm_mon t + 1" 2 2]
      printed_length [of "tm_mday t" 2 2] printed_length [of "tm_hour t" 2 2] printed_length [of "tm_min t" 2 2]
      printed_length [of "tm_sec t" 2 2] printed_length [of u 6 6]
    by (simp add: day_time_text_def)
  then show "get_day_time t u = day_time_text t u" "length (get_day_time t u) \<le> 26"
    by (simp_all add: get_day_time_def)
qed

end
