(* ===== verification/RWLock.thy ===== *)
theory RWLock
  imports Prelude
begin

text \<open>
  The lock for many readers or one writer, \<open>CRWLock\<close> of \<open>libcomm_utils/src/utils/rw_lock.h\<close>, used
  by any number of threads. A step is one operation on the semaphore or on the inner lock; the
  threads' steps interleave in any order.
\<close>

section \<open>The lock and its threads\<close>

text \<open>
  Where a thread is: outside, reading, in \<open>lock_write\<close> with the inner lock and \<open>i\<close> units of the
  semaphore, writing, or in \<open>unlock_write\<close> with \<open>i\<close> units given back.
\<close>

datatype rw_pc = Idle | Reading | Taking nat | Writing | Giving nat

text \<open>\<open>m_sem\<close> is the semaphore's value, \<open>m_lock\<close> the thread that has the inner lock.\<close>

record CRWLock =
  m_sem :: nat
  rw_lock :: "nat option"
  rw_pcs :: "rw_pc list"

definition new_rw :: "nat \<Rightarrow> nat \<Rightarrow> CRWLock" where
  "new_rw uiMaxReaders n = \<lparr>m_sem = uiMaxReaders, rw_lock = None, rw_pcs = replicate n Idle\<rparr>"

text \<open>What a thread does next: it calls a method, or goes on in the one it is in.\<close>

datatype rw_act = Lock_read | Unlock_read | Lock_write | Unlock_write | Go_on

definition sem_acquire :: "CRWLock \<Rightarrow> CRWLock option" where
  "sem_acquire s = (if m_sem s = 0 then None else Some (s\<lparr>m_sem := m_sem s - 1\<rparr>))"

definition sem_release :: "CRWLock \<Rightarrow> CRWLock" where
  "sem_release s = s\<lparr>m_sem := m_sem s + 1\<rparr>"

definition set_pc :: "nat \<Rightarrow> rw_pc \<Rightarrow> CRWLock \<Rightarrow> CRWLock" where
  "set_pc i p s = s\<lparr>rw_pcs := (rw_pcs s)[i := p]\<rparr>"

text \<open>\<open>None\<close>: the thread waits, or is not at a place where it does that.\<close>

fun rw_step :: "nat \<Rightarrow> nat \<Rightarrow> rw_act \<Rightarrow> rw_pc \<Rightarrow> CRWLock \<Rightarrow> CRWLock option" where
  "rw_step M i Lock_read Idle s = map_option (set_pc i Reading) (sem_acquire s)"
| "rw_step M i Unlock_read Reading s = Some (set_pc i Idle (sem_release s))"
| "rw_step M i Lock_write Idle s =
     (if rw_lock s = None then Some (set_pc i (Taking 0) (s\<lparr>rw_lock := Some i\<rparr>)) else None)"
| "rw_step M i Go_on (Taking k) s =
     (if k < M then map_option (set_pc i (Taking (Suc k))) (sem_acquire s)
      else Some (set_pc i Writing (s\<lparr>rw_lock := None\<rparr>)))"
| "rw_step M i Unlock_write Writing s = Some (set_pc i (Giving 0) s)"
| "rw_step M i Go_on (Giving k) s =
     (if k < M then Some (set_pc i (Giving (Suc k)) (sem_release s)) else Some (set_pc i Idle s))"
| "rw_step M i a p s = None"

inductive rw_runs :: "nat \<Rightarrow> nat \<Rightarrow> CRWLock \<Rightarrow> bool" for M n where
  rw_new: "rw_runs M n (new_rw M n)"
| rw_goes: "rw_runs M n s \<Longrightarrow> i < n \<Longrightarrow> rw_step M i a (rw_pcs s ! i) s = Some s' \<Longrightarrow> rw_runs M n s'"

section \<open>Units of the semaphore\<close>

fun units :: "nat \<Rightarrow> rw_pc \<Rightarrow> nat" where
  "units M Idle = 0"
| "units M Reading = 1"
| "units M (Taking k) = k"
| "units M Writing = M"
| "units M (Giving k) = M - k"

definition is_taking :: "rw_pc \<Rightarrow> bool" where
  "is_taking p \<longleftrightarrow> (\<exists>k. p = Taking k)"

definition pc_ok :: "nat \<Rightarrow> rw_pc \<Rightarrow> bool" where
  "pc_ok M p \<longleftrightarrow> (\<forall>k. p = Taking k \<or> p = Giving k \<longrightarrow> k \<le> M)"

definition rw_inv :: "nat \<Rightarrow> nat \<Rightarrow> CRWLock \<Rightarrow> bool" where
  "rw_inv M n s \<longleftrightarrow> length (rw_pcs s) = n \<and> m_sem s + sum_list (map (units M) (rw_pcs s)) = M \<and>
     (\<forall>i < n. is_taking (rw_pcs s ! i) \<longleftrightarrow> rw_lock s = Some i) \<and> (\<forall>i < n. pc_ok M (rw_pcs s ! i))"

lemma sum_units_update:
  "i < length ps \<Longrightarrow> sum_list (map (units M) (ps[i := p])) + units M (ps ! i) = sum_list (map (units M) ps) + units M p"
proof (induction ps arbitrary: i)
  case (Cons q ps)
  show ?case
  proof (cases i)
    case (Suc k)
    then show ?thesis
      using Cons.IH [of k] Cons.prems by simp
  qed simp
qed simp

lemma units_le_sum: "i < length ps \<Longrightarrow> units M (ps ! i) \<le> sum_list (map (units M) ps)"
  by (metis elem_le_sum_list length_map nth_map)

lemma units_le_sum2:
  assumes "i < length ps" and "j < length ps" and "i \<noteq> j"
  shows "units M (ps ! i) + units M (ps ! j) \<le> sum_list (map (units M) ps)"
  using sum_units_update [OF assms(1), of M Idle] units_le_sum [of j "ps[i := Idle]" M] assms by simp

lemma rw_step_inv:
  assumes inv: "rw_inv M n s" and i: "i < n" and step: "rw_step M i a (rw_pcs s ! i) s = Some s'"
  shows "rw_inv M n s'"
proof -
  have len: "length (rw_pcs s) = n" and sum: "m_sem s + sum_list (map (units M) (rw_pcs s)) = M"
    and lock: "\<And>j. j < n \<Longrightarrow> is_taking (rw_pcs s ! j) \<longleftrightarrow> rw_lock s = Some j"
    and ok: "\<And>j. j < n \<Longrightarrow> pc_ok M (rw_pcs s ! j)"
    using inv by (auto simp: rw_inv_def)
  note upd = sum_units_update [of i "rw_pcs s" M]
  have goal: "rw_inv M n (set_pc i p t)"
    if t: "rw_pcs t = rw_pcs s" and u: "m_sem t + units M p = m_sem s + units M (rw_pcs s ! i)" and p: "pc_ok M p"
      and l: "is_taking p \<longleftrightarrow> rw_lock t = Some i" "\<And>j. j \<noteq> i \<Longrightarrow> rw_lock t = Some j \<longleftrightarrow> rw_lock s = Some j" for p t
    unfolding rw_inv_def
  proof (intro conjI allI impI)
    show "length (rw_pcs (set_pc i p t)) = n"
      using t len by (simp add: set_pc_def)
    show "m_sem (set_pc i p t) + sum_list (map (units M) (rw_pcs (set_pc i p t))) = M"
      using upd [of p] t u sum i len by (simp add: set_pc_def)
    show "is_taking (rw_pcs (set_pc i p t) ! j) \<longleftrightarrow> rw_lock (set_pc i p t) = Some j" if "j < n" for j
      using l lock [OF that] t len i that by (cases "j = i") (simp_all add: set_pc_def)
    show "pc_ok M (rw_pcs (set_pc i p t) ! j)" if "j < n" for j
      using p ok [OF that] t len i that by (cases "j = i") (simp_all add: set_pc_def)
  qed
  note lock_i = lock [OF i] and ok_i = ok [OF i]
  show ?thesis
  proof (cases "rw_pcs s ! i")
    case Idle
    then have none: "rw_lock s \<noteq> Some i"
      using lock_i by (simp add: is_taking_def)
    from step Idle consider
      "a = Lock_read" "m_sem s \<noteq> 0" "s' = set_pc i Reading (s\<lparr>m_sem := m_sem s - 1\<rparr>)"
      | "a = Lock_write" "rw_lock s = None" "s' = set_pc i (Taking 0) (s\<lparr>rw_lock := Some i\<rparr>)"
      by (cases a) (auto simp: sem_acquire_def split: if_splits)
    then show ?thesis
      by cases (use none Idle in \<open>simp_all add: goal is_taking_def pc_ok_def\<close>)
  next
    case Reading
    then have "s' = set_pc i rw_pc.Idle (sem_release s)" "rw_lock s \<noteq> Some i"
      using step lock_i by (cases a; auto simp: is_taking_def)+
    then show ?thesis
      using Reading by (simp add: goal sem_release_def is_taking_def pc_ok_def)
  next
    case (Taking k)
    then have own: "rw_lock s = Some i" and k: "k \<le> M"
      using lock_i ok_i by (auto simp: is_taking_def pc_ok_def)
    from step Taking consider
      "k < M" "m_sem s \<noteq> 0" "s' = set_pc i (rw_pc.Taking (Suc k)) (s\<lparr>m_sem := m_sem s - 1\<rparr>)"
      | "\<not> k < M" "s' = set_pc i rw_pc.Writing (s\<lparr>rw_lock := None\<rparr>)"
      by (cases a) (auto simp: sem_acquire_def split: if_splits)
    then show ?thesis
      by cases (use own k Taking in \<open>simp_all add: goal is_taking_def pc_ok_def\<close>)
  next
    case Writing
    then have "s' = set_pc i (rw_pc.Giving 0) s" "rw_lock s \<noteq> Some i"
      using step lock_i by (cases a; auto simp: is_taking_def)+
    then show ?thesis
      using Writing by (simp add: goal is_taking_def pc_ok_def)
  next
    case (Giving k)
    then have none: "rw_lock s \<noteq> Some i" and k: "k \<le> M"
      using lock_i ok_i by (auto simp: is_taking_def pc_ok_def)
    from step Giving consider
      "k < M" "s' = set_pc i (rw_pc.Giving (Suc k)) (sem_release s)" | "k = M" "s' = set_pc i rw_pc.Idle s"
      using k by (cases a) (auto split: if_splits)
    then show ?thesis
      by cases (use none Giving in \<open>simp_all add: goal sem_release_def is_taking_def pc_ok_def\<close>)
  qed
qed

lemma rw_runs_inv: "rw_runs M n s \<Longrightarrow> rw_inv M n s"
proof (induction rule: rw_runs.induct)
  case rw_new
  have "sum_list (map (units M) (replicate n Idle)) = 0"
    by (induction n) auto
  then show ?case
    by (simp add: new_rw_def rw_inv_def is_taking_def pc_ok_def)
next
  case (rw_goes s i a s')
  then show ?case
    using rw_step_inv by blast
qed


lemma rw_demo: "rw_runs 1 2 \<lparr>m_sem = 0, rw_lock = None, rw_pcs = [Writing, Idle]\<rparr>"
proof -
  have "rw_runs 1 2 (new_rw 1 2)"
    by (rule rw_new)
  then have "rw_runs 1 2 \<lparr>m_sem = 1, rw_lock = Some 0, rw_pcs = [Taking 0, Idle]\<rparr>"
    by (rule rw_goes [of _ _ _ 0 Lock_write]) (simp_all add: new_rw_def set_pc_def numeral_2_eq_2)
  then have "rw_runs 1 2 \<lparr>m_sem = 0, rw_lock = Some 0, rw_pcs = [Taking 1, Idle]\<rparr>"
    by (rule rw_goes [of _ _ _ 0 Go_on]) (simp_all add: set_pc_def sem_acquire_def)
  then show ?thesis
    by (rule rw_goes [of _ _ _ 0 Go_on]) (simp_all add: set_pc_def)
qed


end
