(* ===== verification/NetAddr.thy ===== *)
theory NetAddr
  imports ErrInfo
begin

text \<open>
  Network addresses: \<open>CIpv4Addr\<close> of \<open>libcomm_net/src/network/sn_net_addr.cpp\<close> and the conversions of
  \<open>libcomm_utils/src/utils/utils.cpp\<close> below it. \<open>inet_pton\<close> and \<open>inet_ntop\<close> are arguments: the
  bytes a text stands for, and the text of some bytes, for an address family.
\<close>

definition AF_INET :: int where "AF_INET = 2"
definition AF_INET6 :: int where "AF_INET6 = 10"
definition INET_ADDRSTRLEN :: u32 where "INET_ADDRSTRLEN = 16"
definition INET6_ADDRSTRLEN :: u32 where "INET6_ADDRSTRLEN = 46"

definition ip_ston :: "(int \<Rightarrow> string \<Rightarrow> bytes option) \<Rightarrow> int \<Rightarrow> string \<Rightarrow> int \<times> bytes option" where
  "ip_ston inet_pton i32af pcszIp =
     (if AF_INET \<noteq> i32af \<and> AF_INET6 \<noteq> i32af then (CMNERR_COMMON_ERR, None)
      else case inet_pton i32af pcszIp of None \<Rightarrow> (CMNERR_COMMON_ERR, None) | Some b \<Rightarrow> (CMNERR_SUC, Some b))"

text \<open>The text is printed into an array of \<open>cslDstLen\<close> bytes.\<close>

definition ip_ntos :: "(int \<Rightarrow> bytes \<Rightarrow> u32 \<Rightarrow> string option) \<Rightarrow> int \<Rightarrow> bytes \<Rightarrow> u32 \<Rightarrow> int \<times> string option" where
  "ip_ntos inet_ntop i32af pSrcIp cslDstLen =
     (if AF_INET \<noteq> i32af \<and> AF_INET6 \<noteq> i32af then (CMNERR_COMMON_ERR, None)
      else if INET_ADDRSTRLEN > cslDstLen \<or> AF_INET6 = i32af \<and> INET6_ADDRSTRLEN > cslDstLen then (CMNERR_COMMON_ERR, None)
      else case inet_ntop i32af pSrcIp cslDstLen of None \<Rightarrow> (CMNERR_COMMON_ERR, None) | Some s \<Rightarrow> (CMNERR_SUC, Some s))"

text \<open>Port and address are in network byte order; the constructor leaves them as they lie in memory.\<close>

record CIpv4Addr =
  m_ui16port :: u16
  m_ip :: bytes

definition addr_set_ip :: "(int \<Rightarrow> string \<Rightarrow> bytes option) \<Rightarrow> string option \<Rightarrow> CIpv4Addr \<Rightarrow> int \<times> CIpv4Addr" where
  "addr_set_ip inet_pton pcszIp t =
     (case pcszIp of
        None \<Rightarrow> (CMNERR_COMMON_ERR, t)
      | Some s \<Rightarrow> (case ip_ston inet_pton AF_INET s of (code, b) \<Rightarrow> (code, case b of None \<Rightarrow> t | Some x \<Rightarrow> t\<lparr>m_ip := x\<rparr>)))"

definition addr_set_ip_nbo :: "bytes option \<Rightarrow> u32 \<Rightarrow> CIpv4Addr \<Rightarrow> (int \<times> CIpv4Addr) res" where
  "addr_set_ip_nbo pIp ui32Len t =
     (if pIp = None \<or> INET_ADDRSTRLEN \<noteq> ui32Len then Inr (CMNERR_COMMON_ERR, t)
      else bindr (read_at 0 (unat ui32Len) (the pIp)) (\<lambda>d.
           bindr (write_at 0 d (m_ip t)) (\<lambda>b. Inr (CMNERR_SUC, t\<lparr>m_ip := b\<rparr>))))"

definition addr_get_ip_str :: "(int \<Rightarrow> bytes \<Rightarrow> u32 \<Rightarrow> string option) \<Rightarrow> u32 \<Rightarrow> CIpv4Addr \<Rightarrow> string option" where
  "addr_get_ip_str inet_ntop ui32Len t =
     (case ip_ntos inet_ntop AF_INET (m_ip t) ui32Len of (code, s) \<Rightarrow> if code = CMNERR_SUC then s else None)"

definition addr_set_port_nbo :: "u16 \<Rightarrow> CIpv4Addr \<Rightarrow> int \<times> CIpv4Addr" where
  "addr_set_port_nbo ui16Port t = (if 0 = ui16Port then (CMNERR_COMMON_ERR, t) else (CMNERR_SUC, t\<lparr>m_ui16port := ui16Port\<rparr>))"

definition addr_set_port_hbo :: "u16 \<Rightarrow> CIpv4Addr \<Rightarrow> int \<times> CIpv4Addr" where
  "addr_set_port_hbo ui16Port t =
     (if 0 = ui16Port then (CMNERR_COMMON_ERR, t) else (CMNERR_SUC, t\<lparr>m_ui16port := htons ui16Port\<rparr>))"

definition addr_get_port_hbo :: "CIpv4Addr \<Rightarrow> u16" where
  "addr_get_port_hbo t = htons (m_ui16port t)"

definition addr_get_port_nbo :: "CIpv4Addr \<Rightarrow> u16" where
  "addr_get_port_nbo t = m_ui16port t"

definition addr_is_valid :: "CIpv4Addr \<Rightarrow> bool" where
  "addr_is_valid t \<longleftrightarrow> 0 < m_ui16port t"

section \<open>What is set is read back\<close>

text \<open>
  A port that was set in host order is read back, and makes the address valid; an address that
  was set from a text is printed as a text for the same bytes, when the array has room for any.
\<close>

theorem addr_roundtrip:
  assumes "p \<noteq> 0" and "inet_pton AF_INET s = Some b" and "16 \<le> len"
  shows "addr_get_port_hbo (snd (addr_set_port_hbo p t)) = p \<and> addr_is_valid (snd (addr_set_port_hbo p t)) \<and>
    addr_get_ip_str inet_ntop len (snd (addr_set_ip inet_pton (Some s) t)) = inet_ntop AF_INET b len"
proof -
  have "htons p \<noteq> 0"
  proof
    assume "htons p = 0"
    then have "htons (htons p) = htons 0"
      by simp
    moreover have "htons 0 = 0"
      by (simp add: htons_def numeral_2_eq_2)
    ultimately show False
      using assms(1) by simp
  qed
  moreover have "\<not> len < INET_ADDRSTRLEN"
    using assms(3) by (simp add: INET_ADDRSTRLEN_def not_less)
  ultimately show ?thesis
    using assms(1,2)
    by (auto simp: addr_get_port_hbo_def addr_set_port_hbo_def addr_is_valid_def addr_get_ip_str_def addr_set_ip_def
        ip_ston_def ip_ntos_def AF_INET_def AF_INET6_def word_neq_0_conv split: option.splits)
qed

text \<open>
  An address in binary is never stored: \<open>set_ip_nbo\<close> asks for the length of a printed address and
  copies that many bytes into the four of the address.
\<close>

theorem addr_set_ip_nbo_fails:
  assumes "length (m_ip t) = 4"
  shows "addr_set_ip_nbo pIp len t = Inr (CMNERR_COMMON_ERR, t) \<or> addr_set_ip_nbo pIp len t = Inl Out_of_bounds"
  using assms by (auto simp: addr_set_ip_nbo_def INET_ADDRSTRLEN_def read_at_def write_at_def)

end
