(* ===== verification/RupStream.thy ===== *)
theory RupStream
  imports RupEndpoint
begin

text \<open>
  A stream connection from end to end: the socket of one endpoint sends (\<open>RupSock\<close>), the network
  carries the bytes in order, and the endpoint at the other end reads them in pieces
  (\<open>RupEndpoint\<close>), hands its block to the application, which dispatches it to the handlers of the
  packages (\<open>Pkg\<close>). The application is the one of
  \<open>smart_net_test/src/busi/rup_endpoint_tester.cpp\<close>.
\<close>

section \<open>The application\<close>

text \<open>
  \<open>on_recved_data\<close> has a reference to the block of the socket, and leaves in it what the dispatcher
  leaves. \<open>None\<close> is a dispatch that does not end.
\<close>

definition on_recved_data ::
  "pkg_handlers \<Rightarrow> rup_obj \<Rightarrow> pkg_event list \<Rightarrow> (rup_obj \<times> pkg_event list) res option" where
  "on_recved_data hs o1 log =
     (case m_pSock (fst o1) of
        None \<Rightarrow> Some (Inl Null_deref)
      | Some k \<Rightarrow>
          (case m_pRecvedData k of
             None \<Rightarrow> Some (Inl Null_deref)
           | Some pData \<Rightarrow>
               map_option (\<lambda>r. bindr r (\<lambda>(code, pData, log).
                 Inr (((fst o1)\<lparr>m_pSock := Some (k\<lparr>m_pRecvedData := Some pData\<rparr>)\<rparr>, snd o1), log)))
                 (dispatch hs PKG_VER pData log)))"

text \<open>An input event with the call of the application it makes, for the piece \<open>c\<close> that \<open>recv\<close> delivers.\<close>

definition tester_input ::
  "pkg_handlers \<Rightarrow> bytes \<Rightarrow> int \<Rightarrow> bytes \<Rightarrow> rup_obj \<times> pkg_event list \<Rightarrow> (rup_obj \<times> pkg_event list) res option" where
  "tester_input hs raw r c w =
     (case handle_input_evt raw (Os_ok c) r (fst w) of
        Inl h \<Rightarrow> Some (Inl h)
      | Inr o2 \<Rightarrow>
          (case drop (length (ep_calls (fst (fst w)))) (ep_calls (fst o2)) of
             [On_recved_data d] \<Rightarrow> on_recved_data hs o2 (snd w)
           | _ \<Rightarrow> Some (Inr (o2, snd w))))"

fun tester_inputs ::
  "pkg_handlers \<Rightarrow> bytes \<Rightarrow> int \<Rightarrow> bytes list \<Rightarrow> rup_obj \<times> pkg_event list \<Rightarrow> (rup_obj \<times> pkg_event list) res option" where
  "tester_inputs hs raw r [] w = Some (Inr w)"
| "tester_inputs hs raw r (c # cs) w =
     (case tester_input hs raw r c w of
        Some (Inr w) \<Rightarrow> tester_inputs hs raw r cs w
      | stop \<Rightarrow> stop)"

text \<open>What \<open>recv\<close> may deliver: at least a byte, and no more than the room it is offered.\<close>

definition offered :: "bytes \<Rightarrow> rup_obj \<Rightarrow> nat" where
  "offered raw o1 = (case m_pSock (fst o1) of None \<Rightarrow> 0 | Some k \<Rightarrow> recv_room raw k)"

fun recv_answers :: "pkg_handlers \<Rightarrow> bytes \<Rightarrow> int \<Rightarrow> bytes list \<Rightarrow> rup_obj \<times> pkg_event list \<Rightarrow> bool" where
  "recv_answers hs raw r [] w \<longleftrightarrow> True"
| "recv_answers hs raw r (c # cs) w \<longleftrightarrow> c \<noteq> [] \<and> length c \<le> offered raw (fst w) \<and>
     (case tester_input hs raw r c w of Some (Inr w) \<Rightarrow> recv_answers hs raw r cs w | _ \<Rightarrow> True)"

section \<open>One piece\<close>

text \<open>An open endpoint with \<open>rest\<close> in its block, which is as large as a fresh one.\<close>

definition reading :: "bytes \<Rightarrow> bytes \<Rightarrow> rup_obj \<Rightarrow> bool" where
  "reading raw rest o1 \<longleftrightarrow> rup_cur o1 = ES_OPENED \<and> length raw < 4294967296 \<and>
     (\<exists>k. m_pSock (fst o1) = Some k \<and> recv_wf k \<and> recv_data k = rest \<and>
        recv_room raw k + length rest = length raw)"

lemma recv_block:
  assumes wf: "recv_wf k" and raw: "length raw < 4294967296" and c: "c \<noteq> []" "length c \<le> recv_room raw k"
  obtains b where "rup_handle_can_recv raw (Os_ok c) k = Inr (CMNERR_SUC, k\<lparr>m_pRecvedData := Some b\<rparr>)"
    and "mem_wf b" and "mem_data b = recv_data k @ c" and "unat (m_ui32Sz b) = recv_room raw k + length (recv_data k)"
proof -
  obtain b where b: "(case m_pRecvedData k of Some b \<Rightarrow> move_data_ahead b | None \<Rightarrow> Inr (new_mem raw 0)) = Inr b"
    "mem_wf b" "mem_data b = recv_data k" "unat (get_tail_free_size b) = recv_room raw k"
    using recv_block_ready [OF wf raw] by blast
  have sz: "unat (m_ui32Sz b) = recv_room raw k + length (recv_data k)"
  proof (cases "m_pRecvedData k")
    case None
    then show ?thesis
      using b(1) raw by (auto simp: new_mem_def recv_room_def recv_data_def unat_word_of_nat_u32)
  next
    case (Some b0)
    then have wf0: "mem_wf b0"
      using wf by (simp add: recv_wf_def)
    then have "m_ui32Sz b = m_ui32Sz b0" "length (mem_data b0) = unat (m_ui32Len b0)"
      using b(1) Some move_data_ahead_wf [OF wf0] length_mem_data [OF wf0] by auto
    then show ?thesis
      using Some wf0 by (auto simp: recv_room_def recv_data_def mem_wf_def)
  qed
  obtain bs where bs: "write_at (get_tail_free_buf b) c (m_bytes b) = Inr bs"
    "mem_wf (inc_len (word_of_nat (length c)) (b\<lparr>m_bytes := bs\<rparr>))"
    "mem_data (inc_len (word_of_nat (length c)) (b\<lparr>m_bytes := bs\<rparr>)) = mem_data b @ c"
    using recv_into_block [OF b(2), of c] b(4) c(2) by auto
  show ?thesis
  proof (rule that [of "inc_len (word_of_nat (length c)) (b\<lparr>m_bytes := bs\<rparr>)"])
    show "rup_handle_can_recv raw (Os_ok c) k =
        Inr (CMNERR_SUC, k\<lparr>m_pRecvedData := Some (inc_len (word_of_nat (length c)) (b\<lparr>m_bytes := bs\<rparr>))\<rparr>)"
      using b(1) bs(1) c(1) by (simp add: rup_handle_can_recv_def)
    show "unat (m_ui32Sz (inc_len (word_of_nat (length c)) (b\<lparr>m_bytes := bs\<rparr>))) = recv_room raw k + length (recv_data k)"
      using sz by (simp add: inc_len_def)
  qed (use bs b(3) in simp_all)
qed

lemma tester_step:
  assumes rd: "reading raw rest o1" and c: "c \<noteq> []" "length c \<le> offered raw o1"
    and ps: "packages hs evss ps" "rest @ c = concat ps @ rest'" "beginning hs rest'"
  obtains o2 where "tester_input hs raw r c (o1, log) = Some (Inr (o2, log @ concat evss))" and "reading raw rest' o2"
proof -
  obtain k where k: "rup_cur o1 = ES_OPENED" "length raw < 4294967296" "m_pSock (fst o1) = Some k" "recv_wf k"
    "recv_data k = rest" "recv_room raw k + length rest = length raw"
    using rd by (auto simp: reading_def)
  have "length c \<le> recv_room raw k"
    using c(2) k(3) by (simp add: offered_def)
  then obtain b where b: "rup_handle_can_recv raw (Os_ok c) k = Inr (CMNERR_SUC, k\<lparr>m_pRecvedData := Some b\<rparr>)"
    "mem_wf b" "mem_data b = rest @ c" "unat (m_ui32Sz b) = length raw"
    using recv_block [OF k(4,2) c(1)] k(5,6) by metis
  obtain code b' where b': "dispatch hs PKG_VER b log = Some (Inr (code, b', log @ concat evss))"
    "mem_wf b'" "mem_data b' = rest'" "m_ui32Sz b' = m_ui32Sz b"
    using dispatch_packages [OF ps(1) b(2) _ ps(3), of log] b(3) ps(2) by auto
  define t where "t = rup_call (On_recved_data (mem_data b))
    ((fst o1)\<lparr>m_ui64RecvCnt := m_ui64RecvCnt (fst o1) + 1, m_pSock := Some (k\<lparr>m_pRecvedData := Some b\<rparr>)\<rparr>)"
  have evt: "handle_input_evt raw (Os_ok c) r o1 = Inr (t, snd o1)"
    using k b(1) by (simp add: handle_input_evt_def Let_def t_def)
  have call: "drop (length (ep_calls (fst o1))) (ep_calls t) = [On_recved_data (mem_data b)]"
    by (simp add: t_def rup_call_def)
  let ?o2 = "(t\<lparr>m_pSock := Some (k\<lparr>m_pRecvedData := Some b'\<rparr>)\<rparr>, snd o1)"
  have "tester_input hs raw r c (o1, log) = Some (Inr (?o2, log @ concat evss))"
    using evt call b'(1) by (simp add: tester_input_def on_recved_data_def t_def rup_call_def)
  moreover have "length (mem_data b') = unat (m_ui32Len b')"
    using length_mem_data [OF b'(2)] .
  then have "reading raw rest' ?o2"
    using k b(4) b' by (auto simp: reading_def rup_cur_def t_def rup_call_def recv_wf_def recv_data_def recv_room_def mem_wf_def)
  ultimately show ?thesis
    using that by blast
qed

section \<open>A stream in pieces\<close>

text \<open>
  What is left in the block is the beginning of the next package; \<open>y\<close> are the bytes that have not
  been delivered.
\<close>

lemma tester_stream:
  assumes "reading raw rest o1" and "packages hs evss ps" and "rest @ concat cs @ y = concat ps"
    and "rest = [] \<or> (\<exists>p \<in> set ps. length rest < length p)" and "recv_answers hs raw r cs (o1, log)"
  shows "\<exists>o2 rest' evss1 evss2 ps2. tester_inputs hs raw r cs (o1, log) = Some (Inr (o2, log @ concat evss1)) \<and>
    reading raw rest' o2 \<and> evss = evss1 @ evss2 \<and> packages hs evss2 ps2 \<and> set ps2 \<subseteq> set ps \<and>
    rest' @ y = concat ps2 \<and> (rest' = [] \<or> (\<exists>p \<in> set ps2. length rest' < length p))"
  using assms
proof (induction cs arbitrary: rest o1 evss ps log)
  case Nil
  then show ?case
    by (intro exI [of _ o1] exI [of _ rest] exI [of _ "[]"] exI [of _ evss] exI [of _ ps]) simp
next
  case (Cons c cs)
  have "(rest @ c) @ concat cs @ y = concat ps"
    using Cons.prems(3) by simp
  from split_packages [OF Cons.prems(2) this] obtain evss1 evss2 ps1 ps2 rest' where sp: "evss = evss1 @ evss2" "ps = ps1 @ ps2"
      "packages hs evss1 ps1" "packages hs evss2 ps2" "rest @ c = concat ps1 @ rest'" "beginning hs rest'"
      "rest' @ concat cs @ y = concat ps2" "rest' = [] \<or> (\<exists>p \<in> set ps2. length rest' < length p)"
    by (elim exE conjE) (rule that; assumption)
  have c: "c \<noteq> []" "length c \<le> offered raw o1"
    using Cons.prems(5) by simp_all
  obtain o2 where o2: "tester_input hs raw r c (o1, log) = Some (Inr (o2, log @ concat evss1))" "reading raw rest' o2"
    by (rule tester_step [OF Cons.prems(1) c sp(3,5,6)])
  have "recv_answers hs raw r cs (o2, log @ concat evss1)"
    using Cons.prems(5) o2(1) by simp
  from Cons.IH [OF o2(2) sp(4,7,8) this] obtain o3 rest'' evss3 evss4 ps4 where
    step: "tester_inputs hs raw r cs (o2, log @ concat evss1) = Some (Inr (o3, (log @ concat evss1) @ concat evss3))"
      "reading raw rest'' o3" "evss2 = evss3 @ evss4" "packages hs evss4 ps4" "set ps4 \<subseteq> set ps2"
      "rest'' @ y = concat ps4" "rest'' = [] \<or> (\<exists>p \<in> set ps4. length rest'' < length p)"
    by (elim exE conjE) (rule that; assumption)
  show ?case
    using step o2(1) sp(1,2)
    by (intro exI [of _ o3] exI [of _ rest''] exI [of _ "evss1 @ evss3"] exI [of _ evss4] exI [of _ ps4]) auto
qed

lemma reading_offered:
  assumes "reading raw rest o1"
  shows "offered raw o1 + length rest = length raw" and "rup_cur o1 = ES_OPENED"
  using assms by (auto simp: reading_def offered_def)

section \<open>From end to end\<close>

text \<open>C2: Packages go through a connection once and in order. Let the callers of \<open>send\<close> at one end
  submit well-formed packages of registered classes, with partial sends and flushes in any
  interleaving that keeps the socket's stream contract, and let the other end read what is on the
  wire in pieces of any size the kernel may choose. Then every input event returns, the endpoint
  stays open, its block always has room for the next piece, and the handlers have been called for
  the bodies of the first packages that were sent, each once and in order. When all bytes have been
  sent and read, these are all packages.
\<close>

theorem rup_end_to_end:
  assumes "clean_run es (Free, new_rup_sock) (h, s)"
    and "packages hs evss ps" and "submitted es = concat ps" and "\<forall>p \<in> set ps. length p \<le> length raw"
    and "wire s = concat cs @ y"
    and "rup_cur o1 = ES_OPENED" and "m_pSock (fst o1) = Some k" and "m_pRecvedData k = None"
    and "0 < length raw" and "length raw < 4294967296" and "recv_answers hs raw r cs (o1, [])"
  shows "\<exists>o2 n. tester_inputs hs raw r cs (o1, []) = Some (Inr (o2, concat (take n evss))) \<and>
    rup_cur o2 = ES_OPENED \<and> 0 < offered raw o2 \<and> (held (h, s) = [] \<and> y = [] \<longrightarrow> n = length evss)"
proof -
  have "sys_wf (Free, new_rup_sock)" and "held (Free, new_rup_sock) = []"
    by (simp_all add: rup_wf_def new_rup_sock_def queued_def)
  then have "wire s @ held (h, s) = submitted es"
    using clean_run_conserves [OF assms(1)] by (simp add: new_rup_sock_def)
  then have sent: "[] @ concat cs @ (y @ held (h, s)) = concat ps"
    using assms(3,5) by simp
  have rd: "reading raw [] o1"
    using assms(6-10) by (simp add: reading_def recv_wf_def recv_data_def recv_room_def)
  have start: "[] = ([] :: bytes) \<or> (\<exists>p \<in> set ps. length ([] :: bytes) < length p)"
    by simp
  from tester_stream [OF rd assms(2) sent start assms(11)] obtain o2 rest evss1 evss2 ps2 where
    o2: "tester_inputs hs raw r cs (o1, []) = Some (Inr (o2, [] @ concat evss1))" "reading raw rest o2"
      "evss = evss1 @ evss2" "packages hs evss2 ps2" "set ps2 \<subseteq> set ps"
      "rest @ y @ held (h, s) = concat ps2" "rest = [] \<or> (\<exists>p \<in> set ps2. length rest < length p)"
    by (elim exE conjE) (rule that; assumption)
  have "length rest < length raw"
    using o2(5,7) assms(4,9) by fastforce
  then have room: "0 < offered raw o2"
    using reading_offered(1) [OF o2(2)] by simp
  have all: "evss2 = []" if "held (h, s) = []" "y = []"
    using stream_done [OF o2(4) _ o2(7)] o2(4,6) that by (simp add: packages_def)
  show ?thesis
    using o2(1,3) room reading_offered(2) [OF o2(2)] all
    by (intro exI [of _ o2] exI [of _ "length evss1"]) auto
qed

definition open_endpoint :: rup_obj where
  "open_endpoint = ((new_rup_endpoint 0 True)\<lparr>ep_state := ES_OPENED, m_pSock := Some new_rup_sock\<rparr>, [])"

lemma block_of_simps:
  assumes "length d = 20"
  shows "mem_wf (block_of d)" and "mem_data (block_of d) = d" and "0 < get_len (block_of d)"
  using assms by (simp_all add: block_of_def mem_wf_def mem_data_def get_len_def)

theorem rup_end_to_end_witness:
  "\<exists>d o2 n. 20 = length d \<and>
     tester_inputs test_handlers (replicate 64 0) 0 [d] (open_endpoint, []) = Some (Inr (o2, concat (take n [[(1, 0, [1, 2, 3, 4])]]))) \<and>
     n = 1"
proof -
  obtain d where pkg: "packages test_handlers [[(1, 0, [1, 2, 3, 4])]] [d]" and len: "length d = 20"
    by (rule test_package)
  note b = block_of_simps [OF len]
  have len20: "unat (get_len (block_of d)) = 20"
    using len by (simp add: block_of_def get_len_def)
  obtain s where run: "clean_run [Send (block_of d), Send_answer (Os_ok 20)] (Free, new_rup_sock) (Free, s)"
    and s: "wire s = d" "held (Free, s) = []"
  proof -
    have "\<exists>s. clean_run [Send (block_of d), Send_answer (Os_ok 20)] (Free, new_rup_sock) (Free, s) \<and> wire s = d \<and> held (Free, s) = []"
      apply (rule exI, rule conjI)
       apply (rule clean_cons [OF send_direct]; (use b len in \<open>simp add: rup_eval\<close>)?)
       apply (rule clean_cons [OF send_answer]; (use b len in \<open>simp add: rup_eval\<close>)?)
       apply (rule clean_nil)
      apply (use len in \<open>simp add: rup_eval queued_def\<close>)
      done
    then show thesis
      using that by blast
  qed
  have kernel: "recv_answers test_handlers (replicate 64 0) 0 [d] (open_endpoint, [])"
    using len by (auto simp: open_endpoint_def offered_def recv_room_def new_rup_sock_def split: option.splits sum.splits)
  have "submitted [Send (block_of d), Send_answer (Os_ok 20)] = concat [d]" "wire s = concat [d] @ []"
    using b(2) s(1) by simp_all
  from rup_end_to_end [OF run pkg this(1) _ this(2) _ _ _ _ _ kernel, of new_rup_sock] show ?thesis
    using s(2) len by (auto simp: open_endpoint_def rup_cur_def new_rup_sock_def)
qed

end
