(* ===== verification/Delegate.thy ===== *)
theory Delegate
  imports Prelude
begin

text \<open>
  The delegates of \<open>libcomm_utils/src/delegate/\<close>: \<open>delegate_root.h\<close> has the three ways a delegate
  can own the object its method is called on and the place where the bound function is kept,
  \<open>delegate_template.h\<close> the class itself, which the preprocessor expands for each number of
  parameters. A delegate copies its object with it, by the allocator it was bound with. The
  functions and methods that are bound, the copy constructor of the object's class and its
  \<open>AddRef\<close> and \<open>Release\<close> are the client's code, and are arguments of the model.
\<close>

section \<open>Objects and strategies\<close>

record ('o, 'x, 'r) client_code =
  uc_copy :: "'o \<Rightarrow> 'o"
  uc_AddRef :: "'o \<Rightarrow> 'o"
  uc_Release :: "'o \<Rightarrow> 'o option"
  uc_fn :: "u64 \<Rightarrow> 'x \<Rightarrow> 'r"
  uc_method :: "u64 \<times> u64 \<Rightarrow> 'o \<Rightarrow> 'x \<Rightarrow> 'o \<times> 'r"

text \<open>
  The living objects by their addresses; an object is known by the address of the part that has
  the bound method. \<open>Release\<close> answers \<open>None\<close> when the object has deleted itself.
\<close>

type_synonym 'o store = "u64 \<Rightarrow> 'o option"

datatype clone_allocator = View_clone | Heap_clone | Com_autoref_clone

datatype strategy = Null_strategy | Function_strategy | Method_strategy clone_allocator

text \<open>A pointer to a method is two words long; a pointer to a function fills the first.\<close>

record strategy_root =
  s_class :: strategy
  m_object_ptr :: u64
  m_fn :: "u64 \<times> u64"

definition init_null :: strategy_root where
  "init_null = \<lparr>s_class = Null_strategy, m_object_ptr = 0, m_fn = (0, 0)\<rparr>"

definition init_function :: "u64 \<Rightarrow> strategy_root" where
  "init_function fn = \<lparr>s_class = Function_strategy, m_object_ptr = 0, m_fn = (fn, 0)\<rparr>"

definition method_strategy :: "clone_allocator \<Rightarrow> u64 \<times> u64 \<Rightarrow> u64 \<Rightarrow> strategy_root" where
  "method_strategy al fn r = \<lparr>s_class = Method_strategy al, m_object_ptr = r, m_fn = fn\<rparr>"

text \<open>An object that is not alive must not be used.\<close>

definition read_obj :: "u64 \<Rightarrow> 'o store \<Rightarrow> 'o res" where
  "read_obj p st = (case st p of None \<Rightarrow> Inl Out_of_bounds | Some v \<Rightarrow> Inr v)"

text \<open>\<open>a\<close> is the address that \<open>new\<close> gives when it is asked.\<close>

definition allocate_clone ::
  "('o, 'x, 'r) client_code \<Rightarrow> clone_allocator \<Rightarrow> u64 \<Rightarrow> u64 \<Rightarrow> 'o store \<Rightarrow> (u64 \<times> 'o store) res" where
  "allocate_clone C al a r st =
     (case al of
        View_clone \<Rightarrow> Inr (r, st)
      | Heap_clone \<Rightarrow> bindr (read_obj r st) (\<lambda>v. Inr (a, st(a \<mapsto> uc_copy C v)))
      | Com_autoref_clone \<Rightarrow> bindr (read_obj r st) (\<lambda>v. Inr (r, st(r \<mapsto> uc_AddRef C v))))"

definition deallocate_clone ::
  "('o, 'x, 'r) client_code \<Rightarrow> clone_allocator \<Rightarrow> u64 \<Rightarrow> 'o store \<Rightarrow> 'o store res" where
  "deallocate_clone C al p st =
     (case al of
        View_clone \<Rightarrow> Inr st
      | Heap_clone \<Rightarrow> bindr (read_obj p st) (\<lambda>v. Inr (st(p := None)))
      | Com_autoref_clone \<Rightarrow> bindr (read_obj p st) (\<lambda>v. Inr (st(p := uc_Release C v))))"

definition on_clone_object ::
  "('o, 'x, 'r) client_code \<Rightarrow> u64 \<Rightarrow> strategy \<Rightarrow> u64 \<Rightarrow> 'o store \<Rightarrow> (u64 \<times> 'o store) res" where
  "on_clone_object C a x p st =
     (case x of Method_strategy al \<Rightarrow> allocate_clone C al a p st | _ \<Rightarrow> Inr (p, st))"

definition on_free_object :: "('o, 'x, 'r) client_code \<Rightarrow> strategy \<Rightarrow> u64 \<Rightarrow> 'o store \<Rightarrow> 'o store res" where
  "on_free_object C x p st = (case x of Method_strategy al \<Rightarrow> deallocate_clone C al p st | _ \<Rightarrow> Inr st)"

definition object_clone ::
  "('o, 'x, 'r) client_code \<Rightarrow> u64 \<Rightarrow> strategy_root \<Rightarrow> 'o store \<Rightarrow> (strategy_root \<times> 'o store) res" where
  "object_clone C a x st =
     (if m_object_ptr x \<noteq> 0
      then bindr (on_clone_object C a (s_class x) (m_object_ptr x) st) (\<lambda>(p, st). Inr (x\<lparr>m_object_ptr := p\<rparr>, st))
      else Inr (x, st))"

definition object_free :: "('o, 'x, 'r) client_code \<Rightarrow> strategy_root \<Rightarrow> 'o store \<Rightarrow> 'o store res" where
  "object_free C x st =
     (if m_object_ptr x \<noteq> 0 then on_free_object C (s_class x) (m_object_ptr x) st else Inr st)"

text \<open>Whether \<open>clone_option\<close> asks for a clone when a method is bound: a view never does.\<close>

definition clone_info :: "clone_allocator \<Rightarrow> bool \<Rightarrow> bool" where
  "clone_info al clone_for_first_time = (if al = View_clone then False else clone_for_first_time)"

definition construct_method ::
  "('o, 'x, 'r) client_code \<Rightarrow> u64 \<Rightarrow> u64 \<times> u64 \<Rightarrow> u64 \<Rightarrow> clone_allocator \<Rightarrow> bool \<Rightarrow> 'o store \<Rightarrow>
     (strategy_root \<times> 'o store) res" where
  "construct_method C a fn r al info st =
     (let x = method_strategy al fn r in
      if clone_info al info then object_clone C a x st else Inr (x, st))"

section \<open>The class\<close>

text \<open>The delegates a program has, by number; \<open>None\<close> is one whose life is over.\<close>

record 'o delegates =
  d_store :: "'o store"
  d_vars :: "strategy_root option list"

definition get_dele :: "nat \<Rightarrow> 'o delegates \<Rightarrow> strategy_root res" where
  "get_dele i s = bindr (vec_get (d_vars s) i) (case_option (Inl Out_of_bounds) Inr)"

definition put_dele :: "nat \<Rightarrow> strategy_root option \<Rightarrow> 'o store \<Rightarrow> 'o delegates \<Rightarrow> 'o delegates" where
  "put_dele i x st s = s\<lparr>d_store := st, d_vars := (d_vars s)[i := x]\<rparr>"

definition add_dele :: "strategy_root \<Rightarrow> 'o store \<Rightarrow> 'o delegates \<Rightarrow> 'o delegates" where
  "add_dele x st s = s\<lparr>d_store := st, d_vars := d_vars s @ [Some x]\<rparr>"

definition dele_null :: "'o delegates \<Rightarrow> 'o delegates res" where
  "dele_null s = Inr (add_dele init_null (d_store s) s)"

definition dele_copy :: "('o, 'x, 'r) client_code \<Rightarrow> u64 \<Rightarrow> nat \<Rightarrow> 'o delegates \<Rightarrow> 'o delegates res" where
  "dele_copy C a j s =
     bindr (get_dele j s) (\<lambda>y. bindr (object_clone C a y (d_store s)) (\<lambda>(x, st). Inr (add_dele x st s)))"

text \<open>
  The assignment keeps the bytes of the old strategy in a \<open>delegate_root\<close>, whose destructor frees
  the old object when the new one is there.
\<close>

definition dele_assign :: "('o, 'x, 'r) client_code \<Rightarrow> u64 \<Rightarrow> nat \<Rightarrow> nat \<Rightarrow> 'o delegates \<Rightarrow> 'o delegates res" where
  "dele_assign C a i j s =
     bindr (get_dele i s) (\<lambda>old.
     bindr (get_dele j s) (\<lambda>y.
     bindr (object_clone C a y (d_store s)) (\<lambda>(x, st).
     bindr (object_free C old st) (\<lambda>st.
     Inr (put_dele i (Some x) st s)))))"

definition dele_swap :: "nat \<Rightarrow> nat \<Rightarrow> 'o delegates \<Rightarrow> 'o delegates res" where
  "dele_swap i j s =
     bindr (get_dele i s) (\<lambda>x.
     bindr (get_dele j s) (\<lambda>y.
     Inr (put_dele j (Some x) (d_store s) (put_dele i (Some y) (d_store s) s))))"

definition dele_clear :: "('o, 'x, 'r) client_code \<Rightarrow> nat \<Rightarrow> 'o delegates \<Rightarrow> 'o delegates res" where
  "dele_clear C i s =
     bindr (get_dele i s) (\<lambda>x. bindr (object_free C x (d_store s)) (\<lambda>st. Inr (put_dele i (Some init_null) st s)))"

definition dele_fun :: "u64 \<Rightarrow> 'o delegates \<Rightarrow> 'o delegates res" where
  "dele_fun fn s = Inr (add_dele (init_function fn) (d_store s) s)"

definition dele_bind_fun :: "('o, 'x, 'r) client_code \<Rightarrow> nat \<Rightarrow> u64 \<Rightarrow> 'o delegates \<Rightarrow> 'o delegates res" where
  "dele_bind_fun C i fn s =
     bindr (get_dele i s) (\<lambda>x.
     bindr (object_free C x (d_store s)) (\<lambda>st. Inr (put_dele i (Some (init_function fn)) st s)))"

definition dele_method ::
  "('o, 'x, 'r) client_code \<Rightarrow> u64 \<Rightarrow> u64 \<Rightarrow> u64 \<times> u64 \<Rightarrow> clone_allocator \<Rightarrow> bool \<Rightarrow> 'o delegates \<Rightarrow> 'o delegates res" where
  "dele_method C a p fn al info s =
     bindr (construct_method C a fn p al info (d_store s)) (\<lambda>(x, st). Inr (add_dele x st s))"

definition dele_bind_method ::
  "('o, 'x, 'r) client_code \<Rightarrow> u64 \<Rightarrow> nat \<Rightarrow> u64 \<Rightarrow> u64 \<times> u64 \<Rightarrow> clone_allocator \<Rightarrow> bool \<Rightarrow> 'o delegates \<Rightarrow> 'o delegates res" where
  "dele_bind_method C a i p fn al info s =
     bindr (get_dele i s) (\<lambda>x.
     bindr (object_free C x (d_store s)) (\<lambda>st.
     bindr (construct_method C a fn p al info st) (\<lambda>(x, st). Inr (put_dele i (Some x) st s))))"

definition dele_destroy :: "('o, 'x, 'r) client_code \<Rightarrow> nat \<Rightarrow> 'o delegates \<Rightarrow> 'o delegates res" where
  "dele_destroy C i s =
     bindr (get_dele i s) (\<lambda>x. bindr (object_free C x (d_store s)) (\<lambda>st. Inr (put_dele i None st s)))"

text \<open>A call; \<open>None\<close> is the exception \<open>bad_function_call\<close>.\<close>

definition invoke ::
  "('o, 'x, 'r) client_code \<Rightarrow> strategy_root \<Rightarrow> 'x \<Rightarrow> 'o store \<Rightarrow> ('r option \<times> 'o store) res" where
  "invoke C x v st =
     (case s_class x of
        Null_strategy \<Rightarrow> Inr (None, st)
      | Function_strategy \<Rightarrow> Inr (Some (uc_fn C (fst (m_fn x)) v), st)
      | Method_strategy al \<Rightarrow>
          bindr (read_obj (m_object_ptr x) st) (\<lambda>ob.
          let (ob, r) = uc_method C (m_fn x) ob v in Inr (Some r, st(m_object_ptr x \<mapsto> ob))))"

definition dele_call ::
  "('o, 'x, 'r) client_code \<Rightarrow> nat \<Rightarrow> 'x \<Rightarrow> 'o delegates \<Rightarrow> ('r option \<times> 'o delegates) res" where
  "dele_call C i v s =
     bindr (get_dele i s) (\<lambda>x. bindr (invoke C x v (d_store s)) (\<lambda>(r, st). Inr (r, s\<lparr>d_store := st\<rparr>)))"

definition dele_empty :: "nat \<Rightarrow> 'o delegates \<Rightarrow> bool res" where
  "dele_empty i s = bindr (get_dele i s) (\<lambda>x. Inr (s_class x = Null_strategy))"

text \<open>The comparison is one of bytes: of the object's address and of the function, in that order.\<close>

fun memcmp :: "bytes \<Rightarrow> bytes \<Rightarrow> int" where
  "memcmp (x # xs) (y # ys) = (if x = y then memcmp xs ys else uint x - uint y)"
| "memcmp _ _ = 0"

definition strategy_bytes :: "strategy_root \<Rightarrow> bytes" where
  "strategy_bytes x =
     le_bytes 8 (unat (m_object_ptr x)) @ le_bytes 8 (unat (fst (m_fn x))) @ le_bytes 8 (unat (snd (m_fn x)))"

definition strategy_compare :: "strategy_root \<Rightarrow> strategy_root \<Rightarrow> int" where
  "strategy_compare left right = memcmp (strategy_bytes left) (strategy_bytes right)"

definition dele_compare :: "nat \<Rightarrow> nat \<Rightarrow> 'o delegates \<Rightarrow> int res" where
  "dele_compare i j s = bindr (get_dele i s) (\<lambda>x. bindr (get_dele j s) (\<lambda>y. Inr (strategy_compare x y)))"

section \<open>Programs with delegates\<close>

text \<open>
  What a program does with delegates and with its own objects: \<open>Make\<close> creates an object, which
  counts references when it is a COM object, and \<open>Drop\<close> gives up a reference of the program's own:
  it deletes an ordinary object and calls \<open>Release\<close> on a COM object.
\<close>

datatype ('o, 'x) dele_op =
    D_null | D_copy nat | D_assign nat nat | D_swap nat nat | D_clear nat
  | D_fun u64 | D_bind_fun nat u64
  | D_method u64 "u64 \<times> u64" clone_allocator bool | D_bind_method nat u64 "u64 \<times> u64" clone_allocator bool
  | D_destroy nat | D_call nat 'x | D_make 'o bool | D_drop u64

text \<open>The references the program has itself, and the COM objects.\<close>

record client =
  held :: "u64 \<Rightarrow> nat"
  is_com :: "u64 \<Rightarrow> bool"

definition new_client :: client where
  "new_client = \<lparr>held = \<lambda>_. 0, is_com = \<lambda>_. False\<rparr>"

definition new_deles :: "'o delegates" where
  "new_deles = \<lparr>d_store = \<lambda>_. None, d_vars = []\<rparr>"

definition client_drop :: "('o, 'x, 'r) client_code \<Rightarrow> client \<Rightarrow> u64 \<Rightarrow> 'o delegates \<Rightarrow> 'o delegates res" where
  "client_drop C c p s =
     bindr (read_obj p (d_store s)) (\<lambda>v.
     Inr (s\<lparr>d_store := (d_store s)(p := if is_com c p then uc_Release C v else None)\<rparr>))"

fun dele_step ::
  "('o, 'x, 'r) client_code \<Rightarrow> client \<Rightarrow> u64 \<Rightarrow> ('o, 'x) dele_op \<Rightarrow> 'o delegates \<Rightarrow> 'o delegates res" where
  "dele_step C c a D_null s = dele_null s"
| "dele_step C c a (D_copy j) s = dele_copy C a j s"
| "dele_step C c a (D_assign i j) s = dele_assign C a i j s"
| "dele_step C c a (D_swap i j) s = dele_swap i j s"
| "dele_step C c a (D_clear i) s = dele_clear C i s"
| "dele_step C c a (D_fun fn) s = dele_fun fn s"
| "dele_step C c a (D_bind_fun i fn) s = dele_bind_fun C i fn s"
| "dele_step C c a (D_method p fn al info) s = dele_method C a p fn al info s"
| "dele_step C c a (D_bind_method i p fn al info) s = dele_bind_method C a i p fn al info s"
| "dele_step C c a (D_destroy i) s = dele_destroy C i s"
| "dele_step C c a (D_call i x) s = bindr (dele_call C i x s) (\<lambda>(r, s). Inr s)"
| "dele_step C c a (D_make v com) s = Inr (s\<lparr>d_store := (d_store s)(a \<mapsto> v)\<rparr>)"
| "dele_step C c a (D_drop p) s = client_drop C c p s"

definition is_ref :: "clone_allocator \<Rightarrow> u64 \<Rightarrow> strategy_root option \<Rightarrow> nat" where
  "is_ref al p d =
     (case d of None \<Rightarrow> 0 | Some x \<Rightarrow> if s_class x = Method_strategy al \<and> m_object_ptr x = p then 1 else 0)"

definition refs :: "clone_allocator \<Rightarrow> u64 \<Rightarrow> strategy_root option list \<Rightarrow> nat" where
  "refs al p ds = sum_list (map (is_ref al p) ds)"

text \<open>
  The rules of use. A method is bound to a living object of the program's own. A view needs the
  object for as long as the view lasts. A delegate bound without the first clone takes over the
  reference it is given.
\<close>

definition may_bind :: "u64 \<Rightarrow> clone_allocator \<Rightarrow> bool \<Rightarrow> 'o delegates \<Rightarrow> client \<Rightarrow> bool" where
  "may_bind p al info s c \<longleftrightarrow> 0 < held c p \<and>
     (case al of
        View_clone \<Rightarrow> True
      | Heap_clone \<Rightarrow> \<not> is_com c p \<and> (info \<or> refs View_clone p (d_vars s) = 0)
      | Com_autoref_clone \<Rightarrow> is_com c p \<and> (info \<or> 1 < held c p \<or> refs View_clone p (d_vars s) = 0))"

definition lives :: "nat \<Rightarrow> 'o delegates \<Rightarrow> bool" where
  "lives i s \<longleftrightarrow> i < length (d_vars s) \<and> d_vars s ! i \<noteq> None"

fun allowed :: "('o \<Rightarrow> nat) \<Rightarrow> ('o, 'x) dele_op \<Rightarrow> 'o delegates \<Rightarrow> client \<Rightarrow> bool" where
  "allowed cnt D_null s c \<longleftrightarrow> True"
| "allowed cnt (D_copy j) s c \<longleftrightarrow> lives j s"
| "allowed cnt (D_assign i j) s c \<longleftrightarrow> lives i s \<and> lives j s"
| "allowed cnt (D_swap i j) s c \<longleftrightarrow> lives i s \<and> lives j s"
| "allowed cnt (D_clear i) s c \<longleftrightarrow> lives i s"
| "allowed cnt (D_fun fn) s c \<longleftrightarrow> True"
| "allowed cnt (D_bind_fun i fn) s c \<longleftrightarrow> lives i s"
| "allowed cnt (D_method p fn al info) s c \<longleftrightarrow> may_bind p al info s c"
| "allowed cnt (D_bind_method i p fn al info) s c \<longleftrightarrow> lives i s \<and> may_bind p al info s c"
| "allowed cnt (D_destroy i) s c \<longleftrightarrow> lives i s"
| "allowed cnt (D_call i x) s c \<longleftrightarrow> lives i s"
| "allowed cnt (D_make v com) s c \<longleftrightarrow> (com \<longrightarrow> cnt v = 1)"
| "allowed cnt (D_drop p) s c \<longleftrightarrow> 0 < held c p \<and> (held c p = 1 \<longrightarrow> refs View_clone p (d_vars s) = 0)"

text \<open>The program's own references after an operation for which \<open>new\<close> had the address \<open>a\<close> ready.\<close>

definition given_away :: "u64 \<Rightarrow> clone_allocator \<Rightarrow> bool \<Rightarrow> client \<Rightarrow> client" where
  "given_away p al info c =
     (if al = View_clone \<or> info then c else c\<lparr>held := (held c)(p := held c p - 1)\<rparr>)"

fun client_after :: "u64 \<Rightarrow> ('o, 'x) dele_op \<Rightarrow> client \<Rightarrow> client" where
  "client_after a (D_make v com) c = c\<lparr>held := (held c)(a := 1), is_com := (is_com c)(a := com)\<rparr>"
| "client_after a (D_drop p) c = c\<lparr>held := (held c)(p := held c p - 1)\<rparr>"
| "client_after a (D_method p fn al info) c = given_away p al info (c\<lparr>is_com := (is_com c)(a := False)\<rparr>)"
| "client_after a (D_bind_method i p fn al info) c = given_away p al info (c\<lparr>is_com := (is_com c)(a := False)\<rparr>)"
| "client_after a d c = c\<lparr>is_com := (is_com c)(a := False)\<rparr>"

text \<open>The address \<open>new\<close> gives is not null and no living object has it.\<close>

inductive dele_runs :: "('o, 'x, 'r) client_code \<Rightarrow> ('o \<Rightarrow> nat) \<Rightarrow> 'o delegates \<Rightarrow> client \<Rightarrow> bool" for C cnt where
  runs_start: "dele_runs C cnt new_deles new_client"
| runs_step: "dele_runs C cnt s c \<Longrightarrow> a \<noteq> 0 \<Longrightarrow> d_store s a = None \<Longrightarrow> allowed cnt d s c \<Longrightarrow>
    dele_step C c a d s = Inr s' \<Longrightarrow> dele_runs C cnt s' (client_after a d c)"

text \<open>
  What is known of a COM object: \<open>AddRef\<close> and \<open>Release\<close> count its references, and it deletes itself
  with the last one. The methods that are bound do not change the count.
\<close>

definition com_object :: "('o, 'x, 'r) client_code \<Rightarrow> ('o \<Rightarrow> nat) \<Rightarrow> bool" where
  "com_object C cnt \<longleftrightarrow>
     (\<forall>v. cnt (uc_AddRef C v) = cnt v + 1) \<and>
     (\<forall>v. case uc_Release C v of None \<Rightarrow> cnt v \<le> 1 | Some w \<Rightarrow> cnt v = cnt w + 1 \<and> 0 < cnt w) \<and>
     (\<forall>fn v x. cnt (fst (uc_method C fn v x)) = cnt v)"

section \<open>Who owns an object\<close>

text \<open>
  An ordinary object has one owner, a delegate or the program; a COM object has as many references
  as it counts; what a view shows belongs to the program.
\<close>

definition addr_ok :: "('o \<Rightarrow> nat) \<Rightarrow> nat \<Rightarrow> nat \<Rightarrow> nat \<Rightarrow> nat \<Rightarrow> bool \<Rightarrow> 'o option \<Rightarrow> bool" where
  "addr_ok cnt h m v n com ob \<longleftrightarrow>
     (case ob of None \<Rightarrow> h + m + n = 0 | Some y \<Rightarrow> h + m + n = (if com then cnt y else 1) \<and> 0 < h + m + n) \<and>
     (0 < h \<longrightarrow> \<not> com) \<and> (0 < m \<longrightarrow> com) \<and> (0 < v \<longrightarrow> 0 < n)"

definition owned :: "('o \<Rightarrow> nat) \<Rightarrow> 'o store \<Rightarrow> strategy_root option list \<Rightarrow> client \<Rightarrow> bool" where
  "owned cnt st ds c \<longleftrightarrow> st 0 = None \<and>
     (\<forall>p. addr_ok cnt (refs Heap_clone p ds) (refs Com_autoref_clone p ds) (refs View_clone p ds) (held c p) (is_com c p) (st p))"

lemma ownedD:
  assumes "owned cnt st ds c"
  shows "st 0 = None"
    and "addr_ok cnt (refs Heap_clone p ds) (refs Com_autoref_clone p ds) (refs View_clone p ds) (held c p) (is_com c p) (st p)"
  using assms by (auto simp: owned_def)

lemma ownedI:
  assumes "st 0 = None"
    and "\<And>p. addr_ok cnt (refs Heap_clone p ds) (refs Com_autoref_clone p ds) (refs View_clone p ds) (held c p) (is_com c p) (st p)"
  shows "owned cnt st ds c"
  using assms by (auto simp: owned_def)

lemma owned_cong:
  assumes "owned cnt st ds c" and "\<And>al p. refs al p es = refs al p ds"
  shows "owned cnt st es c"
  using assms by (simp add: owned_def)

lemma refs_Nil [simp]: "refs al p [] = 0"
  by (simp add: refs_def)

lemma refs_append [simp]: "refs al p (ds @ es) = refs al p ds + refs al p es"
  by (simp add: refs_def)

lemma refs_one [simp]: "refs al p [d] = is_ref al p d"
  by (simp add: refs_def)

lemma is_ref_None [simp]: "is_ref al p None = 0"
  by (simp add: is_ref_def)

lemma refs_update: "i < length ds \<Longrightarrow> refs al p (ds[i := d]) + is_ref al p (ds ! i) = refs al p ds + is_ref al p d"
proof (induction ds arbitrary: i)
  case (Cons e ds)
  show ?case
  proof (cases i)
    case (Suc k)
    then show ?thesis
      using Cons.IH [of k] Cons.prems by (simp add: refs_def)
  qed (simp add: refs_def)
qed simp

lemma refs_drop:
  assumes "i < length ds" and "ds ! i = Some x"
  shows "refs al p ds = refs al p (ds[i := None]) + is_ref al p (Some x)"
  using refs_update [OF assms(1), of al p None] assms(2) by simp

lemma refs_replace:
  assumes "i < length ds"
  shows "refs al p (ds[i := Some x]) = refs al p (ds[i := None] @ [Some x])"
  using refs_update [OF assms, of al p None] refs_update [OF assms, of al p "Some x"] by simp

lemma is_ref_class:
  "s_class x = Null_strategy \<Longrightarrow> is_ref al p (Some x) = 0"
  "s_class x = Function_strategy \<Longrightarrow> is_ref al p (Some x) = 0"
  "s_class x = Method_strategy b \<Longrightarrow> is_ref al p (Some x) = (if al = b \<and> m_object_ptr x = p then 1 else 0)"
  by (auto simp: is_ref_def)

text \<open>A delegate that has an object has a living one.\<close>

lemma owned_ref_lives:
  assumes own: "owned cnt st ds c" and x: "i < length ds" "ds ! i = Some x" and al: "s_class x = Method_strategy al"
  shows "m_object_ptr x \<noteq> 0" and "\<exists>v. st (m_object_ptr x) = Some v"
proof -
  let ?p = "m_object_ptr x"
  have "0 < refs al ?p ds"
    using refs_drop [OF x, of al ?p] al by (simp add: is_ref_class)
  then have "st ?p \<noteq> None"
    using ownedD(2) [OF own, of ?p] by (cases al) (auto simp: addr_ok_def split: option.splits)
  moreover show "?p \<noteq> 0"
    using \<open>st ?p \<noteq> None\<close> ownedD(1) [OF own] by metis
  ultimately show "\<exists>v. st ?p = Some v"
    by blast
qed

lemma owned_fresh:
  assumes "owned cnt st ds c" and "st a = None"
  shows "owned cnt st ds (c\<lparr>is_com := (is_com c)(a := b)\<rparr>)"
proof (rule ownedI)
  show "st 0 = None"
    by (rule ownedD(1) [OF assms(1)])
  show "addr_ok cnt (refs Heap_clone p ds) (refs Com_autoref_clone p ds) (refs View_clone p ds)
      (held (c\<lparr>is_com := (is_com c)(a := b)\<rparr>) p) (is_com (c\<lparr>is_com := (is_com c)(a := b)\<rparr>) p) (st p)" for p
    using ownedD(2) [OF assms(1), of p] assms(2) by (cases "p = a") (auto simp: addr_ok_def)
qed

text \<open>The object of a delegate is freed, and the delegate is gone.\<close>

lemma owned_free:
  assumes own: "owned cnt st ds c" and x: "i < length ds" "ds ! i = Some x" and com: "com_object C cnt"
  obtains st' where "object_free C x st = Inr st'" and "owned cnt st' (ds[i := None]) c"
proof (cases "s_class x")
  case (Method_strategy al)
  let ?p = "m_object_ptr x"
  obtain v where v: "st ?p = Some v" and p0: "?p \<noteq> 0"
    using owned_ref_lives [OF own x Method_strategy] by blast
  note drop = refs_drop [OF x] and ok = ownedD(2) [OF own]
  define st' where "st' = (case al of View_clone \<Rightarrow> st | Heap_clone \<Rightarrow> st(?p := None)
    | Com_autoref_clone \<Rightarrow> st(?p := uc_Release C v))"
  have "object_free C x st = Inr st'"
    using v p0 Method_strategy by (simp add: object_free_def on_free_object_def deallocate_clone_def read_obj_def st'_def split: clone_allocator.splits)
  moreover have "owned cnt st' (ds[i := None]) c"
  proof (rule ownedI)
    show "st' 0 = None"
      using ownedD(1) [OF own] p0 by (simp add: st'_def split: clone_allocator.splits)
    fix q
    show "addr_ok cnt (refs Heap_clone q (ds[i := None])) (refs Com_autoref_clone q (ds[i := None]))
      (refs View_clone q (ds[i := None])) (held c q) (is_com c q) (st' q)"
    proof (cases "q = ?p")
      case False
      then show ?thesis
        using ok [of q] drop [of Heap_clone q] drop [of Com_autoref_clone q] drop [of View_clone q] Method_strategy
        by (simp add: is_ref_class st'_def split: clone_allocator.splits)
    next
      case True
      have rel: "case uc_Release C v of None \<Rightarrow> cnt v \<le> 1 | Some w \<Rightarrow> cnt v = cnt w + 1 \<and> 0 < cnt w"
        using com by (simp add: com_object_def)
      show ?thesis
        using ok [of q] drop [of Heap_clone q] drop [of Com_autoref_clone q] drop [of View_clone q] Method_strategy v rel True
        by (cases al) (auto simp: is_ref_class st'_def addr_ok_def split: option.splits if_splits)
    qed
  qed
  ultimately show ?thesis
    using that by blast
next
  case Null_strategy
  then have "owned cnt st (ds[i := None]) c"
    using owned_cong [OF own] refs_drop [OF x] by (simp add: is_ref_class)
  then show ?thesis
    using that [of st] Null_strategy by (simp add: object_free_def on_free_object_def)
next
  case Function_strategy
  then have "owned cnt st (ds[i := None]) c"
    using owned_cong [OF own] refs_drop [OF x] by (simp add: is_ref_class)
  then show ?thesis
    using that [of st] Function_strategy by (simp add: object_free_def on_free_object_def)
qed

text \<open>A delegate without an object.\<close>

lemma owned_plain:
  assumes "owned cnt st ds c" and "s_class y = Null_strategy \<or> s_class y = Function_strategy"
  shows "owned cnt st (ds @ [Some y]) c"
  using assms by (auto intro: owned_cong simp: is_ref_class)

text \<open>A further delegate with an object of its own, or with a reference of its own.\<close>

lemma owned_add:
  assumes own: "owned cnt st ds c" and com: "com_object C cnt" and v: "st p = Some v"
    and a: "a \<noteq> 0" "st a = None" "\<not> is_com c a"
    and fits: "al = Com_autoref_clone \<Longrightarrow> is_com c p" "al = View_clone \<Longrightarrow> 0 < held c p"
  obtains q st' where "allocate_clone C al a p st = Inr (q, st')"
    and "owned cnt st' (ds @ [Some \<lparr>s_class = Method_strategy al, m_object_ptr = q, m_fn = fn\<rparr>]) c"
proof -
  note ok = ownedD(2) [OF own]
  define q where "q = (case al of Heap_clone \<Rightarrow> a | _ \<Rightarrow> p)"
  define st' where "st' = (case al of View_clone \<Rightarrow> st | Heap_clone \<Rightarrow> st(a \<mapsto> uc_copy C v)
    | Com_autoref_clone \<Rightarrow> st(p \<mapsto> uc_AddRef C v))"
  let ?y = "\<lparr>s_class = Method_strategy al, m_object_ptr = q, m_fn = fn\<rparr>"
  have "p \<noteq> 0"
    using v ownedD(1) [OF own] by (metis option.distinct(1))
  have "allocate_clone C al a p st = Inr (q, st')"
    using v by (simp add: allocate_clone_def read_obj_def q_def st'_def split: clone_allocator.splits)
  moreover have "owned cnt st' (ds @ [Some ?y]) c"
  proof (rule ownedI)
    show "st' 0 = None"
      using ownedD(1) [OF own] a \<open>p \<noteq> 0\<close> by (simp add: st'_def split: clone_allocator.splits)
    fix b
    have add: "cnt (uc_AddRef C v) = cnt v + 1"
      using com by (simp add: com_object_def)
    show "addr_ok cnt (refs Heap_clone b (ds @ [Some ?y])) (refs Com_autoref_clone b (ds @ [Some ?y]))
      (refs View_clone b (ds @ [Some ?y])) (held c b) (is_com c b) (st' b)"
      using ok [of b] a v fits add
      by (cases al; cases "b = p"; cases "b = a") (auto simp: is_ref_class q_def st'_def addr_ok_def)
  qed
  ultimately show ?thesis
    using that by blast
qed

lemma owned_copy:
  assumes own: "owned cnt st ds c" and com: "com_object C cnt" and x: "i < length ds" "ds ! i = Some x"
    and a: "a \<noteq> 0" "st a = None" "\<not> is_com c a"
  obtains y st' where "object_clone C a x st = Inr (y, st')" and "owned cnt st' (ds @ [Some y]) c"
proof (cases "s_class x")
  case (Method_strategy al)
  let ?p = "m_object_ptr x"
  obtain v where v: "st ?p = Some v" and p0: "?p \<noteq> 0"
    using owned_ref_lives [OF own x Method_strategy] by blast
  have "al = Com_autoref_clone \<Longrightarrow> is_com c ?p" "al = View_clone \<Longrightarrow> 0 < held c ?p"
    using ownedD(2) [OF own, of ?p] refs_drop [OF x, of al ?p] Method_strategy by (auto simp: addr_ok_def is_ref_class)
  then obtain q st' where q: "allocate_clone C al a ?p st = Inr (q, st')"
    and own': "owned cnt st' (ds @ [Some \<lparr>s_class = Method_strategy al, m_object_ptr = q, m_fn = m_fn x\<rparr>]) c"
    using owned_add [OF own com v a, of al "m_fn x"] by blast
  have "x\<lparr>m_object_ptr := q\<rparr> = \<lparr>s_class = Method_strategy al, m_object_ptr = q, m_fn = m_fn x\<rparr>"
    using Method_strategy by simp
  then have "owned cnt st' (ds @ [Some (x\<lparr>m_object_ptr := q\<rparr>)]) c"
    using own' by (simp only:)
  then show ?thesis
    using that [of "x\<lparr>m_object_ptr := q\<rparr>" st'] p0 q Method_strategy by (simp add: object_clone_def on_clone_object_def)
next
  case Null_strategy
  then show ?thesis
    using that [of x st] owned_plain [OF own, of x] by (simp add: object_clone_def on_clone_object_def)
next
  case Function_strategy
  then show ?thesis
    using that [of x st] owned_plain [OF own, of x] by (simp add: object_clone_def on_clone_object_def)
qed

lemma held_lives:
  assumes "owned cnt st ds c" and "0 < held c p"
  obtains v where "st p = Some v" and "p \<noteq> 0"
proof (cases "st p")
  case None
  then show ?thesis
    using ownedD(2) [OF assms(1), of p] assms(2) by (simp add: addr_ok_def)
next
  case (Some v)
  then have "p \<noteq> 0"
    using ownedD(1) [OF assms(1)] by (metis option.distinct(1))
  then show ?thesis
    using that Some by blast
qed

lemma owned_bind:
  assumes own: "owned cnt st ds c" and com: "com_object C cnt"
    and bind: "may_bind p al info s c" and fewer: "refs View_clone p ds \<le> refs View_clone p (d_vars s)"
    and a: "a \<noteq> 0" "st a = None" "\<not> is_com c a"
  obtains y st' where "construct_method C a fn p al info st = Inr (y, st')"
    and "owned cnt st' (ds @ [Some y]) (given_away p al info c)"
proof -
  have held: "0 < held c p"
    using bind by (simp add: may_bind_def)
  obtain v where v: "st p = Some v" and p0: "p \<noteq> 0"
    by (rule held_lives [OF own held])
  show ?thesis
  proof (cases "clone_info al info")
    case True
    then have al: "al \<noteq> View_clone" "info"
      by (simp_all add: clone_info_def split: if_splits)
    moreover have "al = Com_autoref_clone \<Longrightarrow> is_com c p"
      using bind by (simp add: may_bind_def)
    ultimately obtain q st' where q: "allocate_clone C al a p st = Inr (q, st')"
      and own': "owned cnt st' (ds @ [Some \<lparr>s_class = Method_strategy al, m_object_ptr = q, m_fn = fn\<rparr>]) c"
      using owned_add [OF own com v a, of al fn] by blast
    then show ?thesis
      using that [of "\<lparr>s_class = Method_strategy al, m_object_ptr = q, m_fn = fn\<rparr>" st'] True p0 al
      by (simp add: construct_method_def method_strategy_def object_clone_def on_clone_object_def given_away_def)
  next
    case False
    let ?y = "method_strategy al fn p"
    have "owned cnt st (ds @ [Some ?y]) (given_away p al info c)"
    proof (rule ownedI)
      show "st 0 = None"
        by (rule ownedD(1) [OF own])
      fix b
      let ?c = "given_away p al info c"
      show "addr_ok cnt (refs Heap_clone b (ds @ [Some ?y])) (refs Com_autoref_clone b (ds @ [Some ?y]))
        (refs View_clone b (ds @ [Some ?y])) (held ?c b) (is_com ?c b) (st b)"
        using ownedD(2) [OF own, of b] False bind fewer v held
        by (cases al; cases "b = p") (auto simp: clone_info_def may_bind_def given_away_def method_strategy_def
          is_ref_class addr_ok_def split: option.splits if_splits)
    qed
    then show ?thesis
      using that [of ?y st] False by (simp add: construct_method_def)
  qed
qed

lemma given_away_simps [simp]: "is_com (given_away p al info c) = is_com c"
  by (simp add: given_away_def)

section \<open>No object is used after its end, and none is left\<close>

lemma get_dele_lives:
  assumes "lives i s"
  obtains x where "i < length (d_vars s)" and "d_vars s ! i = Some x" and "get_dele i s = Inr x"
  using assms by (auto simp: lives_def get_dele_def vec_get_def)

lemma put_dele_simps [simp]:
  "d_store (put_dele i x st s) = st" "d_vars (put_dele i x st s) = (d_vars s)[i := x]"
  "d_store (add_dele y st s) = st" "d_vars (add_dele y st s) = d_vars s @ [Some y]"
  by (simp_all add: put_dele_def add_dele_def)

lemma owned_replace:
  assumes "owned cnt st (ds[i := None] @ [Some y]) c" and "i < length ds"
  shows "owned cnt st (ds[i := Some y]) c"
  by (rule owned_cong [OF assms(1)]) (rule refs_replace [OF assms(2)])

lemma owned_method:
  assumes own: "owned cnt (d_store s) (d_vars s) c" and com: "com_object C cnt" and i: "lives i s"
  obtains r s' where "dele_call C i v s = Inr (r, s')" and "owned cnt (d_store s') (d_vars s') c" and "d_vars s' = d_vars s"
proof -
  obtain x where x: "i < length (d_vars s)" "d_vars s ! i = Some x" "get_dele i s = Inr x"
    by (rule get_dele_lives [OF i])
  show ?thesis
  proof (cases "s_class x")
    case (Method_strategy al)
    let ?p = "m_object_ptr x"
    obtain ob where ob: "d_store s ?p = Some ob" and p0: "?p \<noteq> 0"
      using owned_ref_lives [OF own x(1,2) Method_strategy] by blast
    obtain ob' r where m: "uc_method C (m_fn x) ob v = (ob', r)"
      by fastforce
    then have cnt: "cnt ob' = cnt ob"
      using com by (metis com_object_def fst_conv)
    have "owned cnt ((d_store s)(?p \<mapsto> ob')) (d_vars s) c"
    proof (rule ownedI)
      show "((d_store s)(?p \<mapsto> ob')) 0 = None"
        using ownedD(1) [OF own] p0 by simp
      show "addr_ok cnt (refs Heap_clone b (d_vars s)) (refs Com_autoref_clone b (d_vars s)) (refs View_clone b (d_vars s))
          (held c b) (is_com c b) (((d_store s)(?p \<mapsto> ob')) b)" for b
        using ownedD(2) [OF own, of b] ob cnt by (cases "b = ?p") (auto simp: addr_ok_def split: if_splits)
    qed
    then show ?thesis
      using that [of "Some r" "s\<lparr>d_store := (d_store s)(?p \<mapsto> ob')\<rparr>"] x Method_strategy ob m
      by (simp add: dele_call_def invoke_def read_obj_def)
  next
    case Null_strategy
    then show ?thesis
      using that [of None s] x own by (simp add: dele_call_def invoke_def)
  next
    case Function_strategy
    then show ?thesis
      using that [of "Some (uc_fn C (fst (m_fn x)) v)" s] x own by (simp add: dele_call_def invoke_def)
  qed
qed

lemma owned_free_set:
  assumes own: "owned cnt (d_store s) (d_vars s) c" and com: "com_object C cnt" and i: "lives i s"
  obtains x st where "get_dele i s = Inr x" and "object_free C x (d_store s) = Inr st"
    and "owned cnt st ((d_vars s)[i := None]) c" and "i < length (d_vars s)"
    and "\<And>y. s_class y = Null_strategy \<or> s_class y = Function_strategy \<Longrightarrow> owned cnt st ((d_vars s)[i := Some y]) c"
proof -
  obtain x where x: "i < length (d_vars s)" "d_vars s ! i = Some x" "get_dele i s = Inr x"
    by (rule get_dele_lives [OF i])
  obtain st where st: "object_free C x (d_store s) = Inr st" "owned cnt st ((d_vars s)[i := None]) c"
    by (rule owned_free [OF own x(1,2) com])
  show ?thesis
    using that [OF x(3) st x(1)] owned_replace owned_plain [OF st(2)] x(1) by blast
qed

lemma owned_assign:
  assumes own: "owned cnt (d_store s) (d_vars s) c" and com: "com_object C cnt" and i: "lives i s" and j: "lives j s"
    and a: "a \<noteq> 0" "d_store s a = None" "\<not> is_com c a"
  obtains s' where "dele_assign C a i j s = Inr s'" and "owned cnt (d_store s') (d_vars s') c"
proof -
  obtain x where x: "i < length (d_vars s)" "d_vars s ! i = Some x" "get_dele i s = Inr x"
    by (rule get_dele_lives [OF i])
  obtain y where y: "j < length (d_vars s)" "d_vars s ! j = Some y" "get_dele j s = Inr y"
    by (rule get_dele_lives [OF j])
  obtain z st where z: "object_clone C a y (d_store s) = Inr (z, st)" "owned cnt st (d_vars s @ [Some z]) c"
    by (rule owned_copy [OF own com y(1,2) a])
  have "i < length (d_vars s @ [Some z])" "(d_vars s @ [Some z]) ! i = Some x"
    using x by (simp_all add: nth_append)
  from owned_free [OF z(2) this com] obtain st' where st': "object_free C x st = Inr st'"
    "owned cnt st' ((d_vars s @ [Some z])[i := None]) c"
    by blast
  then have "owned cnt st' ((d_vars s)[i := Some z]) c"
    using owned_replace [of cnt st' "d_vars s" i z c] x(1) by (simp add: list_update_append)
  then show ?thesis
    using that x y z st' by (simp add: dele_assign_def)
qed

lemma owned_swap:
  assumes own: "owned cnt (d_store s) (d_vars s) c" and i: "lives i s" and j: "lives j s"
  obtains s' where "dele_swap i j s = Inr s'" and "owned cnt (d_store s') (d_vars s') c"
proof -
  obtain x where x: "i < length (d_vars s)" "d_vars s ! i = Some x" "get_dele i s = Inr x"
    by (rule get_dele_lives [OF i])
  obtain y where y: "j < length (d_vars s)" "d_vars s ! j = Some y" "get_dele j s = Inr y"
    by (rule get_dele_lives [OF j])
  have "refs al p ((d_vars s)[i := Some y, j := Some x]) = refs al p (d_vars s)" for al p
    using refs_update [OF x(1), of al p "Some y"] refs_update [of j "(d_vars s)[i := Some y]" al p "Some x"] x y
    by (cases "i = j") simp_all
  then show ?thesis
    using that x y owned_cong [OF own] by (simp add: dele_swap_def)
qed

lemma owned_drop:
  assumes own: "owned cnt (d_store s) (d_vars s) c" and com: "com_object C cnt"
    and ok: "0 < held c p" "held c p = 1 \<longrightarrow> refs View_clone p (d_vars s) = 0"
  obtains s' where "client_drop C c p s = Inr s'"
    and "owned cnt (d_store s') (d_vars s') (c\<lparr>held := (held c)(p := held c p - 1)\<rparr>)"
proof -
  obtain v where v: "d_store s p = Some v" and p0: "p \<noteq> 0"
    by (rule held_lives [OF own ok(1)])
  let ?st = "(d_store s)(p := if is_com c p then uc_Release C v else None)"
  let ?c = "c\<lparr>held := (held c)(p := held c p - 1)\<rparr>"
  have rel: "case uc_Release C v of None \<Rightarrow> cnt v \<le> 1 | Some w \<Rightarrow> cnt v = cnt w + 1 \<and> 0 < cnt w"
    using com by (simp add: com_object_def)
  have "owned cnt ?st (d_vars s) ?c"
  proof (rule ownedI)
    show "?st 0 = None"
      using ownedD(1) [OF own] p0 by simp
    show "addr_ok cnt (refs Heap_clone b (d_vars s)) (refs Com_autoref_clone b (d_vars s)) (refs View_clone b (d_vars s))
        (held ?c b) (is_com ?c b) (?st b)" for b
      using ownedD(2) [OF own, of b] v ok rel
      by (cases "b = p") (auto simp: addr_ok_def split: option.splits if_splits)
  qed
  then show ?thesis
    using that v by (simp add: client_drop_def read_obj_def)
qed

lemma may_bind_fresh:
  assumes own: "owned cnt (d_store s) (d_vars s) c" and a: "d_store s a = None" and bind: "may_bind p al info s c"
  shows "may_bind p al info s (c\<lparr>is_com := (is_com c)(a := False)\<rparr>)"
proof -
  have "0 < held c p"
    using bind by (simp add: may_bind_def)
  from held_lives [OF own this] a have "p \<noteq> a"
    by (metis option.distinct(1))
  then show ?thesis
    using bind by (cases al) (simp_all add: may_bind_def)
qed

lemma object_free_dead: "object_free C x st = Inr st' \<Longrightarrow> st a = None \<Longrightarrow> st' a = None"
  by (auto simp: object_free_def on_free_object_def deallocate_clone_def read_obj_def
    split: if_splits strategy.splits clone_allocator.splits option.splits)

lemma owned_step:
  assumes own: "owned cnt (d_store s) (d_vars s) c" and com: "com_object C cnt"
    and a: "a \<noteq> 0" "d_store s a = None" and ok: "allowed cnt d s c"
  shows "\<exists>s'. dele_step C c a d s = Inr s' \<and> owned cnt (d_store s') (d_vars s') (client_after a d c)"
proof -
  let ?c = "c\<lparr>is_com := (is_com c)(a := False)\<rparr>"
  have own': "owned cnt (d_store s) (d_vars s) ?c"
    by (rule owned_fresh [OF own a(2)])
  have nc: "\<not> is_com ?c a"
    by simp
  note a' = a nc
  show ?thesis
  proof (cases d)
    case D_null
    then show ?thesis
      using owned_plain [OF own'] by (simp add: dele_null_def init_null_def)
  next
    case (D_fun fn)
    then show ?thesis
      using owned_plain [OF own'] by (simp add: dele_fun_def init_function_def)
  next
    case (D_copy j)
    then have "lives j s"
      using ok by simp
    then obtain y where y: "j < length (d_vars s)" "d_vars s ! j = Some y" "get_dele j s = Inr y"
      by (rule get_dele_lives)
    obtain z st where "object_clone C a y (d_store s) = Inr (z, st)" "owned cnt st (d_vars s @ [Some z]) ?c"
      by (rule owned_copy [OF own' com y(1,2) a'])
    then show ?thesis
      using D_copy y(3) by (simp add: dele_copy_def)
  next
    case (D_assign i j)
    with ok have i: "lives i s" and j: "lives j s"
      by simp_all
    obtain s' where "dele_assign C a i j s = Inr s'" "owned cnt (d_store s') (d_vars s') ?c"
      by (rule owned_assign [OF own' com i j a'])
    then show ?thesis
      using D_assign by simp
  next
    case (D_swap i j)
    with ok have i: "lives i s" and j: "lives j s"
      by simp_all
    obtain s' where "dele_swap i j s = Inr s'" "owned cnt (d_store s') (d_vars s') ?c"
      by (rule owned_swap [OF own' i j])
    then show ?thesis
      using D_swap by simp
  next
    case (D_clear i)
    with ok have i: "lives i s"
      by simp
    show ?thesis
      by (rule owned_free_set [OF own' com i]) (use D_clear in \<open>auto simp: dele_clear_def init_null_def\<close>)
  next
    case (D_bind_fun i fn)
    with ok have i: "lives i s"
      by simp
    show ?thesis
      by (rule owned_free_set [OF own' com i]) (use D_bind_fun in \<open>auto simp: dele_bind_fun_def init_function_def\<close>)
  next
    case (D_method p fn al info)
    then have bind: "may_bind p al info s c"
      using ok by simp
    obtain y st where "construct_method C a fn p al info (d_store s) = Inr (y, st)"
      "owned cnt st (d_vars s @ [Some y]) (given_away p al info ?c)"
      by (rule owned_bind [OF own' com may_bind_fresh [OF own a(2) bind] order.refl a'])
    then show ?thesis
      using D_method by (simp add: dele_method_def)
  next
    case (D_bind_method i p fn al info)
    with ok have i: "lives i s" and bind: "may_bind p al info s c"
      by simp_all
    obtain x st where x: "get_dele i s = Inr x" "object_free C x (d_store s) = Inr st"
      "owned cnt st ((d_vars s)[i := None]) ?c" "i < length (d_vars s)"
      by (rule owned_free_set [OF own' com i])
    have fewer: "refs View_clone p ((d_vars s)[i := None]) \<le> refs View_clone p (d_vars s)"
      using refs_update [OF x(4), of View_clone p None] by simp
    obtain y st' where "construct_method C a fn p al info st = Inr (y, st')"
      "owned cnt st' ((d_vars s)[i := None] @ [Some y]) (given_away p al info ?c)"
      by (rule owned_bind [OF x(3) com may_bind_fresh [OF own a(2) bind] fewer a(1) object_free_dead [OF x(2) a(2)] nc])
    then show ?thesis
      using x owned_replace D_bind_method by (simp add: dele_bind_method_def)
  next
    case (D_destroy i)
    with ok have i: "lives i s"
      by simp
    show ?thesis
      by (rule owned_free_set [OF own' com i]) (use D_destroy in \<open>auto simp: dele_destroy_def\<close>)
  next
    case (D_call i v)
    with ok have i: "lives i s"
      by simp
    obtain r s' where "dele_call C i v s = Inr (r, s')" "owned cnt (d_store s') (d_vars s') ?c"
      by (rule owned_method [OF own' com i])
    then show ?thesis
      using D_call by simp
  next
    case (D_make v com')
    let ?d = "c\<lparr>held := (held c)(a := 1), is_com := (is_com c)(a := com')\<rparr>"
    have "owned cnt ((d_store s)(a \<mapsto> v)) (d_vars s) ?d"
    proof (rule ownedI)
      show "((d_store s)(a \<mapsto> v)) 0 = None"
        using a(1) ownedD(1) [OF own] by simp
      show "addr_ok cnt (refs Heap_clone b (d_vars s)) (refs Com_autoref_clone b (d_vars s)) (refs View_clone b (d_vars s))
          (held ?d b) (is_com ?d b) (((d_store s)(a \<mapsto> v)) b)" for b
        using ownedD(2) [OF own, of b] a(2) ok D_make by (cases "b = a") (auto simp: addr_ok_def)
    qed
    then show ?thesis
      using D_make by simp
  next
    case (D_drop p)
    with ok have p: "0 < held c p" "held c p = 1 \<longrightarrow> refs View_clone p (d_vars s) = 0"
      by simp_all
    obtain s' where "client_drop C c p s = Inr s'"
      "owned cnt (d_store s') (d_vars s') (c\<lparr>held := (held c)(p := held c p - 1)\<rparr>)"
      by (rule owned_drop [OF own com p])
    then show ?thesis
      using D_drop by simp
  qed
qed

lemma owned_runs:
  assumes "dele_runs C cnt s c" and com: "com_object C cnt"
  shows "owned cnt (d_store s) (d_vars s) c"
  using assms(1)
proof induction
  case runs_start
  show ?case
    by (simp add: owned_def addr_ok_def new_deles_def new_client_def)
next
  case (runs_step s c a d s')
  then show ?case
    using owned_step [OF runs_step.IH com] by force
qed

lemma refs_all_dead: "(\<And>i. i < length ds \<Longrightarrow> ds ! i = None) \<Longrightarrow> refs al p ds = 0"
  unfolding refs_def by (induction ds) force+

text \<open>C12: In a program that keeps the rules of use (a method is bound to a living object, a view does
  not outlast its object, a delegate that takes over a reference is given one), no operation on
  delegates uses an object after its end or frees one twice, whatever the operations are and
  whatever addresses \<open>new\<close> gives: each returns. And when all delegates are destroyed and the
  program has dropped its own references, no object is left, neither a clone on the heap nor a
  COM object.
\<close>

theorem delegates_safe:
  assumes "dele_runs C cnt s c" and "com_object C cnt"
  shows "(\<forall>a d. a \<noteq> 0 \<longrightarrow> d_store s a = None \<longrightarrow> allowed cnt d s c \<longrightarrow> (\<exists>s'. dele_step C c a d s = Inr s')) \<and>
    ((\<forall>i < length (d_vars s). d_vars s ! i = None) \<longrightarrow> (\<forall>p. held c p = 0) \<longrightarrow> (\<forall>p. d_store s p = None))"
proof (intro conjI allI impI)
  note own = owned_runs [OF assms]
  show "\<exists>s'. dele_step C c a d s = Inr s'" if "a \<noteq> 0" "d_store s a = None" "allowed cnt d s c" for a d
    using owned_step [OF own assms(2) that] by blast
  show "d_store s p = None" if "\<forall>i < length (d_vars s). d_vars s ! i = None" "\<forall>p. held c p = 0" for p
    using ownedD(2) [OF own, of p] that refs_all_dead [of "d_vars s"] by (auto simp: addr_ok_def split: option.splits)
qed

section \<open>Delegates are values\<close>

text \<open>
  What a delegate is for the program: nothing, a function, a method with an object that belongs to
  this delegate alone, or a method with a reference to an object. The program's objects are those
  that no delegate has for itself.
\<close>

datatype 'o dele_val = V_null | V_fun u64 | V_own "u64 \<times> u64" 'o | V_ref clone_allocator "u64 \<times> u64" u64

definition dele_val :: "'o store \<Rightarrow> strategy_root \<Rightarrow> 'o dele_val" where
  "dele_val st x =
     (case s_class x of
        Null_strategy \<Rightarrow> V_null
      | Function_strategy \<Rightarrow> V_fun (fst (m_fn x))
      | Method_strategy al \<Rightarrow>
          if al = Heap_clone then V_own (m_fn x) (the (st (m_object_ptr x))) else V_ref al (m_fn x) (m_object_ptr x))"

type_synonym 'o dele_vals = "'o store \<times> 'o dele_val option list"

definition abs_store :: "'o store \<Rightarrow> strategy_root option list \<Rightarrow> 'o store" where
  "abs_store st ds = (\<lambda>p. if refs Heap_clone p ds = 0 then st p else None)"

definition abs_vals :: "'o store \<Rightarrow> strategy_root option list \<Rightarrow> 'o dele_val option list" where
  "abs_vals st ds = map (map_option (dele_val st)) ds"

definition abs_deles :: "'o delegates \<Rightarrow> 'o dele_vals" where
  "abs_deles s = (abs_store (d_store s) (d_vars s), abs_vals (d_store s) (d_vars s))"

definition val_copy :: "('o, 'x, 'r) client_code \<Rightarrow> 'o dele_val \<Rightarrow> 'o store \<Rightarrow> 'o dele_val \<times> 'o store" where
  "val_copy C v ob =
     (case v of
        V_own fn x \<Rightarrow> (V_own fn (uc_copy C x), ob)
      | V_ref Com_autoref_clone fn p \<Rightarrow> (v, ob(p := map_option (uc_AddRef C) (ob p)))
      | _ \<Rightarrow> (v, ob))"

definition val_free :: "('o, 'x, 'r) client_code \<Rightarrow> 'o dele_val \<Rightarrow> 'o store \<Rightarrow> 'o store" where
  "val_free C v ob =
     (case v of V_ref Com_autoref_clone fn p \<Rightarrow> ob(p := Option.bind (ob p) (uc_Release C)) | _ \<Rightarrow> ob)"

definition val_bind ::
  "('o, 'x, 'r) client_code \<Rightarrow> u64 \<Rightarrow> u64 \<times> u64 \<Rightarrow> clone_allocator \<Rightarrow> bool \<Rightarrow> 'o store \<Rightarrow> 'o dele_val \<times> 'o store" where
  "val_bind C p fn al info ob =
     (case al of
        View_clone \<Rightarrow> (V_ref al fn p, ob)
      | Heap_clone \<Rightarrow>
          if info then (V_own fn (uc_copy C (the (ob p))), ob) else (V_own fn (the (ob p)), ob(p := None))
      | Com_autoref_clone \<Rightarrow> (V_ref al fn p, if info then ob(p := map_option (uc_AddRef C) (ob p)) else ob))"

fun val_call :: "('o, 'x, 'r) client_code \<Rightarrow> 'o dele_val \<Rightarrow> 'x \<Rightarrow> 'o store \<Rightarrow> 'r option \<times> 'o dele_val \<times> 'o store" where
  "val_call C V_null x ob = (None, V_null, ob)"
| "val_call C (V_fun fn) x ob = (Some (uc_fn C fn x), V_fun fn, ob)"
| "val_call C (V_own fn y) x ob = (let (y, r) = uc_method C fn y x in (Some r, V_own fn y, ob))"
| "val_call C (V_ref al fn p) x ob = (let (y, r) = uc_method C fn (the (ob p)) x in (Some r, V_ref al fn p, ob(p \<mapsto> y)))"

fun spec_step ::
  "('o, 'x, 'r) client_code \<Rightarrow> client \<Rightarrow> u64 \<Rightarrow> ('o, 'x) dele_op \<Rightarrow> 'o dele_vals \<Rightarrow> 'o dele_vals" where
  "spec_step C c a D_null (ob, vs) = (ob, vs @ [Some V_null])"
| "spec_step C c a (D_copy j) (ob, vs) = (let (v, ob) = val_copy C (the (vs ! j)) ob in (ob, vs @ [Some v]))"
| "spec_step C c a (D_assign i j) (ob, vs) =
     (let (v, ob) = val_copy C (the (vs ! j)) ob in (val_free C (the (vs ! i)) ob, vs[i := Some v]))"
| "spec_step C c a (D_swap i j) (ob, vs) = (ob, vs[i := vs ! j, j := vs ! i])"
| "spec_step C c a (D_clear i) (ob, vs) = (val_free C (the (vs ! i)) ob, vs[i := Some V_null])"
| "spec_step C c a (D_fun fn) (ob, vs) = (ob, vs @ [Some (V_fun fn)])"
| "spec_step C c a (D_bind_fun i fn) (ob, vs) = (val_free C (the (vs ! i)) ob, vs[i := Some (V_fun fn)])"
| "spec_step C c a (D_method p fn al info) (ob, vs) =
     (let (v, ob) = val_bind C p fn al info ob in (ob, vs @ [Some v]))"
| "spec_step C c a (D_bind_method i p fn al info) (ob, vs) =
     (let (v, ob) = val_bind C p fn al info (val_free C (the (vs ! i)) ob) in (ob, vs[i := Some v]))"
| "spec_step C c a (D_destroy i) (ob, vs) = (val_free C (the (vs ! i)) ob, vs[i := None])"
| "spec_step C c a (D_call i x) (ob, vs) =
     (let (r, v, ob) = val_call C (the (vs ! i)) x ob in (ob, vs[i := Some v]))"
| "spec_step C c a (D_make v com) (ob, vs) = (ob(a \<mapsto> v), vs)"
| "spec_step C c a (D_drop p) (ob, vs) =
     (ob(p := if is_com c p then Option.bind (ob p) (uc_Release C) else None), vs)"

lemma refs_heap_member: "Some x \<in> set ds \<Longrightarrow> s_class x = Method_strategy Heap_clone \<Longrightarrow> 0 < refs Heap_clone (m_object_ptr x) ds"
  unfolding refs_def by (induction ds) (auto simp: is_ref_class)

lemma abs_vals_upd:
  assumes "refs Heap_clone p ds = 0"
  shows "abs_vals (st(p := w)) ds = abs_vals st ds"
proof -
  have "m_object_ptr x \<noteq> p" if "Some x \<in> set ds" "s_class x = Method_strategy Heap_clone" for x
    using refs_heap_member [OF that] assms by auto
  then show ?thesis
    unfolding abs_vals_def by (intro map_cong refl) (auto simp: dele_val_def split: strategy.splits intro!: option.map_cong)
qed

lemma abs_vals_append [simp]: "abs_vals st (ds @ [Some y]) = abs_vals st ds @ [Some (dele_val st y)]"
  by (simp add: abs_vals_def)

lemma length_abs_vals [simp]: "length (abs_vals st ds) = length ds"
  by (simp add: abs_vals_def)

lemma abs_vals_set: "abs_vals st (ds[i := d]) = (abs_vals st ds)[i := map_option (dele_val st) d]"
  by (simp add: abs_vals_def map_update)

lemma abs_vals_nth: "i < length ds \<Longrightarrow> ds ! i = Some x \<Longrightarrow> the (abs_vals st ds ! i) = dele_val st x"
  by (simp add: abs_vals_def)

lemma dead_no_heap:
  assumes "owned cnt st ds c" and "st p = None"
  shows "refs Heap_clone p ds = 0"
  using ownedD(2) [OF assms(1), of p] assms(2) by (simp add: addr_ok_def)

lemma com_no_heap:
  assumes "owned cnt st ds c" and "0 < refs Com_autoref_clone p ds \<or> 0 < held c p \<or> 0 < refs View_clone p ds"
  shows "refs Heap_clone p ds = 0"
  using ownedD(2) [OF assms(1), of p] assms(2) by (auto simp: addr_ok_def split: option.splits if_splits)

text \<open>A copy.\<close>

lemma abs_copy:
  assumes own: "owned cnt st ds c" and x: "i < length ds" "ds ! i = Some x"
    and a: "a \<noteq> 0" "st a = None" and clone: "object_clone C a x st = Inr (y, st')"
  shows "val_copy C (dele_val st x) (abs_store st ds) = (dele_val st' y, abs_store st' (ds @ [Some y]))"
    and "abs_vals st' ds = abs_vals st ds"
proof -
  have "val_copy C (dele_val st x) (abs_store st ds) = (dele_val st' y, abs_store st' (ds @ [Some y])) \<and>
    abs_vals st' ds = abs_vals st ds"
  proof (cases "s_class x")
    case (Method_strategy al)
    let ?p = "m_object_ptr x"
    obtain v where v: "st ?p = Some v" and p0: "?p \<noteq> 0"
      using owned_ref_lives [OF own x Method_strategy] by blast
    have in_ds: "0 < refs al ?p ds"
      using refs_drop [OF x, of al ?p] Method_strategy by (simp add: is_ref_class)
    show ?thesis
    proof (cases al)
      case View_clone
      then have "y = x \<and> st' = st"
        using clone p0 Method_strategy by (auto simp: object_clone_def on_clone_object_def allocate_clone_def)
      then show ?thesis
        using View_clone Method_strategy by (simp add: val_copy_def dele_val_def abs_store_def is_ref_class)
    next
      case Heap_clone
      then have y: "y = x\<lparr>m_object_ptr := a\<rparr>" "st' = st(a \<mapsto> uc_copy C v)"
        using clone p0 v Method_strategy by (auto simp: object_clone_def on_clone_object_def allocate_clone_def read_obj_def)
      have "abs_store (st(a \<mapsto> uc_copy C v)) (ds @ [Some (x\<lparr>m_object_ptr := a\<rparr>)]) = abs_store st ds"
        using a(2) Heap_clone Method_strategy by (auto simp: abs_store_def fun_eq_iff is_ref_def)
      then show ?thesis
        using y Heap_clone Method_strategy v abs_vals_upd [OF dead_no_heap [OF own a(2)]]
        by (simp add: val_copy_def dele_val_def)
    next
      case Com_autoref_clone
      then have y: "y = x" "st' = st(?p \<mapsto> uc_AddRef C v)"
        using clone p0 v Method_strategy by (auto simp: object_clone_def on_clone_object_def allocate_clone_def read_obj_def)
      have h: "refs Heap_clone ?p ds = 0"
        using com_no_heap [OF own] in_ds Com_autoref_clone by blast
      then have "abs_store (st(?p \<mapsto> uc_AddRef C v)) (ds @ [Some x]) = (abs_store st ds)(?p \<mapsto> uc_AddRef C v)"
        using Com_autoref_clone Method_strategy by (auto simp: abs_store_def fun_eq_iff is_ref_class)
      moreover have "abs_store st ds ?p = Some v"
        using h v by (simp add: abs_store_def)
      ultimately show ?thesis
        using y Com_autoref_clone Method_strategy abs_vals_upd [OF h] by (simp add: val_copy_def dele_val_def)
    qed
  next
    case Null_strategy
    then have "y = x \<and> st' = st"
      using clone by (simp add: object_clone_def on_clone_object_def split: if_splits)
    then show ?thesis
      using Null_strategy by (simp add: val_copy_def dele_val_def abs_store_def is_ref_class)
  next
    case Function_strategy
    then have "y = x \<and> st' = st"
      using clone by (simp add: object_clone_def on_clone_object_def split: if_splits)
    then show ?thesis
      using Function_strategy by (simp add: val_copy_def dele_val_def abs_store_def is_ref_class)
  qed
  then show "val_copy C (dele_val st x) (abs_store st ds) = (dele_val st' y, abs_store st' (ds @ [Some y]))"
    and "abs_vals st' ds = abs_vals st ds"
    by blast+
qed

text \<open>The end of a delegate's hold on its object.\<close>

lemma abs_free:
  assumes own: "owned cnt st ds c" and x: "i < length ds" "ds ! i = Some x"
    and free: "object_free C x st = Inr st'"
  shows "abs_store st' (ds[i := None]) = val_free C (dele_val st x) (abs_store st ds)"
    and "abs_vals st' (ds[i := None]) = (abs_vals st ds)[i := None]"
proof -
  have h: "refs Heap_clone q (ds[i := None]) + is_ref Heap_clone q (Some x) = refs Heap_clone q ds" for q
    using refs_drop [OF x] by simp
  have "abs_store st' (ds[i := None]) = val_free C (dele_val st x) (abs_store st ds) \<and>
    abs_vals st' (ds[i := None]) = abs_vals st (ds[i := None])"
  proof (cases "s_class x")
    case (Method_strategy al)
    let ?p = "m_object_ptr x"
    obtain v where v: "st ?p = Some v" and p0: "?p \<noteq> 0"
      using owned_ref_lives [OF own x Method_strategy] by blast
    have in_ds: "0 < refs al ?p ds"
      using refs_drop [OF x, of al ?p] Method_strategy by (simp add: is_ref_class)
    show ?thesis
    proof (cases al)
      case View_clone
      then have "st' = st"
        using free p0 Method_strategy by (simp add: object_free_def on_free_object_def deallocate_clone_def)
      moreover have "refs Heap_clone q (ds[i := None]) = refs Heap_clone q ds" for q
        using h [of q] View_clone Method_strategy by (simp add: is_ref_class)
      ultimately show ?thesis
        using View_clone Method_strategy by (simp add: val_free_def dele_val_def abs_store_def)
    next
      case Heap_clone
      then have st': "st' = st(?p := None)"
        using free p0 v Method_strategy by (simp add: object_free_def on_free_object_def deallocate_clone_def read_obj_def)
      have one: "refs Heap_clone ?p ds = 1"
        using ownedD(2) [OF own, of ?p] in_ds Heap_clone v by (auto simp: addr_ok_def)
      then have none: "refs Heap_clone ?p (ds[i := None]) = 0"
        using h [of ?p] Heap_clone Method_strategy by (simp add: is_ref_class)
      have "abs_store (st(?p := None)) (ds[i := None]) = abs_store st ds"
      proof
        show "abs_store (st(?p := None)) (ds[i := None]) q = abs_store st ds q" for q
          using h [of q] one Heap_clone Method_strategy by (cases "q = ?p") (simp_all add: abs_store_def is_ref_class)
      qed
      then show ?thesis
        using st' Heap_clone Method_strategy abs_vals_upd [OF none] by (simp add: val_free_def dele_val_def)
    next
      case Com_autoref_clone
      then have st': "st' = st(?p := uc_Release C v)"
        using free p0 v Method_strategy by (simp add: object_free_def on_free_object_def deallocate_clone_def read_obj_def)
      have same: "refs Heap_clone q (ds[i := None]) = refs Heap_clone q ds" for q
        using h [of q] Com_autoref_clone Method_strategy by (simp add: is_ref_class)
      have none: "refs Heap_clone ?p ds = 0"
        using com_no_heap [OF own] in_ds Com_autoref_clone by blast
      have "abs_store (st(?p := uc_Release C v)) (ds[i := None]) = (abs_store st ds)(?p := uc_Release C v)"
        using same none by (auto simp: abs_store_def fun_eq_iff)
      moreover have "abs_store st ds ?p = Some v"
        using none v by (simp add: abs_store_def)
      ultimately show ?thesis
        using st' Com_autoref_clone Method_strategy abs_vals_upd [of ?p "ds[i := None]"] none same
        by (simp add: val_free_def dele_val_def)
    qed
  next
    case Null_strategy
    then have "st' = st" "\<And>q. refs Heap_clone q (ds[i := None]) = refs Heap_clone q ds"
      using free h by (simp_all add: object_free_def on_free_object_def is_ref_class split: if_splits)
    then show ?thesis
      using Null_strategy by (simp add: val_free_def dele_val_def abs_store_def)
  next
    case Function_strategy
    then have "st' = st" "\<And>q. refs Heap_clone q (ds[i := None]) = refs Heap_clone q ds"
      using free h by (simp_all add: object_free_def on_free_object_def is_ref_class split: if_splits)
    then show ?thesis
      using Function_strategy by (simp add: val_free_def dele_val_def abs_store_def)
  qed
  then show "abs_store st' (ds[i := None]) = val_free C (dele_val st x) (abs_store st ds)"
    and "abs_vals st' (ds[i := None]) = (abs_vals st ds)[i := None]"
    by (simp_all add: abs_vals_set)
qed

text \<open>A method is bound.\<close>

lemma abs_bind:
  assumes own: "owned cnt st ds c" and held: "0 < held c p" and a: "a \<noteq> 0" "st a = None"
    and bind: "construct_method C a fn p al info st = Inr (y, st')"
  shows "val_bind C p fn al info (abs_store st ds) = (dele_val st' y, abs_store st' (ds @ [Some y]))"
    and "abs_vals st' ds = abs_vals st ds"
proof -
  obtain v where v: "st p = Some v" and p0: "p \<noteq> 0"
    by (rule held_lives [OF own held])
  have none: "refs Heap_clone p ds = 0"
    using com_no_heap [OF own] held by blast
  have abs: "abs_store st ds p = Some v"
    using none v by (simp add: abs_store_def)
  have "val_bind C p fn al info (abs_store st ds) = (dele_val st' y, abs_store st' (ds @ [Some y])) \<and>
    abs_vals st' ds = abs_vals st ds"
  proof (cases "clone_info al info")
    case False
    then have y: "y = method_strategy al fn p" "st' = st"
      using bind by (simp_all add: construct_method_def)
    show ?thesis
      unfolding y using False v none abs
      by (cases al) (auto simp: val_bind_def clone_info_def method_strategy_def dele_val_def abs_store_def is_ref_class fun_eq_iff)
  next
    case True
    show ?thesis
    proof (cases al)
      case View_clone
      then show ?thesis
        using True by (simp add: clone_info_def)
    next
      case Heap_clone
      then have y: "y = method_strategy al fn a" "st' = st(a \<mapsto> uc_copy C v)" "info"
        using bind True p0 v by (auto simp: construct_method_def clone_info_def object_clone_def on_clone_object_def allocate_clone_def
          method_strategy_def read_obj_def)
      have "abs_store (st(a \<mapsto> uc_copy C v)) (ds @ [Some (method_strategy al fn a)]) = abs_store st ds"
        using a(2) Heap_clone by (auto simp: abs_store_def fun_eq_iff is_ref_def method_strategy_def)
      then show ?thesis
        using y Heap_clone abs abs_vals_upd [OF dead_no_heap [OF own a(2)]]
        by (simp add: val_bind_def dele_val_def method_strategy_def)
    next
      case Com_autoref_clone
      then have y: "y = method_strategy al fn p" "st' = st(p \<mapsto> uc_AddRef C v)" "info"
        using bind True p0 v by (auto simp: construct_method_def clone_info_def object_clone_def on_clone_object_def allocate_clone_def
          method_strategy_def read_obj_def)
      have "abs_store (st(p \<mapsto> uc_AddRef C v)) (ds @ [Some (method_strategy al fn p)]) = (abs_store st ds)(p \<mapsto> uc_AddRef C v)"
        using none Com_autoref_clone by (auto simp: abs_store_def fun_eq_iff is_ref_class method_strategy_def)
      then show ?thesis
        using y Com_autoref_clone abs abs_vals_upd [OF none]
        by (simp add: val_bind_def dele_val_def method_strategy_def)
    qed
  qed
  then show "val_bind C p fn al info (abs_store st ds) = (dele_val st' y, abs_store st' (ds @ [Some y]))"
    and "abs_vals st' ds = abs_vals st ds"
    by blast+
qed

text \<open>A delegate is replaced.\<close>

lemma abs_replace:
  assumes "i < length ds"
  shows "abs_store st (ds[i := Some y]) = abs_store st (ds[i := None] @ [Some y])"
    and "abs_vals st (ds[i := Some y]) = (abs_vals st (ds[i := None]))[i := Some (dele_val st y)]"
  using refs_replace [OF assms, of Heap_clone _ y] by (simp_all add: abs_store_def abs_vals_set)

lemma abs_plain:
  assumes "s_class y = Null_strategy \<or> s_class y = Function_strategy"
  shows "abs_store st (ds @ [Some y]) = abs_store st ds"
  using assms by (auto simp: abs_store_def is_ref_class fun_eq_iff)

lemma abs_call:
  assumes own: "owned cnt (d_store s) (d_vars s) c" and x: "i < length (d_vars s)" "d_vars s ! i = Some x"
    and call: "dele_call C i v s = Inr (r, s')"
  obtains w where "val_call C (dele_val (d_store s) x) v (abs_store (d_store s) (d_vars s)) = (r, w, abs_store (d_store s') (d_vars s'))"
    and "abs_vals (d_store s') (d_vars s') = (abs_vals (d_store s) (d_vars s))[i := Some w]"
proof -
  let ?st = "d_store s" and ?ds = "d_vars s"
  have get: "get_dele i s = Inr x"
    using x by (simp add: get_dele_def vec_get_def)
  have same: "abs_vals ?st ?ds = (abs_vals ?st ?ds)[i := Some (dele_val ?st x)]"
    using abs_vals_set [of ?st ?ds i "Some x"] x by (metis list_update_id option.simps(9))
  show ?thesis
  proof (cases "s_class x")
    case (Method_strategy al)
    let ?p = "m_object_ptr x"
    obtain ob where ob: "?st ?p = Some ob" and p0: "?p \<noteq> 0"
      using owned_ref_lives [OF own x Method_strategy] by blast
    obtain ob' q where m: "uc_method C (m_fn x) ob v = (ob', q)"
      by fastforce
    have s': "r = Some q" "s' = s\<lparr>d_store := ?st(?p \<mapsto> ob')\<rparr>"
      using call get Method_strategy ob m by (simp_all add: dele_call_def invoke_def read_obj_def)
    have in_ds: "0 < refs al ?p ?ds"
      using refs_drop [OF x, of al ?p] Method_strategy by (simp add: is_ref_class)
    show ?thesis
    proof (cases "al = Heap_clone")
      case False
      then have none: "refs Heap_clone ?p ?ds = 0"
        using com_no_heap [OF own] in_ds by (cases al) auto
      have st: "abs_store (?st(?p \<mapsto> ob')) ?ds = (abs_store ?st ?ds)(?p \<mapsto> ob')"
        using none by (auto simp: abs_store_def fun_eq_iff)
      have pob: "abs_store ?st ?ds ?p = Some ob"
        using none ob by (simp add: abs_store_def)
      show ?thesis
        using that [of "dele_val ?st x"] same False Method_strategy m s' st pob abs_vals_upd [OF none, of ?st "Some ob'"]
        by (simp add: dele_val_def)
    next
      case True
      have one: "refs Heap_clone ?p ?ds = 1"
        using ownedD(2) [OF own, of ?p] in_ds True ob by (auto simp: addr_ok_def)
      then have none: "refs Heap_clone ?p (?ds[i := None]) = 0"
        using refs_drop [OF x, of Heap_clone ?p] True Method_strategy by (simp add: is_ref_class)
      have "?ds = ?ds[i := None, i := Some x]"
        using x by (metis list_update_id list_update_overwrite)
      then have "abs_vals (?st(?p \<mapsto> ob')) ?ds =
          (abs_vals (?st(?p \<mapsto> ob')) (?ds[i := None]))[i := Some (dele_val (?st(?p \<mapsto> ob')) x)]"
        by (metis abs_vals_set option.simps(9))
      also have "\<dots> = (abs_vals ?st ?ds)[i := Some (V_own (m_fn x) ob')]"
        unfolding abs_vals_upd [OF none] using True Method_strategy by (simp add: abs_vals_set dele_val_def)
      finally have vals: "abs_vals (?st(?p \<mapsto> ob')) ?ds = (abs_vals ?st ?ds)[i := Some (V_own (m_fn x) ob')]" .
      have "abs_store (?st(?p \<mapsto> ob')) ?ds = abs_store ?st ?ds"
        using one by (auto simp: abs_store_def fun_eq_iff)
      then show ?thesis
        using that [of "V_own (m_fn x) ob'"] vals True Method_strategy m s' ob by (simp add: dele_val_def)
    qed
  next
    case Null_strategy
    then have "r = None" "s' = s"
      using call get by (simp_all add: dele_call_def invoke_def)
    then show ?thesis
      using that [of V_null] same Null_strategy by (simp add: dele_val_def)
  next
    case Function_strategy
    then have "r = Some (uc_fn C (fst (m_fn x)) v)" "s' = s"
      using call get by (simp_all add: dele_call_def invoke_def)
    then show ?thesis
      using that [of "V_fun (fst (m_fn x))"] same Function_strategy by (simp add: dele_val_def)
  qed
qed

lemma abs_drop:
  assumes own: "owned cnt (d_store s) (d_vars s) c" and held: "0 < held c p" and drop: "client_drop C c p s = Inr s'"
  shows "abs_deles s' = spec_step C c a (D_drop p) (abs_deles s)"
proof -
  let ?st = "d_store s" and ?ds = "d_vars s"
  obtain v where v: "?st p = Some v"
    by (rule held_lives [OF own held])
  have none: "refs Heap_clone p ?ds = 0"
    using com_no_heap [OF own] held by blast
  define w where "w = (if is_com c p then uc_Release C v else None)"
  have s': "s' = s\<lparr>d_store := ?st(p := w)\<rparr>"
    using drop v by (simp add: client_drop_def read_obj_def w_def)
  have "abs_store (?st(p := w)) ?ds = (abs_store ?st ?ds)(p := w)" "abs_store ?st ?ds p = Some v"
    using none v by (auto simp: abs_store_def fun_eq_iff)
  then show ?thesis
    using s' abs_vals_upd [OF none, of ?st w] by (simp add: abs_deles_def w_def)
qed

lemma abs_free_put:
  assumes own: "owned cnt (d_store s) (d_vars s) c" and x: "i < length (d_vars s)" "d_vars s ! i = Some x"
    and free: "object_free C x (d_store s) = Inr st" and y: "s_class y = Null_strategy \<or> s_class y = Function_strategy"
  shows "abs_store st ((d_vars s)[i := Some y]) = val_free C (dele_val (d_store s) x) (abs_store (d_store s) (d_vars s))"
    and "abs_vals st ((d_vars s)[i := Some y]) = (abs_vals (d_store s) (d_vars s))[i := Some (dele_val st y)]"
  using abs_free [OF own x free] abs_replace [OF x(1), of st y] abs_plain [OF y, of st] by simp_all

lemma abs_assign:
  assumes own: "owned cnt (d_store s) (d_vars s) c" and com: "com_object C cnt" and i: "lives i s" and j: "lives j s"
    and a: "a \<noteq> 0" "d_store s a = None" "\<not> is_com c a" and step: "dele_assign C a i j s = Inr s'"
  shows "abs_deles s' = spec_step C c a (D_assign i j) (abs_deles s)"
proof -
  let ?st = "d_store s" and ?ds = "d_vars s"
  obtain x where x: "i < length ?ds" "?ds ! i = Some x" "get_dele i s = Inr x"
    by (rule get_dele_lives [OF i])
  obtain y where y: "j < length ?ds" "?ds ! j = Some y" "get_dele j s = Inr y"
    by (rule get_dele_lives [OF j])
  obtain z st where z: "object_clone C a y ?st = Inr (z, st)" and own': "owned cnt st (?ds @ [Some z]) c"
    by (rule owned_copy [OF own com y(1,2) a])
  obtain st' where st': "object_free C x st = Inr st'" and s': "s' = put_dele i (Some z) st' s"
    using step x y z by (auto simp: dele_assign_def elim!: bindr_InrE)
  have x': "i < length (?ds @ [Some z])" "(?ds @ [Some z]) ! i = Some x"
    using x by (simp_all add: nth_append)
  note copy = abs_copy [OF own y(1,2) a(1,2) z] and free = abs_free [OF own' x' st']
  have val: "dele_val st x = dele_val ?st x"
    using copy(2) abs_vals_nth [OF x(1,2)] by metis
  have upd: "(?ds @ [Some z])[i := None] = ?ds[i := None] @ [Some z]"
    using x(1) by (simp add: list_update_append)
  have "abs_vals st' (?ds[i := None]) = (abs_vals ?st ?ds)[i := None]"
    and z': "dele_val st' z = dele_val st z"
    using free(2) copy(2) x(1) by (simp_all add: upd list_update_append)
  then have "abs_vals st' (?ds[i := Some z]) = (abs_vals ?st ?ds)[i := Some (dele_val st z)]"
    using abs_replace(2) [OF x(1), of st' z] by simp
  moreover have "abs_store st' (?ds[i := Some z]) = val_free C (dele_val ?st x) (abs_store st (?ds @ [Some z]))"
    using abs_replace(1) [OF x(1), of st' z] free(1) by (simp add: upd val)
  ultimately show ?thesis
    using s' copy(1) abs_vals_nth [OF x(1,2), of ?st] abs_vals_nth [OF y(1,2), of ?st] by (simp add: abs_deles_def)
qed

lemma abs_swap:
  assumes i: "lives i s" and j: "lives j s" and step: "dele_swap i j s = Inr s'"
  shows "abs_deles s' = spec_step C c a (D_swap i j) (abs_deles s)"
proof -
  let ?ds = "d_vars s"
  obtain x where x: "i < length ?ds" "?ds ! i = Some x" "get_dele i s = Inr x"
    by (rule get_dele_lives [OF i])
  obtain y where y: "j < length ?ds" "?ds ! j = Some y" "get_dele j s = Inr y"
    by (rule get_dele_lives [OF j])
  have "refs al p (?ds[i := Some y, j := Some x]) = refs al p ?ds" for al p
    using refs_update [OF x(1), of al p "Some y"] refs_update [of j "?ds[i := Some y]" al p "Some x"] x y
    by (cases "i = j") simp_all
  then show ?thesis
    using step x y by (auto simp: dele_swap_def abs_deles_def abs_store_def abs_vals_set) (simp_all add: abs_vals_def)
qed

lemma abs_bind_method:
  assumes own: "owned cnt (d_store s) (d_vars s) c" and com: "com_object C cnt" and i: "lives i s"
    and held: "0 < held c p" and a: "a \<noteq> 0" "d_store s a = None"
    and step: "dele_bind_method C a i p fn al info s = Inr s'"
  shows "abs_deles s' = spec_step C c a (D_bind_method i p fn al info) (abs_deles s)"
proof -
  let ?st = "d_store s" and ?ds = "d_vars s"
  obtain x where x: "i < length ?ds" "?ds ! i = Some x" "get_dele i s = Inr x"
    by (rule get_dele_lives [OF i])
  obtain st where st: "object_free C x ?st = Inr st" and own': "owned cnt st (?ds[i := None]) c"
    by (rule owned_free [OF own x(1,2) com])
  obtain y st' where y: "construct_method C a fn p al info st = Inr (y, st')" and s': "s' = put_dele i (Some y) st' s"
    using step x st by (auto simp: dele_bind_method_def elim!: bindr_InrE)
  note free = abs_free [OF own x(1,2) st] and bind = abs_bind [OF own' held a(1) object_free_dead [OF st a(2)] y]
  show ?thesis
    using s' free bind abs_replace [OF x(1), of st' y] abs_vals_nth [OF x(1,2), of ?st] by (simp add: abs_deles_def)
qed

lemma abs_step:
  assumes own: "owned cnt (d_store s) (d_vars s) c" and com: "com_object C cnt" and a: "a \<noteq> 0" "d_store s a = None"
    and ok: "allowed cnt d s c" and step: "dele_step C c a d s = Inr s'"
  shows "abs_deles s' = spec_step C c a d (abs_deles s)"
proof -
  let ?st = "d_store s" and ?ds = "d_vars s"
  have own': "owned cnt ?st ?ds (c\<lparr>is_com := (is_com c)(a := False)\<rparr>)"
    by (rule owned_fresh [OF own a(2)])
  have nc: "\<not> is_com (c\<lparr>is_com := (is_com c)(a := False)\<rparr>) a"
    by simp
  show ?thesis
  proof (cases d)
    case D_null
    then show ?thesis
      using step abs_plain [of init_null ?st ?ds] by (auto simp: dele_null_def abs_deles_def init_null_def dele_val_def)
  next
    case (D_fun fn)
    then show ?thesis
      using step abs_plain [of "init_function fn" ?st ?ds]
      by (auto simp: dele_fun_def abs_deles_def init_function_def dele_val_def)
  next
    case (D_copy j)
    then have "lives j s"
      using ok by simp
    then obtain y where y: "j < length ?ds" "?ds ! j = Some y" "get_dele j s = Inr y"
      by (rule get_dele_lives)
    obtain z st where z: "object_clone C a y ?st = Inr (z, st)" and s': "s' = add_dele z st s"
      using step y D_copy by (auto simp: dele_copy_def elim!: bindr_InrE)
    show ?thesis
      using abs_copy [OF own y(1,2) a z] s' D_copy abs_vals_nth [OF y(1,2), of ?st] by (simp add: abs_deles_def)
  next
    case (D_assign i j)
    with ok step show ?thesis
      using abs_assign [OF own' com _ _ a nc] by (simp add: abs_deles_def split: prod.splits)
  next
    case (D_swap i j)
    with ok step show ?thesis
      using abs_swap by auto
  next
    case (D_clear i)
    then have "lives i s"
      using ok by simp
    then obtain x where x: "i < length ?ds" "?ds ! i = Some x" "get_dele i s = Inr x"
      by (rule get_dele_lives)
    obtain st where st: "object_free C x ?st = Inr st" and s': "s' = put_dele i (Some init_null) st s"
      using step x D_clear by (auto simp: dele_clear_def elim!: bindr_InrE)
    show ?thesis
      using abs_free_put [OF own x(1,2) st, of init_null] s' D_clear abs_vals_nth [OF x(1,2), of ?st]
      by (simp add: abs_deles_def init_null_def dele_val_def)
  next
    case (D_bind_fun i fn)
    then have "lives i s"
      using ok by simp
    then obtain x where x: "i < length ?ds" "?ds ! i = Some x" "get_dele i s = Inr x"
      by (rule get_dele_lives)
    obtain st where st: "object_free C x ?st = Inr st" and s': "s' = put_dele i (Some (init_function fn)) st s"
      using step x D_bind_fun by (auto simp: dele_bind_fun_def elim!: bindr_InrE)
    show ?thesis
      using abs_free_put [OF own x(1,2) st, of "init_function fn"] s' D_bind_fun abs_vals_nth [OF x(1,2), of ?st]
      by (simp add: abs_deles_def init_function_def dele_val_def)
  next
    case (D_method p fn al info)
    then have held: "0 < held c p"
      using ok by (simp add: may_bind_def)
    obtain y st where y: "construct_method C a fn p al info ?st = Inr (y, st)" and s': "s' = add_dele y st s"
      using step D_method by (auto simp: dele_method_def elim!: bindr_InrE)
    show ?thesis
      using abs_bind [OF own held a y] s' D_method by (simp add: abs_deles_def)
  next
    case (D_bind_method i p fn al info)
    with ok have "lives i s" "0 < held c p"
      by (simp_all add: may_bind_def)
    with step D_bind_method show ?thesis
      using abs_bind_method [OF own com _ _ a] by (simp add: abs_deles_def split: prod.splits)
  next
    case (D_destroy i)
    then have "lives i s"
      using ok by simp
    then obtain x where x: "i < length ?ds" "?ds ! i = Some x" "get_dele i s = Inr x"
      by (rule get_dele_lives)
    obtain st where st: "object_free C x ?st = Inr st" and s': "s' = put_dele i None st s"
      using step x D_destroy by (auto simp: dele_destroy_def elim!: bindr_InrE)
    show ?thesis
      using abs_free [OF own x(1,2) st] s' D_destroy abs_vals_nth [OF x(1,2), of ?st] by (simp add: abs_deles_def)
  next
    case (D_call i v)
    then have "lives i s"
      using ok by simp
    then obtain x where x: "i < length ?ds" "?ds ! i = Some x" "get_dele i s = Inr x"
      by (rule get_dele_lives)
    obtain r where call: "dele_call C i v s = Inr (r, s')"
      using step D_call by (auto elim!: bindr_InrE)
    show ?thesis
      by (rule abs_call [OF own x(1,2) call]) (use D_call in \<open>simp add: abs_deles_def abs_vals_nth [OF x(1,2)]\<close>)
  next
    case (D_make v com')
    then have s': "s' = s\<lparr>d_store := ?st(a \<mapsto> v)\<rparr>"
      using step by simp
    have "abs_store (?st(a \<mapsto> v)) ?ds = (abs_store ?st ?ds)(a \<mapsto> v)"
      using dead_no_heap [OF own a(2)] by (auto simp: abs_store_def fun_eq_iff)
    then show ?thesis
      using s' D_make abs_vals_upd [OF dead_no_heap [OF own a(2)], of ?st "Some v"] by (simp add: abs_deles_def)
  next
    case (D_drop p)
    then have "0 < held c p"
      using ok by simp
    then show ?thesis
      using abs_drop [OF own] step D_drop by simp
  qed
qed

text \<open>C11: Delegates are values. Whatever a program does under the rules of use, what it sees of its
  delegates and objects is what a program sees whose delegates are plain values: a delegate bound
  with a heap clone has its own object, which a copy copies, an assignment replaces, a swap
  exchanges and a call of this delegate alone changes; a COM delegate shares its object and counts
  for it; a view shares it and counts for nothing. A call gives the answer of the bound function or
  method, and an empty delegate throws.
\<close>

theorem delegates_are_values:
  assumes "dele_runs C cnt s c" and "com_object C cnt" and "a \<noteq> 0" and "d_store s a = None"
    and "allowed cnt d s c" and "dele_step C c a d s = Inr s'"
  shows "abs_deles s' = spec_step C c a d (abs_deles s) \<and>
    (\<forall>i v r. d = D_call i v \<longrightarrow> dele_call C i v s = Inr (r, s') \<longrightarrow>
       fst (val_call C (the (snd (abs_deles s) ! i)) v (fst (abs_deles s))) = r)"
proof (intro conjI allI impI)
  note own = owned_runs [OF assms(1,2)]
  show "abs_deles s' = spec_step C c a d (abs_deles s)"
    by (rule abs_step [OF own assms(2-6)])
  fix i v r
  assume "d = D_call i v" and call: "dele_call C i v s = Inr (r, s')"
  then have "lives i s"
    using assms(5) by simp
  then obtain x where x: "i < length (d_vars s)" "d_vars s ! i = Some x" "get_dele i s = Inr x"
    by (rule get_dele_lives)
  show "fst (val_call C (the (snd (abs_deles s) ! i)) v (fst (abs_deles s))) = r"
    by (rule abs_call [OF own x(1,2) call]) (simp add: abs_deles_def abs_vals_nth [OF x(1,2)])
qed

section \<open>Comparison\<close>

lemma memcmp_eq: "length xs = length ys \<Longrightarrow> memcmp xs ys = 0 \<longleftrightarrow> xs = ys"
  by (induction xs ys rule: memcmp.induct) (auto simp: word_uint_eq_iff)

lemma le_bytes_inj:
  assumes "x < 256 ^ n" and "y < 256 ^ n"
  shows "le_bytes n x = le_bytes n y \<longleftrightarrow> x = y"
  using le_nat_le_bytes [of n x] le_nat_le_bytes [of n y] assms by (metis mod_less)

lemma unat_u64_bytes: "unat (x :: u64) < 256 ^ 8"
  using unat_u64_lt [of x] by simp

lemma strategy_compare_eq:
  "strategy_compare x y = 0 \<longleftrightarrow> m_object_ptr x = m_object_ptr y \<and> m_fn x = m_fn y"
  by (simp add: strategy_compare_def memcmp_eq strategy_bytes_def le_bytes_inj [OF unat_u64_bytes unat_u64_bytes] prod_eq_iff
    word_unat_eq_iff)

text \<open>
  A copy of a delegate compares equal to the delegate it was made from, except when it was
  bound with a heap clone: then the two have objects at different addresses and are never equal.
\<close>

theorem delegate_copy_compares:
  assumes "dele_runs C cnt s c" and "com_object C cnt" and "a \<noteq> 0" and "d_store s a = None" and "lives j s"
  shows "\<exists>s' n. dele_copy C a j s = Inr s' \<and> dele_compare j (length (d_vars s)) s' = Inr n \<and>
    (n = 0 \<longleftrightarrow> (\<forall>x. d_vars s ! j = Some x \<longrightarrow> s_class x \<noteq> Method_strategy Heap_clone))"
proof -
  have own: "owned cnt (d_store s) (d_vars s) c"
    by (rule owned_runs [OF assms(1,2)])
  obtain y where y: "j < length (d_vars s)" "d_vars s ! j = Some y" "get_dele j s = Inr y"
    by (rule get_dele_lives [OF assms(5)])
  have nc: "\<not> is_com (c\<lparr>is_com := (is_com c)(a := False)\<rparr>) a"
    by simp
  obtain z st where z: "object_clone C a y (d_store s) = Inr (z, st)"
    by (rule owned_copy [OF owned_fresh [OF own assms(4)] assms(2) y(1,2) assms(3,4) nc])
  have "m_object_ptr y \<noteq> a" "m_object_ptr y \<noteq> 0" if "s_class y = Method_strategy al" for al
    using owned_ref_lives [OF own y(1,2) that] assms(4) by auto
  then have "m_fn z = m_fn y \<and> (m_object_ptr z = m_object_ptr y \<longleftrightarrow> s_class y \<noteq> Method_strategy Heap_clone)"
    using z by (auto simp: object_clone_def on_clone_object_def allocate_clone_def elim!: bindr_InrE split: if_splits strategy.splits clone_allocator.splits)
  then have "strategy_compare y z = 0 \<longleftrightarrow> s_class y \<noteq> Method_strategy Heap_clone"
    by (auto simp: strategy_compare_eq)
  moreover have "get_dele j (add_dele z st s) = Inr y" "get_dele (length (d_vars s)) (add_dele z st s) = Inr z"
    using y by (simp_all add: get_dele_def vec_get_def nth_append)
  ultimately show ?thesis
    using y z by (simp add: dele_copy_def dele_compare_def)
qed

section \<open>A program\<close>

text \<open>
  Objects with a count and a value; the bound method adds its argument to the value. The list has
  for every operation the address \<open>new\<close> gives.
\<close>

definition adder_code :: "(nat \<times> nat, nat, nat) client_code" where
  "adder_code = \<lparr>uc_copy = \<lambda>v. v, uc_AddRef = \<lambda>(n, v). (Suc n, v),
     uc_Release = \<lambda>(n, v). if n \<le> 1 then None else Some (n - 1, v), uc_fn = \<lambda>fn x. x,
     uc_method = \<lambda>fn (n, v) x. ((n, v + x), v + x)\<rparr>"

lemma adder_com: "com_object adder_code fst"
  by (auto simp: com_object_def adder_code_def split: prod.splits)

fun dele_exec ::
  "('o, 'x, 'r) client_code \<Rightarrow> ('o \<Rightarrow> nat) \<Rightarrow> (u64 \<times> ('o, 'x) dele_op) list \<Rightarrow> 'o delegates \<Rightarrow> client \<Rightarrow>
     ('o delegates \<times> client) option" where
  "dele_exec C cnt [] s c = Some (s, c)"
| "dele_exec C cnt ((a, d) # ds) s c =
     (if a \<noteq> 0 \<and> d_store s a = None \<and> allowed cnt d s c
      then case dele_step C c a d s of Inl e \<Rightarrow> None | Inr s' \<Rightarrow> dele_exec C cnt ds s' (client_after a d c)
      else None)"

lemma dele_exec_runs:
  "dele_exec C cnt ds s c = Some (s', c') \<Longrightarrow> dele_runs C cnt s c \<Longrightarrow> dele_runs C cnt s' c'"
proof (induction ds arbitrary: s c)
  case (Cons e ds)
  then show ?case
    by (cases e) (auto split: if_splits sum.splits intro: runs_step)
qed simp

lemmas dele_op_defs = dele_copy_def dele_method_def dele_call_def invoke_def dele_destroy_def client_drop_def dele_assign_def
  construct_method_def clone_info_def method_strategy_def object_clone_def on_clone_object_def allocate_clone_def read_obj_def
  object_free_def on_free_object_def deallocate_clone_def get_dele_def vec_get_def put_dele_def add_dele_def

text \<open>A method with a clone of the object at 8, which is then dropped; a copy; a call of the copy.\<close>

definition adder_start :: "(u64 \<times> (nat \<times> nat, nat) dele_op) list" where
  "adder_start = [(8, D_make (1, 5) False), (16, D_method 8 (1, 0) Heap_clone True), (24, D_drop 8)]"

definition adder_state :: "(nat \<times> nat) delegates" where
  "adder_state = \<lparr>d_store = (\<lambda>_. None)(16 \<mapsto> (1, 5)),
     d_vars = [Some \<lparr>s_class = Method_strategy Heap_clone, m_object_ptr = 16, m_fn = (1, 0)\<rparr>]\<rparr>"

definition adder_client :: client where
  "adder_client = \<lparr>held = (\<lambda>_. 0)(8 := 0), is_com = (\<lambda>_. False)(8 := False, 16 := False, 24 := False)\<rparr>"

lemma adder_runs: "dele_runs adder_code fst adder_state adder_client"
proof -
  have "dele_exec adder_code fst adder_start new_deles new_client = Some (adder_state, adder_client)"
    by (simp add: adder_start_def new_deles_def new_client_def may_bind_def given_away_def dele_op_defs adder_code_def
      refs_def is_ref_def adder_state_def adder_client_def fun_eq_iff)
  then show ?thesis
    using dele_exec_runs runs_start by blast
qed

definition adder_end :: "(nat \<times> nat) delegates" where
  "adder_end = \<lparr>d_store = \<lambda>_. None, d_vars = [None]\<rparr>"

lemma adder_runs_end: "dele_runs adder_code fst adder_end adder_client"
proof -
  have "dele_exec adder_code fst [(24, D_destroy 0)] adder_state adder_client = Some (adder_end, adder_client)"
    by (simp add: dele_op_defs adder_state_def adder_client_def adder_end_def lives_def fun_eq_iff)
  then show ?thesis
    using dele_exec_runs adder_runs by blast
qed

text \<open>The delegate works on a copy of the object; it is gone in the end.\<close>

theorem delegates_safe_witness:
  "(\<exists>s'. dele_step adder_code adder_client 24 (D_copy 0) adder_state = Inr s') \<and>
   (\<exists>s'. dele_step adder_code adder_client 24 (D_destroy 0) adder_state = Inr s') \<and>
   (\<forall>p. d_store adder_end p = None)"
proof -
  have "\<forall>i < length (d_vars adder_end). d_vars adder_end ! i = None" "\<forall>p. held adder_client p = 0"
    by (simp_all add: adder_end_def adder_client_def)
  then have "\<forall>p. d_store adder_end p = None"
    using delegates_safe [OF adder_runs_end adder_com, THEN conjunct2] by blast
  moreover
  have "d_store adder_state 24 = None" "lives 0 adder_state"
    by (simp_all add: adder_state_def lives_def)
  ultimately show ?thesis
    using delegates_safe [OF adder_runs adder_com, THEN conjunct1, rule_format, of 24 "D_copy 0"]
      delegates_safe [OF adder_runs adder_com, THEN conjunct1, rule_format, of 24 "D_destroy 0"] by simp
qed

theorem delegates_are_values_witness:
  "abs_deles (adder_state\<lparr>d_store := (d_store adder_state)(16 \<mapsto> (1, 12))\<rparr>) =
     spec_step adder_code adder_client 24 (D_call 0 7) (abs_deles adder_state)"
proof -
  have "dele_step adder_code adder_client 24 (D_call 0 7) adder_state =
      Inr (adder_state\<lparr>d_store := (d_store adder_state)(16 \<mapsto> (1, 12))\<rparr>)"
    by (simp add: adder_state_def dele_op_defs adder_code_def)
  from delegates_are_values [OF adder_runs adder_com _ _ _ this] show ?thesis
    by (simp add: adder_state_def lives_def)
qed

theorem delegate_copy_compares_witness:
  "\<exists>s' n. dele_copy adder_code 24 0 adder_state = Inr s' \<and> dele_compare 0 1 s' = Inr n \<and> n \<noteq> 0"
  using delegate_copy_compares [OF adder_runs adder_com, of 24 0] by (auto simp: adder_state_def lives_def)

text \<open>
  \<open>bind\<close> frees the old object before it looks at the new one, so a delegate cannot be bound again
  to its own object.
\<close>

lemma delegate_rebind_dangles:
  "dele_bind_method adder_code 24 0 16 (1, 0) Heap_clone True adder_state = Inl Out_of_bounds"
  by (simp add: adder_state_def dele_bind_method_def dele_op_defs)

end
