(* ===== verification/Singleton.thy ===== *)
theory Singleton
  imports Prelude
begin

text \<open>
  The lazily created global objects, \<open>CSingleton\<close> of \<open>libcomm_utils/src/utils/singleton.h\<close>, with the
  spin lock and the scoped lock of \<open>smart_lock.h\<close> it uses, called by any number of threads. A step
  is one access to the static pointer or one operation on the lock; the threads' steps interleave
  in any order, and a thread sees what the others have written (what the compiler and the processor
  may reorder is outside the model).
\<close>

section \<open>The lock\<close>

text \<open>\<open>CSpinLock\<close>: the thread that has it. \<open>None\<close>: the caller spins.\<close>

type_synonym spin_lock = "nat option"

definition spin_acquire :: "nat \<Rightarrow> spin_lock \<Rightarrow> spin_lock option" where
  "spin_acquire i lk = (if lk = None then Some (Some i) else None)"

definition spin_try_lock :: "nat \<Rightarrow> spin_lock \<Rightarrow> bool \<times> spin_lock" where
  "spin_try_lock i lk = (if lk = None then (True, Some i) else (False, lk))"

definition spin_release :: "spin_lock \<Rightarrow> spin_lock" where
  "spin_release lk = None"

text \<open>
  \<open>CScopeLock\<close> locks when it is made and unlocks at the end of its block: below, the steps from
  \<open>Locking\<close> and from \<open>Unlocking\<close>.
\<close>

section \<open>The object and the threads\<close>

text \<open>
  Where a thread is in \<open>instance\<close>: outside, in front of the lock, in front of the second test, of
  the creation, of \<open>atexit\<close>, of the unlocking, of the dereference, with its reference, or dead of a
  null pointer.
\<close>

datatype single_pc = Outside | Locking | Testing | Creating | Registering | Unlocking | Returning | Got nat | Crashed

text \<open>
  \<open>s_t\<close> is the static pointer, as the number of the object; \<open>s_made\<close> are the objects that were
  created, \<open>s_alive\<close> those that were not deleted, \<open>s_atexit\<close> counts the registered calls of
  \<open>destroy\<close>.
\<close>

record CSingleton =
  s_t :: "nat option"
  s_lock :: spin_lock
  s_made :: "nat list"
  s_alive :: "nat list"
  s_atexit :: nat
  s_pcs :: "single_pc list"

definition new_single :: "nat \<Rightarrow> CSingleton" where
  "new_single n = \<lparr>s_t = None, s_lock = None, s_made = [], s_alive = [], s_atexit = 0, s_pcs = replicate n Outside\<rparr>"

definition goto_pc :: "nat \<Rightarrow> single_pc \<Rightarrow> CSingleton \<Rightarrow> CSingleton" where
  "goto_pc i p s = s\<lparr>s_pcs := (s_pcs s)[i := p]\<rparr>"

text \<open>
  The next step of a thread; \<open>ok\<close> is whether \<open>new (std::nothrow)\<close> has memory. \<open>None\<close>: the thread
  waits for the lock, or is done.
\<close>

fun instance_step :: "nat \<Rightarrow> bool \<Rightarrow> single_pc \<Rightarrow> CSingleton \<Rightarrow> CSingleton option" where
  "instance_step i ok Outside s = Some (goto_pc i (if s_t s = None then Locking else Returning) s)"
| "instance_step i ok Locking s = map_option (\<lambda>lk. goto_pc i Testing (s\<lparr>s_lock := lk\<rparr>)) (spin_acquire i (s_lock s))"
| "instance_step i ok Testing s = Some (goto_pc i (if s_t s = None then Creating else Unlocking) s)"
| "instance_step i ok Creating s =
     (if ok
      then let t = length (s_made s) in
           Some (goto_pc i Registering (s\<lparr>s_t := Some t, s_made := s_made s @ [t], s_alive := s_alive s @ [t]\<rparr>))
      else Some (goto_pc i Registering s))"
| "instance_step i ok Registering s = Some (goto_pc i Unlocking (s\<lparr>s_atexit := Suc (s_atexit s)\<rparr>))"
| "instance_step i ok Unlocking s = Some (goto_pc i Returning (s\<lparr>s_lock := spin_release (s_lock s)\<rparr>))"
| "instance_step i ok Returning s = Some (goto_pc i (case s_t s of None \<Rightarrow> Crashed | Some t \<Rightarrow> Got t) s)"
| "instance_step i ok (Got t) s = Some (goto_pc i Outside s)"
| "instance_step i ok Crashed s = None"

text \<open>\<open>destroy\<close>, as often as it was registered, when the program ends.\<close>

definition destroy_single :: "CSingleton \<Rightarrow> CSingleton" where
  "destroy_single s =
     (case s_t s of None \<Rightarrow> s | Some t \<Rightarrow> s\<lparr>s_alive := filter (\<lambda>x. x \<noteq> t) (s_alive s), s_t := None\<rparr>)"

definition at_exit :: "CSingleton \<Rightarrow> CSingleton" where
  "at_exit s = (destroy_single ^^ s_atexit s) s"

inductive single_runs :: "nat \<Rightarrow> CSingleton \<Rightarrow> bool" for n where
  single_new: "single_runs n (new_single n)"
| single_goes: "single_runs n s \<Longrightarrow> i < n \<Longrightarrow> instance_step i ok (s_pcs s ! i) s = Some s' \<Longrightarrow> single_runs n s'"

section \<open>At most one object\<close>

definition has_lock :: "single_pc \<Rightarrow> bool" where
  "has_lock p \<longleftrightarrow> p = Testing \<or> p = Creating \<or> p = Registering \<or> p = Unlocking"

text \<open>
  The lock is with the thread that is inside the block; only a thread that has found a null pointer
  there creates, and the pointer is set by nothing else.
\<close>

definition single_inv :: "nat \<Rightarrow> CSingleton \<Rightarrow> bool" where
  "single_inv n s \<longleftrightarrow> length (s_pcs s) = n \<and>
     (\<forall>i < n. has_lock (s_pcs s ! i) \<longleftrightarrow> s_lock s = Some i) \<and>
     (\<forall>i. s_lock s = Some i \<longrightarrow> i < n) \<and>
     (\<forall>i < n. s_pcs s ! i = Creating \<longrightarrow> s_t s = None) \<and>
     (\<forall>i < n. \<forall>t. s_pcs s ! i = Got t \<longrightarrow> s_t s = Some t) \<and>
     s_alive s = s_made s \<and>
     (case s_t s of None \<Rightarrow> s_made s = [] | Some t \<Rightarrow> s_made s = [t] \<and>
        (s_atexit s = 0 \<longrightarrow> (\<exists>i < n. s_pcs s ! i = Registering)))"

lemma single_invI:
  assumes "length (s_pcs s) = n" and "\<And>i. i < n \<Longrightarrow> has_lock (s_pcs s ! i) \<longleftrightarrow> s_lock s = Some i"
    and "\<And>i. s_lock s = Some i \<Longrightarrow> i < n"
    and "\<And>i. i < n \<Longrightarrow> s_pcs s ! i = Creating \<Longrightarrow> s_t s = None"
    and "\<And>i t. i < n \<Longrightarrow> s_pcs s ! i = Got t \<Longrightarrow> s_t s = Some t"
    and "s_alive s = s_made s"
    and "s_t s = None \<Longrightarrow> s_made s = []"
    and "\<And>t. s_t s = Some t \<Longrightarrow> s_made s = [t] \<and> (s_atexit s = 0 \<longrightarrow> (\<exists>i < n. s_pcs s ! i = Registering))"
  shows "single_inv n s"
  using assms by (auto simp: single_inv_def split: option.splits)

lemma single_invD:
  assumes "single_inv n s"
  shows "length (s_pcs s) = n" and "i < n \<Longrightarrow> has_lock (s_pcs s ! i) \<longleftrightarrow> s_lock s = Some i"
    and "i < n \<Longrightarrow> s_pcs s ! i = Creating \<Longrightarrow> s_t s = None"
    and "i < n \<Longrightarrow> s_pcs s ! i = Got t \<Longrightarrow> s_t s = Some t"
    and "s_alive s = s_made s"
    and "s_t s = None \<Longrightarrow> s_made s = []"
    and "s_t s = Some t \<Longrightarrow> s_made s = [t]"
    and "s_t s = Some t \<Longrightarrow> s_atexit s = 0 \<Longrightarrow> \<exists>i < n. s_pcs s ! i = Registering"
    and "s_lock s = Some i \<Longrightarrow> i < n"
  using assms by (auto simp: single_inv_def)

lemma goto_pc_simps [simp]:
  "s_t (goto_pc i p s) = s_t s" "s_lock (goto_pc i p s) = s_lock s" "s_made (goto_pc i p s) = s_made s"
  "s_alive (goto_pc i p s) = s_alive s" "s_atexit (goto_pc i p s) = s_atexit s"
  "s_pcs (goto_pc i p s) = (s_pcs s)[i := p]"
  by (simp_all add: goto_pc_def)

lemma has_lock_simps [simp]:
  "has_lock Testing" "has_lock Creating" "has_lock Registering" "has_lock Unlocking"
  "\<not> has_lock Outside" "\<not> has_lock Locking" "\<not> has_lock Returning" "\<not> has_lock (Got t)" "\<not> has_lock Crashed"
  by (simp_all add: has_lock_def)

text \<open>A step that leaves the object as it is.\<close>

lemma single_inv_goto:
  assumes inv: "single_inv n s" and i: "i < n"
    and u: "s_pcs u = s_pcs s" "s_t u = s_t s" "s_made u = s_made s" "s_alive u = s_alive s"
    and lock: "has_lock p \<longleftrightarrow> s_lock u = Some i" "\<And>j. j \<noteq> i \<Longrightarrow> s_lock u = Some j \<longleftrightarrow> s_lock s = Some j"
    and p: "p = Creating \<Longrightarrow> s_t s = None" "\<And>t. p = Got t \<Longrightarrow> s_t s = Some t"
    and reg: "s_atexit u = 0 \<Longrightarrow> s_atexit s = 0 \<and> s_pcs s ! i \<noteq> Registering"
  shows "single_inv n (goto_pc i p u)"
proof (rule single_invI)
  note D = single_invD [OF inv]
  show "length (s_pcs (goto_pc i p u)) = n"
    using D(1) u by simp
  show "has_lock (s_pcs (goto_pc i p u) ! j) \<longleftrightarrow> s_lock (goto_pc i p u) = Some j" if "j < n" for j
    using D(2) [OF that] D(1) u lock i by (cases "j = i") auto
  show "j < n" if "s_lock (goto_pc i p u) = Some j" for j
    using that lock(2) [of j] D(9) [of j] i by (cases "j = i") simp_all
  show "s_t (goto_pc i p u) = None" if "j < n" "s_pcs (goto_pc i p u) ! j = Creating" for j
    using that D(3) [of j] D(1) u p i by (cases "j = i") simp_all
  show "s_t (goto_pc i p u) = Some t" if "j < n" "s_pcs (goto_pc i p u) ! j = Got t" for j t
    using that D(4) [of j t] D(1) u p i by (cases "j = i") simp_all
  show "s_alive (goto_pc i p u) = s_made (goto_pc i p u)" "s_t (goto_pc i p u) = None \<Longrightarrow> s_made (goto_pc i p u) = []"
    using D(5,6) u by simp_all
  show "s_made (goto_pc i p u) = [t] \<and> (s_atexit (goto_pc i p u) = 0 \<longrightarrow> (\<exists>j < n. s_pcs (goto_pc i p u) ! j = Registering))"
    if "s_t (goto_pc i p u) = Some t" for t
  proof (intro conjI impI)
    show "s_made (goto_pc i p u) = [t]"
      using D(7) [of t] that u by simp
    assume "s_atexit (goto_pc i p u) = 0"
    with reg have "s_atexit s = 0" and not_i: "s_pcs s ! i \<noteq> Registering"
      by simp_all
    moreover have "s_t s = Some t"
      using that u by simp
    ultimately obtain j where "j < n" "s_pcs s ! j = Registering"
      using D(8) [of t] by blast
    moreover from this(2) not_i have "j \<noteq> i"
      by blast
    ultimately show "\<exists>j < n. s_pcs (goto_pc i p u) ! j = Registering"
      using u by auto
  qed
qed

lemma single_step_inv:
  assumes inv: "single_inv n s" and i: "i < n" and step: "instance_step i ok (s_pcs s ! i) s = Some s'"
  shows "single_inv n s'"
proof -
  note D = single_invD [OF inv]
  note goto = single_inv_goto [OF inv i] and lock_i = D(2) [OF i]
  show ?thesis
  proof (cases "s_pcs s ! i")
    case Outside
    then have s': "s' = goto_pc i (if s_t s = None then Locking else Returning) (s)"
      using step by (simp add: spin_release_def)
    show ?thesis
      unfolding s' by (rule goto) (use Outside lock_i in \<open>auto split: if_splits option.splits\<close>)
  next
    case Locking
    then have s': "s' = goto_pc i Testing (s\<lparr>s_lock := Some i\<rparr>)" and free: "s_lock s = None"
      using step by (auto simp: spin_acquire_def split: if_splits)
    show ?thesis
      unfolding s' by (rule goto) (use Locking lock_i free in auto)
  next
    case Testing
    then have s': "s' = goto_pc i (if s_t s = None then Creating else Unlocking) (s)"
      using step by (simp add: spin_release_def)
    show ?thesis
      unfolding s' by (rule goto) (use Testing lock_i in \<open>auto split: if_splits option.splits\<close>)
  next
    case Creating
    then have none: "s_t s = None" "s_made s = []" and own: "s_lock s = Some i"
      using D(3) [OF i] D(6) lock_i by simp_all
    show ?thesis
    proof (cases ok)
      case False
      then have s': "s' = goto_pc i Registering s"
        using step Creating by simp
      show ?thesis
        unfolding s' by (rule goto) (use Creating lock_i in auto)
    next
      case True
      then have s': "s' = goto_pc i Registering (s\<lparr>s_t := Some 0, s_made := [0], s_alive := [0]\<rparr>)"
        using step Creating none D(5) by simp
      show ?thesis
        unfolding s'
      proof (rule single_invI, goal_cases)
        case (2 j)
        then show ?case
          using D(1) D(2) [of j] own i by (cases "j = i") auto
      next
        case (4 j)
        then show ?case
          using D(1) D(2) [of j] own i by (cases "j = i") auto
      next
        case (5 j t)
        then show ?case
          using D(1) D(4) [of j t] none i by (cases "j = i") auto
      qed (use D(1) own i in auto)
    qed
  next
    case Registering
    then have s': "s' = goto_pc i (Unlocking) (s\<lparr>s_atexit := Suc (s_atexit s)\<rparr>)"
      using step by (simp add: spin_release_def)
    show ?thesis
      unfolding s' by (rule goto) (use Registering lock_i in \<open>auto split: if_splits option.splits\<close>)
  next
    case Unlocking
    then have s': "s' = goto_pc i (Returning) (s\<lparr>s_lock := None\<rparr>)"
      using step by (simp add: spin_release_def)
    show ?thesis
      unfolding s' by (rule goto) (use Unlocking lock_i in \<open>auto split: if_splits option.splits\<close>)
  next
    case Returning
    then have s': "s' = goto_pc i (case s_t s of None \<Rightarrow> Crashed | Some t \<Rightarrow> Got t) (s)"
      using step by (simp add: spin_release_def)
    show ?thesis
      unfolding s' by (rule goto) (use Returning lock_i in \<open>auto split: if_splits option.splits\<close>)
  next
    case (Got t)
    then have s': "s' = goto_pc i Outside s"
      using step by simp
    show ?thesis
      unfolding s' by (rule goto) (use Got lock_i in auto)
  next
    case Crashed
    then show ?thesis
      using step by simp
  qed
qed

lemma single_runs_inv:
  assumes "single_runs n s"
  shows "single_inv n s"
  using assms
proof induction
  case single_new
  show ?case
    by (simp add: single_inv_def new_single_def)
next
  case (single_goes s i ok s')
  then show ?case
    by (blast intro: single_step_inv)
qed

lemma destroy_null: "s_t s = None \<Longrightarrow> (destroy_single ^^ k) s = s"
  by (induction k) (simp_all add: destroy_single_def)

lemma at_exit_alive:
  assumes "s_t s = Some t" and "s_alive s = [t]" and "0 < s_atexit s"
  shows "s_alive (at_exit s) = []"
proof -
  obtain k where k: "s_atexit s = Suc k"
    using assms(3) gr0_implies_Suc by blast
  have "s_t (destroy_single s) = None" "s_alive (destroy_single s) = []"
    using assms by (simp_all add: destroy_single_def)
  then show ?thesis
    unfolding at_exit_def k funpow_Suc_right o_apply by (simp add: destroy_null)
qed


text \<open>Two threads: the second finds the pointer null before the first has locked.\<close>

definition two_threads :: CSingleton where
  "two_threads = \<lparr>s_t = Some 0, s_lock = None, s_made = [0], s_alive = [0], s_atexit = 1, s_pcs = [Got 0, Got 0]\<rparr>"

fun single_exec :: "nat list \<Rightarrow> CSingleton \<Rightarrow> CSingleton option" where
  "single_exec [] s = Some s"
| "single_exec (i # is) s =
     (if i < length (s_pcs s) then Option.bind (instance_step i True (s_pcs s ! i) s) (single_exec is) else None)"

lemma single_exec_runs: "single_exec is s = Some s' \<Longrightarrow> single_runs n s \<Longrightarrow> single_runs n s'"
proof (induction "is" arbitrary: s)
  case (Cons i "is")
  have "length (s_pcs s) = n"
    using single_invD(1) [OF single_runs_inv [OF Cons.prems(2)]] .
  with Cons show ?case
    by (auto split: if_splits bind_splits intro: single_goes)
qed simp

lemma two_threads_run: "single_runs 2 two_threads"
proof -
  have "single_exec [0, 1, 0, 0, 0, 0, 0, 1, 0, 1, 1, 1] (new_single 2) = Some two_threads"
    by (simp add: new_single_def two_threads_def goto_pc_def spin_acquire_def spin_release_def numeral_2_eq_2)
  then show ?thesis
    using single_exec_runs single_new by blast
qed


text \<open>Without memory the caller gets the reference of a null pointer.\<close>

lemma singleton_no_memory:
  "Option.bind (instance_step 0 False Creating (new_single 1)) (\<lambda>s.
   Option.bind (instance_step 0 True Registering s) (\<lambda>s.
   Option.bind (instance_step 0 True Unlocking s) (instance_step 0 True Returning))) =
     Some ((new_single 1)\<lparr>s_atexit := 1, s_pcs := [Crashed]\<rparr>)"
  by (simp add: new_single_def goto_pc_def spin_release_def)

end
