(* ===== verification/DraftEngine.thy ===== *)
theory DraftEngine
  imports Epoll
begin

text \<open>
  The earlier engine of \<open>smart_pbx/tmp/sn_engine.cpp\<close>, the draft of the one in \<open>Engine\<close>. It is in no
  build file, and the tasks, the threads and the assertion it was written for are not in the
  repository: their calls are a parameter, with a code as answer.
\<close>

section \<open>State\<close>

datatype draft_kind = Draft_input | Draft_output | Draft_misc

text \<open>What an object asks for, and the tasks it remembers.\<close>

record draft_obj =
  misc_evts :: u32
  output_evts :: u32
  input_evts :: u32
  output_task_id :: int
  input_task_id :: int

record ('t, 'h) draft_code =
  dc_new_task :: "draft_kind \<Rightarrow> nat \<Rightarrow> 't option"
  dc_init :: "draft_kind \<Rightarrow> int \<Rightarrow> int \<Rightarrow> nat \<Rightarrow> 't \<Rightarrow> int \<times> 't"
  dc_new_thread :: "draft_kind \<Rightarrow> nat \<Rightarrow> 'h option"
  dc_thread_init :: "'h \<Rightarrow> int \<times> 'h"
  dc_assign_task :: "'t \<Rightarrow> 'h \<Rightarrow> int \<times> 'h"
  dc_thread_start :: "'h \<Rightarrow> int \<times> 'h"
  dc_stop_wait :: "'h \<Rightarrow> 'h"
  dc_destroy :: "'t \<Rightarrow> 't"
  dc_ioobj_cnt :: "'t \<Rightarrow> int"
  dc_add :: "draft_obj \<Rightarrow> 't \<Rightarrow> int \<times> 't"
  dc_del :: "draft_obj \<Rightarrow> 't \<Rightarrow> int \<times> 't"
  dc_assert :: "bool \<Rightarrow> unit res"

text \<open>The last two are the threads and tasks \<open>stop\<close> has dealt with.\<close>

record ('t, 'h) draft_engine =
  m_vecthreads :: "'h list"
  m_vecinputtasks :: "'t list"
  m_vecoutputtasks :: "'t list"
  m_pmisctasks :: "'t option"
  stopped_threads :: "'h list"
  destroyed_tasks :: "'t list"

definition new_draft :: "('t, 'h) draft_engine" where
  "new_draft = \<lparr>m_vecthreads = [], m_vecinputtasks = [], m_vecoutputtasks = [], m_pmisctasks = None,
     stopped_threads = [], destroyed_tasks = []\<rparr>"

section \<open>Starting and stopping\<close>

text \<open>One round of a loop: a task, its thread, and the code that ends the loop when it is not zero.\<close>

definition draft_round :: "('t, 'h) draft_code \<Rightarrow> draft_kind \<Rightarrow> int \<Rightarrow> int \<Rightarrow> nat \<Rightarrow> int \<times> ('t \<times> 'h) option" where
  "draft_round C kind notifier timeout i =
     (case dc_new_task C kind i of
        None \<Rightarrow> (CMNERR_COMMON_ERR, None)
      | Some ptask \<Rightarrow>
          let (i32ret, ptask) = dc_init C kind notifier timeout i ptask in
          if CMNERR_SUC \<noteq> i32ret then (i32ret, None)
          else case dc_new_thread C kind i of
            None \<Rightarrow> (CMNERR_COMMON_ERR, None)
          | Some pthread \<Rightarrow>
              let (i32ret, pthread) = dc_thread_init C pthread in
              if CMNERR_SUC \<noteq> i32ret then (i32ret, None)
              else let (i32ret, pthread) = dc_assign_task C ptask pthread in
              if CMNERR_SUC \<noteq> i32ret then (i32ret, None)
              else let (i32ret, pthread) = dc_thread_start C pthread in
              if CMNERR_SUC \<noteq> i32ret then (i32ret, None) else (CMNERR_SUC, Some (ptask, pthread)))"

definition draft_push :: "draft_kind \<Rightarrow> 't \<times> 'h \<Rightarrow> ('t, 'h) draft_engine \<Rightarrow> ('t, 'h) draft_engine" where
  "draft_push kind th e =
     (case kind of
        Draft_input \<Rightarrow> e\<lparr>m_vecinputtasks := m_vecinputtasks e @ [fst th], m_vecthreads := m_vecthreads e @ [snd th]\<rparr>
      | Draft_output \<Rightarrow> e\<lparr>m_vecoutputtasks := m_vecoutputtasks e @ [fst th], m_vecthreads := m_vecthreads e @ [snd th]\<rparr>
      | Draft_misc \<Rightarrow> e)"

fun draft_loop ::
  "('t, 'h) draft_code \<Rightarrow> draft_kind \<Rightarrow> int \<Rightarrow> int \<Rightarrow> nat list \<Rightarrow> ('t, 'h) draft_engine \<Rightarrow> int \<times> ('t, 'h) draft_engine" where
  "draft_loop C kind notifier timeout [] e = (CMNERR_SUC, e)"
| "draft_loop C kind notifier timeout (i # is) e =
     (case draft_round C kind notifier timeout i of
        (i32ret, Some th) \<Rightarrow> draft_loop C kind notifier timeout is (draft_push kind th e)
      | (i32ret, None) \<Rightarrow> (i32ret, e))"

definition draft_stop :: "('t, 'h) draft_code \<Rightarrow> ('t, 'h) draft_engine \<Rightarrow> int \<times> ('t, 'h) draft_engine" where
  "draft_stop C e =
     (CMNERR_SUC,
      e\<lparr>m_vecthreads := [], m_vecinputtasks := [], m_vecoutputtasks := [], m_pmisctasks := None,
        stopped_threads := stopped_threads e @ map (dc_stop_wait C) (m_vecthreads e),
        destroyed_tasks := destroyed_tasks e @
          map (dc_destroy C) ((case m_pmisctasks e of None \<Rightarrow> [] | Some k \<Rightarrow> [k]) @ m_vecinputtasks e @ m_vecoutputtasks e)\<rparr>)"

definition draft_start ::
  "('t, 'h) draft_code \<Rightarrow> u32 \<Rightarrow> u32 \<Rightarrow> bool \<Rightarrow> int \<Rightarrow> int \<Rightarrow> ('t, 'h) draft_engine \<Rightarrow> int \<times> ('t, 'h) draft_engine" where
  "draft_start C inputs outputs bmiscthread notifier timeout e =
     (if 0 = inputs \<or> 0 = outputs then (CMNERR_COMMON_ERR, e)
      else if EIEN_NONE \<ge> notifier \<or> EIEN_ALL \<le> notifier then (CMNERR_COMMON_ERR, e)
      else let (i32ret, e) = draft_loop C Draft_input notifier timeout [0 ..< unat inputs] e in
      if CMNERR_SUC \<noteq> i32ret then (CMNERR_COMMON_ERR, snd (draft_stop C e))
      else let (i32ret, e) = draft_loop C Draft_output notifier timeout [0 ..< unat outputs] e in
      if CMNERR_SUC \<noteq> i32ret then (CMNERR_COMMON_ERR, snd (draft_stop C e))
      else if bmiscthread
      then let (i32ret, e) = draft_loop C Draft_misc notifier timeout [0] e in
           if CMNERR_SUC \<noteq> i32ret then (CMNERR_COMMON_ERR, snd (draft_stop C e)) else (i32ret, e)
      else (i32ret, e))"

section \<open>Objects\<close>

fun draft_pick :: "('t, 'h) draft_code \<Rightarrow> nat \<Rightarrow> 't list \<Rightarrow> nat \<times> int \<Rightarrow> nat \<times> int" where
  "draft_pick C i [] best = best"
| "draft_pick C i (k # ks) best =
     draft_pick C (Suc i) ks (if dc_ioobj_cnt C k < snd best then (i, dc_ioobj_cnt C k) else best)"

text \<open>
  One part of the two calls: the task is called, a negative code is returned at once. \<open>Inl\<close> in the
  inner sum is the return.
\<close>

definition draft_misc_call ::
  "('t, 'h) draft_code \<Rightarrow> (draft_obj \<Rightarrow> 't \<Rightarrow> int \<times> 't) \<Rightarrow> draft_obj \<Rightarrow> ('t, 'h) draft_engine \<Rightarrow>
     (int \<times> ('t, 'h) draft_engine) res" where
  "draft_misc_call C f ob e =
     (if misc_evts ob = 0 then Inr (CMNERR_SUC, e)
      else bindr (dc_assert C (m_pmisctasks e \<noteq> None)) (\<lambda>_.
        case m_pmisctasks e of
          None \<Rightarrow> Inr (CMNERR_COMMON_ERR, e)
        | Some k \<Rightarrow> let (i32ret, k) = f ob k in Inr (i32ret, e\<lparr>m_pmisctasks := Some k\<rparr>)))"

definition draft_output_call ::
  "(draft_obj \<Rightarrow> 't \<Rightarrow> int \<times> 't) \<Rightarrow> nat \<Rightarrow> draft_obj \<Rightarrow> ('t, 'h) draft_engine \<Rightarrow> (int \<times> ('t, 'h) draft_engine) res" where
  "draft_output_call f idx ob e =
     bindr (vec_get (m_vecoutputtasks e) idx) (\<lambda>k.
     let (i32ret, k) = f ob k in Inr (i32ret, e\<lparr>m_vecoutputtasks := (m_vecoutputtasks e)[idx := k]\<rparr>))"

definition draft_input_call ::
  "(draft_obj \<Rightarrow> 't \<Rightarrow> int \<times> 't) \<Rightarrow> nat \<Rightarrow> draft_obj \<Rightarrow> ('t, 'h) draft_engine \<Rightarrow> (int \<times> ('t, 'h) draft_engine) res" where
  "draft_input_call f idx ob e =
     bindr (vec_get (m_vecinputtasks e) idx) (\<lambda>k.
     let (i32ret, k) = f ob k in Inr (i32ret, e\<lparr>m_vecinputtasks := (m_vecinputtasks e)[idx := k]\<rparr>))"

definition draft_add_io_obj ::
  "('t, 'h) draft_code \<Rightarrow> draft_obj \<Rightarrow> ('t, 'h) draft_engine \<Rightarrow> (int \<times> draft_obj \<times> ('t, 'h) draft_engine) res" where
  "draft_add_io_obj C ob e =
     bindr (draft_misc_call C (dc_add C) ob e) (\<lambda>(i32ret, e).
     if CMNERR_SUC > i32ret then Inr (i32ret, ob, e)
     else bindr (if output_evts ob = 0 then Inr (CMNERR_SUC, ob, e)
       else let i = fst (draft_pick C 0 (m_vecoutputtasks e) (0, 0)); ob = ob\<lparr>output_task_id := int i\<rparr> in
            bindr (draft_output_call (dc_add C) i ob e) (\<lambda>(i32ret, e). Inr (i32ret, ob, e))) (\<lambda>(i32ret, ob, e).
     if CMNERR_SUC > i32ret then Inr (i32ret, ob, e)
     else bindr (if input_evts ob = 0 then Inr (CMNERR_SUC, ob, e)
       else let i = fst (draft_pick C 0 (m_vecinputtasks e) (0, 0)); ob = ob\<lparr>input_task_id := int i\<rparr> in
            bindr (draft_input_call (dc_add C) i ob e) (\<lambda>(i32ret, e). Inr (i32ret, ob, e))) (\<lambda>(i32ret, ob, e).
     if CMNERR_SUC > i32ret then Inr (i32ret, ob, e) else Inr (CMNERR_SUC, ob, e))))"

text \<open>A negative number as the index of a vector is outside it.\<close>

definition draft_index :: "int \<Rightarrow> nat res" where
  "draft_index i = (if i < 0 then Inl Out_of_bounds else Inr (nat i))"

definition draft_del_io_obj ::
  "('t, 'h) draft_code \<Rightarrow> draft_obj \<Rightarrow> ('t, 'h) draft_engine \<Rightarrow> (int \<times> ('t, 'h) draft_engine) res" where
  "draft_del_io_obj C ob e =
     bindr (draft_misc_call C (dc_del C) ob e) (\<lambda>(i32ret, e).
     if CMNERR_SUC > i32ret then Inr (i32ret, e)
     else bindr (if input_evts ob = 0 then Inr (CMNERR_SUC, e)
       else bindr (draft_index (input_task_id ob)) (\<lambda>i. draft_input_call (dc_del C) i ob e)) (\<lambda>(i32ret, e).
     if CMNERR_SUC > i32ret then Inr (i32ret, e)
     else bindr (if output_evts ob = 0 then Inr (CMNERR_SUC, e)
       else bindr (draft_index (output_task_id ob)) (\<lambda>i. draft_output_call (dc_del C) i ob e)) (\<lambda>(i32ret, e).
     if CMNERR_SUC > i32ret then Inr (i32ret, e) else Inr (CMNERR_SUC, e))))"

section \<open>What the draft does\<close>

lemma draft_round_code:
  "draft_round C kind notifier timeout i = (code, th) \<Longrightarrow> th = None \<longleftrightarrow> code \<noteq> CMNERR_SUC"
  by (auto simp: draft_round_def split: option.splits prod.splits if_splits)

text \<open>A loop adds a task and a thread for every number, or ends with a code that is not zero.\<close>

definition draft_added :: "draft_kind \<Rightarrow> nat \<Rightarrow> ('t, 'h) draft_engine \<Rightarrow> ('t, 'h) draft_engine \<Rightarrow> bool" where
  "draft_added kind n e e' \<longleftrightarrow>
     length (m_vecthreads e') = length (m_vecthreads e) + (if kind = Draft_misc then 0 else n) \<and>
     length (m_vecinputtasks e') = length (m_vecinputtasks e) + (if kind = Draft_input then n else 0) \<and>
     length (m_vecoutputtasks e') = length (m_vecoutputtasks e) + (if kind = Draft_output then n else 0)"

lemma draft_push_added: "draft_added kind n (draft_push kind th e) e' \<Longrightarrow> draft_added kind (Suc n) e e'"
  by (cases kind) (simp_all add: draft_added_def draft_push_def)

lemma draft_loop_added:
  assumes "draft_loop C kind notifier timeout is e = (code, e')" and "code = CMNERR_SUC"
  shows "draft_added kind (length is) e e'"
  using assms(1)
proof (induction "is" arbitrary: e)
  case Nil
  then show ?case
    by (simp add: draft_added_def)
next
  case (Cons i "is")
  obtain r th where r: "draft_round C kind notifier timeout i = (r, th)"
    by fastforce
  then have "th \<noteq> None"
    using draft_round_code [OF r] Cons.prems assms(2) by (cases th) auto
  then obtain x where "th = Some x"
    by blast
  then have "draft_loop C kind notifier timeout is (draft_push kind x e) = (code, e')"
    using Cons.prems r by simp
  from draft_push_added [OF Cons.IH [OF this]] show ?case
    by simp
qed

lemma draft_loop_misc:
  assumes "draft_loop C kind notifier timeout is e = (code, e')"
  shows "m_pmisctasks e' = m_pmisctasks e"
  using assms
proof (induction "is" arbitrary: e)
  case (Cons i "is")
  obtain r th where r: "draft_round C kind notifier timeout i = (r, th)"
    by fastforce
  have "m_pmisctasks (draft_push kind x e) = m_pmisctasks e" for x
    by (cases kind) (simp_all add: draft_push_def)
  then show ?case
    using Cons r by (cases th) auto
qed simp

text \<open>
  A started engine has its tasks and one thread for each of them. The timer task is made and runs,
  but neither it nor its thread is remembered: an object with timer events is refused, and \<open>stop\<close>
  does not reach the thread. A start that fails leaves an empty engine.
\<close>

lemma draft_start_result:
  assumes "draft_start C inputs outputs misc notifier timeout new_draft = (code, e)"
  shows "m_pmisctasks e = None"
    and "code = CMNERR_SUC \<Longrightarrow> length (m_vecinputtasks e) = unat inputs \<and> length (m_vecoutputtasks e) = unat outputs \<and>
      length (m_vecthreads e) = unat inputs + unat outputs"
    and "code \<noteq> CMNERR_SUC \<Longrightarrow> m_vecinputtasks e = [] \<and> m_vecoutputtasks e = [] \<and> m_vecthreads e = []"
proof -
  obtain r1 e1 where l1: "draft_loop C Draft_input notifier timeout [0 ..< unat inputs] new_draft = (r1, e1)"
    by fastforce
  obtain r2 e2 where l2: "draft_loop C Draft_output notifier timeout [0 ..< unat outputs] e1 = (r2, e2)"
    by fastforce
  obtain r3 e3 where l3: "draft_loop C Draft_misc notifier timeout [0] e2 = (r3, e3)"
    by fastforce
  have misc_none: "m_pmisctasks e1 = None" "m_pmisctasks e2 = None" "m_pmisctasks e3 = None"
    using draft_loop_misc [OF l1] draft_loop_misc [OF l2] draft_loop_misc [OF l3] by (simp_all add: new_draft_def)
  note start = assms [unfolded draft_start_def l1 l2 l3 Let_def prod.case]
  show "m_pmisctasks e = None"
    using start misc_none by (auto simp: draft_stop_def new_draft_def split: if_splits)
  show "length (m_vecinputtasks e) = unat inputs \<and> length (m_vecoutputtasks e) = unat outputs \<and>
      length (m_vecthreads e) = unat inputs + unat outputs" if "code = CMNERR_SUC"
  proof -
    have ok: "r1 = CMNERR_SUC" "r2 = CMNERR_SUC" "e = (if misc then e3 else e2)" "misc \<longrightarrow> r3 = CMNERR_SUC"
      using start that by (auto split: if_splits)
    have "draft_added Draft_misc 1 e2 e3" if misc
      using draft_loop_added [OF l3] ok(4) that by simp
    then show ?thesis
      using draft_loop_added [OF l1 ok(1)] draft_loop_added [OF l2 ok(2)] ok(3)
      by (auto simp: draft_added_def new_draft_def)
  qed
  show "m_vecinputtasks e = [] \<and> m_vecoutputtasks e = [] \<and> m_vecthreads e = []" if "code \<noteq> CMNERR_SUC"
    using start that by (auto simp: draft_stop_def new_draft_def split: if_splits)
qed

lemma draft_misc_refused:
  assumes "m_pmisctasks e = None" and "misc_evts ob \<noteq> 0" and "draft_add_io_obj C ob e = Inr (code, ob', e')"
  shows "code = CMNERR_COMMON_ERR" and "e' = e"
  using assms by (auto simp: draft_add_io_obj_def draft_misc_call_def elim!: bindr_InrE)

text \<open>
  The search for the task with the fewest objects begins with zero, which no count is below: the
  first task gets every object, whatever it already has.
\<close>

lemma draft_pick_first:
  assumes "\<forall>k \<in> set ks. 0 \<le> dc_ioobj_cnt C k"
  shows "draft_pick C i ks (0, 0) = (0, 0)"
  using assms by (induction ks arbitrary: i) auto

lemma draft_first_task:
  assumes "\<forall>k \<in> set (m_vecinputtasks e @ m_vecoutputtasks e). 0 \<le> dc_ioobj_cnt C k" and "misc_evts ob = 0"
    and "draft_add_io_obj C ob e = Inr (code, ob', e')" and "0 < j"
  shows "m_vecinputtasks e' ! j = m_vecinputtasks e ! j" and "m_vecoutputtasks e' ! j = m_vecoutputtasks e ! j"
proof -
  have pick: "fst (draft_pick C 0 (m_vecinputtasks e) (0, 0)) = 0" "fst (draft_pick C 0 (m_vecoutputtasks e) (0, 0)) = 0"
    using assms(1) draft_pick_first [of "m_vecinputtasks e" C 0] draft_pick_first [of "m_vecoutputtasks e" C 0] by simp_all
  have "m_vecinputtasks e' ! j = m_vecinputtasks e ! j \<and> m_vecoutputtasks e' ! j = m_vecoutputtasks e ! j"
    using assms(2-4) pick
    by (auto simp: draft_add_io_obj_def draft_misc_call_def draft_output_call_def draft_input_call_def Let_def
      elim!: bindr_InrE split: if_splits prod.splits)
  then show "m_vecinputtasks e' ! j = m_vecinputtasks e ! j" and "m_vecoutputtasks e' ! j = m_vecoutputtasks e ! j"
    by simp_all
qed

section \<open>The order of the listener's map\<close>

text \<open>
  \<open>SLessForAddr\<close> of \<open>sn_listener_impl.h\<close>, on addresses and ports in host byte order, by which the
  draft of the listener wants to keep its endpoints in a map.
\<close>

definition SLessForAddr :: "u32 \<times> u16 \<Rightarrow> u32 \<times> u16 \<Rightarrow> bool" where
  "SLessForAddr x y = (if fst x < fst y then True else snd x < snd y)"

text \<open>It is no order: two addresses can each be below the other.\<close>

lemma less_for_addr_symmetric:
  "ip1 < ip2 \<Longrightarrow> port2 < port1 \<Longrightarrow> SLessForAddr (ip1, port1) (ip2, port2) \<and> SLessForAddr (ip2, port2) (ip1, port1)"
  by (simp add: SLessForAddr_def)

end
