(* ===== verification/Spec2Isabelle.thy ===== *)
theory Spec2Isabelle
  imports ErrInfo EngineRuns EngineTimers RupAcceptor SmartPtr RingBuf HostInfo RWLock NetAddr RupStream Delegate Singleton DraftEngine
begin

text \<open>
  \<^bold>\<open>smart_net\<close> is a network library in C++: \<open>libcomm_utils\<close> (memory blocks, smart pointers, state
  machines, threads, logs), \<open>libcomm_net\<close> (the stream socket and the reliable multicast socket)
  and \<open>libsmart_net\<close> (the engine with its tasks and notifiers, the endpoints, the packages of an
  application). This library models what these three do by themselves; the kernel, the clock and
  the application are arguments.

  \<^bold>\<open>How the code is modelled.\<close> A class is a record of its members under their names, a method a
  function that returns the changed record, machine integers are words of their width. A call
  that ends the process (\<open>CMN_ASSERT\<close>, active in every build), that reads through a null pointer
  or outside an array is a value of \<open>halt\<close>, so \<open>Inl\<close> of \<open>'a res\<close>; an error code is an ordinary
  \<open>int\<close>. What a system call answers is an argument, for a loop over calls a list of answers: a
  run that needs more answers than the list holds ends with \<open>Awaiting_os\<close>. There is no other fuel:
  the loops are structural recursions over the answers, or terminate by a measure (the length of
  a block, the distance to the end of a window, the number of counted objects). The threads of
  the engine appear as steps that may follow one another in any order, each of them one round of
  a task or one call of an application, which is what the locks of the code make of them.

  \<^bold>\<open>The theories.\<close>
  \<^item> \<open>Prelude\<close>: words, \<open>halt\<close> and its sequencing, loops, byte arrays, the system's answers.
  \<^item> \<open>ErrInfo\<close> (\<open>common/err_info\<close>): the codes and the table of texts.
  \<^item> \<open>SmartPtr\<close> (\<open>utils/smart_ptr.h\<close>, \<open>common/base.h\<close>, \<open>utils/atomic.h\<close>): a heap of counted objects,
    with the destructors that follow one another when a count reaches zero.
  \<^item> \<open>MemBlock\<close> (\<open>memory/mem.h\<close>): blocks of bytes, and as the contract \<open>byte_queue\<close> the queue they
    are to a stream; \<open>RingBuf\<close> (\<open>memory/smart_rb.h\<close>): the ring buffer and a bounded queue.
  \<^item> \<open>StateMachine\<close> (\<open>utils/state_machine\<close>): the table of transitions. The contract \<open>state_machine\<close>
    says once what an invariant needs to hold over every sequence of posted events; it is
    interpreted on the acceptor, the connector, both endpoints and the engine.
  \<^item> \<open>RWLock\<close> (\<open>utils/rw_lock.h\<close>): many readers or one writer, for threads that interleave.
  \<^item> \<open>Files\<close> (\<open>utils/file.cpp\<close>, \<open>utils/utils.cpp\<close>), \<open>SmartLog\<close> (\<open>log/smart_log\<close>), \<open>SysUtils\<close>: files and
    directories, log files that are replaced after an interval, blocking mode.
  \<^item> \<open>NetAddr\<close> (\<open>sn_net_addr\<close>): addresses and ports in the order of the network.
  \<^item> \<open>RupSock\<close> (\<open>sn_socket_impl\<close>, \<open>CRupSock\<close>): the stream socket with its two queues.
  \<^item> \<open>RmpWire\<close>, \<open>RmpSock\<close>, \<open>RmpReceiver\<close>, \<open>RmpSender\<close>, \<open>RmpProto\<close> (\<open>sn_socket_impl\<close>, \<open>CRmpSock\<close>): the
    packages byte by byte, the socket, its receiving and its sending side, and a sender and a
    receiver with a network between them that loses, repeats and reorders. \<open>RmpFrame\<close>: what their
    work leaves alone.
  \<^item> \<open>Pkg\<close> (\<open>pkg.h\<close>, \<open>archive.h\<close>, \<open>dispatcher.h\<close>): the application's packages.
  \<^item> \<open>IdlePool\<close>, \<open>RupEndpoint\<close>, \<open>RupAcceptor\<close>, \<open>RupConnector\<close>, \<open>RmpEndpoint\<close> (\<open>sn_endpoint_impl\<close>): the
    endpoints, each with its machine, its handlers and the calls it makes to the engine
    (\<open>ep_call\<close>). The contract \<open>connectable\<close> is what the queue of idle endpoints asks of them.
  \<^item> \<open>IoObj\<close>, \<open>Caches\<close>, \<open>Epoll\<close>, \<open>Timer\<close>, \<open>IoTask\<close>, \<open>Engine\<close> (\<open>framework/\<close>): the objects of the
    framework, its two notifiers with the caches of what joins and leaves, the tasks and threads,
    the engine. The contracts \<open>io_client\<close> and \<open>timer_client\<close> are what a notifier asks of the world
    its objects live in: they answer at once or later, and ask again meanwhile.
  \<^item> \<open>EngineNet\<close> and \<open>EngineRuns\<close>: the engine and its multicast endpoints in one world, where the
    requests of the handlers are performed and the notifiers call the handlers back; the
    interpretation of \<open>io_client\<close>, for every task of the engine. \<open>EngineTimers\<close>: the same for the
    timers and the connectors, with \<open>timer_client\<close>.
  \<^item> \<open>RupStream\<close>: a stream connection from end to end, as \<open>rup_endpoint_tester.cpp\<close> uses it: the
    sending socket, the receiving endpoint and the dispatcher of its packages.
  \<^item> \<open>Delegate\<close> (\<open>delegate/\<close>): delegates with the heap their objects live in: bind, copy, assign,
    compare, call, destroy. \<open>Singleton\<close> (\<open>utils/singleton.h\<close>, \<open>utils/smart_lock.h\<close>): threads that
    ask for the first instance. \<open>HostInfo\<close> (\<open>utils/utils.cpp\<close>, \<open>utils/time_info.cpp\<close>): processors,
    the path of the program, error texts, clocks.
  \<^item> \<open>DraftEngine\<close> (\<open>smart_pbx/tmp/sn_engine.cpp\<close>): the earlier version of the engine.

  \<^bold>\<open>What is shown.\<close>
  \<^item> The multicast protocol: what the receiver's application gets is a prefix of what the sender's
    was given, in order and once, whatever the network does; the sender's window holds what can be
    asked for; the receiver is never stuck; the sockets the endpoints make start it correctly.
  \<^item> The stream socket: the bytes on the wire and those kept are those submitted, in order, and the
    two orders of calls for which that fails.
  \<^item> Packages: what is archived is dispatched, however the stream is cut, and a wrong length hangs.
  \<^item> Endpoints, alone, in groups and with the engine: the state says exactly which tasks, timers,
    sockets and queues hold the object, over every sequence of events; the notifiers' sets and
    caches agree with it, and an endpoint that was opened gets into its tasks.
  \<^item> The engine starts what it was asked for, balances its tasks and cannot be stopped; timers keep
    their period.
  \<^item> The parts below: a counted object lives as long as a pointer to it; operations on blocks keep
    them well formed; the ring buffer is a bounded queue; a log keeps its descriptors
    apart; the lock for readers and writers excludes and does not get stuck; a delegate behaves as
    the value it was bound to and frees what it owns once; a singleton is made once.
  \<^item> Components together: what one application pushes into a stream connection is what the handlers
    of the other one are called with, package by package, however the kernel cuts the stream.
  \<^item> Where the code fails what it means to do, the failing run is a theorem as well: an endpoint the
    kernel refuses, the pending event of a life before, two logs that begin a file in one second,
    long log lines, an assertion that is off by one at the edge of the window.

  Lemmas named \<open>_inv\<close>, \<open>_ok\<close> and \<open>_wf\<close> say that an operation keeps an invariant and does not fail;
  \<open>_runs\<close> that it returns; \<open>_witness\<close> that the hypotheses of the theorem before can be met.

  \<^bold>\<open>Bounds.\<close> The counters of the multicast protocol are 64 bits wide and are assumed not to reach
  their end; smart pointers to one object are fewer than two to the 31; the size of a ring buffer
  fits 32 bits. Each theorem states its bound as a hypothesis.

  \<^bold>\<open>Not modelled.\<close> Memory that cannot be allocated; two threads inside a section the code locks;
  the interleaving of single memory accesses. The mutex (a call of the system each) and
  \<open>CObjFactory\<close>; of the delegates, what differs with a compiler's calling convention. Of the earlier
  versions, \<open>smart_net/sock.h\<close>, \<open>smart_net/mem.h\<close> and the listeners under \<open>smart_pbx/tmp\<close> are
  declarations against headers the repository does not hold. The test programs and the files CMake
  wrote hold no logic of the library.
\<close>

end
